(* ===== verification/UniPrelude.thy ===== *)
theory UniPrelude
  imports Main "HOL-Library.Word" "HOL-Library.Char_ord" "HOL-Library.List_Lexorder"
begin

text \<open>
  What every component shares: the result type that carries a thrown
  \<open>UniversalException\<close> (the macros of \<open>src/src/assert/assert.h\<close>) or undefined behaviour, a fold
  that stops at the first error, the counting loop \<open>for (i = a; i < b; i++)\<close> over machine
  words, \<open>std::unordered_map\<close> as an association list, and lemma collections.
\<close>

section \<open>Lemma collections\<close>

named_theorems result_simps \<open>equations of the result type\<close>
named_theorems inv_intros \<open>preservation of the components' invariants\<close>

section \<open>Results\<close>

text \<open>
  \<open>UNIVERSAL_ASSERT_MESSAGE\<close> and \<open>UNIVERSAL_TERMINATE\<close> throw a \<open>UniversalException\<close>; no code of
  the servers catches it, so an error value ends the run. Where C++ leaves the behaviour
  undefined (\<open>front()\<close> of an empty container, an index out of range) the model says so.
\<close>

datatype uni_error =
    UniversalException string
  | UndefinedBehaviour

type_synonym 'a result = "uni_error + 'a"

definition rbind :: "'a result \<Rightarrow> ('a \<Rightarrow> 'b result) \<Rightarrow> 'b result" where
  "rbind r f = (case r of Inl e \<Rightarrow> Inl e | Inr x \<Rightarrow> f x)"

definition universal_assert :: "bool \<Rightarrow> string \<Rightarrow> unit result" where
  "universal_assert c msg = (if c then Inr () else Inl (UniversalException msg))"

definition is_ok :: "'a result \<Rightarrow> bool" where
  "is_ok r = (case r of Inl _ \<Rightarrow> False | Inr _ \<Rightarrow> True)"

lemma rbind_Inr [simp, result_simps]: "rbind (Inr x) f = f x"
  by (simp add: rbind_def)

lemma rbind_Inl [simp, result_simps]: "rbind (Inl e) f = Inl e"
  by (simp add: rbind_def)

lemma checked_eq_Inr [simp]: "(if b then Inr x else Inl e) = Inr y \<longleftrightarrow> b \<and> x = y"
  by simp

lemma rbind_eq_Inr [result_simps]:
  "rbind r f = Inr y \<longleftrightarrow> (\<exists>x. r = Inr x \<and> f x = Inr y)"
  by (cases r) auto

lemma rbind_eq_Inl:
  "rbind r f = Inl e \<longleftrightarrow> r = Inl e \<or> (\<exists>x. r = Inr x \<and> f x = Inl e)"
  by (cases r) auto

lemma rbind_assoc: "rbind (rbind r f) g = rbind r (\<lambda>x. rbind (f x) g)"
  by (cases r) auto

lemma universal_assert_Inr [simp, result_simps]: "universal_assert c msg = Inr u \<longleftrightarrow> c"
  by (simp add: universal_assert_def)

lemma universal_assert_True [simp]: "universal_assert True msg = Inr ()"
  by (simp add: universal_assert_def)

lemma universal_assert_False [simp]:
  "universal_assert False msg = Inl (UniversalException msg)"
  by (simp add: universal_assert_def)

lemma is_ok_simps [simp]: "is_ok (Inr x)" "\<not> is_ok (Inl e)"
  by (simp_all add: is_ok_def)

lemma is_ok_iff: "is_ok r \<longleftrightarrow> (\<exists>x. r = Inr x)"
  by (cases r) auto

text \<open>A \<open>for\<close> loop over a sequence whose body updates the state and may throw.\<close>

fun rfold :: "('a \<Rightarrow> 's \<Rightarrow> 's result) \<Rightarrow> 'a list \<Rightarrow> 's \<Rightarrow> 's result" where
  "rfold f [] s = Inr s"
| "rfold f (x # xs) s = rbind (f x s) (rfold f xs)"

lemma rfold_append: "rfold f (xs @ ys) s = rbind (rfold f xs s) (rfold f ys)"
proof (induction xs arbitrary: s)
  case (Cons x xs)
  then show ?case by (cases "f x s") simp_all
qed simp

lemma rfold_cong:
  "(\<And>x s. x \<in> set xs \<Longrightarrow> f x s = g x s) \<Longrightarrow> rfold f xs s = rfold g xs s"
  by (induction xs arbitrary: s) (auto intro!: arg_cong2 [where f = rbind])

lemma rfold_map: "rfold f (map g xs) s = rfold (\<lambda>x. f (g x)) xs s"
  by (induction xs arbitrary: s) (auto intro!: arg_cong2 [where f = rbind])

lemma rfold_invariant:
  assumes "rfold f xs s = Inr s'" and "P s"
    and "\<And>x s s'. x \<in> set xs \<Longrightarrow> P s \<Longrightarrow> f x s = Inr s' \<Longrightarrow> P s'"
  shows "P s'"
  using assms
  by (induction xs arbitrary: s) (auto simp: rbind_eq_Inr)

section \<open>Counting loops over machine words\<close>

text \<open>The indices that \<open>for (i = a; i < b; i++)\<close> visits.\<close>

lemma unat_bound: "unat (w::'a::len word) < 2 ^ LENGTH('a)"
  by (fact unsigned_less)

lemma unat_succ: "i < (j::'a::len word) \<Longrightarrow> unat (i + 1) = unat i + 1"
proof -
  assume "i < j"
  then have "Suc (unat i) \<le> unat j" by (simp add: word_less_nat_alt)
  then have "Suc (unat i) < 2 ^ LENGTH('a)" by (rule le_less_trans) (rule unat_bound)
  then show ?thesis by (simp add: unat_word_ariths)
qed

function word_upt :: "'a::len word \<Rightarrow> 'a word \<Rightarrow> 'a word list" where
  "word_upt a b = (if a < b then a # word_upt (a + 1) b else [])"
  by pat_completeness auto
termination
proof (relation "measure (\<lambda>(a, b). unat b - unat a)")
  fix a b :: "'a word"
  assume "a < b"
  then have "unat a < unat b"
    by (simp add: word_less_nat_alt)
  moreover have "unat (a + 1) = unat a + 1"
    using \<open>a < b\<close> by (rule unat_succ)
  ultimately show "((a + 1, b), a, b) \<in> measure (\<lambda>(a, b). unat b - unat a)"
    by simp
qed simp

declare word_upt.simps [simp del]

lemma word_less_max_iff: "(i::'a::len word) < - 1 \<longleftrightarrow> i \<noteq> - 1"
  by (simp add: word_order.not_eq_extremum)

lemma min_not_max: "e \<noteq> - 1 \<Longrightarrow> min n e \<noteq> (- 1::'a::len word)"
  using min.cobounded2 [of n e] word_less_max_iff [of e] word_less_max_iff [of "min n e"]
  by (metis order.strict_trans1)

lemma word_succ_less [simp]: "(i::'a::len word) \<noteq> - 1 \<Longrightarrow> i < i + 1"
  using unat_succ [of i "- 1"] word_less_max_iff [of i] by (simp add: word_less_nat_alt)

lemma word_upt_empty [simp]: "\<not> a < b \<Longrightarrow> word_upt a b = []"
  by (simp add: word_upt.simps)

lemma word_upt_Cons: "a < b \<Longrightarrow> word_upt a b = a # word_upt (a + 1) b"
  by (simp add: word_upt.simps)

lemma word_succ_le_iff: "(a::'a::len word) < b \<Longrightarrow> a + 1 \<le> i \<longleftrightarrow> a < i"
  by (simp add: word_le_nat_alt word_less_nat_alt unat_succ Suc_le_eq)

lemma word_less_succ_iff: "(i::'a::len word) \<noteq> - 1 \<Longrightarrow> j < i + 1 \<longleftrightarrow> j \<le> i"
  using unat_succ [of i "- 1"] word_less_max_iff [of i]
  by (simp add: word_le_nat_alt word_less_nat_alt less_Suc_eq_le)

lemma word_le_succ_iff: "(i::'a::len word) \<noteq> - 1 \<Longrightarrow> j \<le> i + 1 \<longleftrightarrow> j \<le> i \<or> j = i + 1"
  using word_less_succ_iff [of i j] by (simp add: order.order_iff_strict [of j "i + 1"])

lemma atLeastAtMost_word_succ:
  "(i::'a::len word) \<noteq> - 1 \<Longrightarrow> s \<le> i \<Longrightarrow> {s..i + 1} = insert (i + 1) {s..i}"
  using word_succ_less [of i] by (auto simp: word_le_succ_iff intro: order.trans less_imp_le)

lemma set_word_upt [simp]: "set (word_upt a b) = {a..<b}"
proof (induction a b rule: word_upt.induct)
  case (1 a b)
  show ?case
  proof (cases "a < b")
    case True
    then have "{a..<b} = insert a {a + 1..<b}"
      by (auto simp: word_succ_le_iff)
    with True 1 show ?thesis by (simp add: word_upt_Cons)
  qed simp
qed

lemma sorted_word_upt [simp]: "sorted_wrt (<) (word_upt a b)"
proof (induction a b rule: word_upt.induct)
  case (1 a b)
  then show ?case
    by (cases "a < b") (auto simp: word_upt_Cons word_succ_le_iff)
qed

lemma word_upt_append:
  "a \<le> b \<Longrightarrow> b \<le> c \<Longrightarrow> word_upt a c = word_upt a b @ word_upt b c"
proof (induction a b rule: word_upt.induct)
  case (1 a b)
  show ?case
  proof (cases "a < b")
    case True
    with 1 show ?thesis
      by (simp add: word_upt_Cons word_succ_le_iff order.strict_trans2)
  next
    case False
    with 1 show ?thesis by simp
  qed
qed

lemma word_upt_snoc: "a \<le> b \<Longrightarrow> b \<noteq> - 1 \<Longrightarrow> word_upt a (b + 1) = word_upt a b @ [b]"
  using word_upt_append [of a b "b + 1"] word_succ_less [of b]
  by (simp add: word_upt_Cons less_imp_le)

lemma find_append: "find P (xs @ ys) = (case find P xs of Some x \<Rightarrow> Some x | None \<Rightarrow> find P ys)"
  by (induction xs) auto

text \<open>Between the 64-bit indices of the logs and the 32-bit indices on the wire.\<close>

lemma unat_widen [simp]: "unat (ucast (j::32 word) :: 64 word) = unat j"
  by transfer (simp add: take_bit_eq_mod)

lemma unat_truncate: "unat (ucast (i::64 word) :: 32 word) = unat i mod 2 ^ 32"
  by transfer (simp add: take_bit_eq_mod nat_mod_distrib)

lemma truncate_widen [simp]: "ucast (ucast (j::32 word) :: 64 word) = j"
  using unat_bound [of j] by (simp add: word_unat_eq_iff unat_truncate)

lemma widen_truncate: "(i::64 word) < 2 ^ 32 \<Longrightarrow> ucast (ucast i :: 32 word) = i"
  by (simp add: word_less_nat_alt word_unat_eq_iff unat_truncate)

lemma widen_less [simp]: "(ucast (j::32 word) :: 64 word) < 2 ^ 32"
  using unat_bound [of j] by (simp add: word_less_nat_alt)

text \<open>What evaluation needs about small numbers.\<close>

lemma small_words [simp]: "\<not> (2::32 word) \<le> 1" "\<not> (2::64 word) \<le> 1"
  by (simp_all add: word_le_nat_alt)

text \<open>A strictly increasing list is determined by its elements.\<close>

lemma strict_sorted_unique:
  "sorted_wrt (<) xs \<Longrightarrow> sorted_wrt (<) ys \<Longrightarrow> set xs = set ys \<Longrightarrow> xs = (ys::'a::linorder list)"
  by (rule strict_sorted_equal)

lemma strict_sorted_hd_le: "sorted_wrt (<) xs \<Longrightarrow> x \<in> set xs \<Longrightarrow> hd xs \<le> (x::'a::linorder)"
  by (cases xs) auto

lemma strict_sorted_le_last:
  "sorted_wrt (<) xs \<Longrightarrow> x \<in> set xs \<Longrightarrow> (x::'a::linorder) \<le> last xs"
  by (induction xs) (auto intro: less_imp_le)

lemma strict_sorted_remove1: "sorted_wrt (<) xs \<Longrightarrow> sorted_wrt (<) (remove1 (x::'a::linorder) xs)"
  by (induction xs) (use set_remove1_subset in \<open>fastforce+\<close>)

lemma strict_sorted_distinct: "sorted_wrt (<) xs \<Longrightarrow> distinct (xs::'a::linorder list)"
  by (simp add: strict_sorted_iff)

end
