(* ===== verification/UniTypes.thy ===== *)
theory UniTypes
  imports UniPrelude
begin

text \<open>
  The data the servers exchange and store: \<open>EndpointId\<close> (src/src/net/EndpointId.cc),
  \<open>SlaveGroupId\<close> (src/src/server/SlaveGroupId.cc) and the protocol-buffer messages of
  src/src/proto. A \<open>oneof\<close> is a datatype with a constructor for "not set"; a wrapper field
  (\<open>StringValue\<close>, \<open>UInt64Value\<close>) is an \<open>option\<close>, whose \<open>value()\<close> is the type's default when the
  field is absent; \<open>uint32\<close> and \<open>uint64\<close> keep their width. Serialisation is generated code and
  appears as a parameter of the components that send or parse.
\<close>

section \<open>Identifiers\<close>

text \<open>The aliases of src/src/paxos/PaxosTypes.h and src/src/common/common.h.\<close>

type_synonym index_t = "64 word"
type_synonym crnd_t = "32 word"
type_synonym timestamp_t = "64 word"

datatype endpoint_id = EndpointId (ip_string: string) (port: "32 word")

text \<open>\<open>operator==\<close> compares both fields, \<open>operator<\<close> the address alone.\<close>

definition endpoint_eq :: "endpoint_id \<Rightarrow> endpoint_id \<Rightarrow> bool" where
  "endpoint_eq a b \<longleftrightarrow> ip_string a = ip_string b \<and> port a = port b"

definition endpoint_less :: "endpoint_id \<Rightarrow> endpoint_id \<Rightarrow> bool" where
  "endpoint_less a b \<longleftrightarrow> ip_string a < ip_string b"

lemma endpoint_eq_iff [simp]: "endpoint_eq a b \<longleftrightarrow> a = b"
  by (cases a; cases b) (simp add: endpoint_eq_def)

datatype slave_group_id = SlaveGroupId (group_string: string)

definition slave_group_eq :: "slave_group_id \<Rightarrow> slave_group_id \<Rightarrow> bool" where
  "slave_group_eq a b \<longleftrightarrow> group_string a = group_string b"

definition slave_group_less :: "slave_group_id \<Rightarrow> slave_group_id \<Rightarrow> bool" where
  "slave_group_less a b \<longleftrightarrow> group_string a < group_string b"

lemma slave_group_eq_iff [simp]: "slave_group_eq a b \<longleftrightarrow> a = b"
  by (cases a; cases b) (simp add: slave_group_eq_def)

text \<open>For \<open>SlaveGroupId\<close> the two operators agree, so the type is a linear order.\<close>

instantiation slave_group_id :: linorder
begin

definition less_slave_group_id :: "slave_group_id \<Rightarrow> slave_group_id \<Rightarrow> bool" where
  "less_slave_group_id = slave_group_less"

definition less_eq_slave_group_id :: "slave_group_id \<Rightarrow> slave_group_id \<Rightarrow> bool" where
  "less_eq_slave_group_id a b \<longleftrightarrow> group_string a \<le> group_string b"

instance
  by standard
    (auto simp: less_slave_group_id_def slave_group_less_def less_eq_slave_group_id_def intro: slave_group_id.expand)

end

section \<open>Messages\<close>

text \<open>src/src/proto/common.proto\<close>

record pb_key_space_range =
  pb_database_id :: string
  pb_table_id :: string
  pb_start_key :: "string option"
  pb_end_key :: "string option"

definition default_pb_key_space_range :: pb_key_space_range where
  "default_pb_key_space_range =
     \<lparr>pb_database_id = '''', pb_table_id = '''', pb_start_key = None, pb_end_key = None\<rparr>"

text \<open>\<open>value()\<close> of an optional wrapper field.\<close>

definition string_value :: "string option \<Rightarrow> string" where
  "string_value v = (case v of None \<Rightarrow> '''' | Some s \<Rightarrow> s)"

definition uint64_value :: "64 word option \<Rightarrow> 64 word" where
  "uint64_value v = (case v of None \<Rightarrow> 0 | Some n \<Rightarrow> n)"

lemma wrapper_values [simp]:
  "string_value (Some s) = s" "string_value None = ''''"
  "uint64_value (Some n) = n" "uint64_value None = 0"
  by (simp_all add: string_value_def uint64_value_def)

text \<open>
  src/src/proto/paxos.proto with the entries of paxos_master.proto, paxos_slave.proto and
  paxos_tablet.proto: the values of the Paxos logs.
\<close>

datatype paxos_log_entry =
    KeySpaceSelected string "pb_key_space_range list" "32 word"
  | KeySpaceCommit string "32 word"
  | KeySpaceChanged "pb_key_space_range list" "32 word"
  | ReadEntry "string option" "string option" "64 word option"
  | WriteEntry "string option" "string option" "string option" "64 word option"
  | ReconfigStarted "string list"
  | ReconfigFinished
  | EntryContentNotSet

datatype content_case =
    KKeySpaceSelected | KKeySpaceCommit | KKeySpaceChanged | KRead | KWrite
  | KReconfigStarted | KReconfigFinished | KNotSet

fun entry_content_case :: "paxos_log_entry \<Rightarrow> content_case" where
  "entry_content_case (KeySpaceSelected g rs n) = KKeySpaceSelected"
| "entry_content_case (KeySpaceCommit g n) = KKeySpaceCommit"
| "entry_content_case (KeySpaceChanged rs n) = KKeySpaceChanged"
| "entry_content_case (ReadEntry i k t) = KRead"
| "entry_content_case (WriteEntry i k v t) = KWrite"
| "entry_content_case (ReconfigStarted ss) = KReconfigStarted"
| "entry_content_case ReconfigFinished = KReconfigFinished"
| "entry_content_case EntryContentNotSet = KNotSet"

datatype paxos_payload =
    Prepare crnd_t
  | Promise crnd_t crnd_t paxos_log_entry
  | Accept crnd_t paxos_log_entry
  | Learn crnd_t paxos_log_entry
  | PaxosNotSet

record paxos_message =
  paxos_index :: "32 word"
  paxos_payload :: paxos_payload

text \<open>src/src/proto/sync.proto\<close>

record sync_request =
  missing_indices :: "(index_t \<times> index_t) list"
  last_index :: index_t

record sync_response =
  missing_entries :: "(32 word \<times> paxos_log_entry) list"

datatype sync_message =
    SyncRequest sync_request
  | SyncResponse sync_response
  | SyncNotSet

text \<open>src/src/proto/message_client.proto\<close>

datatype request_type = UNSET | READ | WRITE

datatype code = CodeUnset | SUCCESS | ERROR

record client_request =
  cr_request_id :: string
  cr_request_type :: request_type
  cr_database_id :: string
  cr_table_id :: string
  cr_key :: string
  cr_value :: "string option"
  cr_timestamp :: "64 word option"

record client_response =
  response_value :: "string option"
  response_code :: code

record find_key_range_request =
  fk_database_id :: string
  fk_table_id :: string
  fk_key :: string

record find_key_range_response =
  found_slave_group_id :: string
  found_code :: code

datatype client_message =
    ClientRequest client_request
  | ClientResponse client_response
  | FindKeyRangeRequest find_key_range_request
  | FindKeyRangeResponse find_key_range_response
  | ClientNotSet

text \<open>src/src/proto/message_master.proto, message_slave.proto, message_tablet.proto, message.proto\<close>

datatype master_message =
    MasterPaxos paxos_message
  | MasterSync sync_message
  | NewKeySpaceSelected "pb_key_space_range list" "32 word"
  | MasterNotSet

datatype slave_message =
    Heartbeat
  | SlavePaxos paxos_message
  | SlaveSync sync_message
  | SlaveKeySpaceChanged "32 word"
  | SlaveNotSet

datatype tablet_payload =
    TabletPaxos paxos_message
  | TabletSync sync_message
  | TabletNotSet

record tablet_message =
  tablet_range :: pb_key_space_range
  tablet_payload :: tablet_payload

datatype message_wrapper =
    ClientMessage client_message
  | MasterMessage master_message
  | SlaveMessage slave_message
  | TabletMessage tablet_message
  | WrapperNotSet

text \<open>src/src/net/IncomingMessage.h; the payload type is the wire format's.\<close>

record 'w incoming_message =
  incoming_endpoint :: endpoint_id
  incoming_payload :: 'w

text \<open>src/src/constants/constants.h\<close>

record constants =
  num_slave_servers :: "32 word"
  num_master_servers :: "32 word"
  slave_port :: "32 word"
  client_port :: "32 word"
  master_port :: "32 word"
  heartbeat_period :: int
  heartbeat_failure_threshold :: "32 word"
  log_syncer_period :: int

definition Constants ::
  "32 word \<Rightarrow> 32 word \<Rightarrow> 32 word \<Rightarrow> 32 word \<Rightarrow> int \<Rightarrow> 32 word \<Rightarrow> int \<Rightarrow> constants" where
  "Constants n sp cp mp hp hft lsp =
     \<lparr>num_slave_servers = n, num_master_servers = n, slave_port = sp, client_port = cp,
      master_port = mp, heartbeat_period = hp, heartbeat_failure_threshold = hft,
      log_syncer_period = lsp\<rparr>"

text \<open>src/src/utils.h: the constants both servers are started with.\<close>

definition initialize_constants :: constants where
  "initialize_constants = Constants 2 1610 1710 1810 1000 4 1000"

end
