(* ===== verification/Connections.thy ===== *)
theory Connections
  imports UniTypes
begin

text \<open>
  \<open>uni::net::Connections\<close> (src/src/net/Connections.cc) and the channels it owns. A channel is
  the messages it has been given and not yet delivered: for \<open>ChannelImpl\<close> its bounded
  \<open>_message_queue\<close>, for \<open>SelfChannel\<close> what its receive callback handed to the scheduler.
  \<open>_channels\<close> is an unordered map: an association list with distinct keys whose order is the
  iteration order. The lock makes each operation atomic but \<open>get_all_endpoints\<close>, which takes none;
  what \<open>get_channel\<close> returns is used after the lock is released.
\<close>

section \<open>Channels\<close>

text \<open>src/src/net/constants.h\<close>

definition MAX_MESSAGES_QUEUE_SIZE :: nat where
  "MAX_MESSAGES_QUEUE_SIZE = 10000"

datatype 'w channel =
    ChannelImpl "'w list"
  | SelfChannel bool "'w list"

fun pending :: "'w channel \<Rightarrow> 'w list" where
  "pending (ChannelImpl q) = q"
| "pending (SelfChannel listening q) = q"

fun queue_send :: "'w \<Rightarrow> 'w channel \<Rightarrow> 'w channel" where
  "queue_send m (ChannelImpl q) =
     (if length q < MAX_MESSAGES_QUEUE_SIZE then ChannelImpl (q @ [m]) else ChannelImpl q)"
| "queue_send m (SelfChannel listening q) =
     (if listening then SelfChannel listening (q @ [m]) else SelfChannel listening q)"

fun start_listening :: "'w channel \<Rightarrow> 'w channel" where
  "start_listening (ChannelImpl q) = ChannelImpl q"
| "start_listening (SelfChannel listening q) = SelfChannel True q"

text \<open>The message at the head leaves the channel (written to the socket, or handled).\<close>

fun pop_message :: "'w channel \<Rightarrow> 'w channel" where
  "pop_message (ChannelImpl q) = ChannelImpl (tl q)"
| "pop_message (SelfChannel listening q) = SelfChannel listening (tl q)"

lemma pending_queue_send: "pending (queue_send m ch) = pending ch \<or> pending (queue_send m ch) = pending ch @ [m]"
  by (cases ch) auto

lemma pending_pop_message [simp]: "pending (pop_message ch) = tl (pending ch)"
  by (cases ch) auto

section \<open>Connections\<close>

record 'w connections =
  channels :: "(endpoint_id \<times> 'w channel) list"

definition update_channel ::
  "endpoint_id \<Rightarrow> ('w channel \<Rightarrow> 'w channel) \<Rightarrow> (endpoint_id \<times> 'w channel) list
   \<Rightarrow> (endpoint_id \<times> 'w channel) list" where
  "update_channel e f cs = map (\<lambda>(k, ch). if k = e then (k, f ch) else (k, ch)) cs"

definition get_channel :: "endpoint_id \<Rightarrow> 'w connections \<Rightarrow> 'w channel option" where
  "get_channel e c = map_of (channels c) e"

definition has_channel :: "endpoint_id \<Rightarrow> 'w connections \<Rightarrow> bool" where
  "has_channel e c \<longleftrightarrow> e \<in> fst ` set (channels c)"

definition get_all_endpoints :: "'w connections \<Rightarrow> endpoint_id list" where
  "get_all_endpoints c = map fst (channels c)"

definition send :: "endpoint_id \<Rightarrow> 'w \<Rightarrow> 'w connections \<Rightarrow> 'w connections" where
  "send e m c =
     (if has_channel e c then c\<lparr>channels := update_channel e (queue_send m) (channels c)\<rparr> else c)"

fun broadcast :: "endpoint_id list \<Rightarrow> 'w \<Rightarrow> 'w connections \<Rightarrow> 'w connections" where
  "broadcast [] m c = c"
| "broadcast (e # es) m c = broadcast es m (send e m c)"

text \<open>
  \<open>add_channel\<close>: the insertion does nothing when the endpoint already has a channel.
  \<open>on_close\<close> is the close callback it registers. Erasing a \<open>ChannelImpl\<close> destroys it; while its queue
  is not empty a write is pending, whose handler then runs on the destroyed object.
\<close>

fun being_written :: "'w channel \<Rightarrow> bool" where
  "being_written (ChannelImpl q) \<longleftrightarrow> q \<noteq> []"
| "being_written (SelfChannel listening q) \<longleftrightarrow> False"

definition add_channel :: "endpoint_id \<Rightarrow> 'w channel \<Rightarrow> 'w connections \<Rightarrow> 'w connections" where
  "add_channel e ch c =
     (if has_channel e c then c else c\<lparr>channels := channels c @ [(e, start_listening ch)]\<rparr>)"

definition on_close :: "endpoint_id \<Rightarrow> 'w connections \<Rightarrow> 'w connections result" where
  "on_close e c =
     (case get_channel e c of
        Some ch \<Rightarrow>
          if being_written ch then Inl UndefinedBehaviour
          else Inr (c\<lparr>channels := filter (\<lambda>(k, ch). k \<noteq> e) (channels c)\<rparr>)
      | None \<Rightarrow> Inl (UniversalException ''A Channel cannot/should not be deleted whenever this callback is run.''))"

lemma on_close_Inr:
  "on_close e c = Inr c' \<longleftrightarrow>
     (\<exists>ch. get_channel e c = Some ch \<and> \<not> being_written ch) \<and> c' = c\<lparr>channels := filter (\<lambda>(k, ch). k \<noteq> e) (channels c)\<rparr>"
  by (auto simp: on_close_def split: option.splits)

text \<open>What is on its way to an endpoint.\<close>

definition in_flight :: "'w connections \<Rightarrow> endpoint_id \<Rightarrow> 'w list" where
  "in_flight c e = (case get_channel e c of None \<Rightarrow> [] | Some ch \<Rightarrow> pending ch)"

definition deliver_from :: "endpoint_id \<Rightarrow> 'w connections \<Rightarrow> 'w connections" where
  "deliver_from e c = c\<lparr>channels := update_channel e pop_message (channels c)\<rparr>"

lemma map_of_update_channel:
  "map_of (update_channel e f cs) k = (if k = e then map_option f (map_of cs k) else map_of cs k)"
  by (induction cs) (auto simp: update_channel_def)

lemma fst_update_channel [simp]: "map fst (update_channel e f cs) = map fst cs"
  by (induction cs) (auto simp: update_channel_def)

lemma get_all_endpoints_send [simp]: "get_all_endpoints (send e m c) = get_all_endpoints c"
  by (simp add: get_all_endpoints_def send_def)

lemma get_all_endpoints_broadcast [simp]:
  "get_all_endpoints (broadcast es m c) = get_all_endpoints c"
  by (induction es arbitrary: c) auto

lemma in_flight_send_other: "e' \<noteq> e \<Longrightarrow> in_flight (send e m c) e' = in_flight c e'"
  by (simp add: in_flight_def get_channel_def send_def map_of_update_channel)

lemma in_flight_send_same:
  "in_flight (send e m c) e = in_flight c e \<or> in_flight (send e m c) e = in_flight c e @ [m]"
proof (cases "map_of (channels c) e")
  case (Some ch)
  with pending_queue_send [of m ch] show ?thesis
    by (auto simp: in_flight_def get_channel_def send_def map_of_update_channel)
qed (simp add: in_flight_def get_channel_def send_def map_of_update_channel)

lemma in_flight_deliver_from:
  "in_flight (deliver_from e c) e' = (if e' = e then tl (in_flight c e') else in_flight c e')"
  by (auto simp: in_flight_def get_channel_def deliver_from_def map_of_update_channel
      split: option.splits)

lemma in_flight_broadcast:
  "distinct es \<Longrightarrow>
   in_flight (broadcast es m c) q = in_flight c q \<or>
   q \<in> set es \<and> in_flight (broadcast es m c) q = in_flight c q @ [m]"
proof (induction es arbitrary: c)
  case (Cons e es)
  show ?case
  proof (cases "q = e")
    case True
    have "in_flight (broadcast es m c') q = in_flight c' q" if "q \<notin> set es" for c' es
      using that by (induction es arbitrary: c') (auto simp: in_flight_send_other)
    with Cons.prems True in_flight_send_same [of e m c] show ?thesis by auto
  next
    case False
    with Cons.IH [of "send e m c"] Cons.prems show ?thesis by (auto simp: in_flight_send_other)
  qed
qed simp

end
