(* ===== verification/PaxosLog.thy ===== *)
theory PaxosLog
  imports UniTypes
begin

text \<open>
  \<open>uni::paxos::PaxosLog\<close> (src/src/paxos/PaxosLog.cc): the entries learned so far, the sorted
  vector of free indices, and the callbacks run on every entry of the contiguous prefix. The
  callbacks close over other components; their joint state is the type \<open>'s\<close>, passed
  explicitly, so \<open>set_entry\<close> maps a log and a client state to new ones, or throws.

  The lemmas show that the free indices are exactly the holes plus the index after the last
  entry (\<open>log_inv\<close>), that an entry once set never changes, and that the client state is always
  the result of replaying the callbacks over the contiguous prefix, once per index and in
  order, whatever the order in which entries arrived (\<open>replay\<close>). The locale \<open>entry_store\<close> is
  what the clients of the log rely on.
\<close>

section \<open>State and operations\<close>

type_synonym 's log_callback = "index_t \<Rightarrow> paxos_log_entry \<Rightarrow> 's \<Rightarrow> 's result"

record 's paxos_log =
  log :: "index_t \<rightharpoonup> paxos_log_entry"
  available_indices :: "index_t list"
  callbacks :: "content_case \<Rightarrow> 's log_callback list"

definition PaxosLog :: "'s paxos_log" where
  "PaxosLog = \<lparr>log = Map.empty, available_indices = [0], callbacks = (\<lambda>_. [])\<rparr>"

definition get_entry :: "'s paxos_log \<Rightarrow> index_t \<Rightarrow> paxos_log_entry option" where
  "get_entry pl i = log pl i"

definition add_callback :: "content_case \<Rightarrow> 's log_callback \<Rightarrow> 's paxos_log \<Rightarrow> 's paxos_log" where
  "add_callback cc f pl = pl\<lparr>callbacks := (callbacks pl)(cc := callbacks pl cc @ [f])\<rparr>"

definition next_available_index :: "'s paxos_log \<Rightarrow> index_t result" where
  "next_available_index pl =
     rbind (universal_assert (available_indices pl \<noteq> []) ''Set of available indices should never be 0'') (\<lambda>_.
     rbind (universal_assert (log pl (hd (available_indices pl)) = None)
              ''The index that is going to be returned as available must actually be available.'') (\<lambda>_.
     Inr (hd (available_indices pl))))"

definition get_available_indices :: "'s paxos_log \<Rightarrow> index_t list" where
  "get_available_indices pl = available_indices pl"

definition get_log :: "'s paxos_log \<Rightarrow> (index_t \<rightharpoonup> paxos_log_entry)" where
  "get_log pl = log pl"

text \<open>\<open>_log[i]\<close>: an absent key is inserted with a default entry.\<close>

definition log_at :: "index_t \<Rightarrow> 's paxos_log \<Rightarrow> paxos_log_entry \<times> 's paxos_log" where
  "log_at i pl =
     (case log pl i of
        Some e \<Rightarrow> (e, pl)
      | None \<Rightarrow> (EntryContentNotSet, pl\<lparr>log := (log pl)(i \<mapsto> EntryContentNotSet)\<rparr>))"

text \<open>\<open>_log.insert\<close> keeps an entry that is already there.\<close>

definition log_insert :: "index_t \<Rightarrow> paxos_log_entry \<Rightarrow> 's paxos_log \<Rightarrow> 's paxos_log" where
  "log_insert i e pl =
     (case log pl i of Some _ \<Rightarrow> pl | None \<Rightarrow> pl\<lparr>log := (log pl)(i \<mapsto> e)\<rparr>)"

text \<open>The free indices after \<open>index\<close> is taken: the three branches of \<open>set_entry\<close>.\<close>

definition take_index :: "index_t \<Rightarrow> index_t list \<Rightarrow> index_t list" where
  "take_index index av =
     (if index < last av then remove1 index av
      else if index = last av then remove1 index av @ [index + 1]
      else av @ word_upt (last av + 1) index @ [index + 1])"

text \<open>The loop of \<open>set_entry\<close> over the indices that became contiguous.\<close>

definition invoke_callbacks :: "index_t \<Rightarrow> 's paxos_log \<times> 's \<Rightarrow> ('s paxos_log \<times> 's) result" where
  "invoke_callbacks i x =
     (let (e, pl) = log_at i (fst x)
      in rbind (rfold (\<lambda>f. f i e) (callbacks pl (entry_content_case e)) (snd x)) (\<lambda>s. Inr (pl, s)))"

definition set_entry ::
  "index_t \<Rightarrow> paxos_log_entry \<Rightarrow> 's paxos_log \<times> 's \<Rightarrow> ('s paxos_log \<times> 's) result" where
  "set_entry index entry x =
     (let (pl, s) = x; av = available_indices pl
      in rbind (universal_assert (av \<noteq> []) ''Set of available indices should never be 0'') (\<lambda>_.
         rbind (next_available_index pl) (\<lambda>first_available_index.
           if index \<le> last av \<and> index \<notin> set av then Inr (pl, s)
           else
             let pl' = log_insert index entry (pl\<lparr>available_indices := take_index index av\<rparr>)
             in rbind (next_available_index pl') (\<lambda>next_first_available_index.
                  if first_available_index < next_first_available_index
                  then rfold invoke_callbacks
                         (word_upt first_available_index next_first_available_index) (pl', s)
                  else Inr (pl', s)))))"

text \<open>The second constructor: a log built from given entries (in any order).\<close>

definition PaxosLog_from :: "(index_t \<times> paxos_log_entry) list \<Rightarrow> 's \<Rightarrow> ('s paxos_log \<times> 's) result" where
  "PaxosLog_from es s = rfold (\<lambda>(i, e). set_entry i e) es (PaxosLog, s)"

section \<open>The free indices\<close>

text \<open>
  \<open>holes av D\<close>: \<open>av\<close> lists in increasing order the indices missing from \<open>D\<close> up to and
  including the first index above all of \<open>D\<close>.
\<close>

definition holes :: "index_t list \<Rightarrow> index_t set \<Rightarrow> bool" where
  "holes av D \<longleftrightarrow>
     av \<noteq> [] \<and> sorted_wrt (<) av \<and> set av = {..last av} - D \<and> D \<subseteq> {..<last av} \<and>
     (\<forall>j<last av. \<exists>d\<in>D. j \<le> d)"

definition log_inv :: "'s paxos_log \<Rightarrow> bool" where
  "log_inv pl \<longleftrightarrow> holes (available_indices pl) (dom (log pl))"

definition first_free :: "'s paxos_log \<Rightarrow> index_t" where
  "first_free pl = hd (available_indices pl)"

lemma holes_last: "holes av D \<Longrightarrow> last av \<in> set av \<and> last av \<notin> D"
  by (auto simp: holes_def)

lemma holes_mem_iff: "holes av D \<Longrightarrow> i \<in> set av \<longleftrightarrow> i \<le> last av \<and> i \<notin> D"
  by (auto simp: holes_def)

lemma holes_hd_free: "holes av D \<Longrightarrow> hd av \<notin> D"
  by (metis DiffD2 hd_in_set holes_def)

lemma holes_below_hd: "holes av D \<Longrightarrow> i < hd av \<Longrightarrow> i \<in> D"
proof (rule ccontr)
  assume h: "holes av D" and "i < hd av" and "i \<notin> D"
  from h have "hd av \<le> last av"
    by (metis holes_def last_in_set strict_sorted_hd_le)
  with \<open>i < hd av\<close> have "i \<le> last av" by simp
  with h \<open>i \<notin> D\<close> have "i \<in> set av" by (simp add: holes_mem_iff)
  with h have "hd av \<le> i" by (auto simp: holes_def intro: strict_sorted_hd_le)
  with \<open>i < hd av\<close> show False by simp
qed

lemma remove1_neq_Nil: "xs \<noteq> [] \<Longrightarrow> last xs \<noteq> x \<Longrightarrow> remove1 x xs \<noteq> []"
  by (induction xs) (auto split: if_splits)

lemma last_remove1_neq: "xs \<noteq> [] \<Longrightarrow> last xs \<noteq> x \<Longrightarrow> last (remove1 x xs) = last xs"
  by (induction xs) (auto split: if_splits simp: remove1_neq_Nil)

lemma holes_take_below:
  assumes h: "holes av D" and i: "i \<notin> D" "i < last av"
  shows "holes (remove1 i av) (insert i D)"
proof -
  from h have av: "av \<noteq> []" "sorted_wrt (<) av" by (auto simp: holes_def)
  have last: "last (remove1 i av) = last av"
    using av i by (simp add: last_remove1_neq)
  have "set (remove1 i av) = set av - {i}"
    using av by (simp add: strict_sorted_distinct)
  with h i last show ?thesis
    unfolding holes_def by (auto simp: strict_sorted_remove1 remove1_neq_Nil)
qed

lemma holes_append:
  assumes av: "sorted_wrt (<) av" and le: "\<And>j. j \<in> set av \<Longrightarrow> j < n"
    and set: "set av = {..<n} - D" and D: "D \<subseteq> {..<n}"
    and top: "\<And>j. j < n \<Longrightarrow> \<exists>d\<in>D. j \<le> d"
  shows "holes (av @ [n]) D"
proof -
  have "set (av @ [n]) = {..n} - D"
    using set D by (auto simp: order.order_iff_strict)
  then show ?thesis
    using av le D top by (auto simp: holes_def sorted_wrt_append)
qed

lemma holes_take_last:
  assumes h: "holes av D" and i: "i = last av" and max: "i \<noteq> - 1"
  shows "holes (remove1 i av @ [i + 1]) (insert i D)"
proof (rule holes_append)
  from h have av: "av \<noteq> []" "sorted_wrt (<) av" "distinct av"
    by (auto simp: holes_def strict_sorted_distinct)
  then show "sorted_wrt (<) (remove1 i av)" by (simp add: strict_sorted_remove1)
  have set: "set (remove1 i av) = set av - {i}" using av by simp
  have upto: "{..<i + 1} = {..i}"
    using max by (auto simp: word_less_succ_iff)
  have "set av = {..i} - D" and D: "D \<subseteq> {..<i}" using h i by (auto simp: holes_def)
  with set show set': "set (remove1 i av) = {..<i + 1} - insert i D" by (auto simp: upto)
  then show "\<And>j. j \<in> set (remove1 i av) \<Longrightarrow> j < i + 1" by blast
  from D show "insert i D \<subseteq> {..<i + 1}" by (auto simp: upto)
  show "\<And>j. j < i + 1 \<Longrightarrow> \<exists>d\<in>insert i D. j \<le> d" using max by (simp add: word_less_succ_iff)
qed

lemma interval_gap:
  fixes l i :: "'a::linorder"
  assumes "l < i" and "D \<subseteq> {..<l}"
  shows "({..l} - D) \<union> {l<..<i} = {..i} - insert i D"
proof (rule set_eqI)
  fix x
  from assms have "x \<in> D \<Longrightarrow> x < l" by auto
  with \<open>l < i\<close> show "x \<in> ({..l} - D) \<union> {l<..<i} \<longleftrightarrow> x \<in> {..i} - insert i D"
    by (cases x l rule: linorder_cases) auto
qed

lemma holes_take_above:
  assumes h: "holes av D" and i: "last av < i" and max: "i \<noteq> - 1"
  shows "holes (av @ word_upt (last av + 1) i @ [i + 1]) (insert i D)"
proof -
  have "holes ((av @ word_upt (last av + 1) i) @ [i + 1]) (insert i D)"
  proof (rule holes_append)
    from h have av: "av \<noteq> []" "sorted_wrt (<) av" by (auto simp: holes_def)
    then show "sorted_wrt (<) (av @ word_upt (last av + 1) i)"
      using i by (auto simp: sorted_wrt_append word_succ_le_iff intro: strict_sorted_le_last order.strict_trans1)
    have upto: "{..<i + 1} = {..i}"
      using max by (auto simp: word_less_succ_iff)
    have gap: "{last av + 1..<i} = {last av<..<i}"
      using i by (auto simp: word_succ_le_iff)
    have set_av: "set av = {..last av} - D" and D: "D \<subseteq> {..<last av}"
      using h by (auto simp: holes_def)
    show set: "set (av @ word_upt (last av + 1) i) = {..<i + 1} - insert i D"
      using interval_gap [OF i D] by (simp add: upto gap set_av)
    then show "\<And>j. j \<in> set (av @ word_upt (last av + 1) i) \<Longrightarrow> j < i + 1" by blast
    show "insert i D \<subseteq> {..<i + 1}"
      using D i by (auto simp: upto)
    show "\<And>j. j < i + 1 \<Longrightarrow> \<exists>d\<in>insert i D. j \<le> d" using max by (simp add: word_less_succ_iff)
  qed
  then show ?thesis by simp
qed

lemma holes_take_index:
  assumes h: "holes av D" and i: "\<not> (i \<le> last av \<and> i \<notin> set av)" and max: "i \<noteq> - 1"
  shows "holes (take_index i av) (insert i D)"
proof -
  consider "i < last av" | "i = last av" | "last av < i" by fastforce
  then show ?thesis
  proof cases
    case 1
    with h i have "i \<notin> D" by (auto simp: holes_mem_iff)
    with h 1 show ?thesis by (simp add: take_index_def holes_take_below)
  next
    case 2
    with h max show ?thesis by (simp add: take_index_def holes_take_last)
  next
    case 3
    then have "take_index i av = av @ word_upt (last av + 1) i @ [i + 1]"
      using less_asym [OF 3] by (auto simp: take_index_def)
    with h max 3 show ?thesis by (simp add: holes_take_above)
  qed
qed

text \<open>Taking the last index or one above it never meets an entry.\<close>

lemma holes_not_taken: "holes av D \<Longrightarrow> \<not> (i \<le> last av \<and> i \<notin> set av) \<Longrightarrow> i \<notin> D"
  by (auto simp: holes_def)

lemma log_inv_next_available_index [simp]:
  "log_inv pl \<Longrightarrow> next_available_index pl = Inr (first_free pl)"
  using holes_hd_free [of "available_indices pl" "dom (log pl)"]
  by (auto simp: log_inv_def next_available_index_def first_free_def holes_def universal_assert_def)

lemma first_free_not_in_log: "log_inv pl \<Longrightarrow> log pl (first_free pl) = None"
  using holes_hd_free by (auto simp: log_inv_def first_free_def)

lemma below_first_free: "log_inv pl \<Longrightarrow> i < first_free pl \<Longrightarrow> \<exists>e. log pl i = Some e"
  using holes_below_hd by (auto simp: log_inv_def first_free_def)

lemma log_inv_PaxosLog [inv_intros]: "log_inv PaxosLog"
proof -
  have "{..0::index_t} = {0}" by auto
  then show ?thesis by (simp add: log_inv_def PaxosLog_def holes_def)
qed

lemma log_inv_add_callback [inv_intros]: "log_inv pl \<Longrightarrow> log_inv (add_callback cc f pl)"
  by (simp add: log_inv_def add_callback_def)

lemma holes_hd_in: "holes av D \<Longrightarrow> hd av \<in> set av"
  by (auto simp: holes_def)

section \<open>What one entry does\<close>

text \<open>The callbacks of one entry, and of the contiguous prefix from index 0.\<close>

definition apply_entry ::
  "(content_case \<Rightarrow> 's log_callback list) \<Rightarrow> index_t \<Rightarrow> paxos_log_entry \<Rightarrow> 's \<Rightarrow> 's result" where
  "apply_entry cbs i e s = rfold (\<lambda>f. f i e) (cbs (entry_content_case e)) s"

definition apply_range ::
  "(content_case \<Rightarrow> 's log_callback list) \<Rightarrow> (index_t \<rightharpoonup> paxos_log_entry)
   \<Rightarrow> index_t \<Rightarrow> index_t \<Rightarrow> 's \<Rightarrow> 's result" where
  "apply_range cbs m a b s = rfold (\<lambda>i. apply_entry cbs i (the (m i))) (word_upt a b) s"

definition replay ::
  "(content_case \<Rightarrow> 's log_callback list) \<Rightarrow> (index_t \<rightharpoonup> paxos_log_entry)
   \<Rightarrow> index_t \<Rightarrow> 's \<Rightarrow> 's result" where
  "replay cbs m n s = apply_range cbs m 0 n s"

lemma apply_range_empty [simp]: "\<not> a < b \<Longrightarrow> apply_range cbs m a b s = Inr s"
  by (simp add: apply_range_def)

lemma apply_range_cong:
  "(\<And>i. a \<le> i \<Longrightarrow> i < b \<Longrightarrow> m i = m' i) \<Longrightarrow> apply_range cbs m a b s = apply_range cbs m' a b s"
  unfolding apply_range_def by (rule rfold_cong) simp

lemma apply_range_append:
  "a \<le> b \<Longrightarrow> b \<le> c \<Longrightarrow>
   apply_range cbs m a c s = rbind (apply_range cbs m a b s) (apply_range cbs m b c)"
  by (simp add: apply_range_def [abs_def] word_upt_append [of a b c] rfold_append)

lemma replay_append:
  "b \<le> c \<Longrightarrow> replay cbs m c s = rbind (replay cbs m b s) (apply_range cbs m b c)"
  by (simp add: replay_def apply_range_append)

lemma replay_succ:
  "n \<noteq> - 1 \<Longrightarrow> replay cbs m (n + 1) s = rbind (replay cbs m n s) (apply_entry cbs n (the (m n)))"
  by (simp add: replay_def apply_range_def word_upt_snoc rfold_append)
    (cases "rfold (\<lambda>i. apply_entry cbs i (the (m i))) (word_upt 0 n) s"; simp add: rbind_def split: sum.splits)

lemma invoke_callbacks_present:
  "log pl i = Some e \<Longrightarrow>
   invoke_callbacks i (pl, s) = rbind (apply_entry (callbacks pl) i e s) (\<lambda>s'. Inr (pl, s'))"
  by (simp add: invoke_callbacks_def log_at_def apply_entry_def)

lemma rfold_invoke_callbacks:
  "(\<And>i. i \<in> set is \<Longrightarrow> log pl i \<noteq> None) \<Longrightarrow>
   rfold invoke_callbacks is (pl, s) =
     rbind (rfold (\<lambda>i. apply_entry (callbacks pl) i (the (log pl i))) is s) (\<lambda>s'. Inr (pl, s'))"
proof (induction "is" arbitrary: s)
  case (Cons i "is")
  then obtain e where e: "log pl i = Some e" by (metis list.set_intros(1) option.exhaust)
  with Cons show ?case
    by (cases "apply_entry (callbacks pl) i e s") (auto simp: invoke_callbacks_present)
qed simp

text \<open>The log after a free index is taken, before the callbacks run.\<close>

definition fill_index :: "index_t \<Rightarrow> paxos_log_entry \<Rightarrow> 's paxos_log \<Rightarrow> 's paxos_log" where
  "fill_index i e pl =
     pl\<lparr>available_indices := take_index i (available_indices pl), log := (log pl)(i \<mapsto> e)\<rparr>"

lemma log_inv_fill_index:
  assumes "log_inv pl" and "log pl i = None" and "i \<noteq> - 1"
  shows "log_inv (fill_index i e pl)"
proof -
  let ?av = "available_indices pl" and ?D = "dom (log pl)"
  from assms have h: "holes ?av ?D" by (simp add: log_inv_def)
  with assms have "\<not> (i \<le> last ?av \<and> i \<notin> set ?av)" by (auto simp: holes_mem_iff)
  from holes_take_index [OF h this \<open>i \<noteq> - 1\<close>] show ?thesis
    by (simp add: log_inv_def fill_index_def)
qed

lemma set_entry_present:
  assumes "log_inv pl" and "log pl i = Some e'"
  shows "set_entry i e (pl, s) = Inr (pl, s)"
proof -
  let ?av = "available_indices pl"
  from assms have h: "holes ?av (dom (log pl))" by (simp add: log_inv_def)
  with assms have "i \<le> last ?av" and "i \<notin> set ?av" and "?av \<noteq> []"
    by (auto simp: holes_def dom_def)
  with assms show ?thesis by (simp add: set_entry_def)
qed

lemma first_free_le:
  assumes "log_inv pl" and "\<And>i. i < n \<Longrightarrow> log pl i \<noteq> None"
  shows "n \<le> first_free pl"
  using assms first_free_not_in_log by (metis not_less)

lemma first_free_fill_index:
  assumes "log_inv pl" and "log pl i = None" and "i \<noteq> - 1"
  shows "first_free pl \<le> first_free (fill_index i e pl)"
proof (rule first_free_le [OF log_inv_fill_index [OF assms]])
  fix j assume "j < first_free pl"
  with assms(1) show "log (fill_index i e pl) j \<noteq> None"
    using below_first_free [of pl j] by (auto simp: fill_index_def)
qed

lemma set_entry_free:
  fixes e :: paxos_log_entry
  assumes inv: "log_inv pl" and i: "log pl i = None" "i \<noteq> - 1"
  defines "pl' \<equiv> fill_index i e pl"
  shows "set_entry i e (pl, s) =
    rbind (apply_range (callbacks pl) (log pl') (first_free pl) (first_free pl') s)
      (\<lambda>s'. Inr (pl', s'))"
proof -
  let ?av = "available_indices pl"
  have inv': "log_inv pl'"
    unfolding pl'_def by (rule log_inv_fill_index) (fact inv, fact i(1), fact i(2))
  from inv have h: "holes ?av (dom (log pl))" by (simp add: log_inv_def)
  with i have taken: "\<not> (i \<le> last ?av \<and> i \<notin> set ?av)" and ne: "?av \<noteq> []"
    by (auto simp: holes_mem_iff holes_def)
  have ins: "log_insert i e (pl\<lparr>available_indices := take_index i ?av\<rparr>) = pl'"
    using i by (simp add: log_insert_def pl'_def fill_index_def)
  have cbs: "callbacks pl' = callbacks pl" by (simp add: pl'_def fill_index_def)
  have "\<And>j. j \<in> set (word_upt (first_free pl) (first_free pl')) \<Longrightarrow> log pl' j \<noteq> None"
    using below_first_free [OF inv'] by auto
  then have loop: "rfold invoke_callbacks (word_upt (first_free pl) (first_free pl')) (pl', s) =
      rbind (apply_range (callbacks pl) (log pl') (first_free pl) (first_free pl') s)
        (\<lambda>s'. Inr (pl', s'))"
    unfolding apply_range_def by (subst rfold_invoke_callbacks) (auto simp: cbs)
  show ?thesis
    using inv inv' taken ne by (auto simp: set_entry_def Let_def ins loop)
qed

lemma set_entry_cases:
  assumes "log_inv pl" and "i \<noteq> - 1" and "set_entry i e (pl, s) = Inr (pl', s')"
  obtains (present) e' where "log pl i = Some e'" "pl' = pl" "s' = s"
  | (free) "log pl i = None" "pl' = fill_index i e pl"
      "apply_range (callbacks pl) (log pl') (first_free pl) (first_free pl') s = Inr s'"
proof (cases "log pl i")
  case None
  with assms(3) have eq: "rbind (apply_range (callbacks pl) (log (fill_index i e pl)) (first_free pl)
      (first_free (fill_index i e pl)) s) (\<lambda>s'. Inr (fill_index i e pl, s')) = Inr (pl', s')"
    using set_entry_free [OF assms(1) None assms(2), of e s] by simp
  show ?thesis
  proof (cases "apply_range (callbacks pl) (log (fill_index i e pl)) (first_free pl)
      (first_free (fill_index i e pl)) s")
    case (Inr s2)
    with eq have "pl' = fill_index i e pl" and "s' = s2" by simp_all
    note res = Inr this
    show ?thesis
    proof (rule free [OF None])
      show "pl' = fill_index i e pl" by fact
      show "apply_range (callbacks pl) (log pl') (first_free pl) (first_free pl') s = Inr s'"
        unfolding \<open>pl' = fill_index i e pl\<close> \<open>s' = s2\<close> by (rule res(1))
    qed
  qed (use eq in simp)
next
  case (Some e')
  with assms have "pl' = pl" and "s' = s" by (simp_all add: set_entry_present)
  with Some show ?thesis by (rule present)
qed

lemma set_entry_log_inv [inv_intros]:
  "log_inv pl \<Longrightarrow> i \<noteq> - 1 \<Longrightarrow> set_entry i e (pl, s) = Inr (pl', s') \<Longrightarrow> log_inv pl'"
  by (rule set_entry_cases [of pl i e s pl' s']) (auto intro: log_inv_fill_index)

lemma set_entry_callbacks:
  "log_inv pl \<Longrightarrow> i \<noteq> - 1 \<Longrightarrow> set_entry i e (pl, s) = Inr (pl', s') \<Longrightarrow> callbacks pl' = callbacks pl"
  by (rule set_entry_cases [of pl i e s pl' s']) (auto simp: fill_index_def)

lemma set_entry_lookup:
  "log_inv pl \<Longrightarrow> i \<noteq> - 1 \<Longrightarrow> set_entry i e (pl, s) = Inr (pl', s') \<Longrightarrow>
   log pl' j = (if j = i \<and> log pl i = None then Some e else log pl j)"
  by (rule set_entry_cases [of pl i e s pl' s']) (auto simp: fill_index_def)

lemma set_entry_first_free:
  "log_inv pl \<Longrightarrow> i \<noteq> - 1 \<Longrightarrow> set_entry i e (pl, s) = Inr (pl', s') \<Longrightarrow>
   first_free pl \<le> first_free pl'"
  by (rule set_entry_cases [of pl i e s pl' s']) (auto intro: first_free_fill_index)

section \<open>The interface of the log\<close>

text \<open>
  What the synchroniser and the proposers rely on: a store of entries with a first free index,
  where a put fills an empty slot and never touches a full one. Index \<open>2^64 - 1\<close> is excluded
  because \<open>index + 1\<close> wraps there.
\<close>

locale entry_store =
  fixes inv :: "'a \<Rightarrow> bool"
    and entry_at :: "'a \<Rightarrow> index_t \<Rightarrow> paxos_log_entry option"
    and free :: "'a \<Rightarrow> index_t"
    and put :: "index_t \<Rightarrow> paxos_log_entry \<Rightarrow> 'a \<Rightarrow> 'a result"
  assumes free_none: "inv x \<Longrightarrow> entry_at x (free x) = None"
    and below_free: "inv x \<Longrightarrow> i < free x \<Longrightarrow> entry_at x i \<noteq> None"
    and put_inv: "inv x \<Longrightarrow> i \<noteq> - 1 \<Longrightarrow> put i e x = Inr x' \<Longrightarrow> inv x'"
    and put_at: "inv x \<Longrightarrow> i \<noteq> - 1 \<Longrightarrow> put i e x = Inr x' \<Longrightarrow>
      entry_at x' j = (if j = i \<and> entry_at x i = None then Some e else entry_at x j)"
begin

lemma puts_inv:
  "inv x \<Longrightarrow> - 1 \<notin> fst ` set es \<Longrightarrow> rfold (\<lambda>(i, e). put i e) es x = Inr x' \<Longrightarrow> inv x'"
proof (induction es arbitrary: x)
  case (Cons ie es)
  obtain i e where ie: "ie = (i, e)" by (cases ie)
  with Cons.prems obtain y where y: "put i e x = Inr y" "rfold (\<lambda>(i, e). put i e) es y = Inr x'"
    and i: "i \<noteq> - 1" by (auto simp: rbind_eq_Inr)
  from put_inv [OF Cons.prems(1) i y(1)] Cons.prems(2) show ?case
    by (auto intro: Cons.IH [OF _ _ y(2)])
qed simp

lemma puts_at:
  "inv x \<Longrightarrow> - 1 \<notin> fst ` set es \<Longrightarrow> rfold (\<lambda>(i, e). put i e) es x = Inr x' \<Longrightarrow>
   entry_at x' j = (case entry_at x j of Some e \<Rightarrow> Some e | None \<Rightarrow> map_of es j)"
proof (induction es arbitrary: x)
  case Nil
  then show ?case by (simp split: option.splits)
next
  case (Cons ie es)
  obtain i e where ie: "ie = (i, e)" by (cases ie)
  with Cons.prems obtain y where y: "put i e x = Inr y" "rfold (\<lambda>(i, e). put i e) es y = Inr x'"
    and i: "i \<noteq> - 1" by (auto simp: rbind_eq_Inr)
  from put_inv [OF Cons.prems(1) i y(1)] have "inv y" .
  from Cons.IH [OF this _ y(2)] Cons.prems(2)
  have "entry_at x' j = (case entry_at y j of Some e \<Rightarrow> Some e | None \<Rightarrow> map_of es j)" by simp
  then show ?case
    using put_at [OF Cons.prems(1) i y(1), of j] by (auto simp: ie split: option.splits)
qed

lemma free_ge: "inv x \<Longrightarrow> (\<And>i. i < n \<Longrightarrow> entry_at x i \<noteq> None) \<Longrightarrow> n \<le> free x"
  using free_none by (metis not_less)

lemma puts_covers:
  assumes "inv x" and "- 1 \<notin> fst ` set es" and "rfold (\<lambda>(i, e). put i e) es x = Inr x'"
    and "\<And>i. i < n \<Longrightarrow> entry_at x i \<noteq> None \<or> i \<in> fst ` set es"
  shows "n \<le> free x'"
proof (rule free_ge [OF puts_inv [OF assms(1-3)]])
  fix i assume "i < n"
  have "map_of es i \<noteq> None" if "i \<in> fst ` set es" using that by (simp add: map_of_eq_None_iff)
  with assms(4) [OF \<open>i < n\<close>] puts_at [OF assms(1-3), of i] show "entry_at x' i \<noteq> None"
    by (auto split: option.splits)
qed

lemma puts_free_mono:
  assumes "inv x" and "- 1 \<notin> fst ` set es" and "rfold (\<lambda>(i, e). put i e) es x = Inr x'"
  shows "free x \<le> free x'"
  by (rule puts_covers [OF assms]) (simp add: below_free assms(1))

end

interpretation log_store: entry_store "\<lambda>x. log_inv (fst x)" "\<lambda>x. log (fst x)" "\<lambda>x. first_free (fst x)" set_entry
proof
  fix x x' :: "'s paxos_log \<times> 's" and i j :: index_t and e
  obtain pl s pl' s' where x: "x = (pl, s)" "x' = (pl', s')" by (cases x, cases x')
  assume inv: "log_inv (fst x)"
  then show "log (fst x) (first_free (fst x)) = None" by (simp add: first_free_not_in_log)
  show "log (fst x) i \<noteq> None" if "i < first_free (fst x)"
    using inv that below_first_free by blast
  assume i: "i \<noteq> - 1" and put: "set_entry i e x = Inr x'"
  with inv show "log_inv (fst x')" unfolding x by (auto intro: set_entry_log_inv)
  from inv i put show "log (fst x') j = (if j = i \<and> log (fst x) i = None then Some e else log (fst x) j)"
    unfolding x by (simp add: set_entry_lookup)
qed

section \<open>Sequences of entries\<close>

text \<open>What a sequence of \<open>set_entry\<close> calls stores, leaving the callbacks aside.\<close>

definition set_entries :: "(index_t \<times> paxos_log_entry) list \<Rightarrow> 's paxos_log \<times> 's \<Rightarrow> ('s paxos_log \<times> 's) result" where
  "set_entries es x = rfold (\<lambda>(i, e). set_entry i e) es x"

definition store_entry :: "index_t \<times> paxos_log_entry \<Rightarrow> 's paxos_log \<Rightarrow> 's paxos_log" where
  "store_entry ie pl = (if log pl (fst ie) = None then fill_index (fst ie) (snd ie) pl else pl)"

lemma store_entry_simps [simp]:
  "callbacks (store_entry ie pl) = callbacks pl"
  "log (store_entry (i, e) pl) j = (if j = i \<and> log pl i = None then Some e else log pl j)"
  by (auto simp: store_entry_def fill_index_def)

lemma store_entry_inv: "log_inv pl \<Longrightarrow> fst ie \<noteq> - 1 \<Longrightarrow> log_inv (store_entry ie pl)"
  by (simp add: store_entry_def log_inv_fill_index)

lemma store_entry_first_free:
  "log_inv pl \<Longrightarrow> fst ie \<noteq> - 1 \<Longrightarrow> first_free pl \<le> first_free (store_entry ie pl)"
  by (simp add: store_entry_def first_free_fill_index)

lemma set_entry_store:
  assumes "log_inv pl" and "i \<noteq> - 1"
  shows "set_entry i e (pl, s) =
    rbind (apply_range (callbacks pl) (log (store_entry (i, e) pl)) (first_free pl)
      (first_free (store_entry (i, e) pl)) s) (\<lambda>s'. Inr (store_entry (i, e) pl, s'))"
proof (cases "log pl i")
  case None
  then show ?thesis
    using set_entry_free [OF assms(1) None assms(2)] by (simp add: store_entry_def)
next
  case (Some e')
  then show ?thesis
    using set_entry_present [OF assms(1) Some] by (simp add: store_entry_def)
qed

lemma fold_store_inv:
  "log_inv pl \<Longrightarrow> - 1 \<notin> fst ` set es \<Longrightarrow> log_inv (fold store_entry es pl)"
  by (induction es arbitrary: pl) (auto simp: store_entry_inv)

lemma fold_store_callbacks [simp]: "callbacks (fold store_entry es pl) = callbacks pl"
  by (induction es arbitrary: pl) auto

lemma fold_store_log:
  "log (fold store_entry es pl) j = (case log pl j of Some e \<Rightarrow> Some e | None \<Rightarrow> map_of es j)"
proof (induction es arbitrary: pl)
  case (Cons ie es)
  then show ?case by (cases ie) (auto split: option.splits)
qed (simp split: option.splits)

lemma fold_store_first_free:
  "log_inv pl \<Longrightarrow> - 1 \<notin> fst ` set es \<Longrightarrow> first_free pl \<le> first_free (fold store_entry es pl)"
proof (induction es arbitrary: pl)
  case (Cons ie es)
  then have "first_free pl \<le> first_free (store_entry ie pl)" by (intro store_entry_first_free) auto
  also have "\<dots> \<le> first_free (fold store_entry es (store_entry ie pl))"
    using Cons by (intro Cons.IH store_entry_inv) auto
  finally show ?case by simp
qed simp

text \<open>
  A sequence of entries stores the first entry of each index and runs the callbacks of the
  indices that became contiguous, once each and in increasing order.
\<close>

lemma set_entries_fold:
  assumes "log_inv pl" and "- 1 \<notin> fst ` set es"
  shows "set_entries es (pl, s) =
    rbind (apply_range (callbacks pl) (log (fold store_entry es pl)) (first_free pl)
      (first_free (fold store_entry es pl)) s) (\<lambda>s'. Inr (fold store_entry es pl, s'))"
  using assms
proof (induction es arbitrary: pl s)
  case (Cons ie es)
  obtain i e where ie: "ie = (i, e)" by (cases ie)
  let ?q = "store_entry ie pl" and ?r = "fold store_entry es (store_entry ie pl)"
  have i: "i \<noteq> - 1" and es: "- 1 \<notin> fst ` set es" using Cons.prems ie by auto
  have q: "log_inv ?q" using Cons.prems ie i by (simp add: store_entry_inv)
  have le1: "first_free pl \<le> first_free ?q" using Cons.prems ie i by (simp add: store_entry_first_free)
  have le2: "first_free ?q \<le> first_free ?r" using fold_store_first_free [OF q es] .
  have same: "apply_range (callbacks pl) (log ?q) (first_free pl) (first_free ?q) s =
      apply_range (callbacks pl) (log ?r) (first_free pl) (first_free ?q) s"
    by (rule apply_range_cong) (use below_first_free [OF q] in \<open>fastforce simp: fold_store_log\<close>)
  have step: "set_entries (ie # es) (pl, s) =
      rbind (apply_range (callbacks pl) (log ?q) (first_free pl) (first_free ?q) s)
        (\<lambda>s'. set_entries es (?q, s'))"
    using set_entry_store [OF Cons.prems(1) i, of e s]
    by (simp add: set_entries_def ie rbind_assoc)
  have rest: "set_entries es (?q, s') =
      rbind (apply_range (callbacks pl) (log ?r) (first_free ?q) (first_free ?r) s') (\<lambda>s''. Inr (?r, s''))"
    for s' using Cons.IH [OF q es, of s'] by simp
  show ?case
    unfolding step same rest by (simp add: apply_range_append [OF le1 le2] rbind_assoc)
qed (simp add: set_entries_def)

lemma holes_unique: "holes av D \<Longrightarrow> holes av' D \<Longrightarrow> av = av'"
proof -
  assume h: "holes av D" and h': "holes av' D"
  have "last av = last av'"
  proof (rule ccontr)
    assume "last av \<noteq> last av'"
    moreover have "last av \<notin> D" "last av' \<notin> D" using h h' holes_last by auto
    moreover have "D \<subseteq> {..<last av}" "D \<subseteq> {..<last av'}" using h h' by (auto simp: holes_def)
    ultimately show False
      using h h' by (cases "last av" "last av'" rule: linorder_cases) (auto simp: holes_def, (meson lessThan_iff not_less subsetD)+)
  qed
  with h h' show ?thesis by (auto simp: holes_def intro: strict_sorted_unique)
qed

lemma log_inv_unique:
  assumes "log_inv pl" and "log_inv pl'" and "log pl = log pl'" and "callbacks pl = callbacks pl'"
  shows "pl = (pl' :: 's paxos_log)"
proof -
  have "available_indices pl = available_indices pl'"
    using assms unfolding log_inv_def by (metis holes_unique)
  with assms show ?thesis by (cases pl; cases pl') simp
qed

lemma log_inv_callbacks [simp]: "log_inv (pl\<lparr>callbacks := cbs\<rparr>) \<longleftrightarrow> log_inv pl"
  by (simp add: log_inv_def)

lemma first_free_empty [simp]: "first_free (PaxosLog\<lparr>callbacks := cbs\<rparr>) = 0"
  by (simp add: first_free_def PaxosLog_def)

lemma set_entries_log_inv:
  "log_inv pl \<Longrightarrow> - 1 \<notin> fst ` set es \<Longrightarrow> set_entries es (pl, s) = Inr (pl', s') \<Longrightarrow>
   log_inv pl' \<and> callbacks pl' = callbacks pl \<and> pl' = fold store_entry es pl"
  by (cases "apply_range (callbacks pl) (log (fold store_entry es pl)) (first_free pl)
      (first_free (fold store_entry es pl)) s") (auto simp: set_entries_fold fold_store_inv)

lemma set_entries_replay:
  assumes "- 1 \<notin> fst ` set es" and "set_entries es (PaxosLog\<lparr>callbacks := cbs\<rparr>, s) = Inr (pl, s')"
  shows "log pl = map_of es \<and> replay cbs (map_of es) (first_free pl) s = Inr s'"
proof -
  let ?p = "PaxosLog\<lparr>callbacks := cbs\<rparr> :: 'a paxos_log"
  have inv: "log_inv ?p" by (simp add: log_inv_PaxosLog)
  have pl: "pl = fold store_entry es ?p" using set_entries_log_inv [OF inv assms] by simp
  have m: "log (fold store_entry es ?p) = map_of es"
    by (rule ext) (simp add: fold_store_log PaxosLog_def)
  have "apply_range cbs (map_of es) 0 (first_free pl) s = Inr s'"
    using assms(2) unfolding set_entries_fold [OF inv assms(1)]
    by (auto simp: pl m rbind_eq_Inr)
  with pl m show ?thesis by (simp add: replay_def)
qed

text \<open>One entry keeps the client state the replay of the contiguous prefix.\<close>

lemma set_entry_replay:
  assumes inv: "log_inv pl" "i \<noteq> - 1" and run: "set_entry i e (pl, s) = Inr (pl', s')"
    and rep: "replay (callbacks pl) (log pl) (first_free pl) s0 = Inr s"
  shows "replay (callbacks pl) (log pl') (first_free pl') s0 = Inr s'"
proof -
  have pl': "pl' = store_entry (i, e) pl"
    and app: "apply_range (callbacks pl) (log pl') (first_free pl) (first_free pl') s = Inr s'"
    using run unfolding set_entry_store [OF inv] by (auto simp: rbind_eq_Inr)
  have "replay (callbacks pl) (log pl') (first_free pl) s0 = replay (callbacks pl) (log pl) (first_free pl) s0"
    unfolding replay_def pl' by (rule apply_range_cong) (use below_first_free [OF inv(1)] in fastforce)
  moreover have "first_free pl \<le> first_free pl'"
    unfolding pl' using inv by (intro store_entry_first_free) simp_all
  ultimately show ?thesis using rep app by (simp add: replay_append)
qed

section \<open>Properties\<close>

text \<open>
  C1: the log does not depend on the order in which entries are learned. Two sequences of
  \<open>set_entry\<close> calls that give each index the same first entry end in the same log, the same
  free indices and the same client state, or in the same error, whichever index arrived first.
\<close>

theorem set_entries_order_independent:
  assumes "log_inv pl" and "- 1 \<notin> fst ` set es" and "map_of es = map_of es'"
  shows "set_entries es (pl, s) = set_entries es' (pl, s)"
proof -
  from assms(3) have "fst ` set es = fst ` set es'" by (metis dom_map_of_conv_image_fst)
  with assms(2) have es': "- 1 \<notin> fst ` set es'" by simp
  have "fold store_entry es pl = fold store_entry es' pl"
  proof (rule log_inv_unique)
    show "log (fold store_entry es pl) = log (fold store_entry es' pl)"
      using assms(3) by (intro ext) (simp add: fold_store_log split: option.splits)
  qed (simp_all add: fold_store_inv assms(1,2) es')
  then show ?thesis
    using set_entries_fold [OF assms(1,2)] set_entries_fold [OF assms(1) es'] by simp
qed

text \<open>A callback that records the indices it is given.\<close>

definition record_indices :: "content_case \<Rightarrow> index_t list log_callback list" where
  "record_indices _ = [\<lambda>i e s. Inr (s @ [i])]"

theorem set_entries_order_independent_witness:
  "set_entries [(2, ReconfigFinished), (0, ReconfigStarted []), (1, ReconfigFinished)]
     (PaxosLog\<lparr>callbacks := record_indices\<rparr>, []) =
   set_entries [(0, ReconfigStarted []), (1, ReconfigFinished), (2, ReconfigFinished)]
     (PaxosLog\<lparr>callbacks := record_indices\<rparr>, [])"
proof (rule set_entries_order_independent)
  show "log_inv (PaxosLog\<lparr>callbacks := record_indices\<rparr>)" by (simp add: log_inv_PaxosLog)
qed (auto simp: fun_eq_iff)

text \<open>
  C2: two replicas that learned entries in any order, and never learned different entries for
  one index, never diverge: the state derived by the one that is behind is a state the other
  went through, and running the callbacks of the indices in between leads from one to the other.
\<close>

theorem replicas_never_diverge:
  assumes "- 1 \<notin> fst ` set es" and "- 1 \<notin> fst ` set es'"
    and "set_entries es (PaxosLog\<lparr>callbacks := cbs\<rparr>, s) = Inr (pl, t)"
    and "set_entries es' (PaxosLog\<lparr>callbacks := cbs\<rparr>, s) = Inr (pl', t')"
    and "\<forall>i e e'. map_of es i = Some e \<longrightarrow> map_of es' i = Some e' \<longrightarrow> e = e'"
    and "first_free pl \<le> first_free pl'"
  shows "apply_range cbs (log pl') (first_free pl) (first_free pl') t = Inr t'"
proof -
  have inv: "log_inv (PaxosLog\<lparr>callbacks := cbs\<rparr>)" by (simp add: log_inv_PaxosLog)
  note inv1 = set_entries_log_inv [OF inv assms(1,3)] and inv2 = set_entries_log_inv [OF inv assms(2,4)]
  note r1 = set_entries_replay [OF assms(1,3)] and r2 = set_entries_replay [OF assms(2,4)]
  have "map_of es i = map_of es' i" if "i < first_free pl" for i
    using below_first_free [of pl i] below_first_free [of pl' i] inv1 inv2 r1 r2 that assms(5,6)
    by (metis order.strict_trans2)
  then have "replay cbs (map_of es') (first_free pl) s = replay cbs (map_of es) (first_free pl) s"
    unfolding replay_def by (intro apply_range_cong) simp
  with replay_append [OF assms(6), of cbs "map_of es'" s] r1 r2 show ?thesis by simp
qed

theorem replicas_never_diverge_witness:
  "apply_range record_indices (map_of [(1, ReconfigFinished), (0, ReconfigStarted [])]) 1 2 [0] = Inr [0, 1]"
proof -
  have run: "set_entries [(0, ReconfigStarted [])] (PaxosLog\<lparr>callbacks := record_indices\<rparr>, []) =
      Inr (\<lparr>log = [0 \<mapsto> ReconfigStarted []], available_indices = [1], callbacks = record_indices\<rparr>, [0])"
    by (simp add: set_entries_def set_entry_def next_available_index_def PaxosLog_def take_index_def
        log_insert_def word_upt_Cons invoke_callbacks_def log_at_def record_indices_def)
  have run': "set_entries [(1, ReconfigFinished), (0, ReconfigStarted [])]
      (PaxosLog\<lparr>callbacks := record_indices\<rparr>, []) =
      Inr (\<lparr>log = [1 \<mapsto> ReconfigFinished, 0 \<mapsto> ReconfigStarted []], available_indices = [2],
        callbacks = record_indices\<rparr>, [0, 1])"
    by (simp add: set_entries_def set_entry_def next_available_index_def PaxosLog_def take_index_def
        log_insert_def word_upt_Cons invoke_callbacks_def log_at_def record_indices_def)
  have "map_of [(1::index_t, ReconfigFinished), (0, ReconfigStarted [])] =
      [1 \<mapsto> ReconfigFinished, 0 \<mapsto> ReconfigStarted []]"
    by (auto simp: fun_eq_iff)
  with replicas_never_diverge [OF _ _ run run'] show ?thesis
    by (simp add: first_free_def split: if_splits)
qed

text \<open>
  C3: whatever was learned, \<open>set_entry\<close> and \<open>next_available_index\<close> never fail one of the log's
  own assertions (only a client's callback can throw), the index offered is the first one
  with no entry, and an entry once stored is never replaced.
\<close>

theorem log_operations_safe:
  assumes "log_inv pl" and "- 1 \<notin> fst ` set es"
    and "\<forall>cc f i e t. f \<in> set (callbacks pl cc) \<longrightarrow> is_ok (f i e t)"
  shows "\<exists>pl' s' i. set_entries es (pl, s) = Inr (pl', s') \<and> next_available_index pl' = Inr i \<and>
    log pl' i = None \<and> (\<forall>j<i. log pl' j \<noteq> None) \<and>
    (\<forall>j. log pl' j = (case log pl j of Some e \<Rightarrow> Some e | None \<Rightarrow> map_of es j))"
proof -
  let ?q = "fold store_entry es pl"
  have ok: "\<exists>t'. rfold (\<lambda>f. f i e) fs t = Inr t'"
    if "\<forall>f\<in>set fs. \<forall>t. is_ok (f i e t)" for i e fs and t
    using that by (induction fs arbitrary: t) (auto simp: is_ok_iff rbind_eq_Inr, metis)
  have "\<exists>t'. rfold (\<lambda>i. apply_entry (callbacks pl) i (the (m i))) is t = Inr t'" for m "is" t
  proof (induction "is" arbitrary: t)
    case (Cons i "is")
    obtain t1 where "apply_entry (callbacks pl) i (the (m i)) t = Inr t1"
      unfolding apply_entry_def using ok assms(3) by metis
    with Cons show ?case by simp
  qed simp
  then obtain s' where "apply_range (callbacks pl) (log ?q) (first_free pl) (first_free ?q) s = Inr s'"
    unfolding apply_range_def by blast
  then have run: "set_entries es (pl, s) = Inr (?q, s')" by (simp add: set_entries_fold assms)
  have inv: "log_inv ?q" using assms by (simp add: fold_store_inv)
  with run show ?thesis
    using first_free_not_in_log [OF inv] below_first_free [OF inv] by (auto simp: fold_store_log)
qed

theorem log_operations_safe_witness:
  "\<exists>pl' s' i. set_entries [(1, ReconfigFinished)] (PaxosLog\<lparr>callbacks := record_indices\<rparr>, []) = Inr (pl', s') \<and>
     next_available_index pl' = Inr i \<and> log pl' i = None"
  using log_operations_safe [of "PaxosLog\<lparr>callbacks := record_indices\<rparr>" "[(1, ReconfigFinished)]" "[]"]
  by (fastforce simp: log_inv_PaxosLog record_indices_def)

end
