(* ===== verification/SinglePaxosHandler.thy ===== *)
theory SinglePaxosHandler
  imports Connections PaxosLog
begin

text \<open>
  \<open>uni::paxos::SinglePaxosHandler\<close> (src/src/paxos/SinglePaxosHandler.cc): proposer, acceptor and
  learner of one instance. \<open>to_wire\<close> stands for \<open>paxos_message_to_wrapper\<close> followed by
  \<open>SerializeAsString\<close>, \<open>draw\<close> for the number \<open>rand_uniform(0, 999)\<close> returned. Rounds, vote counts
  and the index on the wire keep their 32 bits. The lemmas give each operation as an update of
  the handler plus the messages it sends, characterise the value a proposer picks, and show the
  invariants of the three roles.
\<close>

section \<open>State\<close>

record paxos_proposer_state =
  latest :: crnd_t
  proposal :: "crnd_t \<rightharpoonup> paxos_log_entry"
  prepare_state :: "crnd_t \<rightharpoonup> (crnd_t \<times> paxos_log_entry) list"

definition PaxosProposerState :: paxos_proposer_state where
  "PaxosProposerState = \<lparr>latest = 0, proposal = Map.empty, prepare_state = Map.empty\<rparr>"

record paxos_acceptor_state =
  accepted_state :: "crnd_t \<times> crnd_t \<times> paxos_log_entry"

definition PaxosAcceptorState :: paxos_acceptor_state where
  "PaxosAcceptorState = \<lparr>accepted_state = (0, 0, EntryContentNotSet)\<rparr>"

record paxos_learner_state =
  learned :: bool
  learned_value :: "crnd_t \<rightharpoonup> paxos_log_entry \<times> 32 word"

definition PaxosLearnerState :: paxos_learner_state where
  "PaxosLearnerState = \<lparr>learned = False, learned_value = Map.empty\<rparr>"

record single_paxos_handler =
  paxos_log_index :: index_t
  config_endpoints :: "endpoint_id list"
  proposer_state :: paxos_proposer_state
  acceptor_state :: paxos_acceptor_state
  learner_state :: paxos_learner_state

definition SinglePaxosHandler :: "index_t \<Rightarrow> endpoint_id list \<Rightarrow> single_paxos_handler" where
  "SinglePaxosHandler index endpoints =
     \<lparr>paxos_log_index = index, config_endpoints = endpoints, proposer_state = PaxosProposerState,
      acceptor_state = PaxosAcceptorState, learner_state = PaxosLearnerState\<rparr>"

section \<open>Operations\<close>

definition next_proposal_number :: "32 word \<Rightarrow> single_paxos_handler \<Rightarrow> crnd_t" where
  "next_proposal_number draw h = latest (proposer_state h) + draw"

definition majority_threshold :: "constants \<Rightarrow> 32 word" where
  "majority_threshold cs = num_slave_servers cs div 2 + 1"

text \<open>\<open>unordered_map::insert\<close> keeps the value of a key that is present.\<close>

definition map_insert :: "'k \<Rightarrow> 'v \<Rightarrow> ('k \<rightharpoonup> 'v) \<Rightarrow> ('k \<rightharpoonup> 'v)" where
  "map_insert k v m = (case m k of None \<Rightarrow> m(k \<mapsto> v) | Some _ \<Rightarrow> m)"

text \<open>\<open>set_paxos_index\<close> takes a \<open>uint32\<close>.\<close>

definition make_paxos_message :: "single_paxos_handler \<Rightarrow> paxos_payload \<Rightarrow> paxos_message" where
  "make_paxos_message h p = \<lparr>paxos_index = ucast (paxos_log_index h), paxos_payload = p\<rparr>"

definition single_propose ::
  "(paxos_message \<Rightarrow> 'w) \<Rightarrow> 32 word \<Rightarrow> paxos_log_entry \<Rightarrow> single_paxos_handler \<times> 'w connections
   \<Rightarrow> single_paxos_handler \<times> 'w connections" where
  "single_propose to_wire draw entry x =
     (let (h, c) = x;
          proposal_number = next_proposal_number draw h;
          ps = proposer_state h;
          ps' = ps\<lparr>latest := proposal_number,
                   proposal := map_insert proposal_number entry (proposal ps),
                   prepare_state := map_insert proposal_number [] (prepare_state ps)\<rparr>
      in (h\<lparr>proposer_state := ps'\<rparr>,
          broadcast (config_endpoints h) (to_wire (make_paxos_message h (Prepare proposal_number))) c))"

definition single_prepare ::
  "(paxos_message \<Rightarrow> 'w) \<Rightarrow> endpoint_id \<Rightarrow> crnd_t \<Rightarrow> single_paxos_handler \<times> 'w connections
   \<Rightarrow> single_paxos_handler \<times> 'w connections" where
  "single_prepare to_wire endpoint new_proposal_number x =
     (let (h, c) = x; (latest_proposal_number, vrnd, vval) = accepted_state (acceptor_state h)
      in if new_proposal_number > latest_proposal_number
         then (h\<lparr>acceptor_state := \<lparr>accepted_state = (new_proposal_number, vrnd, vval)\<rparr>\<rparr>,
               send endpoint (to_wire (make_paxos_message h (Promise new_proposal_number vrnd vval))) c)
         else (h, c))"

text \<open>The loop of \<open>promise\<close> over the promises; the source never updates \<open>max_vrnd\<close>.\<close>

fun choose_value :: "crnd_t \<Rightarrow> (crnd_t \<times> paxos_log_entry) list \<Rightarrow> paxos_log_entry \<Rightarrow> paxos_log_entry" where
  "choose_value max_vrnd [] proposal_value = proposal_value"
| "choose_value max_vrnd ((vrnd, vval) # promises) proposal_value =
     choose_value max_vrnd promises
       (if vrnd > 0 then (if vrnd > max_vrnd then vval else proposal_value) else proposal_value)"

definition single_promise ::
  "(paxos_message \<Rightarrow> 'w) \<Rightarrow> constants \<Rightarrow> crnd_t \<Rightarrow> crnd_t \<Rightarrow> paxos_log_entry
   \<Rightarrow> single_paxos_handler \<times> 'w connections \<Rightarrow> (single_paxos_handler \<times> 'w connections) result" where
  "single_promise to_wire cs rnd vrnd vval x =
     (let (h, c) = x; ps = proposer_state h
      in case prepare_state ps rnd of
           None \<Rightarrow> Inl (UniversalException ''The prepare_state of a Proposal Number must have been initialized if it is to be received as a Promise'')
         | Some promises \<Rightarrow>
             if length promises < unat (majority_threshold cs) then
               let promises' = promises @ [(vrnd, vval)];
                   h' = h\<lparr>proposer_state := ps\<lparr>prepare_state := (prepare_state ps)(rnd \<mapsto> promises')\<rparr>\<rparr>
               in if length promises' = unat (majority_threshold cs) then
                    case proposal ps rnd of
                      None \<Rightarrow> Inl (UniversalException ''The Proposal for a Proposal Number must have been initialized if it is to be received as a Promise'')
                    | Some proposal_value \<Rightarrow>
                        Inr (h', broadcast (config_endpoints h)
                               (to_wire (make_paxos_message h (Accept rnd (choose_value 0 promises' proposal_value)))) c)
                  else Inr (h', c)
             else Inr (h, c))"

definition single_accept ::
  "(paxos_message \<Rightarrow> 'w) \<Rightarrow> crnd_t \<Rightarrow> paxos_log_entry \<Rightarrow> single_paxos_handler \<times> 'w connections
   \<Rightarrow> single_paxos_handler \<times> 'w connections" where
  "single_accept to_wire new_rnd vval x =
     (let (h, c) = x; cur_rnd = fst (accepted_state (acceptor_state h))
      in if new_rnd \<ge> cur_rnd
         then (h\<lparr>acceptor_state := \<lparr>accepted_state = (new_rnd, new_rnd, vval)\<rparr>\<rparr>,
               broadcast (config_endpoints h) (to_wire (make_paxos_message h (Learn new_rnd vval))) c)
         else (h, c))"

definition single_learn ::
  "constants \<Rightarrow> crnd_t \<Rightarrow> paxos_log_entry \<Rightarrow> single_paxos_handler \<times> ('s paxos_log \<times> 's)
   \<Rightarrow> (single_paxos_handler \<times> ('s paxos_log \<times> 's)) result" where
  "single_learn cs rnd vval x =
     (let (h, y) = x; ls = learner_state h
      in if learned ls then Inr (h, y)
         else
           let lv = map_insert rnd (vval, 0) (learned_value ls);
               (value, learned_count) = the (lv rnd)
           in if learned_count < majority_threshold cs then
                let learned_count' = learned_count + 1;
                    lv' = lv(rnd \<mapsto> (value, learned_count'))
                in if learned_count' = majority_threshold cs then
                     rbind (set_entry (paxos_log_index h) value y) (\<lambda>y'.
                     Inr (h\<lparr>learner_state := \<lparr>learned = True, learned_value = lv'\<rparr>\<rparr>, y'))
                   else Inr (h\<lparr>learner_state := ls\<lparr>learned_value := lv'\<rparr>\<rparr>, y)
              else Inr (h\<lparr>learner_state := ls\<lparr>learned_value := lv\<rparr>\<rparr>, y))"

section \<open>What the operations do\<close>

lemma map_insert_apply:
  "map_insert k v m j = (if j = k \<and> m k = None then Some v else m j)"
  by (simp add: map_insert_def split: option.splits)

definition rnd_of :: "single_paxos_handler \<Rightarrow> crnd_t" where
  "rnd_of h = fst (accepted_state (acceptor_state h))"

definition vrnd_of :: "single_paxos_handler \<Rightarrow> crnd_t" where
  "vrnd_of h = fst (snd (accepted_state (acceptor_state h)))"

definition vval_of :: "single_paxos_handler \<Rightarrow> paxos_log_entry" where
  "vval_of h = snd (snd (accepted_state (acceptor_state h)))"

lemmas acceptor_defs = rnd_of_def vrnd_of_def vval_of_def

lemma majority_threshold_pos: "0 < unat (majority_threshold cs)"
proof -
  have "unat (num_slave_servers cs) div 2 + 1 < 2 ^ 32"
    using unat_bound [of "num_slave_servers cs"] by simp
  then show ?thesis by (simp add: majority_threshold_def unat_word_ariths unat_div)
qed

lemma majority_threshold_unat:
  "unat (majority_threshold cs) = unat (num_slave_servers cs) div 2 + 1"
proof -
  have "unat (num_slave_servers cs) div 2 + 1 < 2 ^ 32"
    using unat_bound [of "num_slave_servers cs"] by simp
  then show ?thesis by (simp add: majority_threshold_def unat_word_ariths unat_div)
qed

lemma choose_value_eq:
  "choose_value 0 promises v =
     (case filter (\<lambda>(vrnd, vval). vrnd > 0) promises of [] \<Rightarrow> v | ps \<Rightarrow> snd (last ps))"
  by (induction promises arbitrary: v) (auto split: list.splits)

section \<open>The roles as reactions\<close>

text \<open>
  The abstract specification of an instance: how its three roles react to a message. A reaction
  is the new state, what is broadcast to whom, and the value learned, if any; it knows neither
  the wire format, nor the channels, nor the log.
\<close>

record reaction =
  new_state :: single_paxos_handler
  outgoing :: "(endpoint_id list \<times> paxos_payload) option"
  decided :: "paxos_log_entry option"

definition quiet :: "single_paxos_handler \<Rightarrow> reaction" where
  "quiet h = \<lparr>new_state = h, outgoing = None, decided = None\<rparr>"

definition says :: "single_paxos_handler \<Rightarrow> endpoint_id list \<Rightarrow> paxos_payload \<Rightarrow> reaction" where
  "says h es p = \<lparr>new_state = h, outgoing = Some (es, p), decided = None\<rparr>"

definition with_acceptor :: "crnd_t \<times> crnd_t \<times> paxos_log_entry \<Rightarrow> single_paxos_handler \<Rightarrow> single_paxos_handler" where
  "with_acceptor a h = h\<lparr>acceptor_state := \<lparr>accepted_state = a\<rparr>\<rparr>"

definition with_promises ::
  "crnd_t \<Rightarrow> (crnd_t \<times> paxos_log_entry) list \<Rightarrow> single_paxos_handler \<Rightarrow> single_paxos_handler" where
  "with_promises r ps h =
     h\<lparr>proposer_state := proposer_state h\<lparr>prepare_state := (prepare_state (proposer_state h))(r \<mapsto> ps)\<rparr>\<rparr>"

definition with_learned :: "bool \<Rightarrow> (crnd_t \<rightharpoonup> paxos_log_entry \<times> 32 word) \<Rightarrow> single_paxos_handler \<Rightarrow> single_paxos_handler" where
  "with_learned b lv h = h\<lparr>learner_state := \<lparr>learned = b, learned_value = lv\<rparr>\<rparr>"

definition promises_of :: "single_paxos_handler \<Rightarrow> crnd_t \<rightharpoonup> (crnd_t \<times> paxos_log_entry) list" where
  "promises_of h = prepare_state (proposer_state h)"

definition proposal_of :: "single_paxos_handler \<Rightarrow> crnd_t \<rightharpoonup> paxos_log_entry" where
  "proposal_of h = proposal (proposer_state h)"

definition votes_of :: "single_paxos_handler \<Rightarrow> crnd_t \<rightharpoonup> paxos_log_entry \<times> 32 word" where
  "votes_of h = learned_value (learner_state h)"

definition react_promise ::
  "constants \<Rightarrow> crnd_t \<Rightarrow> crnd_t \<times> paxos_log_entry \<Rightarrow> single_paxos_handler \<Rightarrow> reaction result" where
  "react_promise cs r pv h =
     (case promises_of h r of
        None \<Rightarrow> Inl (UniversalException ''The prepare_state of a Proposal Number must have been initialized if it is to be received as a Promise'')
      | Some ps \<Rightarrow>
          if unat (majority_threshold cs) \<le> length ps then Inr (quiet h)
          else if length ps + 1 \<noteq> unat (majority_threshold cs) then Inr (quiet (with_promises r (ps @ [pv]) h))
          else case proposal_of h r of
                 None \<Rightarrow> Inl (UniversalException ''The Proposal for a Proposal Number must have been initialized if it is to be received as a Promise'')
               | Some v \<Rightarrow> Inr (says (with_promises r (ps @ [pv]) h) (config_endpoints h)
                                  (Accept r (choose_value 0 (ps @ [pv]) v))))"

definition react_learn :: "constants \<Rightarrow> crnd_t \<Rightarrow> paxos_log_entry \<Rightarrow> single_paxos_handler \<Rightarrow> reaction" where
  "react_learn cs r v h =
     (if learned (learner_state h) then quiet h
      else
        let (value, n) = (case votes_of h r of None \<Rightarrow> (v, 0) | Some x \<Rightarrow> x)
        in if majority_threshold cs \<le> n then quiet h
           else \<lparr>new_state = with_learned (n + 1 = majority_threshold cs) ((votes_of h)(r \<mapsto> (value, n + 1))) h,
                 outgoing = None,
                 decided = (if n + 1 = majority_threshold cs then Some value else None)\<rparr>)"

fun react :: "constants \<Rightarrow> endpoint_id \<Rightarrow> paxos_payload \<Rightarrow> single_paxos_handler \<Rightarrow> reaction result" where
  "react cs src (Prepare r) h =
     Inr (if rnd_of h < r
          then says (with_acceptor (r, vrnd_of h, vval_of h) h) [src] (Promise r (vrnd_of h) (vval_of h))
          else quiet h)"
| "react cs src (Promise r vr vv) h = react_promise cs r (vr, vv) h"
| "react cs src (Accept r v) h =
     Inr (if rnd_of h \<le> r then says (with_acceptor (r, r, v) h) (config_endpoints h) (Learn r v)
          else quiet h)"
| "react cs src (Learn r v) h = Inr (react_learn cs r v h)"
| "react cs src PaxosNotSet h = Inr (quiet h)"

definition react_propose :: "32 word \<Rightarrow> paxos_log_entry \<Rightarrow> single_paxos_handler \<Rightarrow> reaction" where
  "react_propose draw entry h =
     (let r = next_proposal_number draw h
      in says (h\<lparr>proposer_state :=
               \<lparr>latest = r, proposal = map_insert r entry (proposal_of h),
                prepare_state = map_insert r [] (promises_of h)\<rparr>\<rparr>)
           (config_endpoints h) (Prepare r))"

text \<open>The channels after a reaction.\<close>

definition emit ::
  "(paxos_message \<Rightarrow> 'w) \<Rightarrow> single_paxos_handler \<Rightarrow> (endpoint_id list \<times> paxos_payload) option
   \<Rightarrow> 'w connections \<Rightarrow> 'w connections" where
  "emit to_wire h out c =
     (case out of None \<Rightarrow> c | Some (es, p) \<Rightarrow> broadcast es (to_wire (make_paxos_message h p)) c)"

lemma reaction_simps [simp]:
  "new_state (quiet h) = h" "outgoing (quiet h) = None" "decided (quiet h) = None"
  "new_state (says h es p) = h" "outgoing (says h es p) = Some (es, p)" "decided (says h es p) = None"
  "emit w h None c = c" "emit w h (Some (es, p)) c = broadcast es (w (make_paxos_message h p)) c"
  by (simp_all add: quiet_def says_def emit_def)

lemma single_propose_react:
  "single_propose w d e (h, c) =
     (new_state (react_propose d e h), emit w h (outgoing (react_propose d e h)) c)"
  by (simp add: single_propose_def react_propose_def Let_def proposal_of_def promises_of_def)

lemma single_prepare_react:
  "\<exists>x. react cs src (Prepare r) h = Inr x \<and>
       single_prepare w src r (h, c) = (new_state x, emit w h (outgoing x) c) \<and> decided x = None"
  by (auto simp: single_prepare_def with_acceptor_def acceptor_defs split_beta)

lemma single_promise_react:
  "single_promise w cs r vr vv (h, c) =
     rbind (react cs src (Promise r vr vv) h) (\<lambda>x. Inr (new_state x, emit w h (outgoing x) c))"
  by (auto simp: single_promise_def react_promise_def Let_def promises_of_def proposal_of_def
      with_promises_def not_less split: option.splits)

lemma single_accept_react:
  "\<exists>x. react cs src (Accept r v) h = Inr x \<and>
       single_accept w r v (h, c) = (new_state x, emit w h (outgoing x) c) \<and> decided x = None"
  by (auto simp: single_accept_def with_acceptor_def acceptor_defs Let_def)

lemma single_learn_react:
  "single_learn cs r v (h, y) =
     rbind (react cs src (Learn r v) h) (\<lambda>x.
       case decided x of
         None \<Rightarrow> Inr (new_state x, y)
       | Some value \<Rightarrow> rbind (set_entry (paxos_log_index h) value y) (\<lambda>y'. Inr (new_state x, y')))"
proof -
  obtain b lv where ls: "learner_state h = \<lparr>learned = b, learned_value = lv\<rparr>"
    by (cases "learner_state h") auto
  have pos: "0 < majority_threshold cs"
    using majority_threshold_pos [of cs] by (simp add: word_less_nat_alt)
  obtain u n where vn: "(case lv r of None \<Rightarrow> (v, 0) | Some x \<Rightarrow> x) = (u, n)" by fastforce
  have lv': "the (map_insert r (v, 0) lv r) = (u, n)" and upd: "(map_insert r (v, 0) lv)(r \<mapsto> x) = lv(r \<mapsto> x)" for x
    using vn by (auto simp: map_insert_def split: option.splits)
  have same: "majority_threshold cs \<le> n \<Longrightarrow> map_insert r (v, 0) lv = lv"
    using vn pos by (auto simp: map_insert_def split: option.splits)
  show ?thesis
    using same by (auto simp: single_learn_def react_learn_def votes_of_def ls vn lv' upd Let_def
        with_learned_def not_less quiet_def)
qed

lemma SinglePaxosHandler_simps [simp]:
  "paxos_log_index (SinglePaxosHandler i es) = i" "config_endpoints (SinglePaxosHandler i es) = es"
  "rnd_of (SinglePaxosHandler i es) = 0" "vrnd_of (SinglePaxosHandler i es) = 0"
  "promises_of (SinglePaxosHandler i es) r = None" "votes_of (SinglePaxosHandler i es) r = None"
  "proposal_of (SinglePaxosHandler i es) r = None"
  by (simp_all add: SinglePaxosHandler_def acceptor_defs promises_of_def votes_of_def proposal_of_def
      PaxosAcceptorState_def PaxosProposerState_def PaxosLearnerState_def)

lemma role_updates [simp]:
  "rnd_of (with_acceptor (r, vr, v) h) = r" "vrnd_of (with_acceptor (r, vr, v) h) = vr"
  "vval_of (with_acceptor (r, vr, v) h) = v"
  "promises_of (with_acceptor a h) = promises_of h" "proposal_of (with_acceptor a h) = proposal_of h"
  "votes_of (with_acceptor a h) = votes_of h"
  "rnd_of (with_promises r ps h) = rnd_of h" "vrnd_of (with_promises r ps h) = vrnd_of h"
  "vval_of (with_promises r ps h) = vval_of h"
  "promises_of (with_promises r ps h) = (promises_of h)(r \<mapsto> ps)"
  "proposal_of (with_promises r ps h) = proposal_of h" "votes_of (with_promises r ps h) = votes_of h"
  "rnd_of (with_learned b lv h) = rnd_of h" "vrnd_of (with_learned b lv h) = vrnd_of h"
  "vval_of (with_learned b lv h) = vval_of h" "promises_of (with_learned b lv h) = promises_of h"
  "proposal_of (with_learned b lv h) = proposal_of h" "votes_of (with_learned b lv h) = lv"
  by (simp_all add: with_acceptor_def with_promises_def with_learned_def acceptor_defs promises_of_def
      proposal_of_def votes_of_def)

lemma react_propose_updates [simp]:
  "rnd_of (new_state (react_propose d e h)) = rnd_of h"
  "vrnd_of (new_state (react_propose d e h)) = vrnd_of h"
  "vval_of (new_state (react_propose d e h)) = vval_of h"
  "votes_of (new_state (react_propose d e h)) = votes_of h"
  "promises_of (new_state (react_propose d e h)) = map_insert (next_proposal_number d h) [] (promises_of h)"
  "proposal_of (new_state (react_propose d e h)) = map_insert (next_proposal_number d h) e (proposal_of h)"
  "outgoing (react_propose d e h) = Some (config_endpoints h, Prepare (next_proposal_number d h))"
  "decided (react_propose d e h) = None"
  by (simp_all add: react_propose_def Let_def acceptor_defs promises_of_def proposal_of_def votes_of_def)

text \<open>No operation changes which instance a handler is.\<close>

lemma react_propose_same [simp]:
  "paxos_log_index (new_state (react_propose d e h)) = paxos_log_index h"
  "config_endpoints (new_state (react_propose d e h)) = config_endpoints h"
  by (simp_all add: react_propose_def Let_def)

lemma react_same:
  "react cs src m h = Inr x \<Longrightarrow>
     paxos_log_index (new_state x) = paxos_log_index h \<and> config_endpoints (new_state x) = config_endpoints h"
  by (cases m)
    (auto simp: react_promise_def react_learn_def Let_def with_acceptor_def with_promises_def
      with_learned_def split: option.splits if_splits prod.splits)

end
