(* ===== verification/MultiPaxosHandler.thy ===== *)
theory MultiPaxosHandler
  imports SinglePaxosHandler
begin

text \<open>
  \<open>uni::paxos::MultiPaxosHandler\<close> (src/src/paxos/MultiPaxosHandler.cc): one instance per index of
  the log, created on first use by \<open>_instance_provider\<close>. The provider reads the configuration of
  the index from a configuration manager that lives in the state derived from the log, so it takes
  that state, and may throw. A \<open>paxos_node\<close> gathers what the handler reaches by reference. The
  lemmas reduce both entry points to the reactions of one instance.
\<close>

section \<open>State and operations\<close>

record multi_paxos_handler =
  paxos_instances :: "index_t \<rightharpoonup> single_paxos_handler"

definition MultiPaxosHandler :: multi_paxos_handler where
  "MultiPaxosHandler = \<lparr>paxos_instances = Map.empty\<rparr>"

record ('w, 's) paxos_node =
  node_paxos :: multi_paxos_handler
  node_connections :: "'w connections"
  node_log :: "'s paxos_log"
  node_derived :: 's

type_synonym 's instance_provider = "'s \<Rightarrow> index_t \<Rightarrow> single_paxos_handler result"

definition get_instance ::
  "'s instance_provider \<Rightarrow> index_t \<Rightarrow> ('w, 's) paxos_node
   \<Rightarrow> (single_paxos_handler \<times> ('w, 's) paxos_node) result" where
  "get_instance provider index nd =
     (case paxos_instances (node_paxos nd) index of
        Some h \<Rightarrow> Inr (h, nd)
      | None \<Rightarrow>
          rbind (provider (node_derived nd) index) (\<lambda>h.
          Inr (h, nd\<lparr>node_paxos := \<lparr>paxos_instances = (paxos_instances (node_paxos nd))(index \<mapsto> h)\<rparr>\<rparr>)))"

text \<open>The instance is held by reference, so an operation on it changes the map's element.\<close>

definition put_instance :: "index_t \<Rightarrow> single_paxos_handler \<Rightarrow> ('w, 's) paxos_node \<Rightarrow> ('w, 's) paxos_node" where
  "put_instance index h nd =
     nd\<lparr>node_paxos := \<lparr>paxos_instances = (paxos_instances (node_paxos nd))(index \<mapsto> h)\<rparr>\<rparr>"

definition multi_propose ::
  "(paxos_message \<Rightarrow> 'w) \<Rightarrow> 's instance_provider \<Rightarrow> 32 word \<Rightarrow> paxos_log_entry
   \<Rightarrow> ('w, 's) paxos_node \<Rightarrow> ('w, 's) paxos_node result" where
  "multi_propose to_wire provider draw entry nd =
     rbind (next_available_index (node_log nd)) (\<lambda>index.
     rbind (get_instance provider index nd) (\<lambda>(h, nd).
     let (h', c) = single_propose to_wire draw entry (h, node_connections nd)
     in Inr (put_instance index h' (nd\<lparr>node_connections := c\<rparr>))))"

fun handle_incoming_message ::
  "(paxos_message \<Rightarrow> 'w) \<Rightarrow> constants \<Rightarrow> 's instance_provider \<Rightarrow> endpoint_id \<Rightarrow> paxos_message
   \<Rightarrow> ('w, 's) paxos_node \<Rightarrow> ('w, 's) paxos_node result" where
  "handle_incoming_message to_wire cs provider endpoint m nd =
     (let index = ucast (paxos_index m)
      in rbind (get_instance provider index nd) (\<lambda>(h, nd).
         case paxos_payload m of
           Prepare rnd \<Rightarrow>
             let (h', c) = single_prepare to_wire endpoint rnd (h, node_connections nd)
             in Inr (put_instance index h' (nd\<lparr>node_connections := c\<rparr>))
         | Promise rnd vrnd vval \<Rightarrow>
             rbind (single_promise to_wire cs rnd vrnd vval (h, node_connections nd)) (\<lambda>(h', c).
             Inr (put_instance index h' (nd\<lparr>node_connections := c\<rparr>)))
         | Accept vrnd vval \<Rightarrow>
             let (h', c) = single_accept to_wire vrnd vval (h, node_connections nd)
             in Inr (put_instance index h' (nd\<lparr>node_connections := c\<rparr>))
         | Learn vrnd vval \<Rightarrow>
             rbind (single_learn cs vrnd vval (h, (node_log nd, node_derived nd))) (\<lambda>(h', (pl, s)).
             Inr (put_instance index h' (nd\<lparr>node_log := pl, node_derived := s\<rparr>)))
         | PaxosNotSet \<Rightarrow> Inr nd))"

declare handle_incoming_message.simps [simp del]

section \<open>Both entry points as reactions of an instance\<close>

text \<open>The instance of an index, created if need be, and a node after one of its reactions.\<close>

definition instance_of ::
  "'s instance_provider \<Rightarrow> index_t \<Rightarrow> ('w, 's) paxos_node \<Rightarrow> single_paxos_handler result" where
  "instance_of provider index nd =
     (case paxos_instances (node_paxos nd) index of
        Some h \<Rightarrow> Inr h | None \<Rightarrow> provider (node_derived nd) index)"

definition apply_reaction ::
  "(paxos_message \<Rightarrow> 'w) \<Rightarrow> index_t \<Rightarrow> single_paxos_handler \<Rightarrow> reaction
   \<Rightarrow> ('w, 's) paxos_node \<Rightarrow> ('w, 's) paxos_node result" where
  "apply_reaction to_wire index h x nd =
     rbind (case decided x of
              None \<Rightarrow> Inr (node_log nd, node_derived nd)
            | Some v \<Rightarrow> set_entry (paxos_log_index h) v (node_log nd, node_derived nd)) (\<lambda>(pl, s).
     Inr (put_instance index (new_state x)
       (nd\<lparr>node_connections := emit to_wire h (outgoing x) (node_connections nd),
           node_log := pl, node_derived := s\<rparr>)))"

lemma put_instance_simps [simp]:
  "put_instance i h' (put_instance i h nd) = put_instance i h' nd"
  "node_connections (put_instance i h nd) = node_connections nd"
  "node_log (put_instance i h nd) = node_log nd"
  "node_derived (put_instance i h nd) = node_derived nd"
  "paxos_instances (node_paxos (put_instance i h nd)) = (paxos_instances (node_paxos nd))(i \<mapsto> h)"
  by (simp_all add: put_instance_def)

lemma get_instance_instance_of:
  "get_instance provider index nd =
     rbind (instance_of provider index nd) (\<lambda>h. Inr (h, put_instance index h nd))"
proof (cases "paxos_instances (node_paxos nd) index")
  case (Some h)
  then have "(paxos_instances (node_paxos nd))(index \<mapsto> h) = paxos_instances (node_paxos nd)"
    by (simp add: fun_upd_idem)
  with Some show ?thesis by (simp add: get_instance_def instance_of_def put_instance_def)
qed (simp add: get_instance_def instance_of_def put_instance_def)

lemma multi_propose_react:
  "multi_propose to_wire provider draw entry nd =
     rbind (next_available_index (node_log nd)) (\<lambda>index.
     rbind (instance_of provider index nd) (\<lambda>h.
     apply_reaction to_wire index h (react_propose draw entry h) nd))"
proof -
  have [simp]: "decided (react_propose draw entry h) = None" for h
    by (simp add: react_propose_def Let_def)
  show ?thesis
    by (simp add: multi_propose_def get_instance_instance_of rbind_assoc single_propose_react
        apply_reaction_def) (simp add: put_instance_def)
qed

lemma handle_incoming_message_react:
  "handle_incoming_message to_wire cs provider endpoint m nd =
     rbind (instance_of provider (ucast (paxos_index m)) nd) (\<lambda>h.
     rbind (react cs endpoint (paxos_payload m) h) (\<lambda>x.
     apply_reaction to_wire (ucast (paxos_index m)) h x nd))"
proof (cases "instance_of provider (ucast (paxos_index m)) nd")
  case (Inr h)
  show ?thesis
  proof (cases "paxos_payload m")
    case (Prepare r)
    with Inr single_prepare_react [of cs endpoint r h to_wire "node_connections nd"] show ?thesis
      by (auto simp: handle_incoming_message.simps get_instance_instance_of apply_reaction_def put_instance_def)
  next
    case (Promise r vr vv)
    have "decided x = None" if "react_promise cs r (vr, vv) h = Inr x" for x
      using that by (auto simp: react_promise_def split: option.splits if_splits)
    with Inr Promise show ?thesis
      by (cases "react_promise cs r (vr, vv) h")
        (auto simp: handle_incoming_message.simps get_instance_instance_of apply_reaction_def put_instance_def
          single_promise_react [where src = endpoint])
  next
    case (Accept r v)
    with Inr single_accept_react [of cs endpoint r v h to_wire "node_connections nd"] show ?thesis
      by (auto simp: handle_incoming_message.simps get_instance_instance_of apply_reaction_def put_instance_def)
  next
    case (Learn r v)
    have "outgoing (react_learn cs r v h) = None"
      by (simp add: react_learn_def Let_def split_beta)
    with Inr Learn show ?thesis
      by (cases "decided (react_learn cs r v h)")
        (auto simp: handle_incoming_message.simps get_instance_instance_of apply_reaction_def put_instance_def
          single_learn_react [where src = endpoint] rbind_assoc intro!: arg_cong2 [where f = rbind])
  next
    case PaxosNotSet
    with Inr show ?thesis
      by (simp add: handle_incoming_message.simps get_instance_instance_of apply_reaction_def put_instance_def)
  qed
qed (simp add: handle_incoming_message.simps get_instance_instance_of)

end
