(* ===== verification/PaxosConfigManager.thy ===== *)
theory PaxosConfigManager
  imports PaxosLog
begin

text \<open>
  \<open>uni::paxos::PaxosConfigManager\<close> (src/src/paxos/PaxosConfigManager.cc): the timeline of the
  configurations that govern the indices of a Paxos log, extended by the callback the constructor
  registers for \<open>ReconfigStarted\<close> entries. The lemmas show that the timeline stays strictly
  ascending, that \<open>config\<close> returns the last configuration at or before its index, that a
  reconfiguration never changes the configuration of an index up to its own, and that replaying
  a log gives at every index the configuration named by the last reconfiguration before it.
\<close>

section \<open>State and operations\<close>

type_synonym config_timeline = "(index_t \<times> endpoint_id list) list"

definition PaxosConfigManager :: "index_t \<Rightarrow> endpoint_id list \<Rightarrow> config_timeline" where
  "PaxosConfigManager index slaves = [(index, slaves)]"

definition reconfig_slaves :: "string list \<Rightarrow> endpoint_id list" where
  "reconfig_slaves urls = map (\<lambda>url. EndpointId url 0) urls"

text \<open>\<open>entry.reconfig_started()\<close> is the default message when the entry is of another kind.\<close>

fun reconfig_started :: "paxos_log_entry \<Rightarrow> string list" where
  "reconfig_started (ReconfigStarted slaves) = slaves"
| "reconfig_started _ = []"

definition on_reconfig_started ::
  "index_t \<Rightarrow> paxos_log_entry \<Rightarrow> config_timeline \<Rightarrow> config_timeline result" where
  "on_reconfig_started index entry timeline =
     (if timeline = [] then Inl UndefinedBehaviour
      else rbind (universal_assert (index > fst (last timeline)) ''Index should always be ascending.'') (\<lambda>_.
           Inr (timeline @ [(index + 1, reconfig_slaves (reconfig_started entry))])))"

text \<open>The loop of \<open>config\<close>; its argument is \<open>i + 1\<close>, so 0 is the end of the loop at \<open>-1\<close>.\<close>

fun config_loop :: "config_timeline \<Rightarrow> index_t \<Rightarrow> nat \<Rightarrow> nat" where
  "config_loop timeline index 0 = 0"
| "config_loop timeline index (Suc i) =
     (if fst (timeline ! i) > index then config_loop timeline index i else Suc i)"

definition config :: "config_timeline \<Rightarrow> index_t \<Rightarrow> endpoint_id list result" where
  "config timeline index =
     (case config_loop timeline index (length timeline) of
        0 \<Rightarrow> Inl (UniversalException ''Config should only be requested for an index governed by this Paxos timeline.'')
      | Suc i \<Rightarrow> Inr (snd (timeline ! i)))"

definition latest_config :: "config_timeline \<Rightarrow> endpoint_id list result" where
  "latest_config timeline =
     (if timeline = [] then Inl UndefinedBehaviour else Inr (snd (last timeline)))"

text \<open>The registration made by the constructor, for a client state that holds the timeline.\<close>

definition register_config_manager ::
  "('s \<Rightarrow> config_timeline) \<Rightarrow> (config_timeline \<Rightarrow> 's \<Rightarrow> 's) \<Rightarrow> 's paxos_log \<Rightarrow> 's paxos_log" where
  "register_config_manager get put pl =
     add_callback KReconfigStarted
       (\<lambda>index entry s. rbind (on_reconfig_started index entry (get s)) (\<lambda>t. Inr (put t s))) pl"

section \<open>The timeline\<close>

definition timeline_inv :: "config_timeline \<Rightarrow> bool" where
  "timeline_inv timeline \<longleftrightarrow> timeline \<noteq> [] \<and> sorted_wrt (<) (map fst timeline)"

lemma timeline_inv_PaxosConfigManager [inv_intros]: "timeline_inv (PaxosConfigManager index slaves)"
  by (simp add: timeline_inv_def PaxosConfigManager_def)

lemma on_reconfig_started_Inr:
  "on_reconfig_started index entry timeline = Inr timeline' \<longleftrightarrow>
     timeline \<noteq> [] \<and> fst (last timeline) < index \<and>
     timeline' = timeline @ [(index + 1, reconfig_slaves (reconfig_started entry))]"
  by (auto simp: on_reconfig_started_def universal_assert_def)

lemma timeline_inv_on_reconfig_started [inv_intros]:
  assumes "timeline_inv timeline" and "index \<noteq> - 1"
    and "on_reconfig_started index entry timeline = Inr timeline'"
  shows "timeline_inv timeline'"
proof -
  have "i < index + 1" if "i \<in> set (map fst timeline)" for i
  proof -
    have "i \<le> last (map fst timeline)"
      using assms(1) that unfolding timeline_inv_def by (intro strict_sorted_le_last) auto
    also have "\<dots> < index" using assms by (auto simp: on_reconfig_started_Inr last_map)
    also have "index < index + 1" using assms(2) by simp
    finally show ?thesis .
  qed
  with assms show ?thesis by (auto simp: timeline_inv_def on_reconfig_started_Inr sorted_wrt_append)
qed

text \<open>\<open>config\<close> finds the last configuration whose index is not above the one asked for.\<close>

lemma config_snoc:
  "config (timeline @ [(i, slaves)]) index = (if i \<le> index then Inr slaves else config timeline index)"
proof -
  have "config_loop (timeline @ xs) index n = config_loop timeline index n" if "n \<le> length timeline" for n xs
    using that by (induction n) (auto simp: nth_append)
  moreover have "config_loop timeline index n \<le> n" for n
    by (induction n) (auto simp: le_SucI)
  ultimately show ?thesis
    by (auto simp: config_def nth_append not_le split: nat.splits)
      (metis Suc_le_eq linorder_not_less)
qed

lemma config_Nil [simp]: "\<not> is_ok (config [] index)"
  by (simp add: config_def)

lemma config_find:
  "config timeline index =
     (case find (\<lambda>(i, slaves). i \<le> index) (rev timeline) of
        None \<Rightarrow> Inl (UniversalException ''Config should only be requested for an index governed by this Paxos timeline.'')
      | Some (i, slaves) \<Rightarrow> Inr slaves)"
  by (induction timeline rule: rev_induct) (auto simp: config_snoc, simp add: config_def)

section \<open>The timeline as a function of the log\<close>

text \<open>The specification: the configuration of index \<open>n\<close> is named by the last reconfiguration below \<open>n\<close>.\<close>

definition config_after :: "endpoint_id list \<Rightarrow> paxos_log_entry \<Rightarrow> endpoint_id list" where
  "config_after slaves entry =
     (case entry of ReconfigStarted urls \<Rightarrow> reconfig_slaves urls | _ \<Rightarrow> slaves)"

definition config_spec ::
  "endpoint_id list \<Rightarrow> (index_t \<rightharpoonup> paxos_log_entry) \<Rightarrow> index_t \<Rightarrow> endpoint_id list" where
  "config_spec slaves m n = foldl config_after slaves (map (\<lambda>i. the (m i)) (word_upt 0 n))"

definition config_callbacks :: "content_case \<Rightarrow> config_timeline log_callback list" where
  "config_callbacks = callbacks (register_config_manager (\<lambda>s. s) (\<lambda>t _. t) PaxosLog)"

lemma config_callbacks_app:
  "config_callbacks cc = (if cc = KReconfigStarted then [on_reconfig_started] else [])"
proof -
  have "(\<lambda>i e s. rbind (on_reconfig_started i e s) Inr) = on_reconfig_started"
    by (intro ext) (simp add: rbind_def split: sum.splits)
  then show ?thesis
    by (auto simp: config_callbacks_def register_config_manager_def add_callback_def PaxosLog_def)
qed

lemma apply_entry_config:
  "apply_entry config_callbacks i e t =
     (if entry_content_case e = KReconfigStarted then on_reconfig_started i e t else Inr t)"
  by (simp add: apply_entry_def config_callbacks_app) (cases "on_reconfig_started i e t"; simp)

lemma config_spec_succ:
  "n \<noteq> - 1 \<Longrightarrow> config_spec slaves m (n + 1) = config_after (config_spec slaves m n) (the (m n))"
  by (simp add: config_spec_def word_upt_snoc)

lemma config_last: "t \<noteq> [] \<Longrightarrow> fst (last t) \<le> i \<Longrightarrow> config t i = Inr (snd (last t))"
  by (cases t rule: rev_cases) (auto simp: config_snoc)

lemma config_after_other: "entry_content_case e \<noteq> KReconfigStarted \<Longrightarrow> config_after slaves e = slaves"
  by (cases e) (auto simp: config_after_def)

lemma config_after_started:
  "entry_content_case e = KReconfigStarted \<Longrightarrow> config_after slaves e = reconfig_slaves (reconfig_started e)"
  by (cases e) (auto simp: config_after_def)

lemma config_replay_step:
  assumes t: "timeline_inv t" "fst (last t) \<le> n" "\<And>i. i \<le> n \<Longrightarrow> config t i = Inr (config_spec slaves m i)"
    and n: "n \<noteq> - 1" and step: "apply_entry config_callbacks n (the (m n)) t = Inr t'"
  shows "timeline_inv t' \<and> fst (last t') \<le> n + 1 \<and>
    (\<forall>i\<le>n + 1. config t' i = Inr (config_spec slaves m i))"
proof (cases "entry_content_case (the (m n)) = KReconfigStarted")
  case True
  with step have s: "on_reconfig_started n (the (m n)) t = Inr t'" by (simp add: apply_entry_config)
  then have t': "t' = t @ [(n + 1, reconfig_slaves (reconfig_started (the (m n))))]"
    by (simp add: on_reconfig_started_Inr)
  have "config t' i = Inr (config_spec slaves m i)" if "i \<le> n + 1" for i
  proof (cases "i = n + 1")
    case True
    with n \<open>entry_content_case _ = _\<close> show ?thesis
      by (simp add: t' config_snoc config_spec_succ config_after_started)
  next
    case False
    with that have "i < n + 1" by simp
    with n have "i \<le> n" and "\<not> n + 1 \<le> i" by (simp_all add: word_less_succ_iff not_le)
    then show ?thesis by (simp add: t' config_snoc t(3))
  qed
  with t s n show ?thesis
    by (auto simp: t' intro: timeline_inv_on_reconfig_started [OF _ n, of t "the (m n)"])
next
  case False
  with step have [simp]: "t' = t" by (simp add: apply_entry_config)
  have "fst (last t) \<le> n + 1"
    using t(2) word_succ_less [OF n] by (meson order.strict_trans1 less_imp_le)
  moreover have "config t i = Inr (config_spec slaves m i)" if "i \<le> n + 1" for i
  proof (cases "i = n + 1")
    case True
    then have "config t i = config t n"
      using t(1,2) \<open>fst (last t) \<le> n + 1\<close> by (simp add: config_last timeline_inv_def)
    with True t(3) [of n] n False show ?thesis
      by (simp add: config_spec_succ config_after_other)
  next
    case False
    with that n show ?thesis using t(3) [of i] by (simp add: word_less_succ_iff [symmetric])
  qed
  ultimately show ?thesis using t by simp
qed

section \<open>Properties\<close>

text \<open>
  C4: replaying a log prefix of \<open>n\<close> entries leaves a strictly ascending timeline in which
  \<open>config\<close> succeeds for every index up to \<open>n\<close>, with the slaves named by the last
  \<open>ReconfigStarted\<close> entry strictly below that index, or the initial slaves.
\<close>

theorem config_refines_log:
  assumes "replay config_callbacks m n (PaxosConfigManager 0 slaves) = Inr t"
  shows "timeline_inv t \<and> fst (last t) \<le> n \<and> (\<forall>i\<le>n. config t i = Inr (config_spec slaves m i))"
  using assms
proof (induction n arbitrary: t)
  case zero
  then have "t = [(0, slaves)]" by (simp add: replay_def PaxosConfigManager_def)
  then show ?case
    using config_snoc [of "[]" 0 slaves 0] by (simp add: timeline_inv_def config_spec_def)
next
  case (suc n)
  then have n: "n \<noteq> - 1" by auto
  with suc.prems obtain t0 where t0: "replay config_callbacks m n (PaxosConfigManager 0 slaves) = Inr t0"
    and step: "apply_entry config_callbacks n (the (m n)) t0 = Inr t"
    by (auto simp: replay_succ rbind_eq_Inr add.commute [of 1])
  from suc.IH [OF t0] show ?case
    using config_replay_step [of t0 n slaves m t] n step by (simp add: add.commute [of 1])
qed

theorem config_refines_log_witness:
  "config [(0, [EndpointId ''a'' 0]), (2, [EndpointId ''b'' 0])] 3 =
     Inr (config_spec [EndpointId ''a'' 0] [0 \<mapsto> ReconfigFinished, 1 \<mapsto> ReconfigStarted [''b''], 2 \<mapsto> ReconfigFinished] 3)"
proof -
  have "replay config_callbacks
      [0 \<mapsto> ReconfigFinished, 1 \<mapsto> ReconfigStarted [''b''], 2 \<mapsto> ReconfigFinished] 3
      (PaxosConfigManager 0 [EndpointId ''a'' 0]) =
      Inr [(0, [EndpointId ''a'' 0]), (2, [EndpointId ''b'' 0])]"
    by (simp add: replay_def apply_range_def word_upt_Cons apply_entry_config on_reconfig_started_def
        PaxosConfigManager_def reconfig_slaves_def)
  from config_refines_log [OF this] show ?thesis by simp
qed

text \<open>
  A reconfiguration decided at an index never changes the configuration of that index or of
  any before it, so two nodes that disagree only on later entries run an index with one configuration.
\<close>

theorem config_stable:
  assumes "on_reconfig_started index entry t = Inr t'" and "index \<noteq> - 1" and "i \<le> index"
  shows "config t' i = config t i"
proof -
  have "\<not> index + 1 \<le> i"
    using assms(2,3) word_succ_less [of index] by (meson not_le order.strict_trans1)
  with assms(1) show ?thesis by (auto simp: on_reconfig_started_Inr config_snoc)
qed

theorem config_stable_witness:
  "config [(0, [EndpointId ''a'' 0]), (6, [EndpointId ''b'' 0])] 5 = config [(0, [EndpointId ''a'' 0])] 5"
  by (rule config_stable [of 5 "ReconfigStarted [''b'']"])
    (simp_all add: on_reconfig_started_def reconfig_slaves_def)

text \<open>
  The assertion of the callback is stricter than the timeline needs. A configuration is
  recorded at \<open>index + 1\<close> but the next reconfiguration must lie above that, so a reconfiguration
  right after another throws, and so does one at the index the timeline starts with.
\<close>

theorem consecutive_reconfigs_throw:
  "(\<forall>e slaves. on_reconfig_started k e (PaxosConfigManager k slaves) =
      Inl (UniversalException ''Index should always be ascending.'')) \<and>
   (\<forall>i e e' t t'. on_reconfig_started i e t = Inr t' \<longrightarrow>
      on_reconfig_started (i + 1) e' t' = Inl (UniversalException ''Index should always be ascending.''))"
  by (auto simp: on_reconfig_started_Inr) (simp_all add: on_reconfig_started_def PaxosConfigManager_def)

theorem consecutive_reconfigs_throw_witness:
  "on_reconfig_started 8 (ReconfigStarted []) [(0, []), (8, [])] =
     Inl (UniversalException ''Index should always be ascending.'')"
proof -
  have "on_reconfig_started 7 (ReconfigStarted []) [(0, [])] = Inr [(0, []), (8, [])]"
    by (simp add: on_reconfig_started_def reconfig_slaves_def)
  with consecutive_reconfigs_throw [of 0] show ?thesis by fastforce
qed

end
