(* ===== verification/LogSyncer.thy ===== *)
theory LogSyncer
  imports Connections PaxosLog
begin

text \<open>
  \<open>uni::server::LogSyncer\<close> (src/src/server/LogSyncer.cc): a node periodically broadcasts the
  ranges of indices its log misses; whoever gets the request answers with the entries it has
  below its own first free index; the answer is stored. \<open>to_wire\<close> stands for
  \<open>sync_message_to_wrapper\<close> and serialisation. A loop that would not end is the value \<open>None\<close>.
  The lemmas show that a request names exactly the missing indices, what a response holds, and
  that one exchange brings the requester's first free index up to the responder's.
\<close>

section \<open>Operations\<close>

definition request_step ::
  "index_t list \<Rightarrow> (index_t \<times> index_t) list \<times> (index_t \<times> index_t) \<Rightarrow> nat
   \<Rightarrow> (index_t \<times> index_t) list \<times> (index_t \<times> index_t)" where
  "request_step avail x i =
     (let (subarrays, cur_subarray) = x
      in if avail ! (i - 1) + 1 = avail ! i
         then (subarrays, (fst cur_subarray, snd cur_subarray + 1))
         else (subarrays @ [cur_subarray], (avail ! i, avail ! i)))"

definition request_loop ::
  "index_t list \<Rightarrow> (index_t \<times> index_t) list \<times> (index_t \<times> index_t)" where
  "request_loop avail =
     foldl (request_step avail) ([], (avail ! 0, avail ! 0))
       [1..<length avail]"

definition build_sync_request :: "index_t list \<Rightarrow> sync_request result" where
  "build_sync_request avail =
     (if avail = [] then Inl UndefinedBehaviour
      else let (subarrays, cur_subarray) = request_loop avail
           in Inr \<lparr>missing_indices = subarrays @ [cur_subarray], last_index = last avail\<rparr>)"

text \<open>\<open>for (i = start; i <= end; i++)\<close>: endless when \<open>end\<close> is the largest index.\<close>

partial_function (option) inclusive_loop ::
  "(index_t \<Rightarrow> 'a \<Rightarrow> 'a) \<Rightarrow> index_t \<Rightarrow> index_t \<Rightarrow> 'a \<Rightarrow> 'a option" where
  "inclusive_loop f i end_index acc =
     (if i \<le> end_index then inclusive_loop f (i + 1) end_index (f i acc) else Some acc)"

declare inclusive_loop.simps [code]

text \<open>\<open>set_index\<close> of the response takes a \<open>uint32\<close>.\<close>

definition add_missing_entry ::
  "'s paxos_log \<Rightarrow> index_t \<Rightarrow> (32 word \<times> paxos_log_entry) list \<Rightarrow> (32 word \<times> paxos_log_entry) list" where
  "add_missing_entry pl i entries =
     (case get_entry pl i of None \<Rightarrow> entries | Some e \<Rightarrow> entries @ [(ucast i, e)])"

fun holes_loop ::
  "'s paxos_log \<Rightarrow> index_t \<Rightarrow> (index_t \<times> index_t) list \<Rightarrow> (32 word \<times> paxos_log_entry) list
   \<Rightarrow> (32 word \<times> paxos_log_entry) list option" where
  "holes_loop pl cur_last_index [] entries = Some entries"
| "holes_loop pl cur_last_index ((start_index, end_index) # subarrays) entries =
     (if start_index \<ge> cur_last_index then Some entries
      else case inclusive_loop (add_missing_entry pl) start_index (min cur_last_index end_index) entries of
             None \<Rightarrow> None
           | Some entries' \<Rightarrow> holes_loop pl cur_last_index subarrays entries')"

definition build_sync_response :: "'s paxos_log \<Rightarrow> sync_request \<Rightarrow> sync_response result option" where
  "build_sync_response pl request =
     (case next_available_index pl of
        Inl e \<Rightarrow> Some (Inl e)
      | Inr cur_last_index \<Rightarrow>
          map_option (\<lambda>entries.
            Inr \<lparr>missing_entries =
              (if cur_last_index > last_index request
               then fold (add_missing_entry pl) (word_upt (last_index request + 1) cur_last_index) entries
               else entries)\<rparr>)
            (holes_loop pl cur_last_index (missing_indices request) []))"

definition handle_sync_request ::
  "(sync_message \<Rightarrow> 'w) \<Rightarrow> 's paxos_log \<Rightarrow> endpoint_id \<Rightarrow> sync_request \<Rightarrow> 'w connections
   \<Rightarrow> 'w connections result option" where
  "handle_sync_request to_wire pl endpoint request c =
     map_option (\<lambda>r. rbind r (\<lambda>response. Inr (send endpoint (to_wire (SyncResponse response)) c)))
       (build_sync_response pl request)"

definition handle_sync_response :: "sync_response \<Rightarrow> 's paxos_log \<times> 's \<Rightarrow> ('s paxos_log \<times> 's) result" where
  "handle_sync_response response x =
     rfold (\<lambda>(index, entry). set_entry (ucast index) entry) (missing_entries response) x"

text \<open>The callback that \<open>schedule_syncing\<close> repeats with period \<open>log_syncer_period\<close>.\<close>

definition syncing_callback ::
  "(sync_message \<Rightarrow> 'w) \<Rightarrow> endpoint_id list \<Rightarrow> 's paxos_log \<Rightarrow> 'w connections \<Rightarrow> 'w connections result" where
  "syncing_callback to_wire endpoints pl c =
     rbind (build_sync_request (get_available_indices pl)) (\<lambda>request.
     Inr (broadcast endpoints (to_wire (SyncRequest request)) c))"

definition schedule_syncing :: "constants \<Rightarrow> 'cb \<Rightarrow> ('cb \<Rightarrow> int \<Rightarrow> 't \<Rightarrow> 'u) \<Rightarrow> 't \<Rightarrow> 'u" where
  "schedule_syncing cs callback schedule_repeated timer = schedule_repeated callback (log_syncer_period cs) timer"

text \<open>The constructor keeps its references and starts the syncing.\<close>

definition LogSyncer :: "constants \<Rightarrow> 'cb \<Rightarrow> ('cb \<Rightarrow> int \<Rightarrow> 't \<Rightarrow> 'u) \<Rightarrow> 't \<Rightarrow> 'u" where
  "LogSyncer cs callback schedule_repeated timer = schedule_syncing cs callback schedule_repeated timer"

section \<open>The request\<close>

text \<open>Ranges in increasing order, disjoint and not adjacent to nothing.\<close>

definition ranges_ok :: "(index_t \<times> index_t) list \<Rightarrow> bool" where
  "ranges_ok rs \<longleftrightarrow> (\<forall>(s, e)\<in>set rs. s \<le> e) \<and> sorted_wrt (\<lambda>(s, e) (s', e'). e < s') rs"

definition range_set :: "(index_t \<times> index_t) list \<Rightarrow> index_t set" where
  "range_set rs = (\<Union>(s, e)\<in>set rs. {s..e})"

lemma request_loop_snoc:
  assumes "av \<noteq> []"
  shows "request_loop (av @ [x]) =
    (let (rs, cur) = request_loop av
     in if last av + 1 = x then (rs, (fst cur, snd cur + 1)) else (rs @ [cur], (x, x)))"
proof -
  have "foldl (request_step (av @ [x])) a is = foldl (request_step av) a is"
    if "\<forall>i\<in>set is. i < length av \<and> 0 < i" for a "is"
    using that by (induction "is" arbitrary: a) (auto simp: request_step_def nth_append)
  then have "foldl (request_step (av @ [x])) ([], (av ! 0, av ! 0)) [1..<length av] = request_loop av"
    by (simp add: request_loop_def)
  moreover have "[1..<length (av @ [x])] = [1..<length av] @ [length av]"
    using assms by (simp add: Suc_le_eq)
  ultimately show ?thesis
    using assms by (simp add: request_loop_def request_step_def nth_append last_conv_nth split_beta Let_def)
qed

lemma request_loop_ranges:
  assumes "av \<noteq> []" and "sorted_wrt (<) av"
  shows "ranges_ok (fst (request_loop av) @ [snd (request_loop av)]) \<and>
    range_set (fst (request_loop av) @ [snd (request_loop av)]) = set av \<and>
    snd (snd (request_loop av)) = last av"
  using assms
proof (induction av rule: rev_nonempty_induct)
  case (single x)
  then show ?case by (simp add: request_loop_def ranges_ok_def range_set_def)
next
  case (snoc x av)
  obtain rs s e where loop: "request_loop av = (rs, (s, e))" by (cases "request_loop av") auto
  from snoc.prems have sorted: "sorted_wrt (<) av" and below: "\<And>i. i \<in> set av \<Longrightarrow> i < x"
    by (auto simp: sorted_wrt_append)
  from snoc.IH [OF sorted] have ok: "ranges_ok (rs @ [(s, e)])" "range_set (rs @ [(s, e)]) = set av" "e = last av"
    unfolding loop fst_conv snd_conv by blast+
  from below snoc.hyps have ex: "e < x" by (simp add: ok(3))
  show ?case
  proof (cases "last av + 1 = x")
    case True
    then have x: "x = e + 1" by (simp add: ok(3))
    from ex x have "e \<noteq> - 1" by auto
    then have "{s..x} = insert x {s..e}" if "s \<le> e"
      using that unfolding x by (rule atLeastAtMost_word_succ)
    moreover have "s \<le> e" using ok(1) by (simp add: ranges_ok_def)
    ultimately show ?thesis
      using ok ex True snoc.hyps
      by (auto simp: request_loop_snoc loop ranges_ok_def range_set_def sorted_wrt_append x [symmetric])
  next
    case False
    have "r < x" if "(q, r) \<in> set rs" for q r
    proof -
      from that ok(1) have "r < s" "s \<le> e" by (auto simp: ranges_ok_def sorted_wrt_append)
      with ex show ?thesis by (meson order.strict_trans order.strict_trans1 order.strict_trans2)
    qed
    with False ok ex snoc.hyps show ?thesis
      by (auto simp: request_loop_snoc loop ranges_ok_def range_set_def sorted_wrt_append)
  qed
qed

section \<open>The response\<close>

lemma inclusive_loop_fold:
  "e \<noteq> - 1 \<Longrightarrow> inclusive_loop f i e acc = Some (fold f (word_upt i (e + 1)) acc)"
proof (induction i "e + 1" arbitrary: acc rule: word_upt.induct)
  case (1 i)
  show ?case
  proof (cases "i \<le> e")
    case True
    with 1(2) have "i < e + 1" by (simp add: word_less_succ_iff)
    with 1 True show ?thesis
      by (subst inclusive_loop.simps) (simp add: word_upt_Cons)
  next
    case False
    with 1(2) have "\<not> i < e + 1" by (simp add: word_less_succ_iff)
    with False show ?thesis by (subst inclusive_loop.simps) simp
  qed
qed

text \<open>The entries a list of indices contributes.\<close>

definition sent :: "'s paxos_log \<Rightarrow> index_t list \<Rightarrow> (32 word \<times> paxos_log_entry) list" where
  "sent pl is = map (\<lambda>i. (ucast i, the (log pl i))) (filter (\<lambda>i. log pl i \<noteq> None) is)"

lemma fold_add_missing_entry: "fold (add_missing_entry pl) is entries = entries @ sent pl is"
  by (induction "is" arbitrary: entries)
    (auto simp: add_missing_entry_def sent_def get_entry_def split: option.splits)

lemma sent_simps [simp]: "sent pl [] = []" "sent pl (is @ is') = sent pl is @ sent pl is'"
  by (simp_all add: sent_def)

text \<open>The indices the first loop visits, holes of the responder included.\<close>

fun visited :: "index_t \<Rightarrow> (index_t \<times> index_t) list \<Rightarrow> index_t list" where
  "visited n [] = []"
| "visited n ((s, e) # rs) = (if s \<ge> n then [] else word_upt s (min n e + 1) @ visited n rs)"

lemma holes_loop_sent:
  "(\<And>s e. (s, e) \<in> set rs \<Longrightarrow> e \<noteq> - 1) \<Longrightarrow>
   holes_loop pl n rs entries = Some (entries @ sent pl (visited n rs))"
proof (induction rs arbitrary: entries)
  case (Cons r rs)
  obtain s e where r: "r = (s, e)" by (cases r)
  have "e \<noteq> - 1" using Cons.prems r by auto
  then have "min n e \<noteq> - 1" by (rule min_not_max)
  moreover have "holes_loop pl n rs es = Some (es @ sent pl (visited n rs))" for es
    by (rule Cons.IH) (use Cons.prems in auto)
  ultimately show ?case
    by (simp add: r inclusive_loop_fold fold_add_missing_entry)
qed simp

lemma ranges_ok_Cons:
  "ranges_ok ((s, e) # rs) \<longleftrightarrow> s \<le> e \<and> (\<forall>(s', e')\<in>set rs. e < s') \<and> ranges_ok rs"
  by (auto simp: ranges_ok_def)

lemma visited_sorted:
  assumes "ranges_ok rs" and "\<And>s e. (s, e) \<in> set rs \<Longrightarrow> e \<noteq> - 1"
  shows "sorted_wrt (<) (visited n rs) \<and> set (visited n rs) \<subseteq> range_set rs \<and>
    {i \<in> range_set rs. i < n} \<subseteq> set (visited n rs) \<and> set (visited n rs) \<subseteq> {..n}"
  using assms
proof (induction rs)
  case Nil
  then show ?case by (simp add: range_set_def)
next
  case (Cons r rs)
  obtain s e where r: "r = (s, e)" by (cases r)
  with Cons.prems have e: "e \<noteq> - 1" and ok: "s \<le> e" "\<And>s' e'. (s', e') \<in> set rs \<Longrightarrow> e < s'" "ranges_ok rs"
    by (auto simp: ranges_ok_Cons)
  have m: "min n e \<noteq> - 1" using e by (rule min_not_max)
  from Cons ok(3) have IH: "sorted_wrt (<) (visited n rs)" "set (visited n rs) \<subseteq> range_set rs"
      "{i \<in> range_set rs. i < n} \<subseteq> set (visited n rs)" "set (visited n rs) \<subseteq> {..n}" by auto
  have above: "e < i" if "i \<in> range_set rs" for i
    using that ok(2) by (fastforce simp: range_set_def intro: order.strict_trans2)
  have set_r: "range_set (r # rs) = {s..e} \<union> range_set rs" by (simp add: range_set_def r)
  have set_w: "set (word_upt s (min n e + 1)) = {s..min n e}"
    using m by (auto simp: word_less_succ_iff)
  show ?case
  proof (cases "s \<ge> n")
    case True
    have "\<not> i < n" if "i \<in> range_set (r # rs)" for i
    proof -
      from that above ok(1) have "s \<le> i" unfolding set_r by (auto intro: order.trans less_imp_le)
      with True show ?thesis by simp
    qed
    with True show ?thesis by (auto simp: r)
  next
    case False
    have cross: "i < j" if "i \<in> {s..min n e}" "j \<in> set (visited n rs)" for i j
      using that above IH(2) by (auto intro: order.strict_trans1)
    have "sorted_wrt (<) (visited n (r # rs))"
      using False IH(1) cross by (simp only: r visited.simps if_False sorted_wrt_append set_w sorted_word_upt simp_thms) blast
    with False IH set_w show ?thesis
      unfolding set_r by (auto simp: r simp del: set_word_upt)
  qed
qed

section \<open>One exchange\<close>

text \<open>All indices of a log fit the wire.\<close>

definition log_fits :: "'s paxos_log \<Rightarrow> bool" where
  "log_fits pl \<longleftrightarrow> (\<forall>i\<in>dom (log pl). i < 2 ^ 32)"

lemma log_fits_last:
  assumes "log_inv pl" and "log_fits pl"
  shows "last (available_indices pl) \<noteq> - 1"
proof
  assume max: "last (available_indices pl) = - 1"
  have "(2 ^ 32 :: index_t) < - 1" by (simp add: word_less_max_iff)
  with assms(1) max obtain d where "d \<in> dom (log pl)" "2 ^ 32 \<le> d"
    unfolding log_inv_def holes_def by metis
  with assms(2) show False unfolding log_fits_def by (meson not_le)
qed

lemma sync_request_ranges:
  assumes "log_inv q"
  obtains request where "build_sync_request (available_indices q) = Inr request"
    "ranges_ok (missing_indices request)" "range_set (missing_indices request) = set (available_indices q)"
    "last_index request = last (available_indices q)"
proof -
  let ?av = "available_indices q"
  have av: "?av \<noteq> []" "sorted_wrt (<) ?av" using assms by (auto simp: log_inv_def holes_def)
  obtain rs cur where loop: "request_loop ?av = (rs, cur)"
    by (cases "request_loop ?av")
  show ?thesis
    using request_loop_ranges [OF av] av
    by (intro that [of "\<lparr>missing_indices = rs @ [cur], last_index = last ?av\<rparr>"])
      (simp_all add: build_sync_request_def loop)
qed

text \<open>The missing entries, in increasing order, below the responder's first free index.\<close>

definition wanted :: "'s paxos_log \<Rightarrow> 't paxos_log \<Rightarrow> (32 word \<times> paxos_log_entry) list" where
  "wanted q pl =
     map (\<lambda>i. (ucast i, the (log pl i))) (filter (\<lambda>i. log q i = None) (word_upt 0 (first_free pl)))"

lemma build_sync_response_wanted:
  assumes q: "log_inv q" "log_fits q" and pl: "log_inv pl"
    and request: "ranges_ok (missing_indices request)"
      "range_set (missing_indices request) = set (available_indices q)"
      "last_index request = last (available_indices q)"
  shows "build_sync_response pl request = Some (Inr \<lparr>missing_entries = wanted q pl\<rparr>)"
proof -
  let ?n = "first_free pl" and ?l = "last (available_indices q)" and ?rs = "missing_indices request"
  have l: "?l \<noteq> - 1" using q by (rule log_fits_last)
  have h: "holes (available_indices q) (dom (log q))" using q by (simp add: log_inv_def)
  have e: "e \<noteq> - 1" if "(s, e) \<in> set ?rs" for s e
  proof -
    from that request(1) have "e \<in> range_set ?rs" by (force simp: ranges_ok_def range_set_def)
    with request(2) h have "e \<le> ?l" by (simp add: holes_mem_iff)
    with l show ?thesis by (metis min.absorb1 min_not_max)
  qed
  let ?extra = "if ?n > ?l then word_upt (?l + 1) ?n else []"
  let ?is = "filter (\<lambda>i. log pl i \<noteq> None) (visited ?n ?rs) @ ?extra"
  have v: "sorted_wrt (<) (visited ?n ?rs) \<and> set (visited ?n ?rs) \<subseteq> set (available_indices q) \<and>
      {i \<in> set (available_indices q). i < ?n} \<subseteq> set (visited ?n ?rs) \<and> set (visited ?n ?rs) \<subseteq> {..?n}"
    unfolding request(2) [symmetric] by (rule visited_sorted [OF request(1)]) (erule e)
  have loop: "holes_loop pl ?n ?rs [] = Some (sent pl (visited ?n ?rs))"
    using holes_loop_sent [of ?rs pl ?n "[]"] e by force
  have extra: "set ?extra = {?l<..<?n}" using l by (auto simp: word_succ_le_iff)
  have present: "log pl i \<noteq> None" if "i < ?n" for i using below_first_free [OF pl that] by simp
  have free: "log pl ?n = None" using pl by (rule first_free_not_in_log)
  have sent: "sent pl (visited ?n ?rs) @ sent pl ?extra = map (\<lambda>i. (ucast i, the (log pl i))) ?is"
  proof -
    have "filter (\<lambda>i. log pl i \<noteq> None) ?extra = ?extra"
      using present extra by (intro filter_True) (auto simp del: set_word_upt)
    then show ?thesis by (simp add: sent_def)
  qed
  have idx: "?is = filter (\<lambda>i. log q i = None) (word_upt 0 ?n)"
  proof (rule strict_sorted_unique)
    have "i < j" if "i \<in> set (visited ?n ?rs)" "j \<in> set ?extra" for i j
    proof -
      from that(1) v h have "i \<le> ?l" by (auto simp: holes_mem_iff)
      with that(2) extra show ?thesis by (auto intro: order.strict_trans1)
    qed
    then show "sorted_wrt (<) ?is"
      using v by (auto simp: sorted_wrt_append sorted_wrt_filter)
    show "sorted_wrt (<) (filter (\<lambda>i. log q i = None) (word_upt 0 ?n))"
      by (simp add: sorted_wrt_filter)
    have "i \<in> set (visited ?n ?rs) \<and> log pl i \<noteq> None \<longleftrightarrow> i \<le> ?l \<and> i < ?n \<and> log q i = None" for i
    proof
      assume i: "i \<in> set (visited ?n ?rs) \<and> log pl i \<noteq> None"
      with v have "i \<in> set (available_indices q)" and "i \<le> ?n" by blast+
      moreover from i free have "i \<noteq> ?n" by auto
      ultimately show "i \<le> ?l \<and> i < ?n \<and> log q i = None"
        using holes_mem_iff [OF h, of i] by (simp add: domIff order.order_iff_strict [of i ?n])
    next
      assume i: "i \<le> ?l \<and> i < ?n \<and> log q i = None"
      then have "i \<in> set (available_indices q)" using holes_mem_iff [OF h, of i] by (simp add: domIff)
      with i v present [of i] show "i \<in> set (visited ?n ?rs) \<and> log pl i \<noteq> None" by blast
    qed
    moreover have "log q i = None" if "?l < i" for i
      using that h by (auto simp: holes_def)
    ultimately show "set ?is = set (filter (\<lambda>i. log q i = None) (word_upt 0 ?n))"
      unfolding set_append set_filter extra set_word_upt
      by (intro set_eqI) (metis (mono_tags, lifting) Un_iff atLeastLessThan_iff greaterThanLessThan_iff
        mem_Collect_eq not_le word_coorder.extremum)
  qed
  have "sent pl (visited ?n ?rs) @ sent pl ?extra = wanted q pl"
    unfolding sent wanted_def idx ..
  then show ?thesis
    using loop pl request(3)
    by (cases "?n > ?l") (simp_all add: build_sync_response_def fold_add_missing_entry)
qed

lemma handle_wanted:
  assumes "log_fits pl" and "log_inv pl"
  shows "handle_sync_response \<lparr>missing_entries = wanted q pl\<rparr> (q, s) =
    set_entries (map (\<lambda>i. (i, the (log pl i))) (filter (\<lambda>i. log q i = None) (word_upt 0 (first_free pl)))) (q, s)"
proof -
  have "ucast (ucast i :: 32 word) = i" if "i < first_free pl" for i
  proof -
    from below_first_free [OF assms(2) that] have "i < 2 ^ 32"
      using assms(1) unfolding log_fits_def by blast
    then show ?thesis by (rule widen_truncate)
  qed
  then show ?thesis
    unfolding handle_sync_response_def set_entries_def wanted_def sync_response.simps rfold_map
    by (intro rfold_cong) simp
qed

section \<open>Properties\<close>

text \<open>
  C12: an exchange always gets its answer, and the right one. Between two well-formed logs whose
  indices fit the wire, building the request and the response both return, whatever holes the
  two logs have, and the response holds exactly the entries the requester misses below the
  responder's first free index, each once and in increasing order.
\<close>

theorem sync_response_exact:
  assumes "log_inv q" and "log_fits q" and "log_inv pl"
  shows "\<exists>request. build_sync_request (get_available_indices q) = Inr request \<and>
    range_set (missing_indices request) = {i. i \<le> last (get_available_indices q) \<and> log q i = None} \<and>
    build_sync_response pl request = Some (Inr \<lparr>missing_entries = wanted q pl\<rparr>)"
proof -
  have "holes (available_indices q) (dom (log q))" using assms(1) by (simp add: log_inv_def)
  then have "set (available_indices q) = {i. i \<le> last (available_indices q) \<and> log q i = None}"
    by (auto simp: holes_mem_iff)
  with sync_request_ranges [OF assms(1)] build_sync_response_wanted [OF assms] show ?thesis
    unfolding get_available_indices_def by metis
qed

text \<open>A log with a hole at 1 and one without.\<close>

definition holed_log :: "index_t list paxos_log" where
  "holed_log = \<lparr>log = [0 \<mapsto> ReconfigStarted [], 2 \<mapsto> ReconfigFinished], available_indices = [1, 3],
     callbacks = record_indices\<rparr>"

definition full_log :: "index_t list paxos_log" where
  "full_log = \<lparr>log = [0 \<mapsto> ReconfigStarted [], 1 \<mapsto> ReconfigFinished, 2 \<mapsto> ReconfigFinished],
     available_indices = [3], callbacks = record_indices\<rparr>"

lemma example_runs:
  "set_entries [(0, ReconfigStarted []), (2, ReconfigFinished)] (PaxosLog\<lparr>callbacks := record_indices\<rparr>, []) =
     Inr (holed_log, [0])"
  "set_entries [(0, ReconfigStarted []), (1, ReconfigFinished), (2, ReconfigFinished)]
     (PaxosLog\<lparr>callbacks := record_indices\<rparr>, []) = Inr (full_log, [0, 1, 2])"
  by (simp_all add: holed_log_def full_log_def set_entries_def set_entry_def next_available_index_def
      PaxosLog_def take_index_def log_insert_def word_upt_Cons invoke_callbacks_def log_at_def record_indices_def Let_def)

lemma example_logs:
  "log_inv holed_log" "log_inv full_log" "log_fits holed_log" "log_fits full_log"
proof -
  have inv: "log_inv (PaxosLog\<lparr>callbacks := record_indices\<rparr>)" by (simp add: log_inv_PaxosLog)
  show "log_inv holed_log" using set_entries_log_inv [OF inv _ example_runs(1)] by simp
  show "log_inv full_log" using set_entries_log_inv [OF inv _ example_runs(2)] by simp
  show "log_fits holed_log" "log_fits full_log"
    by (auto simp: log_fits_def holed_log_def full_log_def dom_def)
qed

theorem sync_response_exact_witness:
  "\<exists>request. build_sync_request (get_available_indices holed_log) = Inr request \<and>
     build_sync_response full_log request = Some (Inr \<lparr>missing_entries = [(1, ReconfigFinished)]\<rparr>)"
proof -
  have "wanted holed_log full_log = [(1, ReconfigFinished)]"
    by (simp add: wanted_def holed_log_def full_log_def first_free_def word_upt_Cons)
  with sync_response_exact [OF example_logs(1,3,2)] show ?thesis by metis
qed

text \<open>
  C13: one exchange catches up. Once the requester has stored the response, its first free index
  is at least the responder's, it holds the responder's entry at every index it missed below
  that, and none of its own entries has changed.
\<close>

theorem sync_exchange_catches_up:
  assumes "log_inv q" and "log_fits q" and "log_inv pl" and "log_fits pl"
    and "build_sync_request (get_available_indices q) = Inr request"
    and "build_sync_response pl request = Some (Inr response)"
    and "handle_sync_response response (q, s) = Inr (q', s')"
  shows "log_inv q' \<and> first_free pl \<le> first_free q' \<and>
    (\<forall>i. log q' i = (if log q i \<noteq> None then log q i else if i < first_free pl then log pl i else None))"
proof -
  let ?is = "filter (\<lambda>i. log q i = None) (word_upt 0 (first_free pl))"
  let ?es = "map (\<lambda>i. (i, the (log pl i))) ?is"
  have "response = \<lparr>missing_entries = wanted q pl\<rparr>"
    using sync_response_exact [OF assms(1-3)] assms(5,6) by auto
  with assms(7) have run: "rfold (\<lambda>(i, e). set_entry i e) ?es (q, s) = Inr (q', s')"
    using handle_wanted [OF assms(4,3), of q s] by (simp add: set_entries_def)
  have max: "- 1 \<notin> fst ` set ?es"
    using word_coorder.extremum [of "first_free pl"] by (auto dest: leD)
  have inv: "log_inv (fst (q, s))" using assms(1) by simp
  have mem: "i \<in> set ?is \<longleftrightarrow> log q i = None \<and> i < first_free pl" for i by auto
  have es: "map_of ?es i = (if i \<in> set ?is then Some (the (log pl i)) else None)" for i
    by (induction ?is) (auto simp: map_of_map_restrict restrict_map_def)
  have "first_free pl \<le> first_free (fst (q', s'))"
    by (rule log_store.puts_covers [OF inv max run]) (use mem in \<open>force simp: image_iff\<close>)
  moreover have "log q' i = (if log q i \<noteq> None then log q i else if i < first_free pl then log pl i else None)" for i
    using log_store.puts_at [OF inv max run, of i] es [of i] mem [of i] below_first_free [OF assms(3), of i]
    by (auto split: option.splits)
  moreover have "log_inv q'" using log_store.puts_inv [OF inv max run] by simp
  ultimately show ?thesis by simp
qed

theorem sync_exchange_catches_up_witness:
  "\<exists>request response q' s'. build_sync_request (get_available_indices holed_log) = Inr request \<and>
     build_sync_response full_log request = Some (Inr response) \<and>
     handle_sync_response response (holed_log, [0]) = Inr (q', s') \<and> 3 \<le> first_free q' \<and> log q' 1 = Some ReconfigFinished"
proof -
  have w: "wanted holed_log full_log = [(1, ReconfigFinished)]"
    by (simp add: wanted_def holed_log_def full_log_def first_free_def word_upt_Cons)
  from sync_response_exact_witness obtain request where
    r: "build_sync_request (get_available_indices holed_log) = Inr request"
      "build_sync_response full_log request = Some (Inr \<lparr>missing_entries = [(1, ReconfigFinished)]\<rparr>)" by blast
  obtain q' s' where h: "handle_sync_response \<lparr>missing_entries = [(1, ReconfigFinished)]\<rparr> (holed_log, [0]) = Inr (q', s')"
    by (simp add: handle_sync_response_def holed_log_def set_entry_def next_available_index_def take_index_def
        log_insert_def word_upt_Cons invoke_callbacks_def log_at_def record_indices_def Let_def)
  from sync_exchange_catches_up [OF example_logs(1,3,2,4) r h] r h show ?thesis
    by (fastforce simp: holed_log_def full_log_def first_free_def)
qed

end
