(* ===== verification/PaxosServer.thy ===== *)
theory PaxosServer
  imports MultiPaxosHandler PaxosConfigManager LogSyncer
begin

text \<open>
  What the three kinds of server have in common: a node (the Paxos handlers, the log, the
  connections, the state the log's callbacks change) that answers Paxos and sync messages. The
  dispatch of sync messages is the same text in IncomingMessageHandler.cc and
  SlaveIncomingMessageHandler.cc (both under src/src/slave) and MasterIncomingMessageHandler.cc
  (src/src/master); the factory of instances and the endpoints of the synchroniser are the same
  lambdas in TabletParticipant.cc, LocalTransactionManager.cc and DataMaster.cc.

  The locale \<open>log_follower\<close> is the contract between such a node and a relation between its state
  and the replay of its log: if every entry applied to both keeps the relation, so does every
  message. Where nothing but the log changes the state the relation is equality.
\<close>

section \<open>Operations\<close>

text \<open>The factory: a fresh instance over the configuration of its index.\<close>

definition config_provider :: "('s \<Rightarrow> config_timeline) \<Rightarrow> 's instance_provider" where
  "config_provider get d i = rbind (config (get d) i) (\<lambda>es. Inr (SinglePaxosHandler i es))"

definition handle_sync_message ::
  "(sync_message \<Rightarrow> 'w) \<Rightarrow> endpoint_id \<Rightarrow> sync_message \<Rightarrow> ('w, 's) paxos_node \<Rightarrow> ('w, 's) paxos_node result option" where
  "handle_sync_message to_wire endpoint m nd =
     (case m of
        SyncRequest request \<Rightarrow>
          map_option (\<lambda>r. rbind r (\<lambda>c. Inr (nd\<lparr>node_connections := c\<rparr>)))
            (handle_sync_request to_wire (node_log nd) endpoint request (node_connections nd))
      | SyncResponse response \<Rightarrow>
          Some (rbind (handle_sync_response response (node_log nd, node_derived nd)) (\<lambda>(pl, d).
            Inr (nd\<lparr>node_log := pl, node_derived := d\<rparr>)))
      | SyncNotSet \<Rightarrow> Some (Inr nd))"

text \<open>The synchroniser's timer fires; it asks the servers of the latest configuration.\<close>

definition sync_timer ::
  "(sync_message \<Rightarrow> 'w) \<Rightarrow> ('s \<Rightarrow> config_timeline) \<Rightarrow> ('w, 's) paxos_node \<Rightarrow> ('w, 's) paxos_node result" where
  "sync_timer to_wire get nd =
     rbind (latest_config (get (node_derived nd))) (\<lambda>endpoints.
     rbind (syncing_callback to_wire endpoints (node_log nd) (node_connections nd)) (\<lambda>c.
     Inr (nd\<lparr>node_connections := c\<rparr>)))"

section \<open>The state follows the log\<close>

lemma widen_not_max [simp]: "(ucast (j::32 word) :: 64 word) \<noteq> - 1"
proof
  assume "(ucast j :: 64 word) = - 1"
  with widen_less [of j] show False by simp
qed

text \<open>What a factory must get right.\<close>

definition indexed_provider :: "'s instance_provider \<Rightarrow> bool" where
  "indexed_provider provider \<longleftrightarrow> (\<forall>d i h. provider d i = Inr h \<longrightarrow> paxos_log_index h = i)"

lemma indexed_config_provider [simp]: "indexed_provider (config_provider get)"
  by (auto simp: indexed_provider_def config_provider_def rbind_eq_Inr)

lemma react_index:
  "react cs p m h = Inr x \<Longrightarrow> paxos_log_index (new_state x) = paxos_log_index h"
  "paxos_log_index (new_state (react_propose draw e h)) = paxos_log_index h"
  using react_same [of cs p m h x] by (simp_all add: react_propose_same)

text \<open>No operation of a node changes which endpoints it is connected to.\<close>

lemma emit_endpoints [simp]: "get_all_endpoints (emit to_wire h out c) = get_all_endpoints c"
  by (cases out) (auto simp: emit_def split: prod.splits)

lemma apply_reaction_endpoints:
  "apply_reaction to_wire i h x nd = Inr nd' \<Longrightarrow>
     get_all_endpoints (node_connections nd') = get_all_endpoints (node_connections nd)"
  by (auto simp: apply_reaction_def rbind_eq_Inr)

lemma propose_endpoints:
  "multi_propose to_wire provider draw e nd = Inr nd' \<Longrightarrow>
     get_all_endpoints (node_connections nd') = get_all_endpoints (node_connections nd)"
  by (auto simp: multi_propose_react rbind_eq_Inr dest: apply_reaction_endpoints)

lemma paxos_message_endpoints:
  "handle_incoming_message to_wire cs provider endpoint m nd = Inr nd' \<Longrightarrow>
     get_all_endpoints (node_connections nd') = get_all_endpoints (node_connections nd)"
  by (auto simp: handle_incoming_message_react rbind_eq_Inr dest: apply_reaction_endpoints)

lemma sync_request_endpoints:
  "handle_sync_request to_wire pl endpoint request c = Some (Inr c') \<Longrightarrow> get_all_endpoints c' = get_all_endpoints c"
  by (auto simp: handle_sync_request_def rbind_eq_Inr Let_def split: option.splits)

lemma sync_message_endpoints:
  "handle_sync_message to_wire endpoint m nd = Some (Inr nd') \<Longrightarrow>
     get_all_endpoints (node_connections nd') = get_all_endpoints (node_connections nd)"
  by (cases m) (auto simp: handle_sync_message_def rbind_eq_Inr dest: sync_request_endpoints)

lemma sync_timer_endpoints:
  "sync_timer to_wire get nd = Inr nd' \<Longrightarrow>
     get_all_endpoints (node_connections nd') = get_all_endpoints (node_connections nd)"
  by (auto simp: sync_timer_def syncing_callback_def rbind_eq_Inr Let_def simp del: broadcast.simps)

locale log_follower =
  fixes cbs :: "content_case \<Rightarrow> 's log_callback list"
    and R :: "'s \<Rightarrow> 's \<Rightarrow> bool"
  assumes R_apply: "apply_entry cbs i e d = Inr d' \<Longrightarrow> R d d0 \<Longrightarrow>
    \<exists>d0'. apply_entry cbs i e d0 = Inr d0' \<and> R d' d0'"
begin

definition log_followed :: "'s \<Rightarrow> 's paxos_log \<Rightarrow> 's \<Rightarrow> bool" where
  "log_followed init pl d \<longleftrightarrow> log_inv pl \<and> callbacks pl = cbs \<and>
     (\<exists>d0. replay cbs (log pl) (first_free pl) init = Inr d0 \<and> R d d0)"

definition server_inv :: "'s \<Rightarrow> ('w, 's) paxos_node \<Rightarrow> bool" where
  "server_inv init nd \<longleftrightarrow>
     (\<forall>i h. paxos_instances (node_paxos nd) i = Some h \<longrightarrow> paxos_log_index h = i) \<and>
     log_followed init (node_log nd) (node_derived nd)"

lemma R_range:
  assumes "apply_range cbs m a b d = Inr d'" "R d d0"
  shows "\<exists>d0'. apply_range cbs m a b d0 = Inr d0' \<and> R d' d0'"
proof -
  have "\<exists>d0'. rfold (\<lambda>i. apply_entry cbs i (the (m i))) is d0 = Inr d0' \<and> R d' d0'"
    if "rfold (\<lambda>i. apply_entry cbs i (the (m i))) is d = Inr d'" "R d d0" for "is" d d0
    using that
  proof (induction "is" arbitrary: d d0)
    case (Cons i "is")
    then obtain d1 where d1: "apply_entry cbs i (the (m i)) d = Inr d1"
      "rfold (\<lambda>i. apply_entry cbs i (the (m i))) is d1 = Inr d'" by (auto simp: rbind_eq_Inr)
    from R_apply [OF d1(1) Cons.prems(2)] obtain e1 where
      "apply_entry cbs i (the (m i)) d0 = Inr e1" "R d1 e1" by blast
    with Cons.IH [OF d1(2)] show ?case by simp
  qed simp
  with assms show ?thesis by (simp add: apply_range_def)
qed

lemma set_entry_followed:
  assumes "log_followed init pl d" "i \<noteq> - 1" "set_entry i e (pl, d) = Inr (pl', d')"
  shows "log_followed init pl' d'"
proof -
  from assms(1) obtain d0 where inv: "log_inv pl" "callbacks pl = cbs"
    and d0: "replay cbs (log pl) (first_free pl) init = Inr d0" "R d d0" by (auto simp: log_followed_def)
  from assms(3) have pl': "pl' = store_entry (i, e) pl"
    and app: "apply_range cbs (log pl') (first_free pl) (first_free pl') d = Inr d'"
    unfolding set_entry_store [OF inv(1) assms(2)] inv(2) by (auto simp: rbind_eq_Inr)
  from R_range [OF app d0(2)] obtain d0' where
    d0': "apply_range cbs (log pl') (first_free pl) (first_free pl') d0 = Inr d0'" "R d' d0'" by blast
  have "replay cbs (log pl') (first_free pl) init = replay cbs (log pl) (first_free pl) init"
    unfolding replay_def pl' by (rule apply_range_cong) (use below_first_free [OF inv(1)] in fastforce)
  moreover have "first_free pl \<le> first_free pl'"
    unfolding pl' using inv(1) assms(2) by (intro store_entry_first_free) simp_all
  ultimately have "replay cbs (log pl') (first_free pl') init = Inr d0'"
    using d0(1) d0'(1) by (simp add: replay_append)
  with d0'(2) inv assms(2) show ?thesis
    by (auto simp: log_followed_def pl' store_entry_inv)
qed

lemma handle_sync_response_followed:
  assumes "handle_sync_response response (pl, d) = Inr (pl', d')" "log_followed init pl d"
  shows "log_followed init pl' d'"
proof -
  have "log_followed init (fst (pl', d')) (snd (pl', d'))"
  proof (rule rfold_invariant [OF assms(1) [unfolded handle_sync_response_def]])
    fix ie :: "32 word \<times> paxos_log_entry" and x x'
    assume x: "log_followed init (fst x) (snd x)" and step: "(case ie of (i, e) \<Rightarrow> set_entry (ucast i) e) x = Inr x'"
    obtain i e where ie: "ie = (i, e)" by (cases ie)
    show "log_followed init (fst x') (snd x')"
      using step by (intro set_entry_followed [OF x widen_not_max [of i], of e]) (simp add: ie)
  qed (use assms(2) in simp)
  then show ?thesis by simp
qed

lemma instance_of_index:
  "server_inv init nd \<Longrightarrow> indexed_provider provider \<Longrightarrow> instance_of provider i nd = Inr h \<Longrightarrow>
     paxos_log_index h = i"
  by (auto simp: server_inv_def indexed_provider_def instance_of_def split: option.splits)

lemma apply_reaction_server:
  assumes "apply_reaction to_wire i h x nd = Inr nd'" "server_inv init nd"
    and "paxos_log_index h = i" "paxos_log_index (new_state x) = i" "i \<noteq> - 1 \<or> decided x = None"
  shows "server_inv init nd'"
proof -
  from assms(1) obtain pl d where
    set: "(case decided x of None \<Rightarrow> Inr (node_log nd, node_derived nd)
           | Some v \<Rightarrow> set_entry i v (node_log nd, node_derived nd)) = Inr (pl, d)"
    and nd': "nd' = put_instance i (new_state x) (nd\<lparr>node_connections :=
        emit to_wire h (outgoing x) (node_connections nd), node_log := pl, node_derived := d\<rparr>)"
    unfolding apply_reaction_def assms(3) by (auto simp: rbind_eq_Inr)
  have "log_followed init pl d"
  proof (cases "decided x")
    case None
    with set assms(2) show ?thesis by (simp add: server_inv_def)
  next
    case (Some v)
    with set assms(2,5) show ?thesis by (auto simp: server_inv_def intro: set_entry_followed)
  qed
  with assms(2,4) show ?thesis by (simp add: server_inv_def nd')
qed

lemma propose_server:
  assumes "multi_propose to_wire provider draw e nd = Inr nd'" "server_inv init nd" "indexed_provider provider"
  shows "server_inv init nd'"
proof -
  from assms(1) obtain i h where h: "instance_of provider i nd = Inr h"
    "apply_reaction to_wire i h (react_propose draw e h) nd = Inr nd'"
    by (auto simp: multi_propose_react rbind_eq_Inr)
  have "decided (react_propose draw e h) = None" by (simp add: react_propose_def Let_def)
  with apply_reaction_server [OF h(2) assms(2)] instance_of_index [OF assms(2,3) h(1)]
  show ?thesis by (simp add: react_index)
qed

lemma paxos_message_server:
  assumes "handle_incoming_message to_wire cs provider endpoint m nd = Inr nd'" "server_inv init nd"
    "indexed_provider provider"
  shows "server_inv init nd'"
proof -
  let ?i = "ucast (paxos_index m) :: index_t"
  from assms(1) obtain h x where h: "instance_of provider ?i nd = Inr h"
    "react cs endpoint (paxos_payload m) h = Inr x" "apply_reaction to_wire ?i h x nd = Inr nd'"
    by (auto simp: handle_incoming_message_react rbind_eq_Inr)
  from instance_of_index [OF assms(2,3) h(1)] have "paxos_log_index h = ?i" .
  with apply_reaction_server [OF h(3) assms(2)] react_index(1) [OF h(2)] show ?thesis by simp
qed

lemma sync_message_server:
  "handle_sync_message to_wire endpoint m nd = Some (Inr nd') \<Longrightarrow> server_inv init nd \<Longrightarrow> server_inv init nd'"
  by (cases m) (auto simp: handle_sync_message_def rbind_eq_Inr server_inv_def intro: handle_sync_response_followed)

lemma sync_timer_server:
  "sync_timer to_wire get nd = Inr nd' \<Longrightarrow> server_inv init nd \<Longrightarrow> server_inv init nd'"
  by (auto simp: sync_timer_def rbind_eq_Inr server_inv_def)

lemma connections_server [simp]:
  "server_inv init (nd\<lparr>node_connections := c\<rparr>) = server_inv init nd"
  by (simp add: server_inv_def)

lemma derived_server:
  "server_inv init nd \<Longrightarrow> (\<And>d0. R (node_derived nd) d0 \<Longrightarrow> R d d0) \<Longrightarrow> server_inv init (nd\<lparr>node_derived := d\<rparr>)"
  by (auto simp: server_inv_def log_followed_def)

lemma server_replay:
  "server_inv init nd \<Longrightarrow>
     \<exists>d0. replay cbs (log (node_log nd)) (first_free (node_log nd)) init = Inr d0 \<and> R (node_derived nd) d0"
  by (auto simp: server_inv_def log_followed_def)

lemma initial_server:
  "log_inv pl \<Longrightarrow> callbacks pl = cbs \<Longrightarrow> available_indices pl = [0] \<Longrightarrow> R d d0 \<Longrightarrow>
     server_inv d0 \<lparr>node_paxos = MultiPaxosHandler, node_connections = c, node_log = pl, node_derived = d\<rparr>"
  by (auto simp: server_inv_def log_followed_def MultiPaxosHandler_def first_free_def replay_def)

end

end
