(* ===== verification/GuardedLog.thy ===== *)
theory GuardedLog
  imports PaxosLog
begin

text \<open>
  The contract between a Paxos log and the components that propose entries for it. A component
  proposes for the first free index, whose log below it has been replayed, and checks the entry
  against the replayed state: ClientRequestHandler (the timestamp of a write), SlaveKeySpaceManager
  and KeySpaceManager (the generation of a key space). The locale says what such a check is worth:
  if every entry of a log passed it against the state replayed below the entry, no callback throws,
  on no replica and in no order of arrival.
\<close>

section \<open>Replaying one more entry\<close>

lemma replay_0 [simp]: "replay cbs m 0 s = Inr s"
  by (simp add: replay_def apply_range_def)

lemma below_succ: "(i::'a::len word) < j \<Longrightarrow> i < i + 1"
  by (metis lessI unat_succ Suc_eq_plus1 word_less_nat_alt)

lemma not_max_below: "(i::'a::len word) < j \<Longrightarrow> i \<noteq> - 1"
  using below_succ [of i j] by auto

lemma word_upt_succ: "(i::'a::len word) < j \<Longrightarrow> word_upt i (i + 1) = [i]"
  by (simp add: word_upt_Cons below_succ)

lemma replay_step:
  assumes "i < j"
  shows "replay cbs m (i + 1) s = rbind (replay cbs m i s) (apply_entry cbs i (the (m i)))"
proof (rule replay_succ)
  show "i \<noteq> - 1" using below_succ [OF assms] by auto
qed

lemma word_induct_below:
  assumes "P (0::'a::len word)" and "\<And>i. i < j \<Longrightarrow> P i \<Longrightarrow> P (i + 1)"
  shows "P j"
proof -
  have "P k" if "k \<le> j" for k
    using that
  proof (induction "unat k" arbitrary: k)
    case 0
    then show ?case using assms(1) by (metis unat_eq_0)
  next
    case (Suc n)
    then have k: "k \<noteq> 0" by auto
    then have k1: "unat (k - 1) = n" "k - 1 < k" using Suc.hyps(2)
      by (simp_all add: unat_minus_one word_less_nat_alt)
    with Suc.prems have "k - 1 < j" by simp
    with Suc.hyps(1) [of "k - 1"] k1 assms(2) [of "k - 1"] show ?case by simp
  qed
  then show ?thesis by simp
qed

section \<open>The contract\<close>

locale guarded_client =
  fixes client_callbacks :: "content_case \<Rightarrow> 's log_callback list"
    and guard :: "'s \<Rightarrow> paxos_log_entry \<Rightarrow> bool"
  assumes guard_applies: "guard s e \<Longrightarrow> is_ok (apply_entry client_callbacks i e s)"
begin

text \<open>Every entry below \<open>n\<close> passed the check against the state replayed below it.\<close>

definition guarded :: "(index_t \<rightharpoonup> paxos_log_entry) \<Rightarrow> index_t \<Rightarrow> 's \<Rightarrow> bool" where
  "guarded m n s0 \<longleftrightarrow>
     (\<forall>i s. i < n \<longrightarrow> replay client_callbacks m i s0 = Inr s \<longrightarrow> guard s (the (m i)))"

lemma guarded_replays: "guarded m n s0 \<Longrightarrow> is_ok (replay client_callbacks m n s0)"
proof (rule word_induct_below [where P = "\<lambda>i. is_ok (replay client_callbacks m i s0)" and j = n])
  fix i
  assume g: "guarded m n s0" and i: "i < n" "is_ok (replay client_callbacks m i s0)"
  then obtain s where s: "replay client_callbacks m i s0 = Inr s" by (auto simp: is_ok_iff)
  with g i have "guard s (the (m i))" by (auto simp: guarded_def)
  from guard_applies [OF this] s show "is_ok (replay client_callbacks m (i + 1) s0)"
    by (simp add: replay_step [OF i(1)])
qed simp

lemma guarded_below: "guarded m n s0 \<Longrightarrow> k \<le> n \<Longrightarrow> guarded m k s0"
  by (auto simp: guarded_def)

text \<open>A replica that learns the entries of a guarded log, in any order, never throws.\<close>

lemma guarded_learning:
  assumes es: "- 1 \<notin> fst ` set es" and m: "\<forall>i e. map_of es i = Some e \<longrightarrow> m i = Some e"
    and g: "guarded m n s0"
    and n: "first_free (fold store_entry es (PaxosLog\<lparr>callbacks := client_callbacks\<rparr>)) \<le> n"
  shows "is_ok (set_entries es (PaxosLog\<lparr>callbacks := client_callbacks\<rparr>, s0))"
proof -
  let ?p = "PaxosLog\<lparr>callbacks := client_callbacks\<rparr>" and ?q = "fold store_entry es (PaxosLog\<lparr>callbacks := client_callbacks\<rparr>)"
  have inv: "log_inv ?p" by (simp add: log_inv_PaxosLog)
  have lg: "log ?q = map_of es" by (rule ext) (simp add: fold_store_log PaxosLog_def)
  have "m i = map_of es i" if "i < first_free ?q" for i
    using below_first_free [OF fold_store_inv [OF inv es] that] m lg by auto
  then have "replay client_callbacks m (first_free ?q) s0 = replay client_callbacks (log ?q) (first_free ?q) s0"
    unfolding replay_def lg by (intro apply_range_cong) simp
  with guarded_replays [OF guarded_below [OF g n]] set_entries_fold [OF inv es, of s0] show ?thesis
    by (auto simp: replay_def is_ok_iff)
qed

end

end
