(* ===== verification/AsyncQueue.thy ===== *)
theory AsyncQueue
  imports UniTypes
begin

text \<open>
  Deferred work (src/src/async): queues of which only the head is ever scheduled. Three classes
  follow this pattern, \<open>AsyncSchedulerImpl\<close> (incoming messages posted to the server thread),
  \<open>AsyncQueue\<close> (tasks that may ask to be run again) and \<open>ChannelImpl\<close> (messages written to the
  socket, in ChannelImpl.thy); the locale \<open>single_flight\<close> states what they share and proves that
  exactly one job is pending while the queue is not empty, and that elements are finished in the
  order they were queued, each once, when no two operations overlap. \<open>AsyncSchedulerImpl\<close> has a lock
  for that; \<open>AsyncQueue\<close> has none: the section on two threads takes its operations apart and says what
  an overlap of them can do, and what it cannot. The timers of \<open>TimerAsyncSchedulerImpl\<close> are the last
  part.
\<close>

section \<open>Queues with one job in flight\<close>

datatype 'm queue_event = Enqueue 'm | JobDone | JobAgain

text \<open>
  A run: the queue, what it accepted and what was finished. A job can only end when one is
  pending; \<open>JobAgain\<close> is a job that ends by scheduling itself again.
\<close>

fun flight_step ::
  "('q \<Rightarrow> 'm list) \<Rightarrow> ('q \<Rightarrow> bool) \<Rightarrow> ('m \<Rightarrow> 'q \<Rightarrow> 'q) \<Rightarrow> ('q \<Rightarrow> 'q) \<Rightarrow> ('q \<Rightarrow> 'q)
   \<Rightarrow> 'm queue_event \<Rightarrow> 'q \<times> 'm list \<times> 'm list \<Rightarrow> 'q \<times> 'm list \<times> 'm list" where
  "flight_step jobs accepts enqueue job_done job_again (Enqueue m) (q, accepted, finished) =
     (enqueue m q, if accepts q then accepted @ [m] else accepted, finished)"
| "flight_step jobs accepts enqueue job_done job_again JobDone (q, accepted, finished) =
     (if jobs q = [] then (q, accepted, finished) else (job_done q, accepted, finished @ [hd (jobs q)]))"
| "flight_step jobs accepts enqueue job_done job_again JobAgain (q, accepted, finished) =
     (if jobs q = [] then (q, accepted, finished) else (job_again q, accepted, finished))"

locale single_flight =
  fixes queued :: "'q \<Rightarrow> 'm list"
    and jobs :: "'q \<Rightarrow> 'm list"
    and accepts :: "'q \<Rightarrow> bool"
    and enqueue :: "'m \<Rightarrow> 'q \<Rightarrow> 'q"
    and job_done :: "'q \<Rightarrow> 'q"
    and job_again :: "'q \<Rightarrow> 'q"
  assumes enqueue_queued: "queued (enqueue m q) = (if accepts q then queued q @ [m] else queued q)"
    and enqueue_first: "queued q = [] \<Longrightarrow> jobs q = [] \<Longrightarrow> jobs (enqueue m q) = (if accepts q then [m] else [])"
    and enqueue_later: "queued q \<noteq> [] \<Longrightarrow> jobs (enqueue m q) = jobs q"
    and done_queued: "queued q = m # ms \<Longrightarrow> jobs q = [m] \<Longrightarrow> queued (job_done q) = ms"
    and done_jobs: "queued q = m # ms \<Longrightarrow> jobs q = [m] \<Longrightarrow> jobs (job_done q) = take 1 ms"
    and again_queued: "queued q = m # ms \<Longrightarrow> jobs q = [m] \<Longrightarrow> queued (job_again q) = m # ms"
    and again_jobs: "queued q = m # ms \<Longrightarrow> jobs q = [m] \<Longrightarrow> jobs (job_again q) = [m]"
begin

definition flight_inv :: "'q \<Rightarrow> bool" where
  "flight_inv q \<longleftrightarrow> jobs q = take 1 (queued q)"

lemma flight_step_inv:
  assumes "flight_inv q" and "flight_step jobs accepts enqueue job_done job_again ev (q, acc, fin) = (q', acc', fin')"
    and "acc = fin @ queued q"
  shows "flight_inv q' \<and> acc' = fin' @ queued q'"
proof (cases "queued q")
  case Nil
  with assms show ?thesis
    by (cases ev) (auto simp: flight_inv_def enqueue_queued enqueue_first enqueue_later split: if_splits)
next
  case (Cons m ms)
  with assms(1) have j: "jobs q = [m]" by (simp add: flight_inv_def)
  show ?thesis
    using assms Cons j done_queued [OF Cons j] done_jobs [OF Cons j] again_queued [OF Cons j] again_jobs [OF Cons j]
    by (cases ev) (auto simp: flight_inv_def enqueue_queued enqueue_first enqueue_later split: if_splits)
qed

lemma flight_run:
  assumes "queued q0 = []" and "jobs q0 = []" and "fold (flight_step jobs accepts enqueue job_done job_again) evs (q0, [], []) = (q, acc, fin)"
  shows "jobs q = take 1 (queued q) \<and> acc = fin @ queued q"
  using assms(3)
proof (induction evs arbitrary: q acc fin rule: rev_induct)
  case Nil
  with assms show ?case by simp
next
  case (snoc ev evs)
  obtain q1 acc1 fin1 where pre: "fold (flight_step jobs accepts enqueue job_done job_again) evs (q0, [], []) = (q1, acc1, fin1)"
    by (cases "fold (flight_step jobs accepts enqueue job_done job_again) evs (q0, [], [])") auto
  with snoc.prems have step: "flight_step jobs accepts enqueue job_done job_again ev (q1, acc1, fin1) = (q, acc, fin)" by simp
  from snoc.IH [OF pre] have "flight_inv q1" "acc1 = fin1 @ queued q1" by (simp_all add: flight_inv_def)
  from flight_step_inv [OF this(1) step this(2)] show ?case by (simp add: flight_inv_def)
qed

end

section \<open>AsyncSchedulerImpl\<close>

text \<open>
  \<open>_message_queue\<close> and the closures posted to the \<open>io_context\<close>, each with its message. The
  closure runs the callback (which may queue further messages) and then pops.
\<close>

record 'm async_scheduler =
  message_queue :: "'m list"
  posted :: "'m list"

definition AsyncSchedulerImpl :: "'m async_scheduler" where
  "AsyncSchedulerImpl = \<lparr>message_queue = [], posted = []\<rparr>"

definition schedule_async :: "'m \<Rightarrow> 'm async_scheduler \<Rightarrow> 'm async_scheduler" where
  "schedule_async m a = a\<lparr>posted := posted a @ [m]\<rparr>"

definition queue_message :: "'m \<Rightarrow> 'm async_scheduler \<Rightarrow> 'm async_scheduler" where
  "queue_message m a =
     (let a' = a\<lparr>message_queue := message_queue a @ [m]\<rparr>
      in if length (message_queue a') = 1 then schedule_async m a' else a')"

text \<open>The rest of the posted closure, once its callback has returned.\<close>

definition message_handled :: "'m async_scheduler \<Rightarrow> 'm async_scheduler" where
  "message_handled a =
     (let a' = a\<lparr>message_queue := tl (message_queue a), posted := tl (posted a)\<rparr>
      in if length (message_queue a') > 0 then schedule_async (hd (message_queue a')) a' else a')"

interpretation scheduler: single_flight message_queue posted "\<lambda>_. True" queue_message message_handled "\<lambda>a. a"
  by unfold_locales
    (auto simp: queue_message_def message_handled_def schedule_async_def Let_def take_Suc hd_conv_nth)

section \<open>AsyncQueue\<close>

text \<open>
  A task returns \<open>TERMINATE\<close> or the time to wait before it runs again. \<open>scheduled_runs\<close> holds
  the waits of the pending timers, each of which calls \<open>run_task\<close>.
\<close>

definition TERMINATE :: int where "TERMINATE = - 1"

type_synonym 's async_task = "'s \<Rightarrow> (int \<times> 's) result"

record 's async_queue =
  queue_callbacks :: "'s async_task list"
  scheduled_runs :: "int list"

definition AsyncQueue :: "'s async_queue" where
  "AsyncQueue = \<lparr>queue_callbacks = [], scheduled_runs = []\<rparr>"

definition schedule_run :: "int \<Rightarrow> 's async_queue \<Rightarrow> 's async_queue" where
  "schedule_run wait q = q\<lparr>scheduled_runs := scheduled_runs q @ [wait]\<rparr>"

definition add_task :: "'s async_task \<Rightarrow> 's async_queue \<Rightarrow> 's async_queue" where
  "add_task callback q =
     (let q' = q\<lparr>queue_callbacks := queue_callbacks q @ [callback]\<rparr>
      in if length (queue_callbacks q') = 1 then schedule_run 0 q' else q')"

text \<open>What \<open>run_task\<close> does with the value the callback returned.\<close>

definition task_returned :: "int \<Rightarrow> 's async_queue \<Rightarrow> 's async_queue" where
  "task_returned wait q =
     (if wait = TERMINATE then
        let q' = q\<lparr>queue_callbacks := tl (queue_callbacks q)\<rparr>
        in if length (queue_callbacks q') > 0 then schedule_run 0 q' else q'
      else schedule_run wait q)"

definition run_task :: "'s async_queue \<times> 's \<Rightarrow> ('s async_queue \<times> 's) result" where
  "run_task x =
     (let (q, s) = x
      in case queue_callbacks q of
           [] \<Rightarrow> Inl UndefinedBehaviour
         | callback # _ \<Rightarrow> rbind (callback s) (\<lambda>(wait, s'). Inr (task_returned wait q, s')))"

text \<open>The timer at the head fires and calls \<open>run_task\<close>.\<close>

definition fire_run :: "'s async_queue \<times> 's \<Rightarrow> ('s async_queue \<times> 's) result" where
  "fire_run x = (let (q, s) = x in run_task (q\<lparr>scheduled_runs := tl (scheduled_runs q)\<rparr>, s))"

definition queue_empty :: "'s async_queue \<Rightarrow> bool" where
  "queue_empty q \<longleftrightarrow> queue_callbacks q = []"

text \<open>The pending timers run whatever task is then at the front.\<close>

definition pending_tasks :: "'s async_queue \<Rightarrow> 's async_task list" where
  "pending_tasks q = map (\<lambda>_. hd (queue_callbacks q)) (scheduled_runs q)"

definition fired :: "'s async_queue \<Rightarrow> 's async_queue" where
  "fired q = q\<lparr>scheduled_runs := tl (scheduled_runs q)\<rparr>"

interpretation task_queue: single_flight queue_callbacks pending_tasks "\<lambda>_. True" add_task
  "\<lambda>q. task_returned TERMINATE (fired q)" "\<lambda>q. task_returned 0 (fired q)"
  by unfold_locales
    (auto simp: add_task_def task_returned_def schedule_run_def pending_tasks_def fired_def Let_def
      take_Suc hd_append TERMINATE_def split: list.splits)

text \<open>Tasks are added, and a pending timer fires.\<close>

datatype 's task_event = AddTask "'s async_task" | FireTimer

fun task_step :: "'s task_event \<Rightarrow> 's async_queue \<times> 's \<Rightarrow> ('s async_queue \<times> 's) result" where
  "task_step (AddTask t) (q, s) = Inr (add_task t q, s)"
| "task_step FireTimer (q, s) = (if scheduled_runs q = [] then Inr (q, s) else fire_run (q, s))"

definition async_queue_inv :: "'s async_queue \<Rightarrow> bool" where
  "async_queue_inv q \<longleftrightarrow> length (scheduled_runs q) = (if queue_callbacks q = [] then 0 else 1)"

lemma async_queue_inv_add_task [inv_intros]: "async_queue_inv q \<Longrightarrow> async_queue_inv (add_task t q)"
  by (cases "queue_callbacks q")
    (auto simp: async_queue_inv_def add_task_def schedule_run_def Let_def)

lemma async_queue_inv_returned:
  "async_queue_inv q \<Longrightarrow> scheduled_runs q \<noteq> [] \<Longrightarrow> async_queue_inv (task_returned wait (fired q))"
  by (cases "scheduled_runs q"; cases "queue_callbacks q")
    (auto simp: async_queue_inv_def task_returned_def fired_def schedule_run_def Let_def take_Suc
      split: list.splits)

text \<open>A queue whose tasks are known: the front one has run, and stays unless it returned \<open>TERMINATE\<close>.\<close>

lemma fire_run_tasks:
  assumes "fire_run (q, s) = Inr (q', s')" "queue_callbacks q = map T ts"
  obtains t ts' w where "ts = t # ts'" "T t s = Inr (w, s')"
    "queue_callbacks q' = map T (if w = TERMINATE then ts' else ts)"
    "async_queue_inv q \<Longrightarrow> scheduled_runs q \<noteq> [] \<Longrightarrow> async_queue_inv q'"
proof (cases ts)
  case Nil
  with assms show ?thesis by (simp add: fire_run_def run_task_def)
next
  case (Cons t ts')
  with assms obtain w where w: "T t s = Inr (w, s')" "q' = task_returned w (fired q)"
    by (auto simp: fire_run_def run_task_def fired_def rbind_eq_Inr)
  have "queue_callbacks q' = map T (if w = TERMINATE then ts' else ts)"
    using assms(2) Cons by (simp add: w(2) task_returned_def fired_def schedule_run_def Let_def)
  with that [OF Cons w(1)] show ?thesis by (simp add: w(2) async_queue_inv_returned)
qed

lemma task_step_inv:
  assumes "async_queue_inv q" and "task_step ev (q, s) = Inr (q', s')"
  shows "async_queue_inv q'"
proof (cases ev)
  case FireTimer
  with assms show ?thesis
    by (auto simp: fire_run_def run_task_def rbind_eq_Inr fired_def [symmetric] async_queue_inv_returned
        split: if_splits list.splits)
qed (use assms in \<open>auto intro: async_queue_inv_add_task\<close>)

section \<open>AsyncQueue on two threads\<close>

text \<open>
  A server adds tasks on its server thread, while timers run them on its network thread. The steps of
  each thread are the accesses to the queue, one at a time: \<open>push\<close>, then the test of \<open>size\<close> with what
  depends on it; \<open>front\<close> with the callback, then \<open>pop\<close> (or the next timer), then the test of \<open>size\<close>.
  Each thread is at a place in its function. (A step the thread is not ready for does nothing.)
\<close>

datatype add_place = Outside | Pushed
datatype run_place = Waiting | Returned int | Popped

record 's shared_queue =
  sq_queue :: "'s async_queue"
  sq_state :: 's
  sq_add :: add_place
  sq_run :: run_place

datatype 's queue_access = Push "'s async_task" | TestAdded | Front | Pop | TestPopped

fun access_step :: "'s queue_access \<Rightarrow> 's shared_queue \<Rightarrow> 's shared_queue result" where
  "access_step (Push callback) x =
     (if sq_add x = Outside then
        let q = sq_queue x
        in Inr (x\<lparr>sq_queue := q\<lparr>queue_callbacks := queue_callbacks q @ [callback]\<rparr>, sq_add := Pushed\<rparr>)
      else Inr x)"
| "access_step TestAdded x =
     (if sq_add x = Pushed then
        let q = sq_queue x
        in Inr (x\<lparr>sq_queue := (if length (queue_callbacks q) = 1 then schedule_run 0 q else q), sq_add := Outside\<rparr>)
      else Inr x)"
| "access_step Front x =
     (if sq_run x = Waiting \<and> scheduled_runs (sq_queue x) \<noteq> [] then
        case queue_callbacks (sq_queue x) of
          [] \<Rightarrow> Inl UndefinedBehaviour
        | callback # _ \<Rightarrow> rbind (callback (sq_state x)) (\<lambda>(wait, s).
            Inr (x\<lparr>sq_queue := fired (sq_queue x), sq_state := s, sq_run := Returned wait\<rparr>))
      else Inr x)"
| "access_step Pop x =
     (case sq_run x of
        Returned wait \<Rightarrow>
          if wait = TERMINATE then
            let q = sq_queue x in Inr (x\<lparr>sq_queue := q\<lparr>queue_callbacks := tl (queue_callbacks q)\<rparr>, sq_run := Popped\<rparr>)
          else Inr (x\<lparr>sq_queue := schedule_run wait (sq_queue x), sq_run := Waiting\<rparr>)
      | _ \<Rightarrow> Inr x)"
| "access_step TestPopped x =
     (if sq_run x = Popped then
        let q = sq_queue x
        in Inr (x\<lparr>sq_queue := (if length (queue_callbacks q) > 0 then schedule_run 0 q else q), sq_run := Waiting\<rparr>)
      else Inr x)"

definition both_idle :: "'s async_queue \<Rightarrow> 's \<Rightarrow> 's shared_queue" where
  "both_idle q s = \<lparr>sq_queue = q, sq_state = s, sq_add = Outside, sq_run = Waiting\<rparr>"

text \<open>The accesses of a whole call, and a run in which calls do not overlap.\<close>

fun accesses :: "'s task_event \<Rightarrow> 's queue_access list" where
  "accesses (AddTask t) = [Push t, TestAdded]"
| "accesses FireTimer = [Front, Pop, TestPopped]"

lemma whole_call:
  assumes "async_queue_inv q"
  shows "rfold access_step (accesses ev) (both_idle q s) =
    rbind (task_step ev (q, s)) (\<lambda>(q', s'). Inr (both_idle q' s'))"
proof (cases ev)
  case (AddTask t)
  then show ?thesis by (simp add: both_idle_def add_task_def Let_def)
next
  case FireTimer
  show ?thesis
  proof (cases "scheduled_runs q")
    case Nil
    with FireTimer show ?thesis by (simp add: both_idle_def)
  next
    case (Cons w ws)
    with assms obtain t ts where q: "queue_callbacks q = t # ts"
      by (cases "queue_callbacks q") (simp_all add: async_queue_inv_def)
    show ?thesis
      by (cases "t s")
        (auto simp: FireTimer Cons q both_idle_def fire_run_def run_task_def task_returned_def fired_def schedule_run_def Let_def
          split: if_splits)
  qed
qed

lemma serial_accesses:
  "async_queue_inv q \<Longrightarrow> rfold access_step (concat (map accesses evs)) (both_idle q s) =
     rbind (rfold task_step evs (q, s)) (\<lambda>(q', s'). Inr (both_idle q' s'))"
proof (induction evs arbitrary: q s)
  case (Cons ev evs)
  show ?case
  proof (cases "task_step ev (q, s)")
    case (Inr x)
    obtain q' s' where x: "x = (q', s')" by (cases x)
    with Inr Cons.IH [OF task_step_inv [OF Cons.prems]] show ?thesis
      by (simp add: rfold_append whole_call [OF Cons.prems])
  qed (simp add: rfold_append whole_call [OF Cons.prems])
qed simp

text \<open>Some thread is about to see to the tasks that wait.\<close>

definition attended :: "'s shared_queue \<Rightarrow> bool" where
  "attended x \<longleftrightarrow> queue_callbacks (sq_queue x) \<noteq> [] \<longrightarrow>
     scheduled_runs (sq_queue x) \<noteq> [] \<or> sq_run x \<noteq> Waiting \<or>
     sq_add x = Pushed \<and> length (queue_callbacks (sq_queue x)) = 1"

lemma attended_access: "access_step a x = Inr x' \<Longrightarrow> attended x \<Longrightarrow> attended x'"
  by (cases a)
    (auto simp: attended_def schedule_run_def fired_def Let_def rbind_eq_Inr
      split: if_splits run_place.splits list.splits)

section \<open>TimerAsyncSchedulerImpl\<close>

text \<open>
  A timer is the closure given to \<open>async_wait\<close>: it runs its callback and may start a new timer.
  The pending timers are kept in the order of their expiry, those with one expiry in the order they
  were started.
\<close>

datatype 'cb timer_job = RunOnce 'cb | RunRepeated 'cb int | RunFinite 'cb int int

record 'cb timer_scheduler =
  time_now :: int
  timers :: "(int \<times> 'cb timer_job) list"

fun insert_timer :: "int \<times> 'j \<Rightarrow> (int \<times> 'j) list \<Rightarrow> (int \<times> 'j) list" where
  "insert_timer (d, j) [] = [(d, j)]"
| "insert_timer (d, j) ((d', j') # ts) =
     (if d < d' then (d, j) # (d', j') # ts else (d', j') # insert_timer (d, j) ts)"

definition async_wait :: "int \<Rightarrow> 'cb timer_job \<Rightarrow> 'cb timer_scheduler \<Rightarrow> 'cb timer_scheduler" where
  "async_wait wait j t = t\<lparr>timers := insert_timer (time_now t + wait, j) (timers t)\<rparr>"

definition schedule_once :: "'cb \<Rightarrow> int \<Rightarrow> 'cb timer_scheduler \<Rightarrow> 'cb timer_scheduler" where
  "schedule_once callback wait t = async_wait wait (RunOnce callback) t"

definition schedule_repeated :: "'cb \<Rightarrow> int \<Rightarrow> 'cb timer_scheduler \<Rightarrow> 'cb timer_scheduler" where
  "schedule_repeated callback period t = async_wait period (RunRepeated callback period) t"

definition schedule_repeated_finite :: "'cb \<Rightarrow> int \<Rightarrow> int \<Rightarrow> 'cb timer_scheduler \<Rightarrow> 'cb timer_scheduler" where
  "schedule_repeated_finite callback period tries t = async_wait period (RunFinite callback period tries) t"

text \<open>
  What a callback does when it runs at a time: the timers it starts, each with its wait, and the
  state it leaves.
\<close>

type_synonym ('cb, 's) callback_effect = "'cb \<Rightarrow> int \<Rightarrow> 's \<Rightarrow> (int \<times> 'cb timer_job) list \<times> 's"

fun timer_callback :: "'cb timer_job \<Rightarrow> 'cb" where
  "timer_callback (RunOnce cb) = cb"
| "timer_callback (RunRepeated cb p) = cb"
| "timer_callback (RunFinite cb p n) = cb"

text \<open>What a closure does after its callback.\<close>

fun run_again :: "'cb timer_job \<Rightarrow> 'cb timer_scheduler \<Rightarrow> 'cb timer_scheduler" where
  "run_again (RunOnce cb) t = t"
| "run_again (RunRepeated cb p) t = schedule_repeated cb p t"
| "run_again (RunFinite cb p n) t = (if n > 1 then schedule_repeated_finite cb p (n - 1) t else t)"

text \<open>
  A timer fires, at any time after its expiry, whatever others have expired, and its callback takes
  its time: what \<open>steady_timer\<close> promises.
\<close>

inductive timer_fires ::
  "('cb, 's) callback_effect \<Rightarrow> 'cb timer_scheduler \<times> 's \<Rightarrow> 'cb timer_scheduler \<times> 's \<Rightarrow> bool"
  for effect where
  timer_fires:
    "timers t = us @ (d, j) # vs \<Longrightarrow> time_now t \<le> now \<Longrightarrow> d \<le> now \<Longrightarrow> now \<le> later \<Longrightarrow>
     effect (timer_callback j) now s = (started, s') \<Longrightarrow>
     timer_fires effect (t, s)
       (run_again j (fold (\<lambda>(wait, job). async_wait wait job) started (t\<lparr>time_now := later, timers := us @ vs\<rparr>)), s')"

text \<open>
  The prompt way to fire: the earliest timer, at its expiry (or now, if that has passed), and a
  callback that takes no time. It is one of the ways above.
\<close>

definition fire_timer ::
  "('cb, 's) callback_effect \<Rightarrow> 'cb timer_scheduler \<times> 's \<Rightarrow> ('cb timer_scheduler \<times> 's) option" where
  "fire_timer effect x =
     (let (t, s) = x
      in case timers t of
           [] \<Rightarrow> None
         | (d, j) # ts \<Rightarrow>
             let now = max (time_now t) d; (started, s') = effect (timer_callback j) now s
             in Some (run_again j (fold (\<lambda>(wait, job). async_wait wait job) started
                  (t\<lparr>time_now := now, timers := ts\<rparr>)), s'))"

lemma fire_timer_fires: "fire_timer effect x = Some x' \<Longrightarrow> timer_fires effect x x'"
proof -
  assume run: "fire_timer effect x = Some x'"
  obtain t s where x: "x = (t, s)" by (cases x)
  with run obtain d j ts where ts: "timers t = [] @ (d, j) # ts" by (auto simp: fire_timer_def split: list.splits)
  define now where "now = max (time_now t) d"
  obtain started s' where e: "effect (timer_callback j) now s = (started, s')" by (cases "effect (timer_callback j) now s")
  have "time_now t \<le> now" "d \<le> now" by (simp_all add: now_def)
  from timer_fires [where effect = effect, OF ts this order.refl e] show ?thesis
    using run by (simp add: x fire_timer_def ts now_def [symmetric] e Let_def)
qed

fun fire_timers ::
  "('cb, 's) callback_effect \<Rightarrow> nat \<Rightarrow> 'cb timer_scheduler \<times> 's \<Rightarrow> 'cb timer_scheduler \<times> 's" where
  "fire_timers effect 0 x = x"
| "fire_timers effect (Suc n) x =
     (case fire_timer effect x of None \<Rightarrow> x | Some x' \<Rightarrow> fire_timers effect n x')"

lemma fire_timers_fires: "(timer_fires effect)\<^sup>*\<^sup>* x (fire_timers effect n x)"
proof (induction n arbitrary: x)
  case (Suc n)
  then show ?case
    by (cases "fire_timer effect x") (auto intro: converse_rtranclp_into_rtranclp dest: fire_timer_fires)
qed simp

text \<open>Callbacks that only note that they ran, and when.\<close>

definition note_run :: "('cb, (int \<times> 'cb) list) callback_effect" where
  "note_run cb now runs = ([], runs @ [(now, cb)])"

lemma fire_finite:
  assumes "0 \<le> p" and "0 < n"
  shows "fire_timers note_run n (\<lparr>time_now = now, timers = [(now + p, RunFinite cb p (int n))]\<rparr>, runs) =
    (\<lparr>time_now = now + int n * p, timers = []\<rparr>, runs @ map (\<lambda>k. (now + int (Suc k) * p, cb)) [0..<n])"
  using assms(2)
proof (induction n arbitrary: now runs)
  case (Suc n)
  show ?case
  proof (cases n)
    case 0
    with assms(1) show ?thesis by (simp add: fire_timer_def note_run_def Let_def)
  next
    case (Suc m)
    then have n: "0 < n" by simp
    have "fire_timer note_run (\<lparr>time_now = now, timers = [(now + p, RunFinite cb p (int (Suc n)))]\<rparr>, runs) =
        Some (\<lparr>time_now = now + p, timers = [(now + p + p, RunFinite cb p (int n))]\<rparr>, runs @ [(now + p, cb)])"
      using assms(1) n
      by (simp add: fire_timer_def note_run_def schedule_repeated_finite_def async_wait_def Let_def)
    moreover have "[0..<Suc n] = 0 # map Suc [0..<n]" by (simp add: upt_conv_Cons map_Suc_upt)
    ultimately show ?thesis
      using Suc.IH [OF n, of "now + p" "runs @ [(now + p, cb)]"] by (simp add: algebra_simps)
  qed
qed simp

lemma fire_repeated:
  assumes "0 \<le> p"
  shows "fire_timers note_run n (\<lparr>time_now = now, timers = [(now + p, RunRepeated cb p)]\<rparr>, runs) =
    (\<lparr>time_now = now + int n * p, timers = [(now + int (Suc n) * p, RunRepeated cb p)]\<rparr>,
     runs @ map (\<lambda>k. (now + int (Suc k) * p, cb)) [0..<n])"
proof (induction n arbitrary: now runs)
  case (Suc n)
  have "fire_timer note_run (\<lparr>time_now = now, timers = [(now + p, RunRepeated cb p)]\<rparr>, runs) =
      Some (\<lparr>time_now = now + p, timers = [(now + p + p, RunRepeated cb p)]\<rparr>, runs @ [(now + p, cb)])"
    using assms by (simp add: fire_timer_def note_run_def schedule_repeated_def async_wait_def Let_def)
  moreover have "[0..<Suc n] = 0 # map Suc [0..<n]" by (simp add: upt_conv_Cons map_Suc_upt)
  ultimately show ?case
    using Suc.IH [of "now + p" "runs @ [(now + p, cb)]"] by (simp add: algebra_simps)
qed simp

section \<open>Properties\<close>

text \<open>
  Whatever the interleaving of network threads that queue messages and of the server thread,
  exactly one closure is posted while messages are waiting, for the oldest of them, and messages
  are handled in the order they were queued, each once.
\<close>

theorem messages_handled_in_order:
  "case fold (flight_step posted (\<lambda>_. True) queue_message message_handled (\<lambda>a. a)) evs
       (AsyncSchedulerImpl, [], []) of
     (a, queued, handled) \<Rightarrow> queued = handled @ message_queue a \<and> posted a = take 1 (message_queue a)"
proof -
  obtain a acc fin where run: "fold (flight_step posted (\<lambda>_. True) queue_message message_handled (\<lambda>a. a)) evs
      (AsyncSchedulerImpl, [], []) = (a, acc, fin)" by (metis prod_cases3)
  have "message_queue AsyncSchedulerImpl = []" "posted AsyncSchedulerImpl = []"
    by (simp_all add: AsyncSchedulerImpl_def)
  from scheduler.flight_run [OF this run] show ?thesis unfolding run by simp
qed

text \<open>
  An \<open>AsyncQueue\<close> whose calls do not overlap has one timer pending exactly while it has tasks, whatever
  the tasks return and whenever they are added, so \<open>run_task\<close> never reads the front of an empty queue.
\<close>

theorem async_queue_one_timer:
  assumes "rfold task_step evs (AsyncQueue, s) = Inr (q, s')"
  shows "length (scheduled_runs q) = (if queue_empty q then 0 else 1) \<and>
    (scheduled_runs q \<noteq> [] \<longrightarrow> fire_run (q, s') \<noteq> Inl UndefinedBehaviour \<or>
       (\<exists>t. hd (queue_callbacks q) = t \<and> t s' = Inl UndefinedBehaviour))"
proof -
  have "async_queue_inv (fst (q, s'))"
  proof (rule rfold_invariant [OF assms, where P = "\<lambda>x. async_queue_inv (fst x)"])
    show "async_queue_inv (fst (AsyncQueue, s))" by (simp add: async_queue_inv_def AsyncQueue_def)
    show "\<And>x y z. async_queue_inv (fst y) \<Longrightarrow> task_step x y = Inr z \<Longrightarrow> async_queue_inv (fst z)"
      by (metis prod.collapse task_step_inv)
  qed
  then show ?thesis
    by (cases "queue_callbacks q")
      (auto simp: async_queue_inv_def queue_empty_def fire_run_def run_task_def rbind_eq_Inl)
qed

theorem async_queue_one_timer_witness:
  "\<exists>q. rfold task_step [AddTask (\<lambda>n. Inr (100, n + 1)), FireTimer, AddTask (\<lambda>n. Inr (- 1, n))]
      (AsyncQueue, 0::nat) = Inr (q, 1) \<and> length (scheduled_runs q) = 1"
proof -
  obtain q where q: "rfold task_step [AddTask (\<lambda>n. Inr (100, n + 1)), FireTimer, AddTask (\<lambda>n. Inr (- 1, n))]
      (AsyncQueue, 0::nat) = Inr (q, 1)" and "\<not> queue_empty q"
    by (simp add: AsyncQueue_def add_task_def schedule_run_def fire_run_def run_task_def task_returned_def
        TERMINATE_def queue_empty_def)
  with async_queue_one_timer [OF q] show ?thesis by auto
qed

text \<open>
  C8: a queue without a lock. Let the thread that adds tasks and the thread that runs them interleave
  in any way, access by access. A task is never forgotten: when both are done, and tasks wait, a timer
  is pending. Calls that do not overlap do what the functions above do (and then the timer is alone).
  But when a task is added between the \<open>pop\<close> of the only task and the test that follows, both threads
  start a timer for it; and the second one, when the tasks are done, reads the front of an empty
  queue.
\<close>

theorem unlocked_queue:
  "(rfold access_step as (both_idle AsyncQueue s) = Inr (both_idle q s') \<longrightarrow>
      queue_callbacks q \<noteq> [] \<longrightarrow> scheduled_runs q \<noteq> []) \<and>
   rfold access_step (concat (map accesses evs)) (both_idle AsyncQueue s) =
      rbind (rfold task_step evs (AsyncQueue, s)) (\<lambda>(q', s'). Inr (both_idle q' s')) \<and>
   (t s = Inr (TERMINATE, s1) \<longrightarrow>
      (\<exists>q2. rfold access_step [Push t, TestAdded, Front, Pop, Push u, TestAdded, TestPopped] (both_idle AsyncQueue s) =
          Inr (both_idle q2 s1) \<and> queue_callbacks q2 = [u] \<and> length (scheduled_runs q2) = 2 \<and>
        (u s1 = Inr (TERMINATE, s2) \<longrightarrow>
          rfold access_step (accesses FireTimer @ [Front]) (both_idle q2 s1) = Inl UndefinedBehaviour)))"
proof (intro conjI impI)
  have inv: "async_queue_inv (AsyncQueue :: 'a async_queue)" by (simp add: async_queue_inv_def AsyncQueue_def)
  show "rfold access_step (concat (map accesses evs)) (both_idle AsyncQueue s) =
      rbind (rfold task_step evs (AsyncQueue, s)) (\<lambda>(q', s'). Inr (both_idle q' s'))"
    by (rule serial_accesses [OF inv])
  assume run: "rfold access_step as (both_idle AsyncQueue s) = Inr (both_idle q s')" and tasks: "queue_callbacks q \<noteq> []"
  have "attended (both_idle q s')"
  proof (rule rfold_invariant [OF run])
    show "attended (both_idle AsyncQueue s)" by (simp add: attended_def both_idle_def AsyncQueue_def)
  qed (rule attended_access)
  with tasks show "scheduled_runs q \<noteq> []" by (simp add: attended_def both_idle_def)
next
  let ?q = "\<lparr>queue_callbacks = [u], scheduled_runs = [0, 0]\<rparr>"
  assume t: "t s = Inr (TERMINATE, s1)"
  show "\<exists>q2. rfold access_step [Push t, TestAdded, Front, Pop, Push u, TestAdded, TestPopped] (both_idle AsyncQueue s) =
          Inr (both_idle q2 s1) \<and> queue_callbacks q2 = [u] \<and> length (scheduled_runs q2) = 2 \<and>
        (u s1 = Inr (TERMINATE, s2) \<longrightarrow>
          rfold access_step (accesses FireTimer @ [Front]) (both_idle q2 s1) = Inl UndefinedBehaviour)"
    by (rule exI [of _ ?q]) (simp add: both_idle_def AsyncQueue_def schedule_run_def fired_def t)
qed

theorem unlocked_queue_witness:
  "\<exists>q2. rfold access_step [Push (\<lambda>n. Inr (- 1, n + 1)), TestAdded, Front, Pop, Push (\<lambda>n. Inr (- 1, n + 1)), TestAdded, TestPopped]
        (both_idle AsyncQueue (0 :: nat)) = Inr (both_idle q2 1) \<and>
      rfold access_step (accesses FireTimer @ [Front]) (both_idle q2 1) = Inl UndefinedBehaviour"
proof -
  have "(\<lambda>n. Inr (- 1, n + 1)) (0 :: nat) = (Inr (TERMINATE, 1) :: (int \<times> nat) result)"
    "(\<lambda>n. Inr (- 1, n + 1)) (1 :: nat) = (Inr (TERMINATE, 2) :: (int \<times> nat) result)"
    by (simp_all add: TERMINATE_def)
  with unlocked_queue [of "[]" "0 :: nat" AsyncQueue 0 "[]" "\<lambda>n. Inr (- 1, n + 1)" 1 "\<lambda>n. Inr (- 1, n + 1)" 2]
  show ?thesis by blast
qed

text \<open>
  A callback scheduled with a finite number of tries runs exactly that many times, one period
  apart, and leaves no timer behind; asked for none or fewer, it still runs once.
\<close>

theorem repeated_finite_runs:
  assumes "0 \<le> period"
  shows "fire_timers note_run (nat (max 1 tries))
      (schedule_repeated_finite cb period tries \<lparr>time_now = now, timers = []\<rparr>, []) =
    (\<lparr>time_now = now + max 1 tries * period, timers = []\<rparr>,
     map (\<lambda>k. (now + int (Suc k) * period, cb)) [0..<nat (max 1 tries)])"
proof (cases "0 < tries")
  case True
  then show ?thesis
    using fire_finite [OF assms, of "nat tries" now cb "[]"]
    by (simp add: schedule_repeated_finite_def async_wait_def max_def)
next
  case False
  with assms show ?thesis
    by (simp add: schedule_repeated_finite_def async_wait_def fire_timer_def note_run_def max_def Let_def)
qed

theorem repeated_finite_runs_witness:
  "fire_timers note_run 3 (schedule_repeated_finite ''retry'' 100 3 \<lparr>time_now = 0, timers = []\<rparr>, []) =
     (\<lparr>time_now = 300, timers = []\<rparr>, [(100, ''retry''), (200, ''retry''), (300, ''retry'')])"
  using repeated_finite_runs [of 100 3 "''retry''" 0] by (simp add: upt_rec)

text \<open>
  A repeated callback runs once every period for as long as the scheduler runs, with exactly
  one timer pending.
\<close>

theorem repeated_runs:
  assumes "0 \<le> period"
  shows "fire_timers note_run n (schedule_repeated cb period \<lparr>time_now = now, timers = []\<rparr>, []) =
    (\<lparr>time_now = now + int n * period, timers = [(now + int (Suc n) * period, RunRepeated cb period)]\<rparr>,
     map (\<lambda>k. (now + int (Suc k) * period, cb)) [0..<n])"
  using fire_repeated [OF assms, of n now cb "[]"] by (simp add: schedule_repeated_def async_wait_def)

theorem repeated_runs_witness:
  "snd (fire_timers note_run 2 (schedule_repeated ''sync'' 1000 \<lparr>time_now = 5, timers = []\<rparr>, [])) =
     [(1005, ''sync''), (2005, ''sync'')]"
  using repeated_runs [of 1000 2 "''sync''" 5] by (simp add: upt_rec)

end
