(* ===== verification/PaxosInstance.thy ===== *)
theory PaxosInstance
  imports SinglePaxosHandler "HOL-Library.Sublist"
begin

text \<open>
  One instance of the protocol across the nodes, as the reactions of SinglePaxosHandler.thy run
  it: each node's roles, what each pair of nodes has had delivered, and what is in flight between
  them, in order. Messages may be lost at any time (a full queue, a closed channel). The
  invariants bound what acceptors promise and vote for, tie every Accept to a full quorum of
  promises and every count of a learner to distinct voters. From them follow that a round has one
  value, and agreement: for every group in which a majority is the whole group (the two-server
  groups the program is deployed with), and for any group in which proposers picked a
  highest-numbered vote.
\<close>

section \<open>The transition system\<close>

record instance_state =
  handlers :: "endpoint_id \<Rightarrow> single_paxos_handler"
  delivered :: "endpoint_id \<Rightarrow> endpoint_id \<Rightarrow> paxos_payload list"
  flight :: "endpoint_id \<Rightarrow> endpoint_id \<Rightarrow> paxos_payload list"

definition emitted ::
  "endpoint_id \<Rightarrow> (endpoint_id list \<times> paxos_payload) option
   \<Rightarrow> (endpoint_id \<Rightarrow> endpoint_id \<Rightarrow> paxos_payload list)
   \<Rightarrow> (endpoint_id \<Rightarrow> endpoint_id \<Rightarrow> paxos_payload list) \<Rightarrow> bool" where
  "emitted p out f f' \<longleftrightarrow>
     (\<forall>a b. f' a b = f a b \<or>
        (\<exists>es m. out = Some (es, m) \<and> a = p \<and> b \<in> set es \<and> f' a b = f a b @ [m]))"

definition arrive ::
  "endpoint_id \<Rightarrow> endpoint_id \<Rightarrow> 'm \<Rightarrow> (endpoint_id \<Rightarrow> endpoint_id \<Rightarrow> 'm list)
   \<Rightarrow> endpoint_id \<Rightarrow> endpoint_id \<Rightarrow> 'm list" where
  "arrive p q m d a b = (if a = p \<and> b = q then d a b @ [m] else d a b)"

definition depart ::
  "endpoint_id \<Rightarrow> endpoint_id \<Rightarrow> (endpoint_id \<Rightarrow> endpoint_id \<Rightarrow> paxos_payload list)
   \<Rightarrow> endpoint_id \<Rightarrow> endpoint_id \<Rightarrow> paxos_payload list" where
  "depart p q f a b = (if a = p \<and> b = q then tl (f a b) else f a b)"

inductive instance_step ::
  "constants \<Rightarrow> endpoint_id set \<Rightarrow> paxos_log_entry set \<Rightarrow> instance_state \<Rightarrow> instance_state \<Rightarrow> bool"
  for cs :: constants and N :: "endpoint_id set" and P :: "paxos_log_entry set" where
  step_propose:
    "p \<in> N \<Longrightarrow> e \<in> P \<Longrightarrow> x = react_propose d e (handlers s p) \<Longrightarrow> emitted p (outgoing x) (flight s) f \<Longrightarrow>
     instance_step cs N P s (s\<lparr>handlers := (handlers s)(p := new_state x), flight := f\<rparr>)"
| step_deliver:
    "q \<in> N \<Longrightarrow> flight s p q = m # ms \<Longrightarrow> react cs p m (handlers s q) = Inr x \<Longrightarrow>
     emitted q (outgoing x) (depart p q (flight s)) f \<Longrightarrow>
     instance_step cs N P s
       \<lparr>handlers = (handlers s)(q := new_state x), delivered = arrive p q m (delivered s), flight = f\<rparr>"
| step_lose:
    "(\<And>a b. subseq (f a b) (flight s a b)) \<Longrightarrow> instance_step cs N P s (s\<lparr>flight := f\<rparr>)"

definition initial_instance :: "instance_state \<Rightarrow> bool" where
  "initial_instance s \<longleftrightarrow>
     (\<forall>p. \<exists>i es. handlers s p = SinglePaxosHandler i es) \<and>
     (\<forall>p q. delivered s p q = [] \<and> flight s p q = [])"

section \<open>What was said\<close>

definition traffic :: "instance_state \<Rightarrow> endpoint_id \<Rightarrow> endpoint_id \<Rightarrow> paxos_payload list" where
  "traffic s a b = delivered s a b @ flight s a b"

abbreviation said :: "instance_state \<Rightarrow> endpoint_id \<Rightarrow> endpoint_id \<Rightarrow> paxos_payload \<Rightarrow> bool" where
  "said s a b m \<equiv> m \<in> set (traffic s a b)"

abbreviation heard :: "instance_state \<Rightarrow> endpoint_id \<Rightarrow> endpoint_id \<Rightarrow> paxos_payload \<Rightarrow> bool" where
  "heard s a b m \<equiv> m \<in> set (delivered s a b)"

lemma heard_said: "heard s a b m \<Longrightarrow> said s a b m"
  by (simp add: traffic_def)

text \<open>Promises, Accepts and Learns are sent once per round and pair of nodes.\<close>

datatype message_kind = KPromise | KAccept | KLearn

fun key :: "paxos_payload \<Rightarrow> (message_kind \<times> crnd_t) option" where
  "key (Promise r vr vv) = Some (KPromise, r)"
| "key (Accept r v) = Some (KAccept, r)"
| "key (Learn r v) = Some (KLearn, r)"
| "key (Prepare r) = None"
| "key PaxosNotSet = None"

definition keys :: "paxos_payload list \<Rightarrow> (message_kind \<times> crnd_t) list" where
  "keys ms = List.map_filter key ms"

lemma keys_simps [simp]:
  "keys [] = []" "keys (ms @ ms') = keys ms @ keys ms'"
  "keys (m # ms) = (case key m of None \<Rightarrow> keys ms | Some k \<Rightarrow> k # keys ms)"
  by (simp_all add: keys_def List.map_filter_def split: option.splits)

lemma set_keys: "k \<in> set (keys ms) \<longleftrightarrow> (\<exists>m\<in>set ms. key m = Some k)"
  by (induction ms) (auto split: option.splits)

lemma key_eq_Some [simp]:
  "key m = Some (KPromise, r) \<longleftrightarrow> (\<exists>vr vv. m = Promise r vr vv)"
  "key m = Some (KAccept, r) \<longleftrightarrow> (\<exists>v. m = Accept r v)"
  "key m = Some (KLearn, r) \<longleftrightarrow> (\<exists>v. m = Learn r v)"
  by (cases m; auto)+

lemma subseq_set: "subseq xs ys \<Longrightarrow> set xs \<subseteq> set ys"
  by (induction xs ys rule: list_emb.induct) auto

lemma subseq_keeps_distinct: "subseq xs ys \<Longrightarrow> distinct ys \<Longrightarrow> distinct xs"
  by (induction xs ys rule: list_emb.induct) (auto dest: subseq_set)

lemma subseq_keys: "subseq xs ys \<Longrightarrow> subseq (keys xs) (keys ys)"
  by (induction xs ys rule: list_emb.induct) (auto split: option.splits)

section \<open>The invariants\<close>

definition threshold :: "constants \<Rightarrow> nat" where
  "threshold cs = unat (majority_threshold cs)"

definition inv_traffic :: "endpoint_id set \<Rightarrow> instance_state \<Rightarrow> bool" where
  "inv_traffic N s \<longleftrightarrow>
     (\<forall>a b. traffic s a b \<noteq> [] \<longrightarrow> a \<in> N) \<and> (\<forall>a b. distinct (keys (traffic s a b)))"

text \<open>An acceptor's vote has been asked of it.\<close>

definition asked :: "instance_state \<Rightarrow> endpoint_id \<Rightarrow> crnd_t \<Rightarrow> paxos_log_entry \<Rightarrow> bool" where
  "asked s a r v \<longleftrightarrow> (\<exists>p. heard s p a (Accept r v))"

definition inv_acceptor_state :: "instance_state \<Rightarrow> bool" where
  "inv_acceptor_state s \<longleftrightarrow>
     (\<forall>a. vrnd_of (handlers s a) \<le> rnd_of (handlers s a) \<and>
        (0 < vrnd_of (handlers s a) \<longrightarrow> asked s a (vrnd_of (handlers s a)) (vval_of (handlers s a))))"

definition inv_promises :: "instance_state \<Rightarrow> bool" where
  "inv_promises s \<longleftrightarrow>
     (\<forall>a p r vr vv. said s a p (Promise r vr vv) \<longrightarrow>
        0 < r \<and> r \<le> rnd_of (handlers s a) \<and> (0 < vr \<longrightarrow> vr < r \<and> asked s a vr vv) \<and>
        (\<forall>p' vr' vv'. said s a p' (Promise r vr' vv') \<longrightarrow> p' = p))"

definition inv_votes :: "instance_state \<Rightarrow> bool" where
  "inv_votes s \<longleftrightarrow>
     (\<forall>a l r v. said s a l (Learn r v) \<longrightarrow>
        r \<le> vrnd_of (handlers s a) \<and> asked s a r v \<and>
        (\<forall>p r' vr vv. said s a p (Promise r' vr vv) \<longrightarrow> r < r' \<longrightarrow> r \<le> vr))"

definition inv_proposer_state :: "constants \<Rightarrow> instance_state \<Rightarrow> bool" where
  "inv_proposer_state cs s \<longleftrightarrow>
     (\<forall>p r ps. promises_of (handlers s p) r = Some ps \<longrightarrow>
        length ps \<le> threshold cs \<and>
        (\<exists>srcs. distinct srcs \<and> list_all2 (\<lambda>a (vr, vv). heard s a p (Promise r vr vv)) srcs ps))"

definition inv_accepts :: "constants \<Rightarrow> instance_state \<Rightarrow> bool" where
  "inv_accepts cs s \<longleftrightarrow>
     (\<forall>p a r v. said s p a (Accept r v) \<longrightarrow>
        (\<exists>ps own. promises_of (handlers s p) r = Some ps \<and> length ps = threshold cs \<and>
           proposal_of (handlers s p) r = Some own \<and> v = choose_value 0 ps own))"

definition inv_learner_state :: "instance_state \<Rightarrow> bool" where
  "inv_learner_state s \<longleftrightarrow>
     (\<forall>l r v n. votes_of (handlers s l) r = Some (v, n) \<longrightarrow>
        0 < n \<and> (\<exists>srcs. distinct srcs \<and> length srcs = unat n \<and> (\<forall>a\<in>set srcs. heard s a l (Learn r v))))"

text \<open>Only proposed values circulate.\<close>

definition inv_valid :: "paxos_log_entry set \<Rightarrow> instance_state \<Rightarrow> bool" where
  "inv_valid P s \<longleftrightarrow>
     (\<forall>p r v. proposal_of (handlers s p) r = Some v \<longrightarrow> v \<in> P) \<and>
     (\<forall>p a r v. said s p a (Accept r v) \<longrightarrow> v \<in> P)"

definition instance_inv ::
  "constants \<Rightarrow> endpoint_id set \<Rightarrow> paxos_log_entry set \<Rightarrow> instance_state \<Rightarrow> bool" where
  "instance_inv cs N P s \<longleftrightarrow>
     inv_traffic N s \<and> inv_acceptor_state s \<and> inv_promises s \<and> inv_votes s \<and>
     inv_proposer_state cs s \<and> inv_accepts cs s \<and> inv_learner_state s \<and> inv_valid P s"

lemma threshold_pos [simp]: "0 < threshold cs"
  by (simp add: threshold_def majority_threshold_pos)

lemma threshold_not_0 [simp]: "threshold cs \<noteq> 0"
  using threshold_pos [of cs] by linarith

lemma threshold_half: "unat (num_slave_servers cs) < 2 * threshold cs"
  by (simp add: threshold_def majority_threshold_unat)

lemma inv_initial:
  assumes "initial_instance s"
  shows "instance_inv cs N P s"
proof -
  have [simp]: "traffic s a b = []" for a b
    using assms by (simp add: initial_instance_def traffic_def)
  have [simp]: "vrnd_of (handlers s a) = 0" "rnd_of (handlers s a) = 0"
    "promises_of (handlers s a) r = None" "votes_of (handlers s a) r = None"
    "proposal_of (handlers s a) r = None" for a r
    using assms by (auto simp: initial_instance_def dest: spec [of _ a])
  show ?thesis
    by (simp add: instance_inv_def inv_traffic_def inv_acceptor_state_def inv_promises_def
        inv_votes_def inv_proposer_state_def inv_accepts_def inv_learner_state_def
        inv_valid_def)
qed

section \<open>Quorums\<close>

lemma quorums_meet:
  assumes "finite N" and "card N \<le> unat (num_slave_servers cs)"
    and "distinct xs" "set xs \<subseteq> N" "threshold cs \<le> length xs"
    and "distinct ys" "set ys \<subseteq> N" "threshold cs \<le> length ys"
  obtains a where "a \<in> set xs" "a \<in> set ys"
proof -
  have "set xs \<inter> set ys \<noteq> {}"
  proof
    assume "set xs \<inter> set ys = {}"
    then have "card (set xs \<union> set ys) = length xs + length ys"
      using assms by (simp add: card_Un_disjoint distinct_card)
    moreover have "card (set xs \<union> set ys) \<le> card N"
      using assms by (intro card_mono) auto
    ultimately show False using assms threshold_half [of cs] by linarith
  qed
  with that show ?thesis by blast
qed

section \<open>Preservation\<close>

text \<open>One node acts: its roles change, what it was told grows, and it may say one thing.\<close>

definition extends ::
  "endpoint_id \<Rightarrow> (endpoint_id list \<times> paxos_payload) option \<Rightarrow> instance_state \<Rightarrow> instance_state \<Rightarrow> bool" where
  "extends q out s s' \<longleftrightarrow>
     (\<forall>a b. traffic s' a b = traffic s a b \<or>
        (\<exists>es m. out = Some (es, m) \<and> a = q \<and> b \<in> set es \<and> traffic s' a b = traffic s a b @ [m])) \<and>
     (\<forall>a b m. heard s a b m \<longrightarrow> heard s' a b m)"

lemma extends_said:
  assumes "extends q out s s'" and "said s' a b m"
  obtains "said s a b m" | es where "out = Some (es, m)" "a = q" "b \<in> set es"
  using assms unfolding extends_def
  by (metis UnE empty_iff empty_set in_set_conv_decomp insert_iff list.simps(15) set_append)

lemma extends_heard: "extends q out s s' \<Longrightarrow> heard s a b m \<Longrightarrow> heard s' a b m"
  by (auto simp: extends_def)

lemma extends_asked: "extends q out s s' \<Longrightarrow> asked s a r v \<Longrightarrow> asked s' a r v"
  unfolding asked_def by (elim exE, rule exI, rule extends_heard)

definition node_acts ::
  "constants \<Rightarrow> endpoint_id set \<Rightarrow> paxos_log_entry set \<Rightarrow> endpoint_id \<Rightarrow> (endpoint_id list \<times> paxos_payload) option
   \<Rightarrow> single_paxos_handler \<Rightarrow> single_paxos_handler \<Rightarrow> instance_state \<Rightarrow> instance_state \<Rightarrow> bool" where
  "node_acts cs N P q out h h' s s' \<longleftrightarrow>
     instance_inv cs N P s \<and> extends q out s s' \<and> q \<in> N \<and> h = handlers s q \<and>
     handlers s' = (handlers s)(q := h')"

lemma keep_traffic:
  assumes act: "node_acts cs N P q out h h' s s'"
    and "\<And>es m k b. out = Some (es, m) \<Longrightarrow> key m = Some k \<Longrightarrow> k \<notin> set (keys (traffic s q b))"
  shows "inv_traffic N s'"
proof -
  have inv: "instance_inv cs N P s" and ext: "extends q out s s'" and q: "q \<in> N"
    and h: "h = handlers s q" and hs': "handlers s' = (handlers s)(q := h')"
    using act by (simp_all add: node_acts_def)
  have old: "inv_traffic N s" using inv by (simp add: instance_inv_def)
  have "(traffic s' a b \<noteq> [] \<longrightarrow> a \<in> N) \<and> distinct (keys (traffic s' a b))" for a b
  proof (cases "traffic s' a b = traffic s a b")
    case True
    with old show ?thesis unfolding inv_traffic_def by metis
  next
    case False
    with ext obtain es m where new: "out = Some (es, m)" "a = q" "traffic s' a b = traffic s a b @ [m]"
      unfolding extends_def by blast
    with assms(2) [of es m _ b] old q show ?thesis
      by (auto simp: inv_traffic_def split: option.splits)
  qed
  then show ?thesis by (simp add: inv_traffic_def)
qed

lemma keep_acceptor_state:
  assumes act: "node_acts cs N P q out h h' s s'"
    and "vrnd_of h' \<le> rnd_of h'"
    and "0 < vrnd_of h' \<Longrightarrow> asked s' q (vrnd_of h') (vval_of h')"
  shows "inv_acceptor_state s'"
proof -
  have inv: "instance_inv cs N P s" and ext: "extends q out s s'"
    and hs': "handlers s' = (handlers s)(q := h')"
    using act by (simp_all add: node_acts_def)
  show ?thesis
    using inv assms(2,3) extends_asked [OF ext]
    by (auto simp: instance_inv_def inv_acceptor_state_def hs')
qed

lemma keep_promises:
  assumes act: "node_acts cs N P q out h h' s s'"
    and mono: "rnd_of h \<le> rnd_of h'"
    and new: "\<And>es r vr vv. out = Some (es, Promise r vr vv) \<Longrightarrow>
      rnd_of h < r \<and> r \<le> rnd_of h' \<and> vr = vrnd_of h \<and> vv = vval_of h \<and> (\<exists>p. es = [p])"
  shows "inv_promises s'"
proof -
  have inv: "instance_inv cs N P s" and ext: "extends q out s s'" and q: "q \<in> N"
    and h: "h = handlers s q" and hs': "handlers s' = (handlers s)(q := h')"
    using act by (simp_all add: node_acts_def)
  have old: "inv_promises s" and st: "inv_acceptor_state s" using inv by (simp_all add: instance_inv_def)
  have bound: "rnd_of (handlers s a) \<le> rnd_of (handlers s' a)" for a
    using mono by (simp add: hs' h)
  have A: "0 < r \<and> r \<le> rnd_of (handlers s' a) \<and> (0 < vr \<longrightarrow> vr < r \<and> asked s' a vr vv)"
    if "said s' a p (Promise r vr vv)" for a p r vr vv
    using ext that
  proof (cases rule: extends_said)
    case 1
    then have "0 < r \<and> r \<le> rnd_of (handlers s a) \<and> (0 < vr \<longrightarrow> vr < r \<and> asked s a vr vv)"
      using old unfolding inv_promises_def by blast
    with bound [of a] extends_asked [OF ext] show ?thesis by (meson order.trans)
  next
    case (2 es)
    from new [OF 2(1)] have r: "rnd_of h < r" "r \<le> rnd_of h'" "vr = vrnd_of h" "vv = vval_of h" by simp_all
    have "vrnd_of h \<le> rnd_of h" "0 < vrnd_of h \<longrightarrow> asked s q (vrnd_of h) (vval_of h)"
      using st by (simp_all add: inv_acceptor_state_def h)
    moreover from r(1) have "0 < r" by (metis word_gt_0 word_not_simps(1))
    ultimately show ?thesis
      using r extends_asked [OF ext] 2(2) by (auto simp: hs' intro: order.strict_trans1)
  qed
  have fresh: "\<not> said s q p (Promise r vr vv)" if "rnd_of h < r" for p r vr vv
    using old that unfolding inv_promises_def h by (meson leD)
  have "p' = p" if "said s' a p (Promise r vr vv)" "said s' a p' (Promise r vr' vv')" for a p p' r vr vv vr' vv'
  proof -
    have cross: False if "out = Some (es, Promise r u w)" "said s q c (Promise r u' w')" for es u w c u' w'
      using new [OF that(1)] fresh that(2) by blast
    from ext that(1) show ?thesis
    proof (cases rule: extends_said)
      case o1: 1
      from ext that(2) show ?thesis
      proof (cases rule: extends_said)
        case 1
        with o1 old show ?thesis unfolding inv_promises_def by blast
      next
        case (2 es)
        with o1 cross show ?thesis by blast
      qed
    next
      case o2: (2 es)
      from ext that(2) show ?thesis
      proof (cases rule: extends_said)
        case 1
        with o2 cross show ?thesis by blast
      next
        case (2 es')
        with o2 new [of es r vr vv] show ?thesis by auto
      qed
    qed
  qed
  with A show ?thesis unfolding inv_promises_def by blast
qed

lemma keep_votes:
  assumes act: "node_acts cs N P q out h h' s s'"
    and mono: "vrnd_of h \<le> vrnd_of h'"
    and prom: "\<And>es r vr vv. out = Some (es, Promise r vr vv) \<Longrightarrow> vr = vrnd_of h"
    and new: "\<And>es r v. out = Some (es, Learn r v) \<Longrightarrow> rnd_of h \<le> r \<and> vrnd_of h' = r \<and> asked s' q r v"
  shows "inv_votes s'"
proof -
  have inv: "instance_inv cs N P s" and ext: "extends q out s s'" and q: "q \<in> N"
    and h: "h = handlers s q" and hs': "handlers s' = (handlers s)(q := h')"
    using act by (simp_all add: node_acts_def)
  have old: "inv_votes s" and pr: "inv_promises s" using inv by (simp_all add: instance_inv_def)
  have bound: "vrnd_of (handlers s a) \<le> vrnd_of (handlers s' a)" for a
    using mono by (simp add: hs' h)
  have A: "r \<le> vrnd_of (handlers s' a) \<and> asked s' a r v" if "said s' a l (Learn r v)" for a l r v
    using ext that
  proof (cases rule: extends_said)
    case 1
    with old have "r \<le> vrnd_of (handlers s a)" "asked s a r v" unfolding inv_votes_def by blast+
    with bound [of a] extends_asked [OF ext] show ?thesis by (meson order.trans)
  next
    case (2 es)
    with new [of es r v] show ?thesis by (simp add: hs')
  qed
  have "r \<le> vr" if "said s' a l (Learn r v)" "said s' a p (Promise r' vr vv)" "r < r'" for a l r v p r' vr vv
    using ext that(1)
  proof (cases rule: extends_said)
    case o1: 1
    from ext that(2) show ?thesis
    proof (cases rule: extends_said)
      case 1
      with o1 old that(3) show ?thesis unfolding inv_votes_def by blast
    next
      case (2 es)
      with o1 old prom [of es r' vr vv] show ?thesis unfolding inv_votes_def h by blast
    qed
  next
    case o2: (2 es)
    from ext that(2) show ?thesis
    proof (cases rule: extends_said)
      case 1
      with pr o2(2) have "r' \<le> rnd_of h" unfolding inv_promises_def h by blast
      with new [OF o2(1)] that(3) have False by (meson leD order.trans)
      then show ?thesis ..
    next
      case (2 es')
      with o2 show ?thesis by simp
    qed
  qed
  with A show ?thesis unfolding inv_votes_def by blast
qed

lemma keep_proposer_state:
  assumes act: "node_acts cs N P q out h h' s s'"
    and "\<And>r ps. promises_of h' r = Some ps \<Longrightarrow> length ps \<le> threshold cs \<and>
      (\<exists>srcs. distinct srcs \<and> list_all2 (\<lambda>a (vr, vv). heard s' a q (Promise r vr vv)) srcs ps)"
  shows "inv_proposer_state cs s'"
  unfolding inv_proposer_state_def
proof (intro allI impI)
  have inv: "instance_inv cs N P s" and ext: "extends q out s s'"
    and h: "h = handlers s q" and hs': "handlers s' = (handlers s)(q := h')"
    using act by (simp_all add: node_acts_def)
  fix p r ps
  assume some: "promises_of (handlers s' p) r = Some ps"
  show "length ps \<le> threshold cs \<and>
    (\<exists>srcs. distinct srcs \<and> list_all2 (\<lambda>a (vr, vv). heard s' a p (Promise r vr vv)) srcs ps)"
  proof (cases "p = q")
    case True
    with some assms(2) [of r ps] show ?thesis by (simp add: hs')
  next
    case False
    with some inv obtain srcs where "length ps \<le> threshold cs" "distinct srcs"
      "list_all2 (\<lambda>a (vr, vv). heard s a p (Promise r vr vv)) srcs ps"
      by (fastforce simp: instance_inv_def inv_proposer_state_def hs')
    moreover from this(3) have "list_all2 (\<lambda>a (vr, vv). heard s' a p (Promise r vr vv)) srcs ps"
      by (rule list_all2_mono) (auto intro: extends_heard [OF ext])
    ultimately show ?thesis by blast
  qed
qed

lemma keep_accepts:
  assumes act: "node_acts cs N P q out h h' s s'"
    and old: "\<And>r ps. promises_of h r = Some ps \<Longrightarrow> length ps = threshold cs \<Longrightarrow> promises_of h' r = Some ps"
      "\<And>r own. proposal_of h r = Some own \<Longrightarrow> proposal_of h' r = Some own"
    and new: "\<And>es r v. out = Some (es, Accept r v) \<Longrightarrow>
      \<exists>ps own. promises_of h' r = Some ps \<and> length ps = threshold cs \<and>
        proposal_of h' r = Some own \<and> v = choose_value 0 ps own"
  shows "inv_accepts cs s'"
  unfolding inv_accepts_def
proof (intro allI impI)
  have inv: "instance_inv cs N P s" and ext: "extends q out s s'"
    and h: "h = handlers s q" and hs': "handlers s' = (handlers s)(q := h')"
    using act by (simp_all add: node_acts_def)
  fix p a r v
  assume "said s' p a (Accept r v)"
  with ext show "\<exists>ps own. promises_of (handlers s' p) r = Some ps \<and> length ps = threshold cs \<and>
      proposal_of (handlers s' p) r = Some own \<and> v = choose_value 0 ps own"
  proof (cases rule: extends_said)
    case 1
    with inv obtain ps own where "promises_of (handlers s p) r = Some ps" "length ps = threshold cs"
      "proposal_of (handlers s p) r = Some own" "v = choose_value 0 ps own"
      unfolding instance_inv_def inv_accepts_def by blast
    with old show ?thesis by (cases "p = q") (auto simp: hs' h)
  next
    case (2 es)
    with new [of es r v] show ?thesis by (simp add: hs')
  qed
qed

lemma keep_learner_state:
  assumes act: "node_acts cs N P q out h h' s s'"
    and "\<And>r v n. votes_of h' r = Some (v, n) \<Longrightarrow> 0 < n \<and>
      (\<exists>srcs. distinct srcs \<and> length srcs = unat n \<and> (\<forall>a\<in>set srcs. heard s' a q (Learn r v)))"
  shows "inv_learner_state s'"
  unfolding inv_learner_state_def
proof (intro allI impI)
  have inv: "instance_inv cs N P s" and ext: "extends q out s s'"
    and h: "h = handlers s q" and hs': "handlers s' = (handlers s)(q := h')"
    using act by (simp_all add: node_acts_def)
  fix l r v n
  assume some: "votes_of (handlers s' l) r = Some (v, n)"
  show "0 < n \<and> (\<exists>srcs. distinct srcs \<and> length srcs = unat n \<and> (\<forall>a\<in>set srcs. heard s' a l (Learn r v)))"
  proof (cases "l = q")
    case True
    with some assms(2) [of r v n] show ?thesis by (simp add: hs')
  next
    case False
    with some inv have "0 < n \<and> (\<exists>srcs. distinct srcs \<and> length srcs = unat n \<and>
        (\<forall>a\<in>set srcs. heard s a l (Learn r v)))"
      by (simp add: instance_inv_def inv_learner_state_def hs')
    with extends_heard [OF ext] show ?thesis by blast
  qed
qed

lemma keep_valid:
  assumes act: "node_acts cs N P q out h h' s s'"
    and own: "\<And>r v. proposal_of h' r = Some v \<Longrightarrow> v \<in> P \<or> proposal_of h r = Some v"
    and new: "\<And>es r v. out = Some (es, Accept r v) \<Longrightarrow> v \<in> P"
  shows "inv_valid P s'"
proof -
  have inv: "inv_valid P s" and ext: "extends q out s s'"
    and h: "h = handlers s q" and hs': "handlers s' = (handlers s)(q := h')"
    using act by (simp_all add: node_acts_def instance_inv_def)
  have "v \<in> P" if "proposal_of (handlers s' p) r = Some v" for p r v
    using that inv own [of r v] by (auto simp: hs' h inv_valid_def split: if_splits)
  moreover have "v \<in> P" if "said s' p a (Accept r v)" for p a r v
    using ext that by (cases rule: extends_said) (use inv new in \<open>auto simp: inv_valid_def\<close>)
  ultimately show ?thesis by (simp add: inv_valid_def)
qed

lemma act_same_acceptor:
  assumes act: "node_acts cs N P q out h h' s s'"
    and same: "rnd_of h' = rnd_of h" "vrnd_of h' = vrnd_of h" "vval_of h' = vval_of h"
    and out: "\<And>es r vr vv. out \<noteq> Some (es, Promise r vr vv)" "\<And>es r v. out \<noteq> Some (es, Learn r v)"
  shows "inv_acceptor_state s'" "inv_promises s'" "inv_votes s'"
proof -
  have inv: "instance_inv cs N P s" and ext: "extends q out s s'" and h: "h = handlers s q"
    using act by (simp_all add: node_acts_def)
  show "inv_acceptor_state s'"
    by (rule keep_acceptor_state [OF act])
      (use inv extends_asked [OF ext] in \<open>auto simp: instance_inv_def inv_acceptor_state_def same h\<close>)
  show "inv_promises s'"
    by (rule keep_promises [OF act]) (simp_all add: same out)
  show "inv_votes s'"
    by (rule keep_votes [OF act]) (simp_all add: same out)
qed

lemma act_same_proposer:
  assumes act: "node_acts cs N P q out h h' s s'"
    and same: "promises_of h' = promises_of h" "proposal_of h' = proposal_of h"
    and out: "\<And>es r v. out \<noteq> Some (es, Accept r v)"
  shows "inv_proposer_state cs s'" "inv_accepts cs s'" "inv_valid P s'"
proof -
  have inv: "instance_inv cs N P s" and ext: "extends q out s s'" and h: "h = handlers s q"
    using act by (simp_all add: node_acts_def)
  show "inv_proposer_state cs s'"
  proof (rule keep_proposer_state [OF act])
    fix r ps assume "promises_of h' r = Some ps"
    with inv obtain srcs where srcs: "length ps \<le> threshold cs" "distinct srcs"
      "list_all2 (\<lambda>a (vr, vv). heard s a q (Promise r vr vv)) srcs ps"
      unfolding same h instance_inv_def inv_proposer_state_def by blast
    from srcs(3) have "list_all2 (\<lambda>a (vr, vv). heard s' a q (Promise r vr vv)) srcs ps"
      by (rule list_all2_mono) (auto intro: extends_heard [OF ext])
    with srcs show "length ps \<le> threshold cs \<and> (\<exists>srcs. distinct srcs \<and>
        list_all2 (\<lambda>a (vr, vv). heard s' a q (Promise r vr vv)) srcs ps)" by blast
  qed
  show "inv_accepts cs s'"
    by (rule keep_accepts [OF act]) (simp_all add: same out)
  show "inv_valid P s'"
    by (rule keep_valid [OF act]) (simp_all add: same out)
qed

lemma act_same_learner:
  assumes act: "node_acts cs N P q out h h' s s'" and same: "votes_of h' = votes_of h"
  shows "inv_learner_state s'"
proof (rule keep_learner_state [OF act])
  have inv: "instance_inv cs N P s" and ext: "extends q out s s'" and h: "h = handlers s q"
    using act by (simp_all add: node_acts_def)
  fix r v n assume "votes_of h' r = Some (v, n)"
  with inv have "0 < n \<and> (\<exists>srcs. distinct srcs \<and> length srcs = unat n \<and>
      (\<forall>a\<in>set srcs. heard s a q (Learn r v)))"
    unfolding same h instance_inv_def inv_learner_state_def by blast
  with extends_heard [OF ext] show "0 < n \<and> (\<exists>srcs. distinct srcs \<and> length srcs = unat n \<and>
      (\<forall>a\<in>set srcs. heard s' a q (Learn r v)))" by blast
qed

lemmas act_same = act_same_acceptor act_same_proposer act_same_learner

lemma act_no_key:
  assumes act: "node_acts cs N P q out h h' s s'" and "\<And>es m. out = Some (es, m) \<Longrightarrow> key m = None"
  shows "inv_traffic N s'"
  by (rule keep_traffic [OF act]) (use assms(2) in force)

lemma act_quiet: "node_acts cs N P q None h h s s' \<Longrightarrow> instance_inv cs N P s'"
  unfolding instance_inv_def by (intro conjI) (auto intro: act_same act_no_key)

section \<open>One value per round\<close>

lemma said_by_member: "instance_inv cs N P s \<Longrightarrow> said s a b m \<Longrightarrow> a \<in> N"
  unfolding instance_inv_def inv_traffic_def by (metis empty_iff empty_set)

lemma list_all2_member:
  "list_all2 P xs ys \<Longrightarrow> x \<in> set xs \<Longrightarrow> \<exists>y\<in>set ys. P x y"
  by (induction xs ys rule: list_all2_induct) auto

lemma promises_quorum:
  assumes "instance_inv cs N P s" and "said s p a (Accept r v)"
  obtains ps own srcs where "promises_of (handlers s p) r = Some ps" "proposal_of (handlers s p) r = Some own"
    "v = choose_value 0 ps own" "distinct srcs" "length srcs = threshold cs" "set srcs \<subseteq> N"
    "list_all2 (\<lambda>a (vr, vv). heard s a p (Promise r vr vv)) srcs ps"
proof -
  from assms obtain ps own where ps: "promises_of (handlers s p) r = Some ps" "length ps = threshold cs"
      "proposal_of (handlers s p) r = Some own" "v = choose_value 0 ps own"
    unfolding instance_inv_def inv_accepts_def by blast
  from assms(1) ps(1) obtain srcs where srcs: "distinct srcs"
      "list_all2 (\<lambda>a (vr, vv). heard s a p (Promise r vr vv)) srcs ps"
    unfolding instance_inv_def inv_proposer_state_def by blast
  have "set srcs \<subseteq> N"
  proof
    fix b assume "b \<in> set srcs"
    then obtain vr vv where "heard s b p (Promise r vr vv)"
      using list_all2_member [OF srcs(2)] by fast
    with assms(1) show "b \<in> N" by (intro said_by_member heard_said)
  qed
  moreover have "length srcs = threshold cs"
    using list_all2_lengthD [OF srcs(2)] ps(2) by simp
  ultimately show ?thesis
    using that [OF ps(1,3,4) srcs(1)] srcs(2) by blast
qed

lemma accept_unique:
  assumes inv: "instance_inv cs N P s" and N: "finite N" "card N \<le> unat (num_slave_servers cs)"
    and a1: "said s p a (Accept r v)" and a2: "said s p' a' (Accept r v')"
  shows "p' = p \<and> v' = v"
proof -
  from inv a1 obtain ps own srcs where 1: "promises_of (handlers s p) r = Some ps"
      "proposal_of (handlers s p) r = Some own" "v = choose_value 0 ps own" "distinct srcs"
      "length srcs = threshold cs" "set srcs \<subseteq> N"
      "list_all2 (\<lambda>a (vr, vv). heard s a p (Promise r vr vv)) srcs ps"
    by (rule promises_quorum)
  from inv a2 obtain ps' own' srcs' where 2: "promises_of (handlers s p') r = Some ps'"
      "proposal_of (handlers s p') r = Some own'" "v' = choose_value 0 ps' own'" "distinct srcs'"
      "length srcs' = threshold cs" "set srcs' \<subseteq> N"
      "list_all2 (\<lambda>a (vr, vv). heard s a p' (Promise r vr vv)) srcs' ps'"
    by (rule promises_quorum)
  obtain b where b: "b \<in> set srcs" "b \<in> set srcs'"
    using quorums_meet [OF N 1(4,6) _ 2(4,6)] 1(5) 2(5) by auto
  obtain vr vv where "said s b p (Promise r vr vv)"
    using list_all2_member [OF 1(7) b(1)] heard_said by fast
  moreover obtain vr' vv' where "said s b p' (Promise r vr' vv')"
    using list_all2_member [OF 2(7) b(2)] heard_said by fast
  ultimately have "p' = p"
    using inv unfolding instance_inv_def inv_promises_def by blast
  with 1 2 show ?thesis by simp
qed

lemma asked_unique:
  assumes "instance_inv cs N P s" and "finite N" "card N \<le> unat (num_slave_servers cs)"
    and "asked s a r v" and "asked s a' r v'"
  shows "v' = v"
  using assms(4,5) accept_unique [OF assms(1-3)] heard_said unfolding asked_def by blast

lemma accept_round_pos:
  assumes "instance_inv cs N P s" and "said s p a (Accept r v)"
  shows "0 < r"
proof -
  from assms obtain ps own srcs where srcs: "length srcs = threshold cs"
      "list_all2 (\<lambda>a (vr, vv). heard s a p (Promise r vr vv)) srcs ps"
    by (rule promises_quorum)
  from srcs(1) threshold_pos [of cs] have "srcs \<noteq> []" by auto
  then have b: "hd srcs \<in> set srcs" by simp
  obtain vr vv where "said s (hd srcs) p (Promise r vr vv)"
    using list_all2_member [OF srcs(2) b] heard_said by fast
  with assms(1) show ?thesis unfolding instance_inv_def inv_promises_def by blast
qed

lemma adopted_vote:
  assumes "filter (\<lambda>(vr, vv). vr > 0) ps \<noteq> []"
  obtains vr vv where "(vr, vv) \<in> set ps" "0 < vr" "choose_value 0 ps own = vv"
    "last (filter (\<lambda>(vr, vv). vr > 0) ps) = (vr, vv)"
proof -
  let ?vs = "filter (\<lambda>(vr, vv). vr > 0) ps"
  from assms have "last ?vs \<in> set ?vs" by (rule last_in_set)
  moreover have "choose_value 0 ps own = snd (last ?vs)"
    using assms by (auto simp: choose_value_eq split: list.splits)
  moreover obtain vr vv where last: "last ?vs = (vr, vv)" by fastforce
  ultimately show ?thesis using that [of vr vv] by simp
qed

lemma list_all2_member_right:
  "list_all2 P xs ys \<Longrightarrow> y \<in> set ys \<Longrightarrow> \<exists>x\<in>set xs. P x y"
  by (induction xs ys rule: list_all2_induct) auto

section \<open>Every step preserves the invariants\<close>

text \<open>A delivery: the message moves from the flight to what was heard; it was not heard before.\<close>

lemma deliver_acts:
  fixes h' :: single_paxos_handler
  assumes inv: "instance_inv cs N P s" and q: "q \<in> N" and m: "flight s p q = m # ms"
    and out: "emitted q out (depart p q (flight s)) f"
  defines "s' \<equiv> \<lparr>handlers = (handlers s)(q := h'), delivered = arrive p q m (delivered s), flight = f\<rparr>"
  shows "node_acts cs N P q out (handlers s q) h' s s'"
    and "heard s' p q m" and "p \<in> N"
    and "key m = Some k \<Longrightarrow> k \<notin> set (keys (delivered s p q))"
proof -
  have sm: "said s p q m" using m by (simp add: traffic_def)
  have move: "arrive p q m (delivered s) a b @ depart p q (flight s) a b = traffic s a b" for a b
    using m by (simp add: arrive_def depart_def traffic_def)
  have "extends q out s s'"
    unfolding extends_def
  proof (intro conjI allI impI)
    fix a b
    from out consider "f a b = depart p q (flight s) a b"
      | es m' where "out = Some (es, m')" "a = q" "b \<in> set es" "f a b = depart p q (flight s) a b @ [m']"
      unfolding emitted_def by metis
    then show "traffic s' a b = traffic s a b \<or>
        (\<exists>es m. out = Some (es, m) \<and> a = q \<and> b \<in> set es \<and> traffic s' a b = traffic s a b @ [m])"
    proof cases
      case 1
      then have "traffic s' a b = traffic s a b"
        using move [of a b] by (simp add: traffic_def s'_def)
      then show ?thesis ..
    next
      case (2 es m')
      then have "traffic s' a b = traffic s a b @ [m']"
        using move [of a b] by (simp add: traffic_def s'_def)
      with 2 show ?thesis by blast
    qed
  next
    fix a b x assume "heard s a b x"
    then show "heard s' a b x" by (auto simp: s'_def arrive_def)
  qed
  with inv q show "node_acts cs N P q out (handlers s q) h' s s'" by (simp add: node_acts_def s'_def)
  show "heard s' p q m" by (simp add: s'_def arrive_def)
  show "p \<in> N" using inv sm by (rule said_by_member)
  have "distinct (keys (traffic s p q))" using inv by (simp add: instance_inv_def inv_traffic_def)
  then show "key m = Some k \<Longrightarrow> k \<notin> set (keys (delivered s p q))"
    using m by (auto simp: traffic_def)
qed

lemma prepare_preserves:
  assumes act: "node_acts cs N P q (Some ([src], Promise r (vrnd_of h) (vval_of h))) h
      (with_acceptor (r, vrnd_of h, vval_of h) h) s s'"
    and r: "rnd_of h < r"
  shows "instance_inv cs N P s'"
proof -
  have inv: "instance_inv cs N P s" and h: "h = handlers s q" and ext: "extends q (Some ([src], Promise r (vrnd_of h) (vval_of h))) s s'"
    using act unfolding node_acts_def by blast+
  have vr: "vrnd_of h \<le> rnd_of h" and asked: "0 < vrnd_of h \<Longrightarrow> asked s q (vrnd_of h) (vval_of h)"
    using inv by (simp_all add: instance_inv_def inv_acceptor_state_def h)
  have fresh: "(KPromise, r) \<notin> set (keys (traffic s q b))" for b
  proof
    assume "(KPromise, r) \<in> set (keys (traffic s q b))"
    then obtain vr' vv' where "said s q b (Promise r vr' vv')" by (auto simp: set_keys)
    with inv have "r \<le> rnd_of h" unfolding instance_inv_def inv_promises_def h by blast
    with r show False by simp
  qed
  show ?thesis
    unfolding instance_inv_def
  proof (intro conjI)
    show "inv_traffic N s'" by (rule keep_traffic [OF act]) (use fresh in auto)
    show "inv_acceptor_state s'"
      by (rule keep_acceptor_state [OF act]) (use vr r asked extends_asked [OF ext] in auto)
    show "inv_promises s'" by (rule keep_promises [OF act]) (use r in auto)
    show "inv_votes s'" by (rule keep_votes [OF act]) auto
  qed (rule act_same [OF act]; simp)+
qed

lemma accept_preserves:
  assumes N: "finite N" "card N \<le> unat (num_slave_servers cs)"
    and act: "node_acts cs N P q (Some (es, Learn r v)) h (with_acceptor (r, r, v) h) s s'"
    and r: "rnd_of h \<le> r" and m: "said s p q (Accept r v)" "heard s' p q (Accept r v)"
    and new: "(KAccept, r) \<notin> set (keys (delivered s p q))"
  shows "instance_inv cs N P s'"
proof -
  have inv: "instance_inv cs N P s" and h: "h = handlers s q"
    using act by (simp_all add: node_acts_def)
  have asked: "asked s' q r v" using m by (auto simp: asked_def)
  have vr: "vrnd_of h \<le> rnd_of h"
    using inv by (simp add: instance_inv_def inv_acceptor_state_def h)
  have fresh: "(KLearn, r) \<notin> set (keys (traffic s q b))" for b
  proof
    assume "(KLearn, r) \<in> set (keys (traffic s q b))"
    then obtain v' where "said s q b (Learn r v')" by (auto simp: set_keys)
    with inv have "asked s q r v'" unfolding instance_inv_def inv_votes_def by blast
    then obtain p' where p': "heard s p' q (Accept r v')" unfolding asked_def by blast
    with accept_unique [OF inv N m(1) heard_said [OF p']] new show False by (auto simp: set_keys)
  qed
  show ?thesis
    unfolding instance_inv_def
  proof (intro conjI)
    show "inv_traffic N s'" by (rule keep_traffic [OF act]) (use fresh in auto)
    show "inv_acceptor_state s'"
      by (rule keep_acceptor_state [OF act]) (use asked in auto)
    show "inv_promises s'" by (rule keep_promises [OF act]) (use r in auto)
    show "inv_votes s'" by (rule keep_votes [OF act]) (use r vr asked in auto)
  qed (rule act_same [OF act]; simp)+
qed

lemma promise_preserves:
  assumes act: "node_acts cs N P q out h (with_promises r (ps @ [(vr, vv)]) h) s s'"
    and ps: "promises_of h r = Some ps" "length ps < threshold cs"
    and m: "said s p q (Promise r vr vv)" "heard s' p q (Promise r vr vv)" and new: "(KPromise, r) \<notin> set (keys (delivered s p q))"
    and out: "out = None \<or> (\<exists>es own. out = Some (es, Accept r (choose_value 0 (ps @ [(vr, vv)]) own)) \<and>
      length ps + 1 = threshold cs \<and> proposal_of h r = Some own)"
  shows "instance_inv cs N P s'"
proof -
  have inv: "instance_inv cs N P s" and h: "h = handlers s q" and ext: "extends q out s s'"
    using act by (simp_all add: node_acts_def)
  have fresh: "(KAccept, r) \<notin> set (keys (traffic s q b))" for b
    using inv ps unfolding instance_inv_def inv_accepts_def h by (fastforce simp: set_keys)
  obtain srcs where srcs: "distinct srcs" "list_all2 (\<lambda>a (vr, vv). heard s a q (Promise r vr vv)) srcs ps"
    using inv ps(1) unfolding instance_inv_def inv_proposer_state_def h by blast
  have "p \<notin> set srcs"
  proof
    assume "p \<in> set srcs"
    from list_all2_member [OF srcs(2) this] new show False by (auto simp: set_keys)
  qed
  moreover have "list_all2 (\<lambda>a (vr, vv). heard s' a q (Promise r vr vv)) srcs ps"
    using srcs(2) by (rule list_all2_mono) (auto intro: extends_heard [OF ext])
  ultimately have srcs': "distinct (srcs @ [p])"
      "list_all2 (\<lambda>a (vr, vv). heard s' a q (Promise r vr vv)) (srcs @ [p]) (ps @ [(vr, vv)])"
    using srcs(1) m(2) by (auto intro: list_all2_appendI)
  have told: "w \<in> P" if "said s a q (Promise r k w)" "0 < k" for a k w
  proof -
    from that inv have "asked s a k w" unfolding instance_inv_def inv_promises_def by blast
    with inv heard_said show ?thesis unfolding asked_def instance_inv_def inv_valid_def by blast
  qed
  have valid: "choose_value 0 (ps @ [(vr, vv)]) own \<in> P" if "proposal_of h r = Some own" for own
  proof (cases "filter (\<lambda>(vr, vv). vr > 0) (ps @ [(vr, vv)]) = []")
    case True
    with that inv show ?thesis
      by (auto simp: choose_value_eq instance_inv_def inv_valid_def h simp del: filter_append)
  next
    case False
    then obtain k w where k: "(k, w) \<in> set (ps @ [(vr, vv)])" "0 < k"
      "choose_value 0 (ps @ [(vr, vv)]) own = w" by (rule adopted_vote)
    show ?thesis
    proof (cases "(k, w) \<in> set ps")
      case True
      from list_all2_member_right [OF srcs(2) this] obtain a where "heard s a q (Promise r k w)" by blast
      with told [OF heard_said _] k(2,3) show ?thesis by blast
    next
      case False
      with k told [OF m(1)] show ?thesis by auto
    qed
  qed
  show ?thesis
    unfolding instance_inv_def
  proof (intro conjI)
    show "inv_traffic N s'" by (rule keep_traffic [OF act]) (use fresh out in auto)
    show "inv_proposer_state cs s'"
    proof (rule keep_proposer_state [OF act])
      fix r' ps' assume some: "promises_of (with_promises r (ps @ [(vr, vv)]) h) r' = Some ps'"
      show "length ps' \<le> threshold cs \<and> (\<exists>srcs. distinct srcs \<and>
          list_all2 (\<lambda>a (vr, vv). heard s' a q (Promise r' vr vv)) srcs ps')"
      proof (cases "r' = r")
        case True
        with some have "ps' = ps @ [(vr, vv)]" by simp
        with True srcs' ps(2) show ?thesis by (intro conjI exI [of _ "srcs @ [p]"]) simp_all
      next
        case False
        with some have "promises_of (handlers s q) r' = Some ps'" by (simp add: h)
        with inv obtain srcs where old: "length ps' \<le> threshold cs" "distinct srcs"
            "list_all2 (\<lambda>a (vr, vv). heard s a q (Promise r' vr vv)) srcs ps'"
          unfolding instance_inv_def inv_proposer_state_def by blast
        from old(3) have "list_all2 (\<lambda>a (vr, vv). heard s' a q (Promise r' vr vv)) srcs ps'"
          by (rule list_all2_mono) (auto intro: extends_heard [OF ext])
        with old show ?thesis by blast
      qed
    qed
    show "inv_accepts cs s'"
      by (rule keep_accepts [OF act]) (use ps out in auto)
    show "inv_valid P s'"
      by (rule keep_valid [OF act]) (use out valid in auto)
    show "inv_acceptor_state s'" "inv_promises s'" "inv_votes s'"
      using out by (intro act_same_acceptor [OF act]; force)+
    show "inv_learner_state s'" by (rule act_same_learner [OF act]) simp
  qed
qed

lemma learn_preserves:
  assumes N: "finite N" "card N \<le> unat (num_slave_servers cs)"
    and act: "node_acts cs N P q None h (with_learned b ((votes_of h)(r \<mapsto> (u, n + 1))) h) s s'"
    and votes: "(case votes_of h r of None \<Rightarrow> (v, 0) | Some x \<Rightarrow> x) = (u, n)" and n: "n < majority_threshold cs"
    and m: "said s p q (Learn r v)" "heard s' p q (Learn r v)"
    and new: "(KLearn, r) \<notin> set (keys (delivered s p q))"
  shows "instance_inv cs N P s'"
    and "u = v \<and> (\<exists>srcs. distinct srcs \<and> length srcs = unat n + 1 \<and> (\<forall>a\<in>set srcs. heard s' a q (Learn r v)))"
proof -
  have inv: "instance_inv cs N P s" and h: "h = handlers s q" and ext: "extends q None s s'"
    using act by (simp_all add: node_acts_def)
  have v: "asked s p r v" using inv m(1) unfolding instance_inv_def inv_votes_def by blast
  show *: "u = v \<and> (\<exists>srcs. distinct srcs \<and> length srcs = unat n + 1 \<and> (\<forall>a\<in>set srcs. heard s' a q (Learn r v)))"
  proof (cases "votes_of h r")
    case None
    with votes m(2) show ?thesis by (auto intro!: exI [of _ "[p]"])
  next
    case (Some x)
    with votes have x: "votes_of h r = Some (u, n)" by simp
    with inv obtain srcs where srcs: "0 < n" "distinct srcs" "length srcs = unat n"
        "\<And>a. a \<in> set srcs \<Longrightarrow> heard s a q (Learn r u)"
      unfolding instance_inv_def inv_learner_state_def h by blast
    from srcs(1) have "unat n \<noteq> 0" by (simp add: unat_eq_zero word_gt_0)
    with srcs(3) have "srcs \<noteq> []" by auto
    then have "heard s (hd srcs) q (Learn r u)" by (intro srcs(4)) simp
    then have "asked s (hd srcs) r u"
      using inv heard_said unfolding instance_inv_def inv_votes_def by blast
    then have u: "u = v" using asked_unique [OF inv N v] by blast
    have "p \<notin> set srcs" using srcs(4) [of p] new by (auto simp: set_keys)
    with srcs u m(2) extends_heard [OF ext] show ?thesis
      by (intro conjI exI [of _ "p # srcs"]) auto
  qed
  have plus: "unat (n + 1) = unat n + 1" using n by (rule unat_succ)
  then have pos: "0 < n + 1" by (simp add: word_less_nat_alt)
  show "instance_inv cs N P s'"
    unfolding instance_inv_def
  proof (intro conjI)
    show "inv_traffic N s'" by (rule act_no_key [OF act]) simp
    show "inv_learner_state s'"
    proof (rule keep_learner_state [OF act])
      fix r' v' n' assume some: "votes_of (with_learned b ((votes_of h)(r \<mapsto> (u, n + 1))) h) r' = Some (v', n')"
      show "0 < n' \<and> (\<exists>srcs. distinct srcs \<and> length srcs = unat n' \<and> (\<forall>a\<in>set srcs. heard s' a q (Learn r' v')))"
      proof (cases "r' = r")
        case True
        with some * plus pos show ?thesis by auto
      next
        case False
        with some inv have "0 < n' \<and> (\<exists>srcs. distinct srcs \<and> length srcs = unat n' \<and>
            (\<forall>a\<in>set srcs. heard s a q (Learn r' v')))"
          by (simp add: instance_inv_def inv_learner_state_def h)
        with extends_heard [OF ext] show ?thesis by blast
      qed
    qed
  qed (rule act_same [OF act]; simp)+
qed

lemma instance_inv_step:
  assumes inv: "instance_inv cs N P s" and N: "finite N" "card N \<le> unat (num_slave_servers cs)"
    and step: "instance_step cs N P s s'"
  shows "instance_inv cs N P s'"
  using step
proof cases
  case (step_propose p e x d f)
  let ?h = "handlers s p" and ?r = "next_proposal_number d (handlers s p)"
  have act: "node_acts cs N P p (outgoing x) ?h (new_state x) s s'"
    using step_propose(5) inv step_propose(2) unfolding step_propose(1) node_acts_def extends_def emitted_def
    by (simp add: traffic_def)
  have out: "outgoing x = Some (config_endpoints ?h, Prepare ?r)" by (simp add: step_propose(4))
  have "inv_proposer_state cs s'"
  proof (rule keep_proposer_state [OF act])
    fix r ps assume some: "promises_of (new_state x) r = Some ps"
    show "length ps \<le> threshold cs \<and> (\<exists>srcs. distinct srcs \<and>
        list_all2 (\<lambda>a (vr, vv). heard s' a p (Promise r vr vv)) srcs ps)"
    proof (cases "promises_of ?h r")
      case None
      with some have "ps = []" by (simp add: step_propose(4) map_insert_apply split: if_splits)
      then show ?thesis by (auto intro: exI [of _ "[]"])
    next
      case (Some ps')
      with some have "promises_of ?h r = Some ps"
        by (simp add: step_propose(4) map_insert_apply split: if_splits)
      with inv show ?thesis
        unfolding step_propose(1) instance_inv_def inv_proposer_state_def by simp
    qed
  qed
  moreover have "inv_accepts cs s'"
    by (rule keep_accepts [OF act]) (auto simp: step_propose(4) map_insert_apply)
  moreover have "inv_valid P s'"
    by (rule keep_valid [OF act])
      (use step_propose(3) in \<open>auto simp: step_propose(4) map_insert_apply split: if_splits\<close>)
  moreover have "inv_acceptor_state s'" "inv_promises s'" "inv_votes s'" "inv_learner_state s'"
    by (rule act_same [OF act]; simp add: step_propose(4))+
  moreover have "inv_traffic N s'" by (rule act_no_key [OF act]) (simp add: out)
  ultimately show ?thesis by (simp add: instance_inv_def)
next
  case (step_deliver q p m ms x f)
  note d1 = deliver_acts(1) [where h' = "new_state x", OF inv step_deliver(2,3,5), folded step_deliver(1)]
    and d2 = deliver_acts(2) [where h' = "new_state x", OF inv step_deliver(2,3,5), folded step_deliver(1)]
    and d4 = deliver_acts(4) [OF inv step_deliver(2,3,5)]
  have m: "said s p q m" using step_deliver(3) by (simp add: traffic_def)
  show ?thesis
  proof (cases m)
    case (Prepare r)
    with step_deliver(4) d1 prepare_preserves show ?thesis
      by (auto simp: act_quiet split: if_splits)
  next
    case (Promise r vr vv)
    with step_deliver(4) have x: "react_promise cs r (vr, vv) (handlers s q) = Inr x" by simp
    have key: "(KPromise, r) \<notin> set (keys (delivered s p q))" by (rule d4) (simp add: Promise)
    from x obtain ps where ps: "promises_of (handlers s q) r = Some ps"
      by (auto simp: react_promise_def split: option.splits)
    show ?thesis
    proof (cases "threshold cs \<le> length ps")
      case True
      with x ps d1 show ?thesis by (auto simp: react_promise_def threshold_def intro: act_quiet)
    next
      case False
      then have less: "length ps < threshold cs" by simp
      with x ps have st: "new_state x = with_promises r (ps @ [(vr, vv)]) (handlers s q)"
        and out: "outgoing x = None \<or> (\<exists>es own. outgoing x = Some (es, Accept r (choose_value 0 (ps @ [(vr, vv)]) own)) \<and>
          length ps + 1 = threshold cs \<and> proposal_of (handlers s q) r = Some own)"
        by (auto simp: react_promise_def threshold_def split: option.splits if_splits)
      show ?thesis
        by (rule promise_preserves [OF d1 [unfolded st] ps less m [unfolded Promise] d2 [unfolded Promise] key out])
    qed
  next
    case (Accept r v)
    have key: "(KAccept, r) \<notin> set (keys (delivered s p q))" by (rule d4) (simp add: Accept)
    with step_deliver(4) d1 d2 m accept_preserves [OF N, where q = q and r = r and v = v] show ?thesis
      by (auto simp: Accept act_quiet split: if_splits)
  next
    case (Learn r v)
    have key: "(KLearn, r) \<notin> set (keys (delivered s p q))" by (rule d4) (simp add: Learn)
    obtain u n where un: "(case votes_of (handlers s q) r of None \<Rightarrow> (v, 0) | Some x \<Rightarrow> x) = (u, n)" by fastforce
    from Learn step_deliver(4) d1 learn_preserves(1) [OF N _ un _ _ d2 [unfolded Learn] key] m show ?thesis
      by (auto simp: react_learn_def un act_quiet not_le split: if_splits)
  next
    case PaxosNotSet
    with step_deliver(4) d1 show ?thesis by (auto simp: act_quiet)
  qed
next
  case (step_lose f)
  have sub: "subseq (traffic s' a b) (traffic s a b)" for a b
    using step_lose(2) unfolding step_lose(1) traffic_def by (auto intro: list_emb_append_mono)
  then have said: "said s' a b m \<Longrightarrow> said s a b m" for a b m
    using subseq_set by blast
  have same: "delivered s' = delivered s" "handlers s' = handlers s" "asked s' = asked s"
    by (simp_all add: step_lose(1) asked_def [abs_def])
  have "inv_traffic N s'"
    unfolding inv_traffic_def
  proof (intro conjI allI impI)
    fix a b
    have "distinct (keys (traffic s a b))"
      using inv by (simp add: instance_inv_def inv_traffic_def)
    with subseq_keys [OF sub [of a b]] show "distinct (keys (traffic s' a b))"
      by (rule subseq_keeps_distinct)
    assume "traffic s' a b \<noteq> []"
    then have "traffic s a b \<noteq> []" using sub [of a b] by (auto simp: list_emb_Nil2)
    with inv show "a \<in> N" unfolding instance_inv_def inv_traffic_def by blast
  qed
  moreover have "inv_promises s'"
    using inv said unfolding instance_inv_def inv_promises_def same by blast
  moreover have "inv_votes s'"
    using inv said unfolding instance_inv_def inv_votes_def same by blast
  moreover have "inv_accepts cs s'"
    using inv said unfolding instance_inv_def inv_accepts_def same by blast
  moreover have "inv_valid P s'"
    using inv said unfolding instance_inv_def inv_valid_def same by blast
  ultimately show ?thesis
    using inv unfolding instance_inv_def inv_acceptor_state_def inv_proposer_state_def
      inv_learner_state_def same by blast
qed

section \<open>Agreement\<close>

text \<open>A value is chosen when some node has heard a majority's Learns of one round for it.\<close>

definition chosen_in :: "constants \<Rightarrow> instance_state \<Rightarrow> crnd_t \<Rightarrow> paxos_log_entry \<Rightarrow> bool" where
  "chosen_in cs s r v \<longleftrightarrow>
     (\<exists>l srcs. distinct srcs \<and> length srcs = threshold cs \<and> (\<forall>a\<in>set srcs. heard s a l (Learn r v)))"

definition chosen :: "constants \<Rightarrow> instance_state \<Rightarrow> paxos_log_entry \<Rightarrow> bool" where
  "chosen cs s v \<longleftrightarrow> (\<exists>r. chosen_in cs s r v)"

lemma chosen_mono: "(\<And>a b m. heard s a b m \<Longrightarrow> heard s' a b m) \<Longrightarrow> chosen cs s v \<Longrightarrow> chosen cs s' v"
  unfolding chosen_def chosen_in_def by meson

lemma decided_chosen:
  assumes inv: "instance_inv cs N P s" and N: "finite N" "card N \<le> unat (num_slave_servers cs)"
    and q: "q \<in> N" and m: "flight s p q = m # ms" and x: "react cs p m (handlers s q) = Inr x"
    and out: "emitted q (outgoing x) (depart p q (flight s)) f" and u: "decided x = Some u"
  shows "chosen cs \<lparr>handlers = (handlers s)(q := new_state x), delivered = arrive p q m (delivered s), flight = f\<rparr> u"
proof -
  let ?s = "\<lparr>handlers = (handlers s)(q := new_state x), delivered = arrive p q m (delivered s), flight = f\<rparr>"
  note d1 = deliver_acts(1) [where h' = "new_state x", OF inv q m out]
    and d2 = deliver_acts(2) [where h' = "new_state x", OF inv q m out]
    and d4 = deliver_acts(4) [OF inv q m out]
  obtain r v where mv: "m = Learn r v"
    using x u by (cases m) (auto simp: react_promise_def split: if_splits option.splits)
  obtain w n where un: "(case votes_of (handlers s q) r of None \<Rightarrow> (v, 0) | Some x \<Rightarrow> x) = (w, n)" by fastforce
  from x u mv un have st: "new_state x = with_learned (n + 1 = majority_threshold cs)
      ((votes_of (handlers s q))(r \<mapsto> (w, n + 1))) (handlers s q)"
    and n: "n < majority_threshold cs" "n + 1 = majority_threshold cs" and [simp]: "u = w" "outgoing x = None"
    by (auto simp: react_learn_def not_le split: if_splits)
  have said: "said s p q (Learn r v)" using m mv by (simp add: traffic_def)
  have key: "(KLearn, r) \<notin> set (keys (delivered s p q))" by (rule d4) (simp add: mv)
  have act: "node_acts cs N P q None (handlers s q) (with_learned (n + 1 = majority_threshold cs)
      ((votes_of (handlers s q))(r \<mapsto> (w, n + 1))) (handlers s q)) s ?s"
    using d1 by (simp add: st)
  have told: "heard ?s p q (Learn r v)" using d2 unfolding mv .
  from learn_preserves(2) [OF N act un n(1) said told key]
  obtain srcs where "w = v" "distinct srcs" "length srcs = unat n + 1"
      "\<forall>a\<in>set srcs. heard ?s a q (Learn r v)" by blast
  moreover have "unat n + 1 = threshold cs"
    using unat_succ [OF n(1)] n(2) by (simp add: threshold_def)
  ultimately show ?thesis unfolding chosen_def chosen_in_def by auto
qed

text \<open>The vote a proposer adopts is at least as recent as every vote it was told of.\<close>

definition last_vote_highest :: "(crnd_t \<times> paxos_log_entry) list \<Rightarrow> bool" where
  "last_vote_highest ps \<longleftrightarrow>
     (case filter (\<lambda>(vr, vv). vr > 0) ps of
        [] \<Rightarrow> True
      | votes \<Rightarrow> list_all (\<lambda>(vr, vv). vr \<le> fst (last votes)) ps)"

definition picks_highest :: "constants \<Rightarrow> instance_state \<Rightarrow> bool" where
  "picks_highest cs s \<longleftrightarrow>
     (\<forall>p r ps. promises_of (handlers s p) r = Some ps \<longrightarrow> length ps = threshold cs \<longrightarrow> last_vote_highest ps)"

lemma later_accepts_agree:
  assumes inv: "instance_inv cs N P s" and N: "finite N" "card N \<le> unat (num_slave_servers cs)"
    and safe: "card N \<le> threshold cs \<or> picks_highest cs s"
    and ch: "chosen_in cs s r v"
  shows "said s p a (Accept r' v') \<Longrightarrow> r \<le> r' \<Longrightarrow> v' = v"
proof (induction r' arbitrary: p a v' rule: less_induct)
  case (less r')
  from ch obtain l Q where Q: "distinct Q" "length Q = threshold cs" "\<And>a. a \<in> set Q \<Longrightarrow> heard s a l (Learn r v)"
    unfolding chosen_in_def by blast
  have QN: "set Q \<subseteq> N" using said_by_member [OF inv heard_said] Q(3) by blast
  have voted: "asked s a r v" if "a \<in> set Q" for a
    using inv heard_said [OF Q(3) [OF that]] unfolding instance_inv_def inv_votes_def by blast
  have "Q \<noteq> []" using Q(2) by auto
  then have some: "asked s (hd Q) r v" by (intro voted) simp
  show ?case
  proof (cases "r' = r")
    case True
    with some accept_unique [OF inv N less.prems(1)] heard_said show ?thesis
      unfolding asked_def by metis
  next
    case False
    with less.prems have lt: "r < r'" by simp
    from inv less.prems(1) obtain ps own srcs where P: "promises_of (handlers s p) r' = Some ps"
      "proposal_of (handlers s p) r' = Some own" "v' = choose_value 0 ps own" "distinct srcs"
      "length srcs = threshold cs" "set srcs \<subseteq> N"
      "list_all2 (\<lambda>a (vr, vv). heard s a p (Promise r' vr vv)) srcs ps"
      by (rule promises_quorum)
    have told: "r \<le> vr" if "a \<in> set Q" "said s a p (Promise r' vr vv)" for a vr vv
      using inv heard_said [OF Q(3) [OF that(1)]] that(2) lt unfolding instance_inv_def inv_votes_def by blast
    have rpos: "0 < r" using some accept_round_pos [OF inv] heard_said unfolding asked_def by blast
    obtain b where b: "b \<in> set Q" "b \<in> set srcs"
      using quorums_meet [OF N Q(1) QN _ P(4,6)] Q(2) P(5) by auto
    from list_all2_member [OF P(7) b(2)] obtain br bv where bp: "(br, bv) \<in> set ps"
      "heard s b p (Promise r' br bv)" by blast
    from told [OF b(1) heard_said [OF bp(2)]] have br: "r \<le> br" .
    with rpos have "0 < br" by (rule order.strict_trans2)
    with bp(1) have "filter (\<lambda>(vr, vv). vr > 0) ps \<noteq> []" by (force simp: filter_empty_conv)
    then obtain k kv where k: "(k, kv) \<in> set ps" "0 < k" "choose_value 0 ps own = kv"
      "last (filter (\<lambda>(vr, vv). vr > 0) ps) = (k, kv)"
      by (rule adopted_vote)
    from list_all2_member_right [OF P(7) k(1)] obtain c where c: "c \<in> set srcs" "heard s c p (Promise r' k kv)"
      by blast
    have "r \<le> k"
      using safe
    proof
      assume "card N \<le> threshold cs"
      then have "card N \<le> card (set Q)" using Q(1,2) by (simp add: distinct_card)
      with QN N(1) have "set Q = N" by (intro card_seteq)
      with c(1) P(6) have "c \<in> set Q" by blast
      then show ?thesis using told heard_said [OF c(2)] by blast
    next
      assume "picks_highest cs s"
      with P(1,5) list_all2_lengthD [OF P(7)] have "last_vote_highest ps"
        by (simp add: picks_highest_def)
      then have "br \<le> k"
        using k(4) bp(1) \<open>filter _ ps \<noteq> []\<close>
        by (auto simp: last_vote_highest_def list_all_iff split: list.splits)
      with br show ?thesis by simp
    qed
    moreover have "k < r' \<and> asked s c k kv"
      using inv heard_said [OF c(2)] k(2) unfolding instance_inv_def inv_promises_def by blast
    ultimately have "kv = v"
      using less.IH [of k] heard_said unfolding asked_def by blast
    with k(3) P(3) show ?thesis by simp
  qed
qed

lemma chosen_in_asked:
  assumes inv: "instance_inv cs N P s" and "chosen_in cs s r v"
  shows "\<exists>p a. said s p a (Accept r v)"
proof -
  from assms(2) obtain l Q where Q: "length Q = threshold cs" "\<And>a. a \<in> set Q \<Longrightarrow> heard s a l (Learn r v)"
    unfolding chosen_in_def by blast
  then have "hd Q \<in> set Q" by (intro hd_in_set) auto
  with Q(2) heard_said have "said s (hd Q) l (Learn r v)" by blast
  with inv have "asked s (hd Q) r v" unfolding instance_inv_def inv_votes_def by blast
  then show ?thesis using heard_said unfolding asked_def by blast
qed

lemma chosen_valid:
  assumes inv: "instance_inv cs N P s" and "chosen cs s v"
  shows "v \<in> P"
proof -
  from assms(2) obtain r where "chosen_in cs s r v" unfolding chosen_def by blast
  with chosen_in_asked [OF inv] obtain p a where "said s p a (Accept r v)" by blast
  with inv show ?thesis unfolding instance_inv_def inv_valid_def by blast
qed

lemma chosen_unique:
  assumes inv: "instance_inv cs N P s" and N: "finite N" "card N \<le> unat (num_slave_servers cs)"
    and safe: "card N \<le> threshold cs \<or> picks_highest cs s"
    and "chosen cs s v" and "chosen cs s v'"
  shows "v' = v"
proof -
  note accepted = chosen_in_asked [OF inv]
  from assms(5,6) obtain r r' where c: "chosen_in cs s r v" "chosen_in cs s r' v'"
    unfolding chosen_def by blast
  note later = later_accepts_agree [OF inv N safe]
  show ?thesis
  proof (cases "r \<le> r'")
    case True
    with later [OF c(1)] accepted [OF c(2)] show ?thesis by blast
  next
    case False
    then have "r' \<le> r" by simp
    with later [OF c(2)] accepted [OF c(1)] show ?thesis by blast
  qed
qed

end
