(* ===== verification/PaxosGroup.thy ===== *)
theory PaxosGroup
  imports PaxosInstance
begin

text \<open>
  A group of servers that share one MultiPaxos log, whatever else they are: what each has for
  instances and entries, which Paxos messages are on their way between them (in a channel or in the
  queue of the receiver), and which entries the log synchronisers offer. This is the specification
  that the masters, the slaves and the tablets of a range are shown to refine (ServerGroup.thy and
  the theories after it), as does the bare group of PaxosSystem.thy. A proposal must be justified by
  the log below its index, in a sense that is a parameter.

  For every index the group refines the single-instance protocol of PaxosInstance.thy. Hence
  entries agree, and, since the logs below an index agree too, every entry of a log is justified by
  the very log it is in.
\<close>

section \<open>Indices\<close>

text \<open>\<open>set_paxos_index\<close> truncates, so proposals stay below \<open>2^32\<close>.\<close>

definition fits_index :: "index_t \<Rightarrow> bool" where
  "fits_index i \<longleftrightarrow> i < 2 ^ 32"

lemma fits_not_max: "fits_index i \<Longrightarrow> i \<noteq> - 1"
  by (auto simp: fits_index_def)

lemma fits_widen [simp]: "fits_index (ucast (j::32 word))"
  unfolding fits_index_def by (rule widen_less)

lemma fits_truncate: "fits_index i \<Longrightarrow> ucast (ucast i :: 32 word) = i"
  unfolding fits_index_def by (rule widen_truncate)

lemma widen_eq_iff: "fits_index i \<Longrightarrow> ucast (j::32 word) = i \<longleftrightarrow> ucast i = j"
  using fits_truncate [of i] truncate_widen [of j] by metis

lemma fits_below: "k < i \<Longrightarrow> fits_index i \<Longrightarrow> fits_index k"
  unfolding fits_index_def by (rule order.strict_trans)

section \<open>One index of a list of messages\<close>

definition paxos_msg :: "index_t \<Rightarrow> paxos_payload \<Rightarrow> paxos_message" where
  "paxos_msg i m = \<lparr>paxos_index = ucast i, paxos_payload = m\<rparr>"

lemma make_paxos_msg: "paxos_log_index h = i \<Longrightarrow> make_paxos_message h m = paxos_msg i m"
  by (auto simp: make_paxos_message_def paxos_msg_def)

lemma paxos_msg_simps [simp]: "paxos_index (paxos_msg i m) = ucast i" "paxos_payload (paxos_msg i m) = m"
  by (simp_all add: paxos_msg_def)

definition payloads :: "32 word \<Rightarrow> paxos_message list \<Rightarrow> paxos_payload list" where
  "payloads j ms = map paxos_payload (filter (\<lambda>m. paxos_index m = j) ms)"

lemma payloads_simps [simp]:
  "payloads j [] = []" "payloads j (ms @ ms') = payloads j ms @ payloads j ms'"
  "payloads j (m # ms) = (if paxos_index m = j then paxos_payload m # payloads j ms else payloads j ms)"
  by (simp_all add: payloads_def)

lemma subseq_payloads: "subseq ms ms' \<Longrightarrow> subseq (payloads j ms) (payloads j ms')"
  by (auto simp: payloads_def intro: subseq_map subseq_filter)

section \<open>The roles of an instance\<close>

text \<open>The invariants of an instance do not depend on whom it talks to.\<close>

definition same_roles :: "single_paxos_handler \<Rightarrow> single_paxos_handler \<Rightarrow> bool" where
  "same_roles h h' \<longleftrightarrow>
     rnd_of h' = rnd_of h \<and> vrnd_of h' = vrnd_of h \<and> vval_of h' = vval_of h \<and>
     promises_of h' = promises_of h \<and> proposal_of h' = proposal_of h \<and> votes_of h' = votes_of h"

lemma same_roles_refl [simp]: "same_roles h h"
  by (simp add: same_roles_def)

lemma same_roles_fresh: "same_roles (SinglePaxosHandler i es) (SinglePaxosHandler i es')"
  by (simp add: same_roles_def SinglePaxosHandler_def acceptor_defs promises_of_def proposal_of_def votes_of_def)

lemma instance_inv_cong:
  assumes "instance_inv cs N P s" and "\<And>p. same_roles (handlers s p) (handlers s' p)"
    and "delivered s' = delivered s" and "flight s' = flight s"
  shows "instance_inv cs N P s'"
proof -
  have [simp]: "traffic s' = traffic s" "asked s' = asked s"
    using assms(3,4) by (simp_all add: traffic_def asked_def fun_eq_iff)
  have [simp]: "rnd_of (handlers s' p) = rnd_of (handlers s p)" "vrnd_of (handlers s' p) = vrnd_of (handlers s p)"
    "vval_of (handlers s' p) = vval_of (handlers s p)" "promises_of (handlers s' p) = promises_of (handlers s p)"
    "proposal_of (handlers s' p) = proposal_of (handlers s p)" "votes_of (handlers s' p) = votes_of (handlers s p)" for p
    using assms(2) [of p] by (simp_all add: same_roles_def)
  show ?thesis
    using assms(1,3)
    by (simp add: instance_inv_def inv_traffic_def inv_acceptor_state_def inv_promises_def
        inv_votes_def inv_proposer_state_def inv_accepts_def inv_learner_state_def
        inv_valid_def)
qed

lemma instance_inv_mono: "instance_inv cs N P s \<Longrightarrow> P \<subseteq> P' \<Longrightarrow> instance_inv cs N P' s"
  unfolding instance_inv_def inv_valid_def by blast

definition use_handler :: "endpoint_id \<Rightarrow> single_paxos_handler \<Rightarrow> instance_state \<Rightarrow> instance_state" where
  "use_handler q h I = I\<lparr>handlers := (handlers I)(q := h)\<rparr>"

lemma use_handler_inv:
  "instance_inv cs N P I \<Longrightarrow> same_roles (handlers I q) h \<Longrightarrow> instance_inv cs N P (use_handler q h I)"
  by (rule instance_inv_cong) (auto simp: use_handler_def same_roles_def)

lemma instance_state_eqI:
  "(\<And>p. handlers I p = handlers I' p) \<Longrightarrow> (\<And>p q. delivered I p q = delivered I' p q) \<Longrightarrow>
   (\<And>p q. flight I p q = flight I' p q) \<Longrightarrow> I = (I' :: instance_state)"
  by (cases I; cases I') (simp add: fun_eq_iff)

lemma react_distinct:
  "react cs p m h = Inr x \<Longrightarrow> distinct (config_endpoints h) \<Longrightarrow> outgoing x = Some (es, m') \<Longrightarrow> distinct es"
  by (cases m) (auto simp: react_promise_def react_learn_def Let_def split: if_splits option.splits prod.splits)

section \<open>The group\<close>

type_synonym paxos_traffic = "endpoint_id \<Rightarrow> endpoint_id \<Rightarrow> paxos_message list"

record paxos_group =
  group_instances :: "endpoint_id \<Rightarrow> index_t \<rightharpoonup> single_paxos_handler"
  group_entries :: "endpoint_id \<Rightarrow> index_t \<rightharpoonup> paxos_log_entry"
  group_heard :: paxos_traffic
  group_flight :: paxos_traffic
  group_offers :: "(32 word \<times> paxos_log_entry) set"

text \<open>An instance a server may use for an index: its own, or a fresh one.\<close>

definition usable :: "(index_t \<rightharpoonup> single_paxos_handler) \<Rightarrow> index_t \<Rightarrow> single_paxos_handler \<Rightarrow> bool" where
  "usable instances i h \<longleftrightarrow>
     (case instances i of Some h' \<Rightarrow> h = h' | None \<Rightarrow> \<exists>es. distinct es \<and> h = SinglePaxosHandler i es)"

definition emits ::
  "endpoint_id \<Rightarrow> index_t \<Rightarrow> (endpoint_id list \<times> paxos_payload) option \<Rightarrow> paxos_traffic \<Rightarrow> paxos_traffic \<Rightarrow> bool" where
  "emits p i out f f' \<longleftrightarrow>
     (\<forall>a b. f' a b = f a b \<or>
        (\<exists>es m. out = Some (es, m) \<and> a = p \<and> b \<in> set es \<and> f' a b = f a b @ [paxos_msg i m]))"

definition departs :: "endpoint_id \<Rightarrow> endpoint_id \<Rightarrow> paxos_traffic \<Rightarrow> paxos_traffic" where
  "departs p q f a b = (if a = p \<and> b = q then tl (f a b) else f a b)"

text \<open>An entry that some log holds or some synchroniser offers.\<close>

definition known :: "paxos_group \<Rightarrow> index_t \<Rightarrow> paxos_log_entry \<Rightarrow> bool" where
  "known g k e \<longleftrightarrow> (\<exists>p. group_entries g p k = Some e) \<or> (\<exists>j. k = ucast j \<and> (j, e) \<in> group_offers g)"

type_synonym justification = "(index_t \<rightharpoonup> paxos_log_entry) \<Rightarrow> index_t \<Rightarrow> paxos_log_entry \<Rightarrow> bool"

text \<open>
  A server proposes for its first free index; one handles a message; or nothing is said: messages
  are lost, entries that are known are stored and offered.
\<close>

inductive group_step ::
  "constants \<Rightarrow> endpoint_id list \<Rightarrow> justification \<Rightarrow> paxos_group \<Rightarrow> paxos_group \<Rightarrow> bool"
  for cs ns J g where
  group_propose:
    "p \<in> set ns \<Longrightarrow> fits_index i \<Longrightarrow> usable (group_instances g p) i h \<Longrightarrow>
     (\<forall>k<i. group_entries g p k \<noteq> None) \<Longrightarrow> J (group_entries g p) i e \<Longrightarrow>
     emits p i (outgoing (react_propose draw e h)) (group_flight g) f \<Longrightarrow>
     group_step cs ns J g
       (g\<lparr>group_instances := (group_instances g)(p := (group_instances g p)(i \<mapsto> new_state (react_propose draw e h))),
          group_flight := f\<rparr>)"
| group_deliver:
    "q \<in> set ns \<Longrightarrow> group_flight g p q = m # ms \<Longrightarrow> i = ucast (paxos_index m) \<Longrightarrow>
     usable (group_instances g q) i h \<Longrightarrow> react cs p (paxos_payload m) h = Inr x \<Longrightarrow>
     emits q i (outgoing x) (departs p q (group_flight g)) f \<Longrightarrow>
     (\<And>a k e. ents a k = Some e \<Longrightarrow> group_entries g a k = Some e \<or> a = q \<and> k = i \<and> decided x = Some e) \<Longrightarrow>
     group_step cs ns J g
       (g\<lparr>group_instances := (group_instances g)(q := (group_instances g q)(i \<mapsto> new_state x)),
          group_entries := ents, group_heard := arrive p q m (group_heard g), group_flight := f\<rparr>)"
| group_settle:
    "(\<And>a b. subseq (f a b) (group_flight g a b)) \<Longrightarrow>
     (\<And>p k e. ents p k = Some e \<Longrightarrow> known g k e) \<Longrightarrow> (\<And>j e. (j, e) \<in> offers \<Longrightarrow> known g (ucast j) e) \<Longrightarrow>
     group_step cs ns J g (g\<lparr>group_entries := ents, group_flight := f, group_offers := offers\<rparr>)"

definition initial_group :: paxos_group where
  "initial_group =
     \<lparr>group_instances = (\<lambda>_. Map.empty), group_entries = (\<lambda>_. Map.empty), group_heard = (\<lambda>_ _. []),
      group_flight = (\<lambda>_ _. []), group_offers = {}\<rparr>"

section \<open>One index of the group\<close>

definition group_handler :: "paxos_group \<Rightarrow> endpoint_id \<Rightarrow> index_t \<Rightarrow> single_paxos_handler" where
  "group_handler g p i = (case group_instances g p i of Some h \<Rightarrow> h | None \<Rightarrow> SinglePaxosHandler i [])"

definition at_index :: "32 word \<Rightarrow> paxos_group \<Rightarrow> instance_state" where
  "at_index j g =
     \<lparr>handlers = (\<lambda>p. group_handler g p (ucast j)),
      delivered = (\<lambda>p q. payloads j (group_heard g p q)),
      flight = (\<lambda>p q. payloads j (group_flight g p q))\<rparr>"

lemma at_index_simps [simp]:
  "handlers (at_index j g) p = group_handler g p (ucast j)"
  "delivered (at_index j g) p q = payloads j (group_heard g p q)"
  "flight (at_index j g) p q = payloads j (group_flight g p q)"
  by (simp_all add: at_index_def)

lemma group_handler_update [simp]:
  "group_handler (g\<lparr>group_instances := (group_instances g)(q := (group_instances g q)(i \<mapsto> h))\<rparr>) p k =
     (if p = q \<and> k = i then h else group_handler g p k)"
  by (simp add: group_handler_def)

lemma group_handler_simps [simp]:
  "group_handler (g\<lparr>group_entries := ents\<rparr>) p k = group_handler g p k"
  "group_handler (g\<lparr>group_heard := d\<rparr>) p k = group_handler g p k"
  "group_handler (g\<lparr>group_flight := f\<rparr>) p k = group_handler g p k"
  "group_handler (g\<lparr>group_offers := offers\<rparr>) p k = group_handler g p k"
  by (simp_all add: group_handler_def)

text \<open>What may be chosen at an index: what a log that was chosen below it justifies.\<close>

definition justified :: "constants \<Rightarrow> justification \<Rightarrow> paxos_group \<Rightarrow> 32 word \<Rightarrow> paxos_log_entry set" where
  "justified cs J g j =
     {e. \<exists>L. (\<forall>k<ucast j. \<exists>v. L k = Some v \<and> chosen cs (at_index (ucast k) g) v) \<and> J L (ucast j) e}"

definition group_inv :: "constants \<Rightarrow> endpoint_id list \<Rightarrow> justification \<Rightarrow> paxos_group \<Rightarrow> bool" where
  "group_inv cs ns J g \<longleftrightarrow>
     (\<forall>p i h. group_instances g p i = Some h \<longrightarrow>
        paxos_log_index h = i \<and> fits_index i \<and> distinct (config_endpoints h)) \<and>
     (\<forall>j. instance_inv cs (set ns) (justified cs J g j) (at_index j g)) \<and>
     (\<forall>k e. known g k e \<longrightarrow> fits_index k \<and> chosen cs (at_index (ucast k) g) e)"

lemma group_inv_known: "group_inv cs ns J g \<Longrightarrow> known g k e \<Longrightarrow> fits_index k \<and> chosen cs (at_index (ucast k) g) e"
  by (simp add: group_inv_def)

lemma entries_known: "group_entries g p k = Some e \<Longrightarrow> known g k e"
  by (auto simp: known_def)

lemma offers_known: "(j, e) \<in> group_offers g \<Longrightarrow> known g (ucast j) e"
  by (auto simp: known_def)

lemma chosen_at_mono:
  "(\<And>a b. set (group_heard g a b) \<subseteq> set (group_heard g' a b)) \<Longrightarrow>
   chosen cs (at_index j g) v \<Longrightarrow> chosen cs (at_index j g') v"
  by (rule chosen_mono) (auto simp: payloads_def)

lemma justified_mono:
  "(\<And>a b. set (group_heard g a b) \<subseteq> set (group_heard g' a b)) \<Longrightarrow> justified cs J g j \<subseteq> justified cs J g' j"
  unfolding justified_def using chosen_at_mono [of g g' cs] by blast

lemma usable_wf:
  assumes "usable (group_instances g p) i h" and "fits_index i" and "group_inv cs ns J g"
  shows "paxos_log_index h = i" "distinct (config_endpoints h)" "same_roles (group_handler g p i) h"
  using assms same_roles_fresh [of i "[]"]
  by (auto simp: usable_def group_inv_def group_handler_def split: option.splits)

text \<open>The steps of the group are steps of one index, and leave the others alone.\<close>

lemma emits_emitted:
  assumes "emits p i out f f'" and "ucast i = j"
  shows "emitted p out (\<lambda>a b. payloads j (f a b)) (\<lambda>a b. payloads j (f' a b))"
  unfolding emitted_def
proof (intro allI)
  fix a b
  from assms(1) have "f' a b = f a b \<or>
      (\<exists>es m. out = Some (es, m) \<and> a = p \<and> b \<in> set es \<and> f' a b = f a b @ [paxos_msg i m])"
    by (simp add: emits_def)
  with assms(2) show "payloads j (f' a b) = payloads j (f a b) \<or>
      (\<exists>es m. out = Some (es, m) \<and> a = p \<and> b \<in> set es \<and> payloads j (f' a b) = payloads j (f a b) @ [m])"
    by auto
qed

lemma emits_other:
  assumes "emits p i out f f'" and "ucast i \<noteq> j"
  shows "payloads j (f' a b) = payloads j (f a b)"
proof -
  from assms(1) have "f' a b = f a b \<or>
      (\<exists>es m. out = Some (es, m) \<and> a = p \<and> b \<in> set es \<and> f' a b = f a b @ [paxos_msg i m])"
    by (simp add: emits_def)
  with assms(2) show ?thesis by auto
qed

section \<open>Every step keeps the invariant\<close>

lemma group_inv_intro:
  assumes "\<And>p i h. group_instances g p i = Some h \<Longrightarrow> paxos_log_index h = i \<and> fits_index i \<and> distinct (config_endpoints h)"
    and "\<And>j. instance_inv cs (set ns) (justified cs J g j) (at_index j g)"
    and "\<And>k e. known g k e \<Longrightarrow> fits_index k \<and> chosen cs (at_index (ucast k) g) e"
  shows "group_inv cs ns J g"
  using assms by (simp add: group_inv_def)

lemma propose_keeps:
  assumes inv: "group_inv cs ns J g" and N: "distinct ns" "length ns \<le> unat (num_slave_servers cs)"
    and p: "p \<in> set ns" and fit: "fits_index i" and h: "usable (group_instances g p) i h"
    and below: "\<forall>k<i. group_entries g p k \<noteq> None" and J: "J (group_entries g p) i e"
    and out: "emits p i (outgoing (react_propose draw e h)) (group_flight g) f"
  shows "group_inv cs ns J
    (g\<lparr>group_instances := (group_instances g)(p := (group_instances g p)(i \<mapsto> new_state (react_propose draw e h))),
       group_flight := f\<rparr>)" (is "group_inv _ _ _ ?g")
proof (rule group_inv_intro)
  let ?x = "react_propose draw e h"
  note hw = usable_wf [OF h fit inv]
  have handler: "group_handler ?g a k = (if a = p \<and> k = i then new_state ?x else group_handler g a k)" for a k
    by (simp add: group_handler_def)
  have "known g k (the (group_entries g p k))" if "k < i" for k
    using below that by (auto intro: entries_known)
  then have "chosen cs (at_index (ucast k) g) (the (group_entries g p k))" if "k < i" for k
    using group_inv_known [OF inv] that by blast
  with below J have e: "e \<in> justified cs J g (ucast i)"
    by (force simp: justified_def fits_truncate [OF fit] intro!: exI [of _ "group_entries g p"])
  fix j
  have old: "instance_inv cs (set ns) (justified cs J g j) (at_index j g)"
    using inv by (simp add: group_inv_def)
  have "instance_inv cs (set ns) (justified cs J g j) (at_index j ?g)"
  proof (cases "ucast i = j")
    case True
    then have j: "ucast j = i" using widen_eq_iff [OF fit] by blast
    let ?I = "use_handler p h (at_index j g)"
    have I: "instance_inv cs (set ns) (justified cs J g j) ?I"
      using hw(3) by (intro use_handler_inv [OF old]) (simp add: j)
    have em: "emitted p (outgoing ?x) (flight ?I) (flight (at_index j ?g))"
      using emits_emitted [OF out True] by (simp add: use_handler_def at_index_def)
    have "instance_step cs (set ns) (justified cs J g j) ?I (?I\<lparr>handlers := (handlers ?I)(p := new_state ?x),
        flight := flight (at_index j ?g)\<rparr>)"
      by (rule step_propose [OF p _ _ em]) (use e True in \<open>simp_all add: use_handler_def\<close>)
    also have "(?I\<lparr>handlers := (handlers ?I)(p := new_state ?x), flight := flight (at_index j ?g)\<rparr>) = at_index j ?g"
      by (rule instance_state_eqI) (auto simp: use_handler_def handler j)
    finally show ?thesis using instance_inv_step [OF I] N by (simp add: distinct_card)
  next
    case False
    then have j: "ucast j \<noteq> i" using widen_eq_iff [OF fit] by blast
    have "at_index j ?g = at_index j g"
      by (rule instance_state_eqI) (use emits_other [OF out False] j in \<open>auto simp: handler\<close>)
    with old show ?thesis by simp
  qed
  then show "instance_inv cs (set ns) (justified cs J ?g j) (at_index j ?g)"
    by (rule instance_inv_mono) (rule justified_mono, simp)
next
  fix a k h' assume "group_instances ?g a k = Some h'"
  then show "paxos_log_index h' = k \<and> fits_index k \<and> distinct (config_endpoints h')"
    using inv usable_wf(1,2) [OF h fit inv] fit
    by (auto simp: group_inv_def react_propose_same split: if_splits)
next
  fix k v assume "known ?g k v"
  then have "known g k v" by (simp add: known_def)
  with group_inv_known [OF inv] have "fits_index k" "chosen cs (at_index (ucast k) g) v" by blast+
  then show "fits_index k \<and> chosen cs (at_index (ucast k) ?g) v"
    by (auto intro: chosen_at_mono [of g])
qed

lemma deliver_keeps:
  assumes inv: "group_inv cs ns J g" and N: "distinct ns" "length ns \<le> unat (num_slave_servers cs)"
    and q: "q \<in> set ns" and m: "group_flight g p q = m # ms" and i: "i = ucast (paxos_index m)"
    and h: "usable (group_instances g q) i h" and x: "react cs p (paxos_payload m) h = Inr x"
    and out: "emits q i (outgoing x) (departs p q (group_flight g)) f"
    and ents: "\<And>a k e. ents a k = Some e \<Longrightarrow> group_entries g a k = Some e \<or> a = q \<and> k = i \<and> decided x = Some e"
  shows "group_inv cs ns J
    (g\<lparr>group_instances := (group_instances g)(q := (group_instances g q)(i \<mapsto> new_state x)),
       group_entries := ents, group_heard := arrive p q m (group_heard g), group_flight := f\<rparr>)"
    (is "group_inv _ _ _ ?g")
proof -
  have fit: "fits_index i" by (simp add: i)
  note hw = usable_wf [OF h fit inv]
  have st: "paxos_log_index (new_state x) = i" "config_endpoints (new_state x) = config_endpoints h"
    using react_same [OF x] hw(1) by simp_all
  have handler: "group_handler ?g a k = (if a = q \<and> k = i then new_state x else group_handler g a k)" for a k
    by (simp add: group_handler_def)
  have heard: "\<And>a b. set (group_heard g a b) \<subseteq> set (group_heard ?g a b)" by (auto simp: arrive_def)
  let ?j = "paxos_index m" and ?P = "justified cs J g"
  let ?I = "use_handler q h (at_index ?j g)"
  have old: "instance_inv cs (set ns) (?P j) (at_index j g)" for j using inv by (simp add: group_inv_def)
  have I: "instance_inv cs (set ns) (?P ?j) ?I"
    using hw(3) by (intro use_handler_inv [OF old]) (simp add: i)
  have fl: "flight ?I p q = paxos_payload m # payloads ?j ms"
    using m by (simp add: use_handler_def)
  have xI: "react cs p (paxos_payload m) (handlers ?I q) = Inr x" using x by (simp add: use_handler_def)
  have "(\<lambda>a b. payloads ?j (departs p q (group_flight g) a b)) = depart p q (flight ?I)"
    using m by (auto simp: fun_eq_iff departs_def depart_def use_handler_def)
  with emits_emitted [OF out, of ?j] have em: "emitted q (outgoing x) (depart p q (flight ?I)) (flight (at_index ?j ?g))"
    by (simp add: i at_index_def)
  have proj: "at_index ?j ?g = \<lparr>handlers = (handlers ?I)(q := new_state x),
      delivered = arrive p q (paxos_payload m) (delivered ?I), flight = flight (at_index ?j ?g)\<rparr>"
    by (rule instance_state_eqI) (auto simp: handler use_handler_def i arrive_def)
  have card: "finite (set ns)" "card (set ns) \<le> unat (num_slave_servers cs)"
    using N by (simp_all add: distinct_card)
  have insts: "instance_inv cs (set ns) (?P j) (at_index j ?g)" for j
  proof (cases "?j = j")
    case True
    have "instance_step cs (set ns) (?P ?j) ?I (at_index ?j ?g)"
      by (subst proj) (rule step_deliver [OF q fl xI em])
    with instance_inv_step [OF I card] True show ?thesis by simp
  next
    case False
    then have j: "ucast j \<noteq> i" and j': "ucast i \<noteq> j" using widen_eq_iff [OF fit, of j] by (auto simp: i)
    have "at_index j ?g = at_index j g"
    proof (rule instance_state_eqI)
      fix a b
      have "payloads j (departs p q (group_flight g) a b) = payloads j (group_flight g a b)"
        using m False by (auto simp: departs_def)
      with emits_other [OF out j', of a b] show "flight (at_index j ?g) a b = flight (at_index j g) a b" by simp
    qed (use False j in \<open>auto simp: handler arrive_def\<close>)
    with old show ?thesis by simp
  qed
  show ?thesis
  proof (rule group_inv_intro)
    show "instance_inv cs (set ns) (justified cs J ?g j) (at_index j ?g)" for j
      using insts by (rule instance_inv_mono) (rule justified_mono [OF heard])
  next
    fix a k h' assume "group_instances ?g a k = Some h'"
    with inv hw(2) st fit show "paxos_log_index h' = k \<and> fits_index k \<and> distinct (config_endpoints h')"
      by (auto simp: group_inv_def split: if_splits)
  next
    fix k v assume "known ?g k v"
    then consider "known g k v" | "k = i" "decided x = Some v"
      using ents by (fastforce simp: known_def)
    then show "fits_index k \<and> chosen cs (at_index (ucast k) ?g) v"
    proof cases
      case 1
      with group_inv_known [OF inv] have "fits_index k" "chosen cs (at_index (ucast k) g) v" by blast+
      with chosen_at_mono [OF heard] show ?thesis by blast
    next
      case 2
      have "chosen cs (at_index ?j ?g) v"
        using decided_chosen [OF I card q fl xI em 2(2)] by (simp only: proj [symmetric])
      with 2(1) fit show ?thesis by (simp add: i)
    qed
  qed
qed

lemma settle_keeps:
  assumes inv: "group_inv cs ns J g" and N: "distinct ns" "length ns \<le> unat (num_slave_servers cs)"
    and sub: "\<And>a b. subseq (f a b) (group_flight g a b)"
    and ents: "\<And>p k e. ents p k = Some e \<Longrightarrow> known g k e"
    and offers: "\<And>j e. (j, e) \<in> offers \<Longrightarrow> known g (ucast j) e"
  shows "group_inv cs ns J (g\<lparr>group_entries := ents, group_flight := f, group_offers := offers\<rparr>)"
    (is "group_inv _ _ _ ?g")
proof (rule group_inv_intro)
  have same: "handlers (at_index j ?g) = handlers (at_index j g)" "delivered (at_index j ?g) = delivered (at_index j g)" for j
    by (simp_all add: fun_eq_iff group_handler_def)
  fix j
  have "instance_step cs (set ns) (justified cs J g j) (at_index j g) ((at_index j g)\<lparr>flight := flight (at_index j ?g)\<rparr>)"
    by (rule step_lose) (simp add: sub subseq_payloads)
  also have "(at_index j g)\<lparr>flight := flight (at_index j ?g)\<rparr> = at_index j ?g"
    by (rule instance_state_eqI) (simp_all add: same)
  finally have "instance_inv cs (set ns) (justified cs J g j) (at_index j ?g)"
    using instance_inv_step inv N unfolding group_inv_def by (metis distinct_card finite_set)
  then show "instance_inv cs (set ns) (justified cs J ?g j) (at_index j ?g)"
    by (rule instance_inv_mono) (rule justified_mono, simp)
next
  fix k e assume "known ?g k e"
  then have "known g k e" using ents offers by (auto simp: known_def [of ?g])
  with group_inv_known [OF inv] have "fits_index k" "chosen cs (at_index (ucast k) g) e" by blast+
  then show "fits_index k \<and> chosen cs (at_index (ucast k) ?g) e" by (auto intro: chosen_at_mono [of g])
qed (use inv in \<open>simp add: group_inv_def\<close>)

lemma group_step_inv:
  assumes "group_step cs ns J g g'" and inv: "group_inv cs ns J g"
    and N: "distinct ns" "length ns \<le> unat (num_slave_servers cs)"
  shows "group_inv cs ns J g'"
  using assms(1)
proof cases
  case group_propose
  show ?thesis unfolding group_propose(1) by (rule propose_keeps [OF inv N group_propose(2-)])
next
  case group_deliver
  show ?thesis unfolding group_deliver(1) by (rule deliver_keeps [OF inv N group_deliver(2-)])
next
  case group_settle
  show ?thesis unfolding group_settle(1) by (rule settle_keeps [OF inv N group_settle(2-)])
qed

lemma initial_group_inv: "group_inv cs ns J initial_group"
proof (rule group_inv_intro)
  have "initial_instance (at_index j initial_group)" for j
    by (auto simp: initial_instance_def initial_group_def group_handler_def)
  then show "instance_inv cs (set ns) (justified cs J initial_group j) (at_index j initial_group)" for j
    by (rule inv_initial)
qed (simp_all add: initial_group_def known_def)

text \<open>Any number of steps.\<close>

inductive group_run ::
  "constants \<Rightarrow> endpoint_id list \<Rightarrow> justification \<Rightarrow> paxos_group \<Rightarrow> paxos_group \<Rightarrow> bool"
  for cs ns J g where
  run_here: "group_run cs ns J g g"
| run_step: "group_run cs ns J g g' \<Longrightarrow> group_step cs ns J g' g'' \<Longrightarrow> group_run cs ns J g g''"

lemma group_run_trans: "group_run cs ns J g' g'' \<Longrightarrow> group_run cs ns J g g' \<Longrightarrow> group_run cs ns J g g''"
  by (induction rule: group_run.induct) (auto intro: run_step)

text \<open>What is chosen stays chosen.\<close>

lemma group_step_heard: "group_step cs ns J g g' \<Longrightarrow> set (group_heard g a b) \<subseteq> set (group_heard g' a b)"
  by (induction rule: group_step.induct) (auto simp: arrive_def)

lemma group_run_chosen: "group_run cs ns J g g' \<Longrightarrow> chosen cs (at_index j g) v \<Longrightarrow> chosen cs (at_index j g') v"
  by (induction rule: group_run.induct) (auto intro: chosen_at_mono dest: group_step_heard)

lemma group_run_keeps:
  assumes "group_run cs ns J g g'" "group_inv cs ns J g" and "distinct ns" "length ns \<le> unat (num_slave_servers cs)"
  shows "group_inv cs ns J g'"
  using assms(1,2) by (induction rule: group_run.induct) (auto intro: group_step_inv assms(3,4))

lemma group_run_inv:
  assumes "group_run cs ns J initial_group g" and "distinct ns" "length ns \<le> unat (num_slave_servers cs)"
  shows "group_inv cs ns J g"
  by (rule group_run_keeps [OF assms(1) initial_group_inv assms(2,3)])

section \<open>What the group guarantees\<close>

definition majority_is_all :: "constants \<Rightarrow> endpoint_id list \<Rightarrow> bool" where
  "majority_is_all cs ns \<longleftrightarrow> length ns \<le> unat (majority_threshold cs)"

text \<open>With the constants of src/src/utils.h.\<close>

lemma program_sizes [simp]:
  "majority_threshold initialize_constants = 2" "num_slave_servers initialize_constants = 2"
  by (simp_all add: majority_threshold_def initialize_constants_def Constants_def)

definition safe_group :: "constants \<Rightarrow> endpoint_id list \<Rightarrow> paxos_group \<Rightarrow> bool" where
  "safe_group cs ns g \<longleftrightarrow> majority_is_all cs ns \<or> (\<forall>j. picks_highest cs (at_index j g))"

lemma group_chosen_unique:
  assumes inv: "group_inv cs ns J g" and N: "distinct ns" "length ns \<le> unat (num_slave_servers cs)"
    and safe: "safe_group cs ns g" and "chosen cs (at_index j g) e" "chosen cs (at_index j g) e'"
  shows "e' = e"
proof (rule chosen_unique)
  show "instance_inv cs (set ns) (justified cs J g j) (at_index j g)" using inv by (simp add: group_inv_def)
  show "card (set ns) \<le> unat (num_slave_servers cs)" using N by (simp add: distinct_card)
  show "card (set ns) \<le> threshold cs \<or> picks_highest cs (at_index j g)"
    using safe N(1) by (auto simp: safe_group_def majority_is_all_def threshold_def distinct_card)
qed (use assms in simp_all)

lemma group_agreement:
  assumes inv: "group_inv cs ns J g" and N: "distinct ns" "length ns \<le> unat (num_slave_servers cs)"
    and safe: "safe_group cs ns g" and e: "known g k e" "known g k e'"
  shows "e' = e"
  using group_chosen_unique [OF inv N safe] group_inv_known [OF inv] e by blast

lemma group_validity:
  assumes inv: "group_inv cs ns J g" and "known g k e"
  shows "\<exists>L. J L k e"
proof -
  have k: "fits_index k" "chosen cs (at_index (ucast k) g) e" using group_inv_known [OF assms] by simp_all
  have "e \<in> justified cs J g (ucast k)"
    using inv by (intro chosen_valid [OF _ k(2), of "set ns"]) (simp add: group_inv_def)
  then show ?thesis by (auto simp: justified_def fits_truncate [OF k(1)])
qed

locale local_justification =
  fixes J :: justification
  assumes J_local: "(\<And>k. k < i \<Longrightarrow> L k = L' k) \<Longrightarrow> J L i e \<Longrightarrow> J L' i e"
begin

text \<open>A log justifies its entries.\<close>

lemma entries_justified:
  assumes inv: "group_inv cs ns J g" and N: "distinct ns" "length ns \<le> unat (num_slave_servers cs)"
    and safe: "safe_group cs ns g" and e: "group_entries g p i = Some e"
    and below: "\<And>k. k < i \<Longrightarrow> group_entries g p k \<noteq> None"
  shows "J (group_entries g p) i e"
proof -
  have i: "fits_index i" "chosen cs (at_index (ucast i) g) e" using group_inv_known [OF inv entries_known [OF e]] by simp_all
  have "e \<in> justified cs J g (ucast i)"
    using inv by (intro chosen_valid [OF _ i(2), of "set ns"]) (simp add: group_inv_def)
  then obtain L where L: "\<And>k. k < i \<Longrightarrow> \<exists>v. L k = Some v \<and> chosen cs (at_index (ucast k) g) v" "J L i e"
    by (auto simp: justified_def fits_truncate [OF i(1)])
  have "L k = group_entries g p k" if "k < i" for k
  proof -
    from L(1) [OF that] obtain v where v: "L k = Some v" "chosen cs (at_index (ucast k) g) v" by blast
    from below [OF that] obtain u where u: "group_entries g p k = Some u" by blast
    with group_inv_known [OF inv entries_known] have "chosen cs (at_index (ucast k) g) u" by blast
    with group_chosen_unique [OF inv N safe v(2)] u v(1) show ?thesis by simp
  qed
  from J_local [OF this L(2)] show ?thesis .
qed

end

end
