(* ===== verification/ServerGroup.thy ===== *)
theory ServerGroup
  imports PaxosGroup Connections
begin

text \<open>
  Groups of whole servers. A server takes the steps of its own model (a handled message, a task, a
  timer, a tablet at work, connections that come and go); between steps the oldest message of a
  channel moves to the queue of the server at its end. What such a server is for one MultiPaxos
  group is its view: instances, entries, the Paxos messages queued for it and in its channels, the
  entries its synchroniser's answers carry. The locale \<open>server_group\<close> is the contract: if every step
  of a server is, in its view, a proposal, a handled Paxos message or quiet, then the servers refine
  the group of PaxosGroup.thy, so their logs agree and justify their entries.
\<close>

section \<open>Views\<close>

record host_view =
  view_instances :: "index_t \<rightharpoonup> single_paxos_handler"
  view_entries :: "index_t \<rightharpoonup> paxos_log_entry"
  view_inbox :: "endpoint_id \<Rightarrow> paxos_message list"
  view_flight :: "endpoint_id \<Rightarrow> paxos_message list"
  view_offers :: "(32 word \<times> paxos_log_entry) set"

definition sends ::
  "index_t \<Rightarrow> (endpoint_id list \<times> paxos_payload) option
   \<Rightarrow> (endpoint_id \<Rightarrow> paxos_message list) \<Rightarrow> (endpoint_id \<Rightarrow> paxos_message list) \<Rightarrow> bool" where
  "sends i out f f' \<longleftrightarrow>
     (\<forall>b. f' b = f b \<or> (\<exists>es m. out = Some (es, m) \<and> b \<in> set es \<and> f' b = f b @ [paxos_msg i m]))"

inductive host_step :: "constants \<Rightarrow> justification \<Rightarrow> host_view \<Rightarrow> host_view \<Rightarrow> bool" for cs J v where
  host_propose:
    "fits_index i \<Longrightarrow> usable (view_instances v) i h \<Longrightarrow> (\<forall>k<i. view_entries v k \<noteq> None) \<Longrightarrow>
     J (view_entries v) i e \<Longrightarrow> sends i (outgoing (react_propose draw e h)) (view_flight v) f \<Longrightarrow>
     host_step cs J v
       (v\<lparr>view_instances := (view_instances v)(i \<mapsto> new_state (react_propose draw e h)), view_flight := f\<rparr>)"
| host_deliver:
    "view_inbox v p = m # ms \<Longrightarrow> i = ucast (paxos_index m) \<Longrightarrow> usable (view_instances v) i h \<Longrightarrow>
     react cs p (paxos_payload m) h = Inr x \<Longrightarrow> sends i (outgoing x) (view_flight v) f \<Longrightarrow>
     (\<And>k e. ents k = Some e \<Longrightarrow> view_entries v k = Some e \<or> k = i \<and> decided x = Some e) \<Longrightarrow>
     host_step cs J v
       (v\<lparr>view_instances := (view_instances v)(i \<mapsto> new_state x), view_entries := ents,
          view_inbox := (view_inbox v)(p := ms), view_flight := f\<rparr>)"
| host_quiet:
    "(\<And>p. subseq (inbox p) (view_inbox v p)) \<Longrightarrow> (\<And>q. subseq (f q) (view_flight v q)) \<Longrightarrow>
     (\<And>k e. ents k = Some e \<Longrightarrow> view_entries v k = Some e \<or> (\<exists>j. k = ucast j \<and> (j, e) \<in> view_offers v)) \<Longrightarrow>
     (\<And>j e. (j, e) \<in> offers \<Longrightarrow> (j, e) \<in> view_offers v \<or> view_entries v (ucast j) = Some e) \<Longrightarrow>
     host_step cs J v
       (v\<lparr>view_entries := ents, view_inbox := inbox, view_flight := f, view_offers := offers\<rparr>)"

text \<open>The group that the views make up; \<open>hist\<close> is what was handled so far.\<close>

definition group_of :: "paxos_traffic \<Rightarrow> (endpoint_id \<Rightarrow> host_view) \<Rightarrow> paxos_group" where
  "group_of hist v =
     \<lparr>group_instances = (\<lambda>p. view_instances (v p)), group_entries = (\<lambda>p. view_entries (v p)),
      group_heard = hist, group_flight = (\<lambda>p q. view_inbox (v q) p @ view_flight (v p) q),
      group_offers = (\<Union>p. view_offers (v p))\<rparr>"

lemma group_of_simps [simp]:
  "group_instances (group_of hist v) p = view_instances (v p)"
  "group_entries (group_of hist v) p = view_entries (v p)"
  "group_heard (group_of hist v) = hist"
  "group_flight (group_of hist v) p q = view_inbox (v q) p @ view_flight (v p) q"
  "group_offers (group_of hist v) = (\<Union>p. view_offers (v p))"
  by (simp_all add: group_of_def)

lemma group_eqI:
  "(\<And>p. group_instances g p = group_instances g' p) \<Longrightarrow> (\<And>p. group_entries g p = group_entries g' p) \<Longrightarrow>
   group_heard g = group_heard g' \<Longrightarrow> (\<And>p q. group_flight g p q = group_flight g' p q) \<Longrightarrow>
   group_offers g = group_offers g' \<Longrightarrow> g = (g' :: paxos_group)"
  by (cases g; cases g') (simp add: fun_eq_iff)

lemma host_step_group:
  assumes step: "host_step cs J (v p) w" and p: "p \<in> set ns"
  shows "\<exists>hist'. group_step cs ns J (group_of hist v) (group_of hist' (v(p := w)))"
  using step
proof cases
  case (host_propose i h e draw f)
  let ?g = "group_of hist v" and ?f = "\<lambda>a b. if a = p then view_inbox (v b) p @ f b else group_flight (group_of hist v) a b"
  have out: "emits p i (outgoing (react_propose draw e h)) (group_flight ?g) ?f"
    using host_propose(6) by (auto simp: emits_def sends_def)
  have "group_step cs ns J ?g (?g\<lparr>group_instances := (group_instances ?g)
      (p := (group_instances ?g p)(i \<mapsto> new_state (react_propose draw e h))), group_flight := ?f\<rparr>)"
    by (rule group_step.group_propose [where e = e, OF p host_propose(2)]) (use host_propose out in simp_all)
  also have "?g\<lparr>group_instances := (group_instances ?g)
      (p := (group_instances ?g p)(i \<mapsto> new_state (react_propose draw e h))), group_flight := ?f\<rparr> =
      group_of hist (v(p := w))"
    by (rule group_eqI) (auto simp: host_propose(1) split: if_splits)
  finally show ?thesis by blast
next
  case (host_deliver q m ms i h x f ents)
  let ?g = "group_of hist v"
  let ?f = "\<lambda>a b. (if b = p then (if a = q then ms else view_inbox (v p) a) else view_inbox (v b) a) @
    (if a = p then f b else view_flight (v a) b)"
  let ?ents = "(\<lambda>a. view_entries (v a))(p := ents)"
  have out: "emits p i (outgoing x) (departs q p (group_flight ?g)) ?f"
    using host_deliver(2,6) by (auto simp: emits_def sends_def departs_def)
  have "group_step cs ns J ?g (?g\<lparr>group_instances := (group_instances ?g)(p := (group_instances ?g p)(i \<mapsto> new_state x)),
      group_entries := ?ents, group_heard := arrive q p m (group_heard ?g), group_flight := ?f\<rparr>)"
    by (rule group_step.group_deliver [where ms = "ms @ view_flight (v q) p", OF p])
      (use host_deliver out in \<open>auto split: if_splits\<close>)
  also have "?g\<lparr>group_instances := (group_instances ?g)(p := (group_instances ?g p)(i \<mapsto> new_state x)),
      group_entries := ?ents, group_heard := arrive q p m (group_heard ?g), group_flight := ?f\<rparr> =
      group_of (arrive q p m hist) (v(p := w))"
    by (rule group_eqI) (auto simp: host_deliver(1) split: if_splits)
  finally show ?thesis by blast
next
  case (host_quiet inbox f ents offers)
  let ?g = "group_of hist v"
  let ?v = "v(p := w)"
  have "group_step cs ns J ?g (?g\<lparr>group_entries := \<lambda>a. view_entries (?v a),
      group_flight := \<lambda>a b. view_inbox (?v b) a @ view_flight (?v a) b, group_offers := \<Union>a. view_offers (?v a)\<rparr>)"
  proof (rule group_step.group_settle)
    show "subseq (view_inbox (?v b) a @ view_flight (?v a) b) (group_flight ?g a b)" for a b
      using host_quiet(2) [of a] host_quiet(3) [of b] by (auto simp: host_quiet(1) intro: list_emb_append_mono)
    show "known ?g k e" if "view_entries (?v a) k = Some e" for a k e
      using that host_quiet(4) [of k e] by (auto simp: known_def host_quiet(1) split: if_splits)
    show "known ?g (ucast j) e" if "(j, e) \<in> (\<Union>a. view_offers (?v a))" for j e
      using that host_quiet(5) [of j e] by (auto simp: known_def host_quiet(1) split: if_splits)
  qed
  also have "?g\<lparr>group_entries := \<lambda>a. view_entries (?v a),
      group_flight := \<lambda>a b. view_inbox (?v b) a @ view_flight (?v a) b, group_offers := \<Union>a. view_offers (?v a)\<rparr> =
      group_of hist ?v"
    by (rule group_eqI) (auto simp: host_quiet(1) split: if_splits)
  finally show ?thesis by blast
qed

text \<open>
  Nothing is said: a message that moves from a channel to a queue stays where it was, in transit;
  messages are lost; an entry that is known is stored.
\<close>

lemma settled_group:
  assumes "\<And>a. view_instances (v' a) = view_instances (v a)"
    and "\<And>a k e. view_entries (v' a) k = Some e \<Longrightarrow> known (group_of hist v) k e"
    and "\<And>a b. subseq (view_inbox (v' b) a @ view_flight (v' a) b) (view_inbox (v b) a @ view_flight (v a) b)"
    and "(\<Union>a. view_offers (v' a)) \<subseteq> (\<Union>a. view_offers (v a))"
  shows "group_step cs ns J (group_of hist v) (group_of hist v')"
proof -
  let ?g = "group_of hist v"
  have "group_step cs ns J ?g (?g\<lparr>group_entries := \<lambda>a. view_entries (v' a),
      group_flight := \<lambda>a b. view_inbox (v' b) a @ view_flight (v' a) b, group_offers := \<Union>a. view_offers (v' a)\<rparr>)"
  proof (rule group_step.group_settle)
    show "known ?g (ucast j) e" if "(j, e) \<in> (\<Union>a. view_offers (v' a))" for j e
      using that assms(4) by (auto simp: known_def)
  qed (use assms(2,3) in simp_all)
  also have "?g\<lparr>group_entries := \<lambda>a. view_entries (v' a),
      group_flight := \<lambda>a b. view_inbox (v' b) a @ view_flight (v' a) b, group_offers := \<Union>a. view_offers (v' a)\<rparr> = group_of hist v'"
    by (rule group_eqI) (simp_all add: assms(1))
  finally show ?thesis .
qed

section \<open>Runs of a group of servers\<close>

datatype 'ev cluster_event = Acts endpoint_id 'ev | Moves endpoint_id endpoint_id

fun cluster_step ::
  "('ev \<Rightarrow> 'h \<Rightarrow> 'h option) \<Rightarrow> ('h \<Rightarrow> 'w connections) \<Rightarrow> (endpoint_id \<Rightarrow> 'h \<Rightarrow> 'h) \<Rightarrow> ('w incoming_message \<Rightarrow> 'h \<Rightarrow> 'h)
   \<Rightarrow> endpoint_id list \<Rightarrow> 'ev cluster_event \<Rightarrow> (endpoint_id \<Rightarrow> 'h) \<Rightarrow> (endpoint_id \<Rightarrow> 'h) option" where
  "cluster_step step conns pop push ns (Acts p ev) hs =
     (if p \<in> set ns then map_option (\<lambda>h. hs(p := h)) (step ev (hs p)) else None)"
| "cluster_step step conns pop push ns (Moves p q) hs =
     (case in_flight (conns (hs p)) q of
        [] \<Rightarrow> None
      | w # _ \<Rightarrow>
          if p \<in> set ns \<and> q \<in> set ns
          then let hs' = hs(p := pop q (hs p))
               in Some (hs'(q := push \<lparr>incoming_endpoint = p, incoming_payload = w\<rparr> (hs' q)))
          else None)"

fun cluster_run ::
  "('ev \<Rightarrow> 'h \<Rightarrow> 'h option) \<Rightarrow> ('h \<Rightarrow> 'w connections) \<Rightarrow> (endpoint_id \<Rightarrow> 'h \<Rightarrow> 'h) \<Rightarrow> ('w incoming_message \<Rightarrow> 'h \<Rightarrow> 'h)
   \<Rightarrow> endpoint_id list \<Rightarrow> 'ev cluster_event list \<Rightarrow> (endpoint_id \<Rightarrow> 'h) \<Rightarrow> (endpoint_id \<Rightarrow> 'h) option" where
  "cluster_run step conns pop push ns [] hs = Some hs"
| "cluster_run step conns pop push ns (ev # evs) hs =
     (case cluster_step step conns pop push ns ev hs of
        None \<Rightarrow> None | Some hs' \<Rightarrow> cluster_run step conns pop push ns evs hs')"

lemma cluster_run_append:
  "cluster_run step conns pop push ns evs hs = Some hs1 \<Longrightarrow> cluster_run step conns pop push ns evs' hs1 = Some hs2 \<Longrightarrow>
     cluster_run step conns pop push ns (evs @ evs') hs = Some hs2"
  by (induction evs arbitrary: hs) (auto split: option.splits)

section \<open>The contract\<close>

definition view_start :: "host_view \<Rightarrow> bool" where
  "view_start v \<longleftrightarrow> view_instances v = Map.empty \<and> view_entries v = Map.empty \<and>
     (\<forall>p. view_inbox v p = []) \<and> (\<forall>q. view_flight v q = []) \<and> view_offers v = {}"

locale server_group = local_justification J for J :: justification +
  fixes cs :: constants
    and entry_ok :: "paxos_log_entry \<Rightarrow> bool"
    and ok :: "'h \<Rightarrow> bool"
    and view :: "'h \<Rightarrow> host_view"
    and step :: "'ev \<Rightarrow> 'h \<Rightarrow> 'h option"
    and conns :: "'h \<Rightarrow> 'w connections"
    and pop :: "endpoint_id \<Rightarrow> 'h \<Rightarrow> 'h"
    and push :: "'w incoming_message \<Rightarrow> 'h \<Rightarrow> 'h"
    and paxos_in :: "'w \<Rightarrow> paxos_message list"
    and sync_in :: "'w \<Rightarrow> (32 word \<times> paxos_log_entry) set"
  assumes J_entry_ok: "J L i e \<Longrightarrow> entry_ok e"
    and step_ok: "ok h \<Longrightarrow> (\<And>k e. view_entries (view h) k = Some e \<Longrightarrow> fits_index k \<and> entry_ok e) \<Longrightarrow> step ev h = Some h' \<Longrightarrow> ok h'"
    and step_view: "ok h \<Longrightarrow> (\<And>k e. view_entries (view h) k = Some e \<Longrightarrow> fits_index k \<and> entry_ok e) \<Longrightarrow> step ev h = Some h' \<Longrightarrow>
      host_step cs J (view h) (view h')"
    and pop_ok: "ok h \<Longrightarrow> ok (pop q h)"
    and push_ok: "ok h \<Longrightarrow> ok h0 \<Longrightarrow> in_flight (conns h0) q = incoming_payload m # ws \<Longrightarrow> ok (push m h)"
    and pop_view: "in_flight (conns h) q = w # ws \<Longrightarrow>
      view_instances (view (pop q h)) = view_instances (view h) \<and> view_entries (view (pop q h)) = view_entries (view h) \<and>
      view_inbox (view (pop q h)) = view_inbox (view h) \<and>
      view_flight (view h) b = (if b = q then paxos_in w else []) @ view_flight (view (pop q h)) b \<and>
      view_offers (view (pop q h)) \<union> sync_in w \<subseteq> view_offers (view h)"
    and push_view: "view (push \<lparr>incoming_endpoint = p, incoming_payload = w\<rparr> h) =
      (view h)\<lparr>view_inbox := (view_inbox (view h))(p := view_inbox (view h) p @ paxos_in w),
         view_offers := view_offers (view h) \<union> sync_in w\<rparr>"
begin

abbreviation views :: "(endpoint_id \<Rightarrow> 'h) \<Rightarrow> endpoint_id \<Rightarrow> host_view" where
  "views hs \<equiv> \<lambda>p. view (hs p)"

lemma move_group:
  assumes "in_flight (conns (hs p)) q = w # ws"
  shows "group_step cs ns J (group_of hist (views hs))
    (group_of hist (views ((hs(p := pop q (hs p)))(q := push \<lparr>incoming_endpoint = p, incoming_payload = w\<rparr> ((hs(p := pop q (hs p))) q)))))"
proof (rule settled_group)
  note pops = pop_view [OF assms]
  let ?hs = "(hs(p := pop q (hs p)))(q := push \<lparr>incoming_endpoint = p, incoming_payload = w\<rparr> ((hs(p := pop q (hs p))) q))"
  show "view_instances (view (?hs a)) = view_instances (view (hs a))" for a
    using pops [of p] by (auto simp: push_view)
  have "view_entries (view (?hs a)) = view_entries (view (hs a))" for a
    using pops [of p] by (auto simp: push_view)
  then show "known (group_of hist (views hs)) k e" if "view_entries (view (?hs a)) k = Some e" for a k e
    using that by (auto simp: known_def)
  have "view_inbox (view (?hs b)) a @ view_flight (view (?hs a)) b = view_inbox (view (hs b)) a @ view_flight (view (hs a)) b" for a b
    using pops [of b] by (auto simp: push_view)
  then show "subseq (view_inbox (view (?hs b)) a @ view_flight (view (?hs a)) b) (view_inbox (view (hs b)) a @ view_flight (view (hs a)) b)" for a b
    by simp
  show "(\<Union>a. view_offers (view (?hs a))) \<subseteq> (\<Union>a. view_offers (view (hs a)))"
  proof (rule UN_least)
    fix a
    have "view_offers (view (?hs a)) \<subseteq> view_offers (view (hs a)) \<union> view_offers (view (hs p))"
      using pops [of p] by (auto simp: push_view)
    also have "\<dots> \<subseteq> (\<Union>a. view_offers (view (hs a)))"
      by (intro Un_least UN_upper) simp_all
    finally show "view_offers (view (?hs a)) \<subseteq> (\<Union>a. view_offers (view (hs a)))" .
  qed
qed

lemma cluster_step_group:
  assumes run: "cluster_step step conns pop push ns ev hs = Some hs'"
    and ok: "\<And>p. ok (hs p)" and entries: "\<And>p k e. view_entries (view (hs p)) k = Some e \<Longrightarrow> fits_index k \<and> entry_ok e"
  shows "(\<exists>hist'. group_step cs ns J (group_of hist (views hs)) (group_of hist' (views hs'))) \<and> (\<forall>p. ok (hs' p))"
proof (cases ev)
  case (Acts p ev')
  with run obtain h where p: "p \<in> set ns" and h: "step ev' (hs p) = Some h" and hs': "hs' = hs(p := h)"
    by (auto split: if_splits)
  have eq: "views hs' = (views hs)(p := view h)" by (simp add: hs' fun_eq_iff)
  have "host_step cs J (views hs p) (view h)" by (rule step_view [OF ok _ h]) (rule entries)
  from host_step_group [where v = "views hs" and p = p, OF this p]
  have group: "\<exists>hist'. group_step cs ns J (group_of hist (views hs)) (group_of hist' ((views hs)(p := view h)))" .
  have "ok h" by (rule step_ok [OF ok _ h]) (rule entries)
  with group ok show ?thesis unfolding eq by (simp add: hs')
next
  case (Moves p q)
  with run obtain w ws where w: "in_flight (conns (hs p)) q = w # ws"
    and hs': "hs' = (hs(p := pop q (hs p)))(q := push \<lparr>incoming_endpoint = p, incoming_payload = w\<rparr> ((hs(p := pop q (hs p))) q))"
    by (auto simp: Let_def split: list.splits if_splits)
  have "ok (push \<lparr>incoming_endpoint = p, incoming_payload = w\<rparr> ((hs(p := pop q (hs p))) q))"
    by (rule push_ok [of _ "hs p" q _ ws]) (use ok pop_ok w in simp_all)
  with ok pop_ok have "\<forall>a. ok (hs' a)" by (auto simp: hs' split: if_splits)
  with move_group [where hs = hs and p = p, OF w] show ?thesis unfolding hs' by blast
qed

lemma group_entries_ok:
  assumes "group_run cs ns J initial_group (group_of hist v)" and "distinct ns" "length ns \<le> unat (num_slave_servers cs)"
    and "view_entries (v p) k = Some e"
  shows "fits_index k \<and> entry_ok e"
proof -
  have "known (group_of hist v) k e" using assms(4) by (auto simp: known_def)
  with group_validity [OF group_run_inv [OF assms(1-3)] this] group_inv_known [OF group_run_inv [OF assms(1-3)] this] J_entry_ok
  show ?thesis by blast
qed

lemma cluster_run_group:
  assumes N: "distinct ns" "length ns \<le> unat (num_slave_servers cs)"
  shows "cluster_run step conns pop push ns evs hs = Some hs' \<Longrightarrow>
    group_run cs ns J initial_group (group_of hist (views hs)) \<Longrightarrow> (\<And>p. ok (hs p)) \<Longrightarrow>
    (\<exists>hist'. group_run cs ns J (group_of hist (views hs)) (group_of hist' (views hs'))) \<and> (\<forall>p. ok (hs' p))"
proof (induction evs arbitrary: hs hist)
  case Nil
  then show ?case by (auto intro: run_here)
next
  case (Cons ev evs)
  from Cons.prems(1) obtain hs1 where hs1: "cluster_step step conns pop push ns ev hs = Some hs1"
    "cluster_run step conns pop push ns evs hs1 = Some hs'" by (auto split: option.splits)
  have entries: "view_entries (view (hs p)) k = Some e \<Longrightarrow> fits_index k \<and> entry_ok e" for p k e
    by (rule group_entries_ok [OF Cons.prems(2) N])
  have "(\<exists>hist'. group_step cs ns J (group_of hist (views hs)) (group_of hist' (views hs1))) \<and> (\<forall>p. ok (hs1 p))"
    by (rule cluster_step_group [OF hs1(1) Cons.prems(3)]) (rule entries)
  then obtain hist1 where
    s1: "group_step cs ns J (group_of hist (views hs)) (group_of hist1 (views hs1))" and ok1: "\<And>p. ok (hs1 p)" by blast
  from Cons.IH [OF hs1(2) run_step [OF Cons.prems(2) s1] ok1] group_run_trans [OF _ run_step [OF run_here s1]]
  show ?case by blast
qed

lemma start_group:
  assumes "\<And>p. view_start (view (hs p))"
  shows "group_of (\<lambda>_ _. []) (views hs) = initial_group"
  using assms by (intro group_eqI) (simp_all add: initial_group_def view_start_def)

text \<open>Entries of the logs agree, at all times, and each log justifies its own.\<close>

lemma cluster_start_run:
  assumes "distinct ns" "length ns \<le> unat (num_slave_servers cs)"
    and "\<And>p. view_start (view (hs0 p))" "\<And>p. ok (hs0 p)"
    and "cluster_run step conns pop push ns evs hs0 = Some hs"
  obtains hist where "group_run cs ns J initial_group (group_of hist (views hs))" "\<And>p. ok (hs p)"
    "group_inv cs ns J (group_of hist (views hs))"
proof -
  from start_group [of hs0] assms(3) have start: "group_of (\<lambda>_ _. []) (views hs0) = initial_group" by blast
  have "group_run cs ns J initial_group (group_of (\<lambda>_ _. []) (views hs0))" unfolding start by (rule run_here)
  from cluster_run_group [OF assms(1,2,5) this assms(4)] group_run_inv [OF _ assms(1,2)] that start show thesis by metis
qed

lemma cluster_entry_ok:
  assumes "distinct ns" "length ns \<le> unat (num_slave_servers cs)"
    and "\<And>p. view_start (view (hs0 p))" "\<And>p. ok (hs0 p)"
    and "cluster_run step conns pop push ns evs hs0 = Some hs"
    and "view_entries (view (hs p)) k = Some e"
  shows "fits_index k \<and> entry_ok e"
proof -
  obtain hist where "group_run cs ns J initial_group (group_of hist (views hs))"
    by (rule cluster_start_run [OF assms(1-5)]) (rule that)
  from group_entries_ok [OF this assms(1,2,6)] show ?thesis .
qed

lemma cluster_agrees:
  assumes N: "distinct ns" "length ns \<le> unat (num_slave_servers cs)" and all: "majority_is_all cs ns"
    and start: "\<And>p. view_start (view (hs0 p))" "\<And>p. ok (hs0 p)"
    and run: "cluster_run step conns pop push ns evs hs0 = Some hs" "cluster_run step conns pop push ns evs' hs = Some hs'"
    and e: "view_entries (view (hs p)) k = Some e" "view_entries (view (hs' q)) k = Some e'"
  shows "e' = e"
proof -
  obtain hist where g: "group_run cs ns J initial_group (group_of hist (views hs))" "\<And>p. ok (hs p)"
      "group_inv cs ns J (group_of hist (views hs))"
    by (rule cluster_start_run [OF N start run(1)]) (rule that)
  from cluster_run_group [OF N run(2) g(1,2)] obtain hist' where
    g': "group_run cs ns J (group_of hist (views hs)) (group_of hist' (views hs'))" by blast
  have inv: "group_inv cs ns J (group_of hist' (views hs'))" by (rule group_run_keeps [OF g' g(3) N])
  have "known (group_of hist (views hs)) k e" "known (group_of hist' (views hs')) k e'"
    using e by (auto simp: known_def)
  with group_inv_known [OF g(3)] group_inv_known [OF inv] group_run_chosen [OF g']
  have "chosen cs (at_index (ucast k) (group_of hist' (views hs'))) e"
    "chosen cs (at_index (ucast k) (group_of hist' (views hs'))) e'" by blast+
  then show ?thesis by (rule group_chosen_unique [OF inv N, rotated]) (simp add: safe_group_def all)
qed

lemma cluster_justifies:
  assumes "distinct ns" "length ns \<le> unat (num_slave_servers cs)" "majority_is_all cs ns"
    and "\<And>p. view_start (view (hs0 p))" "\<And>p. ok (hs0 p)"
    and "cluster_run step conns pop push ns evs hs0 = Some hs"
    and "view_entries (view (hs p)) i = Some e" "\<And>k. k < i \<Longrightarrow> view_entries (view (hs p)) k \<noteq> None"
  shows "J (view_entries (view (hs p))) i e"
proof -
  obtain hist where inv: "group_inv cs ns J (group_of hist (views hs))"
    by (rule cluster_start_run [OF assms(1,2,4-6)]) (rule that)
  have "safe_group cs ns (group_of hist (views hs))" by (simp add: safe_group_def assms(3))
  from entries_justified [OF inv assms(1,2) this, of p i e] assms(7,8) show ?thesis by simp
qed

end

end
