(* ===== verification/ConnectionHandler.thy ===== *)
theory ConnectionHandler
  imports Connections
begin

text \<open>
  Connections as they come and go: \<open>uni::server::ConnectionHandler\<close>
  (src/src/server/ConnectionHandler.cc) accepts connections from other servers and from clients,
  and a channel whose remote end is gone runs the close callback that \<open>add_channel\<close> gave it.
\<close>

section \<open>Events of a set of connections\<close>

text \<open>
  The identity of a \<open>ChannelImpl\<close> is the remote address with port 0. When the address has a channel
  already, \<open>_channels.insert\<close> leaves the map as it is and destroys the new channel, which is
  reading; its aborted read then runs on the destroyed object. A write handler pops the message its
  socket has taken from the queue of its channel.
\<close>

datatype connection_event =
    Accepted string
  | Closed endpoint_id
  | Written endpoint_id

definition accepted :: "string \<Rightarrow> 'w connections \<Rightarrow> 'w connections result" where
  "accepted ip c =
     (if has_channel (EndpointId ip 0) c then Inl UndefinedBehaviour
      else Inr (add_channel (EndpointId ip 0) (ChannelImpl []) c))"

fun connection_step :: "connection_event \<Rightarrow> 'w connections \<Rightarrow> 'w connections result" where
  "connection_step (Accepted ip) c = accepted ip c"
| "connection_step (Closed e) c = on_close e c"
| "connection_step (Written e) c = Inr (deliver_from e c)"

section \<open>The accept loop\<close>

text \<open>
  An acceptor listens from its construction: what arrives waits in its backlog until
  \<open>async_accept\<close> is called. An outcome is the remote address of a new socket, or an error.
\<close>

record 'w connection_handler =
  ch_connections :: "'w connections"
  ch_accepting :: bool
  ch_backlog :: "string option list"

definition ConnectionHandler :: "'w connection_handler" where
  "ConnectionHandler = \<lparr>ch_connections = \<lparr>channels = []\<rparr>, ch_accepting = False, ch_backlog = []\<rparr>"

definition async_accept :: "'w connection_handler \<Rightarrow> 'w connection_handler" where
  "async_accept h = h\<lparr>ch_accepting := True\<rparr>"

text \<open>The lambda: after an error nobody calls \<open>async_accept\<close> again.\<close>

definition accept_handler :: "string option \<Rightarrow> 'w connection_handler \<Rightarrow> 'w connection_handler result" where
  "accept_handler outcome h =
     (case outcome of
        Some ip \<Rightarrow> rbind (accepted ip (ch_connections h)) (\<lambda>c. Inr (async_accept (h\<lparr>ch_connections := c\<rparr>)))
      | None \<Rightarrow> Inr h)"

definition accept_step :: "'w connection_handler \<Rightarrow> 'w connection_handler result" where
  "accept_step h =
     (case ch_backlog h of
        outcome # rest \<Rightarrow>
          if ch_accepting h then accept_handler outcome (h\<lparr>ch_accepting := False, ch_backlog := rest\<rparr>) else Inr h
      | [] \<Rightarrow> Inr h)"

text \<open>A connection request reaches the backlog.\<close>

definition knock :: "string option \<Rightarrow> 'w connection_handler \<Rightarrow> 'w connection_handler" where
  "knock outcome h = h\<lparr>ch_backlog := ch_backlog h @ [outcome]\<rparr>"

text \<open>The io context runs handlers until nothing is left to do.\<close>

fun accept_all :: "nat \<Rightarrow> 'w connection_handler \<Rightarrow> 'w connection_handler result" where
  "accept_all 0 h = Inr h"
| "accept_all (Suc n) h = rbind (accept_step h) (accept_all n)"

section \<open>Lemmas\<close>

lemma has_channel_iff: "has_channel e c \<longleftrightarrow> e \<in> set (get_all_endpoints c)"
  by (simp add: has_channel_def get_all_endpoints_def)

lemma accepted_Inr:
  "accepted ip c = Inr c' \<longleftrightarrow> EndpointId ip 0 \<notin> set (get_all_endpoints c) \<and>
     c' = \<lparr>channels = channels c @ [(EndpointId ip 0, ChannelImpl [])]\<rparr>"
  by (auto simp: accepted_def has_channel_iff add_channel_def)

lemma accepted_endpoints:
  "accepted ip c = Inr c' \<Longrightarrow> get_all_endpoints c' = get_all_endpoints c @ [EndpointId ip 0]"
  by (auto simp: accepted_Inr get_all_endpoints_def)

lemma accept_step_busy:
  "accept_step \<lparr>ch_connections = c, ch_accepting = True, ch_backlog = Some ip # os\<rparr> =
     rbind (accepted ip c) (\<lambda>c'. Inr \<lparr>ch_connections = c', ch_accepting = True, ch_backlog = os\<rparr>)"
  by (simp add: accept_step_def accept_handler_def async_accept_def)

lemma accept_step_error:
  "accept_step \<lparr>ch_connections = c, ch_accepting = True, ch_backlog = None # os\<rparr> =
     Inr \<lparr>ch_connections = c, ch_accepting = False, ch_backlog = os\<rparr>"
  by (simp add: accept_step_def accept_handler_def)

lemma accept_step_idle:
  "\<not> ch_accepting h \<Longrightarrow> accept_step h = Inr h" "ch_backlog h = [] \<Longrightarrow> accept_step h = Inr h"
  by (auto simp: accept_step_def split: list.split)

lemma accept_all_idle:
  "\<not> ch_accepting h \<or> ch_backlog h = [] \<Longrightarrow> accept_all n h = Inr h"
  by (induction n) (auto simp: accept_step_idle)

lemma accept_all_peers:
  assumes "distinct ips" "(\<lambda>ip. EndpointId ip 0) ` set ips \<inter> set (get_all_endpoints c) = {}"
  shows "accept_all (length ips) \<lparr>ch_connections = c, ch_accepting = True, ch_backlog = map Some ips\<rparr> =
    Inr \<lparr>ch_connections = \<lparr>channels = channels c @ map (\<lambda>ip. (EndpointId ip 0, ChannelImpl [])) ips\<rparr>,
         ch_accepting = True, ch_backlog = []\<rparr>"
  using assms
proof (induction ips arbitrary: c)
  case (Cons ip ips)
  let ?c = "\<lparr>channels = channels c @ [(EndpointId ip 0, ChannelImpl [])]\<rparr>"
  have "accepted ip c = Inr ?c" using Cons.prems(2) by (simp add: accepted_Inr)
  moreover have "(\<lambda>ip. EndpointId ip 0) ` set ips \<inter> set (get_all_endpoints ?c) = {}"
    using Cons.prems by (auto simp: get_all_endpoints_def)
  ultimately show ?case using Cons.IH [of ?c] Cons.prems(1) by (simp add: accept_step_busy)
qed simp

text \<open>The endpoints of a handler once its backlog has been served.\<close>

definition settled :: "'w connection_handler \<Rightarrow> endpoint_id list result" where
  "settled h = rbind (accept_all (length (ch_backlog h)) h) (\<lambda>h'. Inr (get_all_endpoints (ch_connections h')))"

text \<open>The peers of a backlog up to the first error.\<close>

definition peers :: "string option list \<Rightarrow> string list" where
  "peers os = map the (takeWhile (\<lambda>outcome. outcome \<noteq> None) os)"

lemma peers_simps [simp]: "peers [] = []" "peers (Some ip # os) = ip # peers os" "peers (None # os) = []"
  by (simp_all add: peers_def)

section \<open>Properties\<close>

text \<open>
  C19: what an acceptor serves. When its handlers have run, it has connected, in order, every peer
  that waited before the first failed accept, and none after it: one failure and the server never
  accepts again. If the address of such a peer has a channel already (two clients of one machine, or
  a server that reconnects before its old connection was seen to be closed) the outcome is
  undefined behaviour.
\<close>

theorem accepts_until_error:
  "accept_all (length os) (async_accept \<lparr>ch_connections = c, ch_accepting = False, ch_backlog = os\<rparr>) =
     (if distinct (peers os) \<and> (\<lambda>ip. EndpointId ip 0) ` set (peers os) \<inter> set (get_all_endpoints c) = {}
      then Inr \<lparr>ch_connections = \<lparr>channels = channels c @ map (\<lambda>ip. (EndpointId ip 0, ChannelImpl [])) (peers os)\<rparr>,
                ch_accepting = None \<notin> set os,
                ch_backlog = drop (Suc (length (peers os))) os\<rparr>
      else Inl UndefinedBehaviour)"
proof (induction os arbitrary: c)
  case Nil
  show ?case by (simp add: async_accept_def)
next
  case (Cons outcome os)
  show ?case
  proof (cases outcome)
    case None
    then show ?thesis by (simp add: async_accept_def accept_step_error accept_all_idle)
  next
    case (Some ip)
    show ?thesis
    proof (cases "EndpointId ip 0 \<in> set (get_all_endpoints c)")
      case True
      then have "accepted ip c = Inl UndefinedBehaviour" by (simp add: accepted_def has_channel_iff)
      with True show ?thesis by (simp add: Some async_accept_def accept_step_busy)
    next
      case False
      let ?c = "\<lparr>channels = channels c @ [(EndpointId ip 0, ChannelImpl [])]\<rparr>"
      from False have "accepted ip c = Inr ?c" by (simp add: accepted_Inr)
      then have "accept_all (length (outcome # os))
          (async_accept \<lparr>ch_connections = c, ch_accepting = False, ch_backlog = outcome # os\<rparr>) =
        accept_all (length os) (async_accept \<lparr>ch_connections = ?c, ch_accepting = False, ch_backlog = os\<rparr>)"
        by (simp add: Some async_accept_def accept_step_busy)
      moreover have "set (get_all_endpoints ?c) = insert (EndpointId ip 0) (set (get_all_endpoints c))"
        by (simp add: get_all_endpoints_def)
      ultimately show ?thesis using False by (simp add: Some Cons.IH) auto
    qed
  qed
qed

end
