(* ===== verification/GroupMember.thy ===== *)
theory GroupMember
  imports PaxosServer GuardedLog AsyncQueue ServerGroup ConnectionHandler
begin

text \<open>
  What the operations of a node do to its view. The locale \<open>group_wire\<close> fixes how the messages of one
  group are recognised on the wire; its lemmas say that proposing, handling a Paxos message, the
  synchroniser's messages and timer, and connections that come and go are steps of
  \<open>host_step\<close>; \<open>paxos_wire\<close> is the part without a synchroniser. The servers use them with their own
  wrappers.
\<close>

section \<open>The view of a node\<close>

definition from_sender :: "endpoint_id \<Rightarrow> 'w incoming_message list \<Rightarrow> 'w list" where
  "from_sender p ms = map incoming_payload (filter (\<lambda>m. incoming_endpoint m = p) ms)"

lemma from_sender_simps [simp]:
  "from_sender p [] = []" "from_sender p (ms @ ms') = from_sender p ms @ from_sender p ms'"
  "from_sender p (m # ms) = (if incoming_endpoint m = p then incoming_payload m # from_sender p ms else from_sender p ms)"
  by (simp_all add: from_sender_def)

definition queue_view :: "('w \<Rightarrow> paxos_message list) \<Rightarrow> 'w incoming_message list \<Rightarrow> endpoint_id \<Rightarrow> paxos_message list" where
  "queue_view paxos_in queue p = concat (map paxos_in (from_sender p queue))"

definition channel_view :: "('w \<Rightarrow> paxos_message list) \<Rightarrow> 'w connections \<Rightarrow> endpoint_id \<Rightarrow> paxos_message list" where
  "channel_view paxos_in c q = concat (map paxos_in (in_flight c q))"

definition offered ::
  "('w \<Rightarrow> (32 word \<times> paxos_log_entry) set) \<Rightarrow> 'w incoming_message list \<Rightarrow> 'w connections \<Rightarrow> (32 word \<times> paxos_log_entry) set" where
  "offered sync_in queue c =
     (\<Union>m\<in>set queue. sync_in (incoming_payload m)) \<union> (\<Union>q. \<Union>w\<in>set (in_flight c q). sync_in w)"

definition node_view ::
  "('w \<Rightarrow> paxos_message list) \<Rightarrow> ('w \<Rightarrow> (32 word \<times> paxos_log_entry) set) \<Rightarrow> 'w incoming_message list
   \<Rightarrow> ('w, 's) paxos_node \<Rightarrow> host_view" where
  "node_view paxos_in sync_in queue nd =
     \<lparr>view_instances = paxos_instances (node_paxos nd), view_entries = log (node_log nd),
      view_inbox = queue_view paxos_in queue, view_flight = channel_view paxos_in (node_connections nd),
      view_offers = offered sync_in queue (node_connections nd)\<rparr>"

text \<open>Queues and channels lose messages and get others, of which \<open>W\<close> is all that is known.\<close>

definition changes :: "'m set \<Rightarrow> 'm list \<Rightarrow> 'm list \<Rightarrow> bool" where
  "changes W ms ms' \<longleftrightarrow> (\<exists>us ws. subseq us ms \<and> ms' = us @ ws \<and> set ws \<subseteq> W)"

definition channels_change :: "'w set \<Rightarrow> 'w connections \<Rightarrow> 'w connections \<Rightarrow> bool" where
  "channels_change W c c' \<longleftrightarrow> (\<forall>b. changes W (in_flight c b) (in_flight c' b))"

lemma changes_refl [simp]: "changes W ms ms"
  by (auto simp: changes_def intro: exI [of _ ms])

lemma changes_mono: "changes W ms ms' \<Longrightarrow> W \<subseteq> W' \<Longrightarrow> changes W' ms ms'"
  unfolding changes_def by blast

lemma changes_append: "set ws \<subseteq> W \<Longrightarrow> changes W ms (ms @ ws)"
  by (auto simp: changes_def)

lemma changes_subseq: "subseq ms' ms \<Longrightarrow> changes W ms ms'"
  by (auto simp: changes_def intro: exI [of _ ms'])

lemma changes_set: "changes W ms ms' \<Longrightarrow> set ms' \<subseteq> set ms \<union> W"
  unfolding changes_def using subseq_set by fastforce

lemma changes_trans:
  assumes "changes W a b" "changes W b c"
  shows "changes W a c"
proof -
  from assms(1) obtain us ws where 1: "subseq us a" "b = us @ ws" "set ws \<subseteq> W" by (auto simp: changes_def)
  from assms(2) obtain vs xs where 2: "subseq vs b" "c = vs @ xs" "set xs \<subseteq> W" by (auto simp: changes_def)
  from 2(1) [unfolded 1(2)] obtain v1 v2 where v: "vs = v1 @ v2" "subseq v1 us" "subseq v2 ws"
    by (auto simp: subseq_append_iff)
  with 1 2 subseq_set [OF v(3)] show ?thesis
    unfolding changes_def by (intro exI [of _ v1] exI [of _ "v2 @ xs"]) (auto intro: subseq_order.trans)
qed

lemma channels_change_refl [simp]: "channels_change W c c"
  by (simp add: channels_change_def)

lemma channels_change_mono: "channels_change W c c' \<Longrightarrow> W \<subseteq> W' \<Longrightarrow> channels_change W' c c'"
  by (auto simp: channels_change_def intro: changes_mono)

lemma channels_change_trans: "channels_change W c c' \<Longrightarrow> channels_change W c' c'' \<Longrightarrow> channels_change W c c''"
  by (auto simp: channels_change_def intro: changes_trans)

lemma channels_change_send: "w \<in> W \<Longrightarrow> channels_change W c (send e w c)"
  unfolding channels_change_def
proof
  fix b assume "w \<in> W"
  with in_flight_send_same [of e w c] in_flight_send_other [of b e w c] changes_append [of "[w]" W "in_flight c e"]
  show "changes W (in_flight c b) (in_flight (send e w c) b)"
    by (cases "b = e") auto
qed

lemma channels_change_broadcast: "w \<in> W \<Longrightarrow> channels_change W c (broadcast es w c)"
proof (induction es arbitrary: c)
  case (Cons e es)
  from channels_change_trans [OF channels_change_send Cons.IH] Cons.prems show ?case by auto
qed simp

lemma concat_map_subseq: "subseq xs ys \<Longrightarrow> subseq (concat (map f xs)) (concat (map f ys))"
  by (induction xs ys rule: list_emb.induct) (auto intro: list_emb_append2 list_emb_append_mono)

lemma changes_concat:
  assumes "changes W ms ms'" "\<And>w. w \<in> W \<Longrightarrow> f w = []"
  shows "subseq (concat (map f ms')) (concat (map f ms))"
proof -
  from assms(1) obtain us ws where *: "subseq us ms" "ms' = us @ ws" "set ws \<subseteq> W" by (auto simp: changes_def)
  then have "concat (map f ws) = []" using assms(2) by auto
  then have "concat (map f ms') = concat (map f us)" by (simp only: *(2) map_append concat_append append_Nil2)
  with concat_map_subseq [OF *(1), of f] show ?thesis by simp
qed

lemma channel_view_changes:
  "channels_change W c c' \<Longrightarrow> (\<And>w. w \<in> W \<Longrightarrow> paxos_in w = []) \<Longrightarrow>
     subseq (channel_view paxos_in c' q) (channel_view paxos_in c q)"
  unfolding channels_change_def channel_view_def by (blast intro: changes_concat)

lemma queue_view_changes:
  assumes "changes M queue queue'" and "\<And>m. m \<in> M \<Longrightarrow> paxos_in (incoming_payload m) = []"
  shows "subseq (queue_view paxos_in queue' p) (queue_view paxos_in queue p)"
proof -
  have eq: "queue_view paxos_in ms p = concat (map (\<lambda>m. if incoming_endpoint m = p then paxos_in (incoming_payload m) else []) ms)" for ms
    by (induction ms) (simp_all add: queue_view_def)
  show ?thesis unfolding eq by (rule changes_concat [OF assms(1)]) (use assms(2) in auto)
qed

lemma offered_changes:
  assumes "changes M queue queue'" and "channels_change W c c'" and "(j, e) \<in> offered sync_in queue' c'"
  shows "(j, e) \<in> offered sync_in queue c \<or> (\<exists>m\<in>M. (j, e) \<in> sync_in (incoming_payload m)) \<or> (\<exists>w\<in>W. (j, e) \<in> sync_in w)"
proof -
  from assms(3) consider m where "m \<in> set queue'" "(j, e) \<in> sync_in (incoming_payload m)"
    | q w where "w \<in> set (in_flight c' q)" "(j, e) \<in> sync_in w" by (auto simp: offered_def)
  then show ?thesis
  proof cases
    case 1
    with changes_set [OF assms(1)] show ?thesis by (auto simp: offered_def)
  next
    case 2
    moreover have "set (in_flight c' q) \<subseteq> set (in_flight c q) \<union> W"
      using assms(2) by (intro changes_set) (simp add: channels_change_def)
    ultimately show ?thesis by (auto simp: offered_def)
  qed
qed

section \<open>Channels\<close>

lemma connection_close_in_flight: "on_close q c = Inr c' \<Longrightarrow> subseq (in_flight c' b) (in_flight c b)"
proof -
  have "map_of (filter (\<lambda>(k, ch). k \<noteq> q) cs) b = (if b = q then None else map_of cs b)" for cs :: "(endpoint_id \<times> 'a channel) list"
    by (induction cs) auto
  then show "on_close q c = Inr c' \<Longrightarrow> subseq (in_flight c' b) (in_flight c b)"
    by (auto simp: on_close_Inr in_flight_def get_channel_def)
qed

lemma add_channel_in_flight: "pending ch = [] \<Longrightarrow> in_flight (add_channel q ch c) b = in_flight c b"
proof -
  have "pending (start_listening ch) = pending ch" by (cases ch) auto
  then show "pending ch = [] \<Longrightarrow> in_flight (add_channel q ch c) b = in_flight c b"
    by (auto simp: add_channel_def has_channel_def in_flight_def get_channel_def map_add_def
        split: option.splits if_splits)
qed

lemma deliver_from_in_flight: "subseq (in_flight (deliver_from q c) b) (in_flight c b)"
proof -
  have "subseq (tl ms) ms" for ms :: "'a list" by (cases ms) auto
  then show ?thesis by (simp add: in_flight_deliver_from)
qed

lemma connection_step_change: "connection_step ev c = Inr c' \<Longrightarrow> channels_change W c c'"
  by (cases ev)
    (auto simp: accepted_def channels_change_def add_channel_in_flight changes_subseq connection_close_in_flight
      deliver_from_in_flight split: if_splits)

lemma emit_in_flight_cases:
  assumes "\<And>es m. out = Some (es, m) \<Longrightarrow> distinct es"
  shows "in_flight (emit to_wire h out c) b = in_flight c b \<or>
    (\<exists>es m. out = Some (es, m) \<and> b \<in> set es \<and>
       in_flight (emit to_wire h out c) b = in_flight c b @ [to_wire (make_paxos_message h m)])"
proof (cases out)
  case (Some em)
  obtain es m where em: "em = (es, m)" by (cases em)
  from assms Some em have "distinct es" by simp
  from in_flight_broadcast [OF this, of "to_wire (make_paxos_message h m)" c b] show ?thesis
    using Some em by auto
qed simp

section \<open>The synchroniser\<close>

text \<open>An answer carries entries of the log it was built from, whatever was asked.\<close>

lemma inclusive_loop_invariant:
  assumes "inclusive_loop f i n acc = Some acc'" and "P acc" and "\<And>i acc. P acc \<Longrightarrow> P (f i acc)"
  shows "P acc'"
proof -
  have "P acc \<longrightarrow> (\<forall>i acc. P acc \<longrightarrow> P (f i acc)) \<longrightarrow> P acc'"
    using assms(1)
    by (rule inclusive_loop.raw_induct [where P = "\<lambda>f i n acc acc'. P acc \<longrightarrow> (\<forall>i acc. P acc \<longrightarrow> P (f i acc)) \<longrightarrow> P acc'", rotated])
      (auto split: if_splits)
  with assms(2,3) show ?thesis by blast
qed

definition from_log :: "'s paxos_log \<Rightarrow> (32 word \<times> paxos_log_entry) list \<Rightarrow> bool" where
  "from_log pl entries \<longleftrightarrow> (\<forall>(j, e)\<in>set entries. \<exists>i. j = ucast i \<and> log pl i = Some e)"

lemma from_log_add: "from_log pl entries \<Longrightarrow> from_log pl (add_missing_entry pl i entries)"
  by (auto simp: from_log_def add_missing_entry_def get_entry_def split: option.splits)

lemma from_log_holes: "holes_loop pl n rs entries = Some entries' \<Longrightarrow> from_log pl entries \<Longrightarrow> from_log pl entries'"
proof (induction pl n rs entries rule: holes_loop.induct)
  case (2 pl n s e rs entries)
  show ?case
  proof (cases "s \<ge> n")
    case False
    with "2.prems"(1) obtain entries1 where
      run: "inclusive_loop (add_missing_entry pl) s (min n e) entries = Some entries1"
        "holes_loop pl n rs entries1 = Some entries'" by (auto split: option.splits)
    from inclusive_loop_invariant [OF run(1), of "from_log pl"] "2.prems"(2) from_log_add have "from_log pl entries1" by blast
    with "2.IH" [OF False run(1) run(2)] show ?thesis .
  qed (use "2.prems" in simp)
qed simp

lemma from_log_fold: "from_log pl entries \<Longrightarrow> from_log pl (fold (add_missing_entry pl) is entries)"
  by (induction "is" arbitrary: entries) (auto simp: from_log_add)

lemma build_sync_response_from_log:
  assumes "build_sync_response pl request = Some (Inr response)"
  shows "from_log pl (missing_entries response)"
proof -
  from assms obtain n entries where "holes_loop pl n (missing_indices request) [] = Some entries"
    and r: "missing_entries response = (if n > last_index request
      then fold (add_missing_entry pl) (word_upt (last_index request + 1) n) entries else entries)"
    by (auto simp: build_sync_response_def split: sum.splits)
  from from_log_holes [OF this(1)] have "from_log pl entries" by (simp add: from_log_def)
  then show ?thesis by (simp add: r from_log_fold)
qed

lemma sync_response_log:
  "handle_sync_response response (pl, d) = Inr (pl', d') \<Longrightarrow> log_inv pl \<Longrightarrow>
   log_inv pl' \<and> (\<forall>k e. log pl' k = Some e \<longrightarrow>
     log pl k = Some e \<or> (\<exists>j. k = ucast j \<and> (j, e) \<in> set (missing_entries response)))"
proof -
  assume run: "handle_sync_response response (pl, d) = Inr (pl', d')" and inv: "log_inv pl"
  let ?P = "\<lambda>x. log_inv (fst x) \<and> (\<forall>k e. log (fst x) k = Some e \<longrightarrow>
     log pl k = Some e \<or> (\<exists>j. k = ucast j \<and> (j, e) \<in> set (missing_entries response)))"
  have "?P (pl', d')"
  proof (rule rfold_invariant [OF run [unfolded handle_sync_response_def]])
    fix ie :: "32 word \<times> paxos_log_entry" and x x'
    assume ie: "ie \<in> set (missing_entries response)" and x: "?P x" and step: "(case ie of (i, e) \<Rightarrow> set_entry (ucast i) e) x = Inr x'"
    obtain i e where [simp]: "ie = (i, e)" by (cases ie)
    obtain p0 d0 p1 d1 where [simp]: "x = (p0, d0)" "x' = (p1, d1)" by (cases x; cases x')
    from step have se: "set_entry (ucast i) e (p0, d0) = Inr (p1, d1)" by simp
    have p0: "log_inv p0" using x by simp
    from set_entry_log_inv [OF p0 _ se] set_entry_lookup [OF p0 _ se] x ie show "?P x'"
      by (auto split: if_splits)
  qed (use inv in simp)
  then show ?thesis by simp
qed

text \<open>All that the operations of a node send is wrapped by the function they are given.\<close>

lemma emit_channels: "channels_change (range pw) c (emit pw h out c)"
  by (auto simp: emit_def intro!: channels_change_broadcast simp del: broadcast.simps split: option.split)

lemma apply_reaction_channels:
  "apply_reaction pw i h x nd = Inr nd' \<Longrightarrow> channels_change (range pw) (node_connections nd) (node_connections nd')"
  using emit_channels by (auto simp: apply_reaction_def rbind_eq_Inr)

lemma propose_channels:
  "multi_propose pw provider draw e nd = Inr nd' \<Longrightarrow>
     channels_change (range pw) (node_connections nd) (node_connections nd')"
  by (auto simp: multi_propose_react rbind_eq_Inr dest: apply_reaction_channels)

lemma paxos_message_channels:
  "handle_incoming_message pw cs provider endpoint m nd = Inr nd' \<Longrightarrow>
     channels_change (range pw) (node_connections nd) (node_connections nd')"
  by (auto simp: handle_incoming_message_react rbind_eq_Inr dest: apply_reaction_channels)

lemma sync_message_channels:
  "handle_sync_message sw endpoint y nd = Some (Inr nd') \<Longrightarrow>
     channels_change (range sw) (node_connections nd) (node_connections nd')"
  by (cases y) (auto simp: handle_sync_message_def handle_sync_request_def rbind_eq_Inr intro!: channels_change_send)

lemma sync_timer_channels:
  assumes "sync_timer sw get nd = Inr nd'"
  shows "nd' = nd\<lparr>node_connections := node_connections nd'\<rparr> \<and>
    channels_change (range (\<lambda>request. sw (SyncRequest request))) (node_connections nd) (node_connections nd')"
proof -
  from assms obtain es request where
    "nd' = nd\<lparr>node_connections := broadcast es (sw (SyncRequest request)) (node_connections nd)\<rparr>"
    by (auto simp: sync_timer_def syncing_callback_def rbind_eq_Inr simp del: broadcast.simps)
  then show ?thesis by (auto intro: channels_change_broadcast simp del: broadcast.simps)
qed

section \<open>Steps of a node\<close>

definition node_ok :: "('w, 's) paxos_node \<Rightarrow> bool" where
  "node_ok nd \<longleftrightarrow> log_inv (node_log nd) \<and>
     (\<forall>i h. paxos_instances (node_paxos nd) i = Some h \<longrightarrow> paxos_log_index h = i \<and> distinct (config_endpoints h))"

definition makes_instances :: "'s instance_provider \<Rightarrow> 's \<Rightarrow> bool" where
  "makes_instances provider d \<longleftrightarrow>
     (\<forall>i h. provider d i = Inr h \<longrightarrow> (\<exists>es. distinct es \<and> h = SinglePaxosHandler i es))"

definition log_fits_node :: "('w, 's) paxos_node \<Rightarrow> bool" where
  "log_fits_node nd \<longleftrightarrow> (\<forall>k e. log (node_log nd) k = Some e \<longrightarrow> fits_index k)"

lemma new_handler_simps [simp]:
  "paxos_log_index (SinglePaxosHandler i es) = i" "config_endpoints (SinglePaxosHandler i es) = es"
  by (simp_all add: SinglePaxosHandler_def)

lemma instance_of_usable:
  assumes "node_ok nd" "makes_instances provider (node_derived nd)" "instance_of provider i nd = Inr h"
  shows "usable (paxos_instances (node_paxos nd)) i h" "paxos_log_index h = i" "distinct (config_endpoints h)"
proof -
  have "usable (paxos_instances (node_paxos nd)) i h \<and> paxos_log_index h = i \<and> distinct (config_endpoints h)"
  proof (cases "paxos_instances (node_paxos nd) i")
    case None
    with assms(3) have "provider (node_derived nd) i = Inr h" by (simp add: instance_of_def)
    with assms(2) obtain es where "distinct es" "h = SinglePaxosHandler i es" unfolding makes_instances_def by blast
    with None show ?thesis by (auto simp: usable_def)
  next
    case (Some h')
    with assms(1,3) show ?thesis by (auto simp: instance_of_def usable_def node_ok_def)
  qed
  then show "usable (paxos_instances (node_paxos nd)) i h" "paxos_log_index h = i" "distinct (config_endpoints h)"
    by simp_all
qed

locale paxos_wire =
  fixes paxos_in :: "'w \<Rightarrow> paxos_message list"
    and sync_in :: "'w \<Rightarrow> (32 word \<times> paxos_log_entry) set"
    and pw :: "paxos_message \<Rightarrow> 'w"
  assumes paxos_wrapper: "paxos_in (pw m) = [m]" "sync_in (pw m) = {}"
begin

abbreviation member_view :: "'w incoming_message list \<Rightarrow> ('w, 's) paxos_node \<Rightarrow> host_view" where
  "member_view \<equiv> node_view paxos_in sync_in"

definition plain :: "'w \<Rightarrow> bool" where
  "plain w \<longleftrightarrow> paxos_in w = [] \<and> sync_in w = {}"

lemma quiet_view:
  assumes insts: "paxos_instances (node_paxos nd') = paxos_instances (node_paxos nd)"
    and ents: "\<And>k e. log (node_log nd') k = Some e \<Longrightarrow> log (node_log nd) k = Some e \<or>
      (\<exists>j. k = ucast j \<and> (j, e) \<in> offered sync_in queue (node_connections nd))"
    and conns: "channels_change W (node_connections nd) (node_connections nd')"
    and W: "\<And>w. w \<in> W \<Longrightarrow> paxos_in w = []" "\<And>w j e. w \<in> W \<Longrightarrow> (j, e) \<in> sync_in w \<Longrightarrow> log (node_log nd) (ucast j) = Some e"
    and queue: "changes {m. plain (incoming_payload m)} queue queue'"
  shows "host_step cs J (member_view queue nd) (member_view queue' nd')"
proof -
  let ?v = "member_view queue nd"
  have "host_step cs J ?v (?v\<lparr>view_entries := log (node_log nd'), view_inbox := queue_view paxos_in queue',
      view_flight := channel_view paxos_in (node_connections nd'),
      view_offers := offered sync_in queue' (node_connections nd')\<rparr>)"
  proof (rule host_quiet)
    show "subseq (queue_view paxos_in queue' p) (view_inbox ?v p)" for p
      using queue_view_changes [OF queue, of paxos_in p] by (simp add: node_view_def plain_def)
    show "subseq (channel_view paxos_in (node_connections nd') q) (view_flight ?v q)" for q
      using channel_view_changes [OF conns W(1)] by (simp add: node_view_def)
    show "view_entries ?v k = Some e \<or> (\<exists>j. k = ucast j \<and> (j, e) \<in> view_offers ?v)"
      if "log (node_log nd') k = Some e" for k e
      using ents [OF that] by (simp add: node_view_def)
    show "(j, e) \<in> view_offers ?v \<or> view_entries ?v (ucast j) = Some e"
      if "(j, e) \<in> offered sync_in queue' (node_connections nd')" for j e
      using offered_changes [OF queue conns that] W(2) by (auto simp: node_view_def plain_def)
  qed
  then show ?thesis using insts by (simp add: node_view_def)
qed

lemma emit_view:
  assumes "\<And>es m. out = Some (es, m) \<Longrightarrow> distinct es" and "paxos_log_index h = i"
  shows "sends i out (channel_view paxos_in c) (channel_view paxos_in (emit pw h out c))"
    "offered sync_in queue (emit pw h out c) = offered sync_in queue c"
proof -
  have cases: "in_flight (emit pw h out c) b = in_flight c b \<or>
    (\<exists>es m. out = Some (es, m) \<and> b \<in> set es \<and>
       in_flight (emit pw h out c) b = in_flight c b @ [pw (make_paxos_message h m)])" for b
    by (rule emit_in_flight_cases) (rule assms(1))
  show "sends i out (channel_view paxos_in c) (channel_view paxos_in (emit pw h out c))"
    unfolding sends_def
  proof
    fix b
    show "channel_view paxos_in (emit pw h out c) b = channel_view paxos_in c b \<or>
      (\<exists>es m. out = Some (es, m) \<and> b \<in> set es \<and>
        channel_view paxos_in (emit pw h out c) b = channel_view paxos_in c b @ [paxos_msg i m])"
      using cases [of b] make_paxos_msg [OF assms(2)] by (auto simp: channel_view_def paxos_wrapper)
  qed
  have "(\<Union>w\<in>set (in_flight (emit pw h out c) q). sync_in w) = (\<Union>w\<in>set (in_flight c q). sync_in w)" for q
    using cases [of q] by (auto simp: paxos_wrapper)
  then show "offered sync_in queue (emit pw h out c) = offered sync_in queue c"
    by (simp add: offered_def)
qed

lemma apply_reaction_ok:
  assumes run: "apply_reaction pw i h x nd = Inr nd'" and ok: "node_ok nd"
    and h: "paxos_log_index h = i" "i \<noteq> - 1 \<or> decided x = None"
    and st: "paxos_log_index (new_state x) = i" "config_endpoints (new_state x) = config_endpoints h" "distinct (config_endpoints h)"
  shows "node_ok nd'" "node_connections nd' = emit pw h (outgoing x) (node_connections nd)"
    "paxos_instances (node_paxos nd') = (paxos_instances (node_paxos nd))(i \<mapsto> new_state x)"
    "log (node_log nd') k = Some e \<Longrightarrow> log (node_log nd) k = Some e \<or> k = i \<and> decided x = Some e"
    "decided x = None \<Longrightarrow> log (node_log nd') = log (node_log nd)"
proof -
  from run obtain pl d where
    set: "(case decided x of None \<Rightarrow> Inr (node_log nd, node_derived nd)
           | Some v \<Rightarrow> set_entry i v (node_log nd, node_derived nd)) = Inr (pl, d)"
    and nd': "nd' = put_instance i (new_state x) (nd\<lparr>node_connections :=
        emit pw h (outgoing x) (node_connections nd), node_log := pl, node_derived := d\<rparr>)"
    unfolding apply_reaction_def h(1) by (auto simp: rbind_eq_Inr)
  have inv: "log_inv (node_log nd)" using ok by (simp add: node_ok_def)
  have pl: "log_inv pl \<and> (\<forall>k e. log pl k = Some e \<longrightarrow> log (node_log nd) k = Some e \<or> k = i \<and> decided x = Some e)"
  proof (cases "decided x")
    case None
    with set inv show ?thesis by simp
  next
    case (Some v)
    with set h(2) have se: "set_entry i v (node_log nd, node_derived nd) = Inr (pl, d)" "i \<noteq> - 1" by simp_all
    from set_entry_log_inv [OF inv se(2,1)] set_entry_lookup [OF inv se(2,1)] Some show ?thesis
      by (auto split: if_splits)
  qed
  show "node_ok nd'" using pl ok st by (auto simp: node_ok_def nd')
  show "log (node_log nd') k = Some e \<Longrightarrow> log (node_log nd) k = Some e \<or> k = i \<and> decided x = Some e"
    using pl by (simp add: nd')
  show "decided x = None \<Longrightarrow> log (node_log nd') = log (node_log nd)" using set by (simp add: nd')
  show "node_connections nd' = emit pw h (outgoing x) (node_connections nd)"
    "paxos_instances (node_paxos nd') = (paxos_instances (node_paxos nd))(i \<mapsto> new_state x)"
    by (simp_all add: nd')
qed

lemma propose_view:
  assumes run: "multi_propose pw provider draw e nd = Inr nd'" and ok: "node_ok nd"
    and prov: "makes_instances provider (node_derived nd)"
    and fit: "fits_index (first_free (node_log nd))" and J: "J (log (node_log nd)) (first_free (node_log nd)) e"
  shows "host_step cs J (member_view queue nd) (member_view queue nd')" "node_ok nd'"
proof -
  let ?i = "first_free (node_log nd)"
  have inv: "log_inv (node_log nd)" using ok by (simp add: node_ok_def)
  with run obtain h where h: "instance_of provider ?i nd = Inr h"
    and run': "apply_reaction pw ?i h (react_propose draw e h) nd = Inr nd'"
    by (auto simp: multi_propose_react rbind_eq_Inr)
  let ?x = "react_propose draw e h"
  note u = instance_of_usable [OF ok prov h]
  have none: "decided ?x = None" by (simp add: react_propose_def Let_def)
  have a: "node_ok nd'" "node_connections nd' = emit pw h (outgoing ?x) (node_connections nd)"
    "paxos_instances (node_paxos nd') = (paxos_instances (node_paxos nd))(?i \<mapsto> new_state ?x)"
    "log (node_log nd') = log (node_log nd)"
    using apply_reaction_ok [OF run' ok u(2)] none u by (simp_all add: react_index)
  have out: "\<And>es m. outgoing ?x = Some (es, m) \<Longrightarrow> distinct es" using u(3) by simp
  have em: "sends ?i (outgoing ?x) (channel_view paxos_in (node_connections nd)) (channel_view paxos_in (node_connections nd'))"
    "offered sync_in queue (node_connections nd') = offered sync_in queue (node_connections nd)"
    unfolding a(2) by (rule emit_view; use out u(2) in simp)+
  let ?v = "member_view queue nd"
  have "host_step cs J ?v (?v\<lparr>view_instances := (view_instances ?v)(?i \<mapsto> new_state ?x),
      view_flight := channel_view paxos_in (node_connections nd')\<rparr>)"
  proof (rule host_propose [OF fit, where e = e])
    show "sends ?i (outgoing ?x) (view_flight ?v) (channel_view paxos_in (node_connections nd'))"
      using em(1) by (simp add: node_view_def)
    show "\<forall>k<?i. view_entries ?v k \<noteq> None" using below_first_free [OF inv] by (auto simp: node_view_def)
  qed (use u(1) J in \<open>simp_all add: node_view_def\<close>)
  moreover have "?v\<lparr>view_instances := (view_instances ?v)(?i \<mapsto> new_state ?x),
      view_flight := channel_view paxos_in (node_connections nd')\<rparr> = member_view queue nd'"
    using a(3,4) em(2) by (simp add: node_view_def)
  ultimately show "host_step cs J ?v (member_view queue nd')" by simp
  show "node_ok nd'" by (rule a(1))
qed

lemma receive_view:
  assumes run: "handle_incoming_message pw cs provider p m nd = Inr nd'" and ok: "node_ok nd"
    and prov: "makes_instances provider (node_derived nd)"
    and w: "incoming_endpoint w = p" "paxos_in (incoming_payload w) = [m]" "sync_in (incoming_payload w) = {}"
  shows "host_step cs J (member_view (w # queue) nd) (member_view queue nd')" "node_ok nd'"
proof -
  let ?i = "ucast (paxos_index m) :: index_t"
  from run obtain h x where h: "instance_of provider ?i nd = Inr h"
    and x: "react cs p (paxos_payload m) h = Inr x" and run': "apply_reaction pw ?i h x nd = Inr nd'"
    by (auto simp: handle_incoming_message_react rbind_eq_Inr)
  note u = instance_of_usable [OF ok prov h]
  have st: "paxos_log_index (new_state x) = ?i" "config_endpoints (new_state x) = config_endpoints h"
    using react_same [OF x] u(2) by simp_all
  note a = apply_reaction_ok [OF run' ok u(2) disjI1 st u(3)]
  have a2: "node_connections nd' = emit pw h (outgoing x) (node_connections nd)" by (rule a(2)) simp
  have em: "sends ?i (outgoing x) (channel_view paxos_in (node_connections nd)) (channel_view paxos_in (node_connections nd'))"
    "offered sync_in queue (node_connections nd') = offered sync_in queue (node_connections nd)"
    unfolding a2 by (rule emit_view; use react_distinct [OF x u(3)] u(2) in blast)+
  let ?v = "member_view (w # queue) nd"
  have inbox: "(view_inbox ?v)(p := queue_view paxos_in queue p) = queue_view paxos_in queue"
    using w(1) by (auto simp: fun_eq_iff node_view_def queue_view_def)
  have "host_step cs J ?v (?v\<lparr>view_instances := (view_instances ?v)(?i \<mapsto> new_state x),
      view_entries := log (node_log nd'), view_inbox := (view_inbox ?v)(p := queue_view paxos_in queue p),
      view_flight := channel_view paxos_in (node_connections nd')\<rparr>)"
  proof (rule host_deliver [OF _ refl _ x])
    show "view_inbox ?v p = m # queue_view paxos_in queue p"
      using w by (simp add: node_view_def queue_view_def)
    show "sends ?i (outgoing x) (view_flight ?v) (channel_view paxos_in (node_connections nd'))"
      using em(1) by (simp add: node_view_def)
    show "view_entries ?v k = Some e \<or> k = ?i \<and> decided x = Some e" if "log (node_log nd') k = Some e" for k e
      using a(4) [OF _ that] by (simp add: node_view_def)
  qed (use u(1) in \<open>simp add: node_view_def\<close>)
  moreover have "?v\<lparr>view_instances := (view_instances ?v)(?i \<mapsto> new_state x),
      view_entries := log (node_log nd'), view_inbox := (view_inbox ?v)(p := queue_view paxos_in queue p),
      view_flight := channel_view paxos_in (node_connections nd')\<rparr> = member_view queue nd'"
    unfolding inbox using a(3) em(2) w(3)
    by (simp add: node_view_def offered_def)
  ultimately show "host_step cs J ?v (member_view queue nd')" by simp
  show "node_ok nd'" by (rule a(1)) simp
qed

lemma channels_view:
  assumes "channels_change W (node_connections nd) c" and "\<And>w. w \<in> W \<Longrightarrow> plain w"
    and "changes {m. plain (incoming_payload m)} queue queue'"
  shows "host_step cs J (member_view queue nd) (member_view queue' (nd\<lparr>node_connections := c\<rparr>))"
  by (rule quiet_view [where W = W]) (use assms in \<open>auto simp: plain_def\<close>)

text \<open>The queue alone.\<close>

lemma queue_view_step:
  "changes {m. plain (incoming_payload m)} queue queue' \<Longrightarrow> host_step cs J (member_view queue nd) (member_view queue' nd)"
  by (rule quiet_view [where W = "{}"]) auto

lemma derived_view [simp]:
  "member_view queue (nd\<lparr>node_derived := d\<rparr>) = member_view queue nd"
  by (simp add: node_view_def)

text \<open>A task changes the state beside the node, or proposes.\<close>

lemma task_view:
  assumes ok: "node_ok nd" and prov: "makes_instances provider (node_derived nd)"
    and fit: "fits_index (first_free (node_log nd))"
    and effect: "(\<exists>d. nd' = nd\<lparr>node_derived := d\<rparr>) \<or>
      (\<exists>draw e. J (log (node_log nd)) (first_free (node_log nd)) e \<and> multi_propose pw provider draw e nd = Inr nd')"
  shows "host_step cs J (member_view queue nd) (member_view queue nd') \<and> node_ok nd'"
  using effect
proof (elim disjE exE conjE)
  fix d assume "nd' = nd\<lparr>node_derived := d\<rparr>"
  with ok show ?thesis by (auto simp: node_ok_def intro: queue_view_step)
next
  fix draw e assume "J (log (node_log nd)) (first_free (node_log nd)) e" "multi_propose pw provider draw e nd = Inr nd'"
  from propose_view [where J = J, OF this(2) ok prov fit this(1)] show ?thesis by simp
qed

text \<open>The oldest message of a channel leaves it, or enters the queue.\<close>

lemma deliver_view:
  assumes "in_flight (node_connections nd) q = w # ws"
  shows "channel_view paxos_in (node_connections nd) b =
      (if b = q then paxos_in w else []) @ channel_view paxos_in (deliver_from q (node_connections nd)) b"
    "offered sync_in queue (deliver_from q (node_connections nd)) \<union> sync_in w \<subseteq> offered sync_in queue (node_connections nd)"
proof -
  show "channel_view paxos_in (node_connections nd) b =
      (if b = q then paxos_in w else []) @ channel_view paxos_in (deliver_from q (node_connections nd)) b"
    using assms by (simp add: channel_view_def in_flight_deliver_from)
  have "set (in_flight (deliver_from q (node_connections nd)) b) \<subseteq> set (in_flight (node_connections nd) b)" for b
    using assms by (auto simp: in_flight_deliver_from)
  then have "offered sync_in queue (deliver_from q (node_connections nd)) \<subseteq> offered sync_in queue (node_connections nd)"
    unfolding offered_def by (intro Un_mono UN_mono order_refl)
  moreover have "sync_in w \<subseteq> offered sync_in queue (node_connections nd)"
    unfolding offered_def by (intro subsetI UnI2 UN_I [of q] UN_I [of w]) (simp_all add: assms)
  ultimately show "offered sync_in queue (deliver_from q (node_connections nd)) \<union> sync_in w \<subseteq> offered sync_in queue (node_connections nd)"
    by (rule Un_least)
qed

lemma enqueue_view:
  "queue_view paxos_in (queue @ [\<lparr>incoming_endpoint = p, incoming_payload = w\<rparr>]) =
     (queue_view paxos_in queue)(p := queue_view paxos_in queue p @ paxos_in w)"
  "offered sync_in (queue @ [\<lparr>incoming_endpoint = p, incoming_payload = w\<rparr>]) c = offered sync_in queue c \<union> sync_in w"
  by (auto simp: queue_view_def offered_def fun_eq_iff)

end

text \<open>With the messages of the synchroniser.\<close>

locale group_wire = paxos_wire paxos_in sync_in pw
  for paxos_in :: "'w \<Rightarrow> paxos_message list"
    and sync_in :: "'w \<Rightarrow> (32 word \<times> paxos_log_entry) set"
    and pw :: "paxos_message \<Rightarrow> 'w" +
  fixes sw :: "sync_message \<Rightarrow> 'w"
  assumes sync_wrapper: "paxos_in (sw y) = []" "sync_in (sw (SyncRequest request)) = {}"
      "sync_in (sw (SyncResponse response)) = set (missing_entries response)"
begin

lemma sync_message_view:
  assumes run: "handle_sync_message sw endpoint y nd = Some (Inr nd')" and ok: "node_ok nd" and fits: "log_fits_node nd"
    and w: "\<And>r. y = SyncResponse r \<Longrightarrow> set (missing_entries r) \<subseteq> sync_in (incoming_payload w)"
  shows "host_step cs J (member_view (w # queue) nd) (member_view queue nd')" "node_ok nd'"
proof -
  have drop: "changes M (w # queue) queue" for M by (rule changes_subseq) (simp add: list_emb_Cons)
  have "host_step cs J (member_view (w # queue) nd) (member_view queue nd') \<and> node_ok nd'"
  proof (cases y)
    case (SyncRequest request)
    with run obtain response where response: "build_sync_response (node_log nd) request = Some (Inr response)"
      and nd': "nd' = nd\<lparr>node_connections := send endpoint (sw (SyncResponse response)) (node_connections nd)\<rparr>"
      by (auto simp: handle_sync_message_def handle_sync_request_def rbind_eq_Inr)
    have "host_step cs J (member_view (w # queue) nd) (member_view queue nd')"
    proof (rule quiet_view [where W = "{sw (SyncResponse response)}"])
      show "channels_change {sw (SyncResponse response)} (node_connections nd) (node_connections nd')"
        by (simp add: nd' channels_change_send)
      show "log (node_log nd) (ucast j) = Some e" if "v \<in> {sw (SyncResponse response)}" "(j, e) \<in> sync_in v" for v j e
      proof -
        from that have "(j, e) \<in> set (missing_entries response)" by (auto simp: sync_wrapper)
        with build_sync_response_from_log [OF response] obtain i where i: "j = ucast i" "log (node_log nd) i = Some e"
          by (auto simp: from_log_def)
        with fits have "fits_index i" by (auto simp: log_fits_node_def)
        with i fits_truncate show ?thesis by simp
      qed
    qed (use drop in \<open>auto simp: nd' sync_wrapper\<close>)
    with ok show ?thesis by (simp add: nd' node_ok_def)
  next
    case (SyncResponse response)
    with run obtain pl d where run': "handle_sync_response response (node_log nd, node_derived nd) = Inr (pl, d)"
      and nd': "nd' = nd\<lparr>node_log := pl, node_derived := d\<rparr>"
      by (auto simp: handle_sync_message_def rbind_eq_Inr)
    have "log_inv (node_log nd)" using ok by (simp add: node_ok_def)
    note lg = sync_response_log [OF run' this]
    have "host_step cs J (member_view (w # queue) nd) (member_view queue nd')"
    proof (rule quiet_view [where W = "{}"])
      show "log (node_log nd) k = Some e \<or> (\<exists>j. k = ucast j \<and> (j, e) \<in> offered sync_in (w # queue) (node_connections nd))"
        if "log (node_log nd') k = Some e" for k e
        using lg that w [OF SyncResponse] by (fastforce simp: nd' offered_def)
    qed (use drop in \<open>auto simp: nd'\<close>)
    with lg ok show ?thesis by (simp add: nd' node_ok_def)
  next
    case SyncNotSet
    with run have "nd' = nd" by (simp add: handle_sync_message_def)
    with ok drop show ?thesis by (auto intro: quiet_view [where W = "{}"])
  qed
  then show "host_step cs J (member_view (w # queue) nd) (member_view queue nd')" "node_ok nd'" by simp_all
qed

lemma sync_timer_view:
  assumes "sync_timer sw get nd = Inr nd'" "node_ok nd"
  shows "host_step cs J (member_view queue nd) (member_view queue nd')" "node_ok nd'"
proof -
  note nd' = sync_timer_channels [OF assms(1)]
  have "host_step cs J (member_view queue nd) (member_view queue (nd\<lparr>node_connections := node_connections nd'\<rparr>))"
    by (rule channels_view [OF conjunct2 [OF nd']]) (auto simp: plain_def sync_wrapper)
  with nd' show "host_step cs J (member_view queue nd) (member_view queue nd')" by simp
  have "node_ok (nd\<lparr>node_connections := node_connections nd'\<rparr>)" using assms(2) by (simp add: node_ok_def)
  with nd' show "node_ok nd'" by simp
qed

end

section \<open>Timelines without reconfigurations\<close>

text \<open>Every configuration of a timeline names its servers once, if no reconfiguration came.\<close>

definition timeline_distinct :: "config_timeline \<Rightarrow> bool" where
  "timeline_distinct t \<longleftrightarrow> (\<forall>(i, es)\<in>set t. distinct es)"

lemma config_in: "config t i = Inr es \<Longrightarrow> es \<in> snd ` set t"
  by (auto simp: config_find find_Some_iff split: option.splits) (metis image_iff nth_mem set_rev snd_conv length_rev)

lemma makes_instances_config: "timeline_distinct (get d) \<Longrightarrow> makes_instances (config_provider get) d"
  by (fastforce simp: makes_instances_def config_provider_def rbind_eq_Inr timeline_distinct_def dest: config_in)

section \<open>What the groups share\<close>

text \<open>The state of a server is the replay of its log; equal prefixes replay to equal states.\<close>

lemma replay_cong: "(\<And>k. k < i \<Longrightarrow> L k = L' k) \<Longrightarrow> replay cbs L i s = replay cbs L' i s"
  unfolding replay_def by (intro apply_range_cong) simp

lemma replay_invariant:
  assumes "replay cbs m n s = Inr s'" "P s"
    and "\<And>i s s'. i < n \<Longrightarrow> P s \<Longrightarrow> apply_entry cbs i (the (m i)) s = Inr s' \<Longrightarrow> P s'"
  shows "P s'"
  using assms(1) unfolding replay_def apply_range_def
  by (rule rfold_invariant) (use assms(2,3) in \<open>auto\<close>)

lemma apply_range_steps:
  assumes "a \<le> b" "P a s"
    and step: "\<And>i s. i < b \<Longrightarrow> P i s \<Longrightarrow> \<exists>s'. apply_entry cbs i (the (m i)) s = Inr s' \<and> P (i + 1) s'"
  shows "\<exists>s'. apply_range cbs m a b s = Inr s' \<and> P b s'"
proof -
  have "a \<le> b \<longrightarrow> (\<exists>s'. apply_range cbs m a b s = Inr s' \<and> P b s')"
  proof (rule word_induct_below [where j = b])
    show "a \<le> 0 \<longrightarrow> (\<exists>s'. apply_range cbs m a 0 s = Inr s' \<and> P 0 s')" using assms(2) by auto
    fix i assume i: "i < b" and IH: "a \<le> i \<longrightarrow> (\<exists>s'. apply_range cbs m a i s = Inr s' \<and> P i s')"
    show "a \<le> i + 1 \<longrightarrow> (\<exists>s'. apply_range cbs m a (i + 1) s = Inr s' \<and> P (i + 1) s')"
    proof
      assume a: "a \<le> i + 1"
      show "\<exists>s'. apply_range cbs m a (i + 1) s = Inr s' \<and> P (i + 1) s'"
      proof (cases "a = i + 1")
        case False
        with a have "a < i + 1" by simp
        then have le: "a \<le> i" using unat_succ [OF i] by (simp add: word_le_nat_alt word_less_nat_alt)
        with IH obtain s1 where s1: "apply_range cbs m a i s = Inr s1" "P i s1" by blast
        from step [OF i s1(2)] obtain s2 where s2: "apply_entry cbs i (the (m i)) s1 = Inr s2" "P (i + 1) s2" by blast
        have "apply_range cbs m i (i + 1) s1 = Inr s2" by (simp add: apply_range_def word_upt_succ [OF i] s2(1))
        with apply_range_append [OF le order.strict_implies_order [OF below_succ [OF i]], of cbs m s] s1(1)
        have "apply_range cbs m a (i + 1) s = Inr s2" by simp
        with s2(2) show ?thesis by blast
      qed (use assms(2) in simp)
    qed
  qed
  with assms(1) show ?thesis by blast
qed

lemma agree_below:
  assumes "log_inv p" "log_inv q" "first_free p \<le> first_free q"
    and "\<And>i e e'. log p i = Some e \<Longrightarrow> log q i = Some e' \<Longrightarrow> e' = e" and "k < first_free p"
  shows "log q k = log p k"
proof -
  from below_first_free [OF assms(1,5)] obtain u where u: "log p k = Some u" by blast
  from below_first_free [OF assms(2) order.strict_trans2 [OF assms(5,3)]] obtain v where v: "log q k = Some v" by blast
  from assms(4) [OF u v] u v show "log q k = log p k" by simp
qed

lemma replay_agree:
  assumes "log_inv p" "log_inv q" "first_free p \<le> first_free q"
    and "\<And>i e e'. log p i = Some e \<Longrightarrow> log q i = Some e' \<Longrightarrow> e' = e"
  shows "replay cbs (log q) (first_free p) s = replay cbs (log p) (first_free p) s"
  by (rule replay_cong) (rule agree_below [OF assms])

text \<open>No component of the program proposes an entry for the configuration manager.\<close>

definition not_reconfig :: "paxos_log_entry \<Rightarrow> bool" where
  "not_reconfig e \<longleftrightarrow> entry_content_case e \<noteq> KReconfigStarted"

definition entries_sound :: "('w, 's) paxos_node \<Rightarrow> bool" where
  "entries_sound nd \<longleftrightarrow> (\<forall>k e. log (node_log nd) k = Some e \<longrightarrow> fits_index k \<and> not_reconfig e)"

lemma entries_sound_below:
  "entries_sound nd \<Longrightarrow> log_inv (node_log nd) \<Longrightarrow> i < first_free (node_log nd) \<Longrightarrow> not_reconfig (the (log (node_log nd) i))"
  using below_first_free [of "node_log nd" i] by (force simp: entries_sound_def)

lemma entries_sound_fits: "entries_sound nd \<Longrightarrow> log_fits_node nd"
  by (simp add: entries_sound_def log_fits_node_def)

definition scheduler_ok :: "'m async_scheduler \<Rightarrow> bool" where
  "scheduler_ok a \<longleftrightarrow> posted a = take 1 (message_queue a)"

lemma scheduler_ok_queue: "scheduler_ok a \<Longrightarrow> scheduler_ok (queue_message m a)"
  by (cases "message_queue a") (auto simp: scheduler_ok_def queue_message_def schedule_async_def Let_def)

lemma scheduler_ok_handled: "scheduler_ok a \<Longrightarrow> posted a = m # ms \<Longrightarrow> scheduler_ok (message_handled a)"
  by (cases "message_queue a"; cases "tl (message_queue a)")
    (auto simp: scheduler_ok_def message_handled_def schedule_async_def Let_def)

lemma scheduler_queues:
  "message_queue (queue_message m a) = message_queue a @ [m]"
  "message_queue (message_handled a) = tl (message_queue a)"
  by (simp_all add: queue_message_def message_handled_def schedule_async_def Let_def)

lemma scheduler_posted: "scheduler_ok a \<Longrightarrow> posted a = m # ms \<Longrightarrow> message_queue a = m # tl (message_queue a)"
  by (cases "message_queue a") (auto simp: scheduler_ok_def)

text \<open>All messages in a queue and in the channels have a property.\<close>

definition admits :: "('w \<Rightarrow> bool) \<Rightarrow> 'w incoming_message list \<Rightarrow> 'w connections \<Rightarrow> bool" where
  "admits good queue c \<longleftrightarrow> (\<forall>m\<in>set queue. good (incoming_payload m)) \<and> (\<forall>q. \<forall>w\<in>set (in_flight c q). good w)"

lemma admits_change:
  assumes "admits good queue c" "changes M queue queue'" "channels_change W c c'"
    and "\<And>m. m \<in> M \<Longrightarrow> good (incoming_payload m)" "\<And>w. w \<in> W \<Longrightarrow> good w"
  shows "admits good queue' c'"
proof -
  have "set (in_flight c' q) \<subseteq> set (in_flight c q) \<union> W" for q
    using assms(3) by (intro changes_set) (simp add: channels_change_def)
  with changes_set [OF assms(2)] assms(1,4,5) show ?thesis unfolding admits_def by blast
qed

lemma admits_deliver: "admits good queue c \<Longrightarrow> admits good queue (deliver_from q c)"
  by (rule admits_change [OF _ changes_refl, where M = "{}" and W = "{}"])
    (auto simp: channels_change_def intro: changes_subseq deliver_from_in_flight)

lemma admits_queue:
  "admits good queue c \<Longrightarrow> admits good queue' c' \<Longrightarrow> in_flight c' q = incoming_payload m # ws \<Longrightarrow> admits good (queue @ [m]) c"
  unfolding admits_def by (metis list.set_intros(1) set_append Un_iff empty_iff empty_set list.simps(15) insert_iff)

text \<open>Connections over which nothing has been sent.\<close>

definition silent :: "(endpoint_id \<Rightarrow> 'w connections) \<Rightarrow> bool" where
  "silent conns \<longleftrightarrow> (\<forall>p q. in_flight (conns p) q = [])"

section \<open>Messages on the wire\<close>

text \<open>The documented behaviour of protocol buffers: what was serialised can be parsed.\<close>

locale wire_format =
  fixes to_wire :: "message_wrapper \<Rightarrow> 'w" and parse :: "'w \<Rightarrow> message_wrapper"
  assumes parse_to_wire [simp]: "parse (to_wire m) = m"

interpretation plain_messages: wire_format "\<lambda>w. w" "\<lambda>w. w"
  by unfold_locales simp

end
