(* ===== verification/PaxosSystem.thy ===== *)
theory PaxosSystem
  imports GroupMember
begin

text \<open>
  A group of servers that run MultiPaxos over their channels: the whole handlers of
  MultiPaxosHandler.thy, with the wire format left out (a message is its own encoding). A step
  is a proposal at a node, the delivery or the loss of the oldest message of a channel (it was written
  to the socket), a channel closing or opening, or the adoption of an entry from another node's log (what the log synchroniser does).
  A handler that throws takes no step: its server has died, and its messages are lost.

  The system refines the group of PaxosGroup.thy, so the logs agree and the states derived from
  them never diverge.
\<close>

section \<open>The system\<close>

record 's paxos_system =
  system_nodes :: "endpoint_id \<Rightarrow> (paxos_message, 's) paxos_node"
  system_delivered :: "endpoint_id \<Rightarrow> endpoint_id \<Rightarrow> paxos_message list"

datatype paxos_event =
    EvPropose endpoint_id "32 word" paxos_log_entry
  | EvDeliver endpoint_id endpoint_id
  | EvLose endpoint_id endpoint_id
  | EvClose endpoint_id endpoint_id
  | EvOpen endpoint_id endpoint_id
  | EvSync endpoint_id endpoint_id index_t

definition set_node ::
  "endpoint_id \<Rightarrow> (paxos_message, 's) paxos_node \<Rightarrow> 's paxos_system \<Rightarrow> 's paxos_system" where
  "set_node p nd s = s\<lparr>system_nodes := (system_nodes s)(p := nd)\<rparr>"

definition set_connections ::
  "endpoint_id \<Rightarrow> paxos_message connections \<Rightarrow> 's paxos_system \<Rightarrow> 's paxos_system" where
  "set_connections p c s = set_node p ((system_nodes s p)\<lparr>node_connections := c\<rparr>) s"

fun exec_event ::
  "constants \<Rightarrow> 's instance_provider \<Rightarrow> endpoint_id list \<Rightarrow> paxos_event \<Rightarrow> 's paxos_system \<Rightarrow> 's paxos_system option" where
  "exec_event cs provider ns (EvPropose p draw e) s =
     (if p \<in> set ns \<and> fits_index (first_free (node_log (system_nodes s p)))
      then case multi_propose (\<lambda>m. m) provider draw e (system_nodes s p) of
             Inl _ \<Rightarrow> None | Inr nd \<Rightarrow> Some (set_node p nd s)
      else None)"
| "exec_event cs provider ns (EvDeliver p q) s =
     (case in_flight (node_connections (system_nodes s p)) q of
        [] \<Rightarrow> None
      | m # _ \<Rightarrow>
          if q \<in> set ns then
            let s1 = set_connections p (deliver_from q (node_connections (system_nodes s p))) s
            in case handle_incoming_message (\<lambda>m. m) cs provider p m (system_nodes s1 q) of
                 Inl _ \<Rightarrow> None
               | Inr nd \<Rightarrow> Some ((set_node q nd s1)\<lparr>system_delivered := arrive p q m (system_delivered s)\<rparr>)
          else None)"
| "exec_event cs provider ns (EvLose p q) s =
     Some (set_connections p (deliver_from q (node_connections (system_nodes s p))) s)"
| "exec_event cs provider ns (EvClose p q) s =
     (case on_close q (node_connections (system_nodes s p)) of
        Inl _ \<Rightarrow> None | Inr c \<Rightarrow> Some (set_connections p c s))"
| "exec_event cs provider ns (EvOpen p q) s =
     Some (set_connections p (add_channel q (if p = q then SelfChannel False [] else ChannelImpl [])
       (node_connections (system_nodes s p))) s)"
| "exec_event cs provider ns (EvSync p q i) s =
     (case log (node_log (system_nodes s q)) i of
        None \<Rightarrow> None
      | Some e \<Rightarrow>
          (case set_entry i e (node_log (system_nodes s p), node_derived (system_nodes s p)) of
             Inl _ \<Rightarrow> None
           | Inr (pl, d) \<Rightarrow>
               Some (set_node p ((system_nodes s p)\<lparr>node_log := pl, node_derived := d\<rparr>) s)))"

fun exec_events ::
  "constants \<Rightarrow> 's instance_provider \<Rightarrow> endpoint_id list \<Rightarrow> paxos_event list \<Rightarrow> 's paxos_system \<Rightarrow> 's paxos_system option" where
  "exec_events cs provider ns [] s = Some s"
| "exec_events cs provider ns (ev # evs) s =
     (case exec_event cs provider ns ev s of None \<Rightarrow> None | Some s' \<Rightarrow> exec_events cs provider ns evs s')"

text \<open>Every server starts with an empty log, the registered callbacks and no instance.\<close>

definition initial_system ::
  "(content_case \<Rightarrow> 's log_callback list) \<Rightarrow> 's \<Rightarrow> 's paxos_system" where
  "initial_system cbs d =
     \<lparr>system_nodes = (\<lambda>_. \<lparr>node_paxos = MultiPaxosHandler, node_connections = \<lparr>channels = []\<rparr>,
        node_log = PaxosLog\<lparr>callbacks := cbs\<rparr>, node_derived = d\<rparr>),
      system_delivered = (\<lambda>_ _. [])\<rparr>"

inductive paxos_reachable ::
  "constants \<Rightarrow> 's instance_provider \<Rightarrow> endpoint_id list \<Rightarrow> 's paxos_system \<Rightarrow> 's paxos_system \<Rightarrow> bool"
  for cs provider ns s0 where
  reach_init: "paxos_reachable cs provider ns s0 s0"
| reach_step:
    "paxos_reachable cs provider ns s0 s \<Longrightarrow> exec_event cs provider ns ev s = Some s' \<Longrightarrow>
     paxos_reachable cs provider ns s0 s'"

lemma exec_events_reachable:
  "paxos_reachable cs provider ns s0 s \<Longrightarrow> exec_events cs provider ns evs s = Some s' \<Longrightarrow>
   paxos_reachable cs provider ns s0 s'"
  by (induction evs arbitrary: s) (auto split: option.splits intro: reach_step)

text \<open>What agreement needs of the provider: no configuration names a server twice.\<close>

definition provider_ok :: "'s instance_provider \<Rightarrow> bool" where
  "provider_ok provider \<longleftrightarrow>
     (\<forall>d i h. provider d i = Inr h \<longrightarrow> (\<exists>es. distinct es \<and> h = SinglePaxosHandler i es))"

section \<open>One index of the system\<close>

definition system_handler :: "'s paxos_system \<Rightarrow> endpoint_id \<Rightarrow> index_t \<Rightarrow> single_paxos_handler" where
  "system_handler s p i =
     (case paxos_instances (node_paxos (system_nodes s p)) i of
        Some h \<Rightarrow> h | None \<Rightarrow> SinglePaxosHandler i [])"

definition project :: "32 word \<Rightarrow> 's paxos_system \<Rightarrow> instance_state" where
  "project j s =
     \<lparr>handlers = (\<lambda>p. system_handler s p (ucast j)),
      delivered = (\<lambda>p q. payloads j (system_delivered s p q)),
      flight = (\<lambda>p q. payloads j (in_flight (node_connections (system_nodes s p)) q))\<rparr>"

definition node_handler :: "('w, 's) paxos_node \<Rightarrow> index_t \<Rightarrow> single_paxos_handler" where
  "node_handler nd i =
     (case paxos_instances (node_paxos nd) i of Some h \<Rightarrow> h | None \<Rightarrow> SinglePaxosHandler i [])"

lemma project_simps:
  "handlers (project j s) p = node_handler (system_nodes s p) (ucast j)"
  "delivered (project j s) p q = payloads j (system_delivered s p q)"
  "flight (project j s) p q = payloads j (in_flight (node_connections (system_nodes s p)) q)"
  by (simp_all add: project_def system_handler_def node_handler_def)

lemma set_node_simps [simp]:
  "system_nodes (set_node q nd s) p = (if p = q then nd else system_nodes s p)"
  "system_delivered (set_node q nd s) = system_delivered s"
  "system_nodes (s\<lparr>system_delivered := d\<rparr>) = system_nodes s"
  "system_delivered (s\<lparr>system_delivered := d\<rparr>) = d"
  by (simp_all add: set_node_def)

lemma set_connections_simps [simp]:
  "system_nodes (set_connections q c s) p =
     (if p = q then (system_nodes s q)\<lparr>node_connections := c\<rparr> else system_nodes s p)"
  "system_delivered (set_connections q c s) = system_delivered s"
  by (simp_all add: set_connections_def)

text \<open>The value an event proposes.\<close>

fun proposes :: "paxos_event \<Rightarrow> paxos_log_entry set" where
  "proposes (EvPropose p draw e) = {e}"
| "proposes (EvDeliver p q) = {}"
| "proposes (EvLose p q) = {}"
| "proposes (EvClose p q) = {}"
| "proposes (EvOpen p q) = {}"
| "proposes (EvSync p q i) = {}"

section \<open>The invariant of the system\<close>

text \<open>The view of a node: nothing waits in a queue, and nobody synchronises by messages.\<close>

interpretation bare: paxos_wire "\<lambda>m. [m]" "\<lambda>_. {}" "\<lambda>m. m"
  by unfold_locales simp_all

interpretation follows_exactly: log_follower cbs "(=)" for cbs :: "content_case \<Rightarrow> 's log_callback list"
  by unfold_locales auto

definition node_views :: "'s paxos_system \<Rightarrow> endpoint_id \<Rightarrow> host_view" where
  "node_views s p = node_view (\<lambda>m. [m]) (\<lambda>_. {}) [] (system_nodes s p)"

definition node_wf :: "(content_case \<Rightarrow> 's log_callback list) \<Rightarrow> 's \<Rightarrow> ('w, 's) paxos_node \<Rightarrow> bool" where
  "node_wf cbs d0 nd \<longleftrightarrow> node_ok nd \<and> log_follower.server_inv cbs (=) d0 nd"

definition system_inv ::
  "constants \<Rightarrow> endpoint_id list \<Rightarrow> paxos_log_entry set \<Rightarrow> (content_case \<Rightarrow> 's log_callback list) \<Rightarrow> 's
   \<Rightarrow> 's paxos_system \<Rightarrow> bool" where
  "system_inv cs ns P cbs d0 s \<longleftrightarrow>
     (\<forall>p. node_wf cbs d0 (system_nodes s p)) \<and>
     (\<exists>hist. group_inv cs ns (\<lambda>_ _ e. e \<in> P) (group_of hist (node_views s)))"

lemma node_views_simps [simp]:
  "view_instances (node_views s p) = paxos_instances (node_paxos (system_nodes s p))"
  "view_entries (node_views s p) = log (node_log (system_nodes s p))"
  "view_inbox (node_views s p) q = []"
  "view_flight (node_views s p) q = in_flight (node_connections (system_nodes s p)) q"
  "view_offers (node_views s p) = {}"
  by (simp_all add: node_views_def node_view_def queue_view_def channel_view_def offered_def)

lemma provider_ok_makes: "provider_ok provider \<Longrightarrow> makes_instances provider d"
  by (simp add: provider_ok_def makes_instances_def)

lemma provider_ok_indexed: "provider_ok provider \<Longrightarrow> indexed_provider provider"
  by (fastforce simp: provider_ok_def indexed_provider_def)

lemma node_wf_connections [simp]: "node_wf cbs d0 (nd\<lparr>node_connections := c\<rparr>) = node_wf cbs d0 nd"
  by (simp add: node_wf_def node_ok_def)

lemma picks_highest_project:
  "picks_highest cs (project j s) \<longleftrightarrow> picks_highest cs (at_index j (group_of hist (node_views s)))"
  by (simp add: picks_highest_def project_simps node_handler_def group_handler_def)

section \<open>Every event preserves the invariant\<close>

lemma system_inv_steps:
  assumes "system_inv cs ns P cbs d0 s" and N: "distinct ns" "length ns \<le> unat (num_slave_servers cs)"
    and "\<And>hist. \<exists>hist'. group_run cs ns (\<lambda>_ _ e. e \<in> P) (group_of hist (node_views s)) (group_of hist' (node_views s'))"
    and "\<And>p. node_wf cbs d0 (system_nodes s' p)"
  shows "system_inv cs ns P cbs d0 s'"
proof -
  from assms(1) obtain hist where "group_inv cs ns (\<lambda>_ _ e. e \<in> P) (group_of hist (node_views s))"
    by (auto simp: system_inv_def)
  moreover from assms(4) obtain hist' where
    "group_run cs ns (\<lambda>_ _ e. e \<in> P) (group_of hist (node_views s)) (group_of hist' (node_views s'))" by blast
  ultimately have "group_inv cs ns (\<lambda>_ _ e. e \<in> P) (group_of hist' (node_views s'))"
    using group_run_keeps [OF _ _ N] by blast
  with assms(5) show ?thesis by (auto simp: system_inv_def)
qed

lemma propose_inv:
  assumes inv: "system_inv cs ns P cbs d0 s" and ok: "provider_ok provider"
    and N: "distinct ns" "length ns \<le> unat (num_slave_servers cs)"
    and eP: "e \<in> P" and p: "p \<in> set ns" "fits_index (first_free (node_log (system_nodes s p)))"
    and run: "multi_propose (\<lambda>m. m) provider draw e (system_nodes s p) = Inr nd"
  shows "system_inv cs ns P cbs d0 (set_node p nd s)"
proof (rule system_inv_steps [OF inv N])
  have wf: "\<And>p. node_wf cbs d0 (system_nodes s p)" using inv by (simp add: system_inv_def)
  then have "node_ok (system_nodes s p)" by (simp add: node_wf_def)
  note step = bare.propose_view [where J = "\<lambda>_ _ e. e \<in> P", OF run this provider_ok_makes [OF ok] p(2) eP]
  have views: "node_views (set_node p nd s) = (node_views s)(p := node_view (\<lambda>m. [m]) (\<lambda>_. {}) [] nd)"
    by (auto simp: fun_eq_iff node_views_def)
  fix hist
  from host_step_group [where v = "node_views s" and p = p and hist = hist and ns = ns, OF step(1) [of cs "[]", folded node_views_def] p(1)]
  show "\<exists>hist'. group_run cs ns (\<lambda>_ _ e. e \<in> P) (group_of hist (node_views s)) (group_of hist' (node_views (set_node p nd s)))"
    unfolding views by (blast intro: run_step run_here)
  have "node_wf cbs d0 nd"
    using step(2) follows_exactly.propose_server [OF run _ provider_ok_indexed [OF ok]] wf [of p] by (simp add: node_wf_def)
  with wf show "node_wf cbs d0 (system_nodes (set_node p nd s) q)" for q by simp
qed

lemma deliver_inv:
  assumes inv: "system_inv cs ns P cbs d0 s" and ok: "provider_ok provider"
    and N: "distinct ns" "length ns \<le> unat (num_slave_servers cs)"
    and q: "q \<in> set ns" and m: "in_flight (node_connections (system_nodes s p)) q = m # ms"
  defines "s1 \<equiv> set_connections p (deliver_from q (node_connections (system_nodes s p))) s"
  assumes run: "handle_incoming_message (\<lambda>m. m) cs provider p m (system_nodes s1 q) = Inr nd"
  defines "s' \<equiv> (set_node q nd s1)\<lparr>system_delivered := arrive p q m (system_delivered s)\<rparr>"
  shows "system_inv cs ns P cbs d0 s'"
proof (rule system_inv_steps [OF inv N])
  let ?J = "\<lambda>_ _ e. e \<in> P" and ?w = "\<lparr>incoming_endpoint = p, incoming_payload = m\<rparr>"
  have wf: "\<And>p. node_wf cbs d0 (system_nodes s p)" using inv by (simp add: system_inv_def)
  then have wf1: "\<And>p. node_wf cbs d0 (system_nodes s1 p)" by (simp add: s1_def)
  then have ok1: "node_ok (system_nodes s1 q)" by (simp add: node_wf_def)
  let ?v1 = "(node_views s1)(q := node_view (\<lambda>m. [m]) (\<lambda>_. {}) [?w] (system_nodes s1 q))"
  have "host_step cs ?J (node_view (\<lambda>m. [m]) (\<lambda>_. {}) (?w # []) (system_nodes s1 q)) (node_view (\<lambda>m. [m]) (\<lambda>_. {}) [] nd)"
    by (rule bare.receive_view(1) [OF run ok1 provider_ok_makes [OF ok]]) simp_all
  then have step: "host_step cs ?J (?v1 q) (node_view (\<lambda>m. [m]) (\<lambda>_. {}) [] nd)" by simp
  have nd: "node_ok nd"
    by (rule bare.receive_view(2) [OF run ok1 provider_ok_makes [OF ok], of ?w]) simp_all
  have v': "node_views s' = ?v1(q := node_view (\<lambda>m. [m]) (\<lambda>_. {}) [] nd)"
    by (auto simp: fun_eq_iff node_views_def s'_def)
  fix hist
  have "group_step cs ns ?J (group_of hist (node_views s)) (group_of hist ?v1)"
  proof (rule settled_group)
    show "view_instances (?v1 a) = view_instances (node_views s a)" for a
      by (simp add: node_view_def s1_def)
    show "known (group_of hist (node_views s)) k e" if "view_entries (?v1 a) k = Some e" for a k e
      using that by (auto simp: node_view_def s1_def known_def split: if_splits)
    show "subseq (view_inbox (?v1 b) a @ view_flight (?v1 a) b) (view_inbox (node_views s b) a @ view_flight (node_views s a) b)" for a b
      using m by (auto simp: node_view_def queue_view_def channel_view_def s1_def in_flight_deliver_from)
    show "(\<Union>a. view_offers (?v1 a)) \<subseteq> (\<Union>a. view_offers (node_views s a))"
      by (auto simp: node_view_def offered_def split: if_splits)
  qed
  moreover from host_step_group [where v = ?v1 and p = q and hist = hist and ns = ns, OF step q]
  obtain hist' where "group_step cs ns ?J (group_of hist ?v1) (group_of hist' (node_views s'))"
    unfolding v' by blast
  ultimately show "\<exists>hist'. group_run cs ns ?J (group_of hist (node_views s)) (group_of hist' (node_views s'))"
    by (blast intro: run_step run_here)
  have "node_wf cbs d0 nd"
    using nd follows_exactly.paxos_message_server [OF run _ provider_ok_indexed [OF ok]] wf1 [of q]
    by (simp add: node_wf_def)
  with wf1 show "node_wf cbs d0 (system_nodes s' a)" for a by (simp add: s'_def)
qed

lemma lose_inv:
  assumes inv: "system_inv cs ns P cbs d0 s"
    and N: "distinct ns" "length ns \<le> unat (num_slave_servers cs)"
    and sub: "\<And>b. subseq (in_flight c b) (in_flight (node_connections (system_nodes s p)) b)"
  shows "system_inv cs ns P cbs d0 (set_connections p c s)"
proof (rule system_inv_steps [OF inv N])
  fix hist
  have "group_step cs ns (\<lambda>_ _ e. e \<in> P) (group_of hist (node_views s)) (group_of hist (node_views (set_connections p c s)))"
    by (rule settled_group) (use sub in \<open>auto simp: known_def split: if_splits\<close>)
  then show "\<exists>hist'. group_run cs ns (\<lambda>_ _ e. e \<in> P) (group_of hist (node_views s))
      (group_of hist' (node_views (set_connections p c s)))"
    by (blast intro: run_step run_here)
  show "node_wf cbs d0 (system_nodes (set_connections p c s) a)" for a
    using inv by (simp add: system_inv_def)
qed

lemma sync_inv:
  assumes inv: "system_inv cs ns P cbs d0 s" and N: "distinct ns" "length ns \<le> unat (num_slave_servers cs)"
    and e: "log (node_log (system_nodes s q)) i = Some e"
    and run: "set_entry i e (node_log (system_nodes s p), node_derived (system_nodes s p)) = Inr (pl, d)"
  shows "system_inv cs ns P cbs d0 (set_node p ((system_nodes s p)\<lparr>node_log := pl, node_derived := d\<rparr>) s)"
    (is "system_inv _ _ _ _ _ ?s")
proof (rule system_inv_steps [OF inv N])
  have wf: "\<And>p. node_wf cbs d0 (system_nodes s p)" using inv by (simp add: system_inv_def)
  have "fits_index i"
    using inv e group_inv_known entries_known unfolding system_inv_def by (metis group_of_simps(2) node_views_simps(2))
  then have i: "i \<noteq> - 1" by (rule fits_not_max)
  have li: "log_inv (node_log (system_nodes s p))" using wf [of p] by (simp add: node_wf_def node_ok_def)
  note lookup = set_entry_lookup [OF li i run] and pl = set_entry_log_inv [OF li i run]
  fix hist
  have "group_step cs ns (\<lambda>_ _ e. e \<in> P) (group_of hist (node_views s)) (group_of hist (node_views ?s))"
  proof (rule settled_group)
    show "known (group_of hist (node_views s)) k v" if "view_entries (node_views ?s a) k = Some v" for a k v
      using that lookup [of k] e by (auto simp: known_def split: if_splits)
  qed auto
  then show "\<exists>hist'. group_run cs ns (\<lambda>_ _ e. e \<in> P) (group_of hist (node_views s)) (group_of hist' (node_views ?s))"
    by (blast intro: run_step run_here)
  have "log_follower.log_followed cbs (=) d0 pl d"
    using wf [of p] by (intro follows_exactly.set_entry_followed [OF _ i run]) (simp add: node_wf_def follows_exactly.server_inv_def)
  with wf pl show "node_wf cbs d0 (system_nodes ?s a)" for a
    by (auto simp: node_wf_def node_ok_def follows_exactly.server_inv_def)
qed

lemma exec_event_inv:
  assumes inv: "system_inv cs ns P cbs d0 s" and ok: "provider_ok provider"
    and N: "distinct ns" "length ns \<le> unat (num_slave_servers cs)"
    and eP: "proposes ev \<subseteq> P" and run: "exec_event cs provider ns ev s = Some s'"
  shows "system_inv cs ns P cbs d0 s'"
proof (cases ev)
  case (EvPropose p draw e)
  with run eP show ?thesis
    by (auto split: if_splits sum.splits intro: propose_inv [OF inv ok N])
next
  case (EvDeliver p q)
  with run obtain m ms where m: "in_flight (node_connections (system_nodes s p)) q = m # ms"
    and q: "q \<in> set ns"
    by (auto split: list.splits if_splits)
  with run EvDeliver obtain nd where
    nd: "handle_incoming_message (\<lambda>m. m) cs provider p m (system_nodes
       (set_connections p (deliver_from q (node_connections (system_nodes s p))) s) q) = Inr nd"
    by (auto simp: Let_def split: sum.splits)
  with deliver_inv [OF inv ok N q m nd] run EvDeliver m q show ?thesis
    by (simp add: Let_def)
next
  case (EvLose p q)
  with run show ?thesis
    by (auto intro!: lose_inv [OF inv N] deliver_from_in_flight)
next
  case (EvClose p q)
  with run show ?thesis
    by (auto split: sum.splits intro!: lose_inv [OF inv N] connection_close_in_flight)
next
  case (EvOpen p q)
  with run show ?thesis
    by (auto intro!: lose_inv [OF inv N] simp: add_channel_in_flight)
next
  case (EvSync p q i)
  with run show ?thesis
    by (auto split: option.splits sum.splits intro: sync_inv [OF inv N])
qed

lemma initial_system_inv: "system_inv cs ns P cbs d0 (initial_system cbs d0)"
proof -
  have [simp]: "in_flight \<lparr>channels = []\<rparr> b = []" for b :: endpoint_id
    by (simp add: in_flight_def get_channel_def)
  have "group_of (\<lambda>_ _. []) (node_views (initial_system cbs d0)) = initial_group"
    by (rule group_eqI)
      (simp_all add: initial_group_def initial_system_def MultiPaxosHandler_def PaxosLog_def)
  then have "group_inv cs ns (\<lambda>_ _ e. e \<in> P) (group_of (\<lambda>_ _. []) (node_views (initial_system cbs d0)))"
    by (simp add: initial_group_inv)
  moreover have "node_wf cbs d0 (system_nodes (initial_system cbs d0) p)" for p
    by (auto simp: node_wf_def node_ok_def initial_system_def MultiPaxosHandler_def log_inv_PaxosLog
        intro!: follows_exactly.initial_server [unfolded MultiPaxosHandler_def]) (simp_all add: PaxosLog_def)
  ultimately show ?thesis unfolding system_inv_def by blast
qed

lemma exec_events_inv:
  assumes "provider_ok provider" and "distinct ns" "length ns \<le> unat (num_slave_servers cs)"
  shows "system_inv cs ns P cbs d0 s \<Longrightarrow> \<forall>ev\<in>set evs. proposes ev \<subseteq> P \<Longrightarrow>
    exec_events cs provider ns evs s = Some s' \<Longrightarrow> system_inv cs ns P cbs d0 s'"
  by (induction evs arbitrary: s) (auto split: option.splits intro: exec_event_inv [OF _ assms])

lemma reachable_inv:
  assumes "provider_ok provider" and "distinct ns" "length ns \<le> unat (num_slave_servers cs)"
    and "paxos_reachable cs provider ns (initial_system cbs d0) s"
  shows "system_inv cs ns UNIV cbs d0 s"
  using assms(4)
  by (induction rule: paxos_reachable.induct)
    (auto intro: initial_system_inv exec_event_inv [OF _ assms(1-3)])

text \<open>What the group guarantees when each proposer's choice is safe.\<close>

lemma system_agreement:
  assumes inv: "system_inv cs ns P cbs d0 s"
    and N: "distinct ns" "length ns \<le> unat (num_slave_servers cs)"
    and safe: "majority_is_all cs ns \<or> (\<forall>j. picks_highest cs (project j s))"
    and e: "log (node_log (system_nodes s p)) i = Some e" "log (node_log (system_nodes s q)) i = Some e'"
  shows "e' = e"
proof -
  from inv obtain hist where g: "group_inv cs ns (\<lambda>_ _ e. e \<in> P) (group_of hist (node_views s))"
    by (auto simp: system_inv_def)
  have "safe_group cs ns (group_of hist (node_views s))"
    using safe by (simp add: safe_group_def picks_highest_project [of cs _ s hist])
  from group_agreement [OF g N this] e show ?thesis by (auto simp: known_def)
qed

lemma system_validity:
  assumes "system_inv cs ns P cbs d0 s" and "log (node_log (system_nodes s p)) i = Some e"
  shows "e \<in> P"
proof -
  from assms(1) obtain hist where g: "group_inv cs ns (\<lambda>_ _ e. e \<in> P) (group_of hist (node_views s))"
    by (auto simp: system_inv_def)
  have "known (group_of hist (node_views s)) i e" using assms(2) by (auto simp: known_def)
  from group_validity [OF g this] show ?thesis by simp
qed

lemma system_states_never_diverge:
  assumes inv: "system_inv cs ns P cbs d0 s"
    and N: "distinct ns" "length ns \<le> unat (num_slave_servers cs)"
    and safe: "majority_is_all cs ns \<or> (\<forall>j. picks_highest cs (project j s))"
    and le: "first_free (node_log (system_nodes s p)) \<le> first_free (node_log (system_nodes s q))"
  shows "apply_range cbs (log (node_log (system_nodes s q))) (first_free (node_log (system_nodes s p)))
      (first_free (node_log (system_nodes s q))) (node_derived (system_nodes s p)) =
    Inr (node_derived (system_nodes s q))"
proof -
  let ?p = "node_log (system_nodes s p)" and ?q = "node_log (system_nodes s q)"
  have wf: "log_inv (node_log (system_nodes s a))" "replay cbs (log (node_log (system_nodes s a)))
      (first_free (node_log (system_nodes s a))) d0 = Inr (node_derived (system_nodes s a))" for a
    using inv follows_exactly.server_replay [of cbs d0] by (force simp: system_inv_def node_wf_def node_ok_def)+
  have "log ?p i = log ?q i" if i: "i < first_free ?p" for i
  proof -
    obtain e e' where "log ?p i = Some e" "log ?q i = Some e'"
      using below_first_free [OF wf(1) i] below_first_free [OF wf(1) order.strict_trans2 [OF i le]] by blast
    with system_agreement [OF inv N safe this] show ?thesis by simp
  qed
  then have "replay cbs (log ?q) (first_free ?p) d0 = replay cbs (log ?p) (first_free ?p) d0"
    unfolding replay_def by (intro apply_range_cong) simp
  with replay_append [OF le, of cbs "log ?q" d0] wf(2) [of p] wf(2) [of q] show ?thesis by simp
qed

end
