(* ===== verification/PaxosAgreement.thy ===== *)
theory PaxosAgreement
  imports PaxosSystem
begin

text \<open>
  What a group of MultiPaxos servers guarantees, whatever the order of proposals, deliveries,
  lost connections and log synchronisation: agreement, replicated states that never diverge,
  validity; and a run of three servers that breaks agreement because the proposer does not look
  for the highest-numbered vote. Runs are closed by evaluation of the step function.
\<close>

section \<open>Concrete groups\<close>

definition server_a :: endpoint_id where "server_a = EndpointId ''10.0.0.1'' 0"
definition server_b :: endpoint_id where "server_b = EndpointId ''10.0.0.2'' 0"
definition server_c :: endpoint_id where "server_c = EndpointId ''10.0.0.3'' 0"

lemma servers_distinct [simp]:
  "server_a \<noteq> server_b" "server_b \<noteq> server_a" "server_a \<noteq> server_c" "server_c \<noteq> server_a"
  "server_b \<noteq> server_c" "server_c \<noteq> server_b"
  by (simp_all add: server_a_def server_b_def server_c_def)

definition fixed_provider :: "endpoint_id list \<Rightarrow> 's instance_provider" where
  "fixed_provider es d i = Inr (SinglePaxosHandler i es)"

definition three_constants :: constants where
  "three_constants = Constants 3 1610 1710 1810 1000 4 1000"

lemma group_sizes [simp]:
  "majority_threshold three_constants = 2" "num_slave_servers three_constants = 3"
  by (simp_all add: majority_threshold_def three_constants_def Constants_def)

lemma fixed_provider_ok [simp]: "distinct es \<Longrightarrow> provider_ok (fixed_provider es)"
  by (auto simp: provider_ok_def fixed_provider_def)

text \<open>What evaluates a run: the updates of the nodes are kept in one order.\<close>

lemmas order_nodes =
  fun_upd_twist [OF servers_distinct(1)] fun_upd_twist [OF servers_distinct(3)]
  fun_upd_twist [OF servers_distinct(5)]

lemmas run_simps =
  multi_propose_react handle_incoming_message_react instance_of_def apply_reaction_def put_instance_def
  set_node_def set_connections_def fits_index_def first_free_def initial_system_def MultiPaxosHandler_def
  fixed_provider_def in_flight_def get_channel_def deliver_from_def update_channel_def
  on_close_Inr on_close_def add_channel_def has_channel_def send_def emit_def make_paxos_message_def
  next_available_index_def set_entry_def Let_def take_index_def log_insert_def word_upt_Cons
  invoke_callbacks_def log_at_def MAX_MESSAGES_QUEUE_SIZE_def
  react_propose_def react_promise_def react_learn_def next_proposal_number_def says_def quiet_def
  SinglePaxosHandler_def PaxosProposerState_def PaxosAcceptorState_def PaxosLearnerState_def
  acceptor_defs promises_of_def proposal_of_def votes_of_def with_acceptor_def with_promises_def with_learned_def
  map_insert_def PaxosLog_def order_nodes

text \<open>Two servers, with the constants of \<open>src/src/utils.h\<close>: one proposal is learned by both.\<close>

definition two_events :: "paxos_event list" where
  "two_events = (let a = server_a; b = server_b in
     [EvOpen a a, EvOpen a b, EvOpen b a, EvOpen b b, EvPropose a 7 ReconfigFinished,
      EvDeliver a a, EvDeliver a b, EvDeliver a a, EvDeliver b a,
      EvDeliver a a, EvDeliver a b, EvDeliver a a, EvDeliver b a, EvDeliver a b, EvDeliver b b])"

lemma two_run:
  "\<exists>s. exec_events initialize_constants (fixed_provider [server_a, server_b]) [server_a, server_b] two_events
      (initial_system record_indices []) = Some s \<and>
    log (node_log (system_nodes s server_a)) 0 = Some ReconfigFinished \<and>
    (\<exists>e. log (node_log (system_nodes s server_b)) 0 = Some e) \<and>
    first_free (node_log (system_nodes s server_a)) = 1 \<and> first_free (node_log (system_nodes s server_b)) = 1"
  by (simp add: run_simps two_events_def record_indices_def
      del: set_node_simps set_connections_simps reaction_simps(7,8))

text \<open>Three servers, one proposer: the promises it gathers carry no vote.\<close>

definition three_events :: "paxos_event list" where
  "three_events = (let a = server_a; b = server_b in
     [EvOpen a a, EvOpen a b, EvOpen b a, EvOpen b b, EvPropose a 7 ReconfigFinished,
      EvDeliver a a, EvDeliver a b, EvDeliver a a, EvDeliver b a,
      EvDeliver a a, EvDeliver a b, EvDeliver a a, EvDeliver b a, EvDeliver a b, EvDeliver b b])"

lemma three_run:
  "\<exists>s. exec_events three_constants (fixed_provider [server_a, server_b, server_c])
      [server_a, server_b, server_c] three_events (initial_system (\<lambda>_. []) ()) = Some s \<and>
    log (node_log (system_nodes s server_a)) 0 = Some ReconfigFinished \<and>
    (\<exists>e. log (node_log (system_nodes s server_b)) 0 = Some e) \<and>
    (\<forall>j. picks_highest three_constants (project j s))"
  by (simp add: run_simps three_events_def picks_highest_def project_simps node_handler_def last_vote_highest_def
      del: set_node_simps set_connections_simps reaction_simps(7,8))

text \<open>
  Three servers. \<open>a\<close> gets its value accepted in round 1 by itself alone; \<open>b\<close> gets another one
  chosen in round 2 by \<open>b\<close> and \<open>c\<close>; then \<open>c\<close> proposes in round 3 and hears the votes of \<open>b\<close>
  (round 2) and of \<open>a\<close> (round 1), in this order.
\<close>

definition split_events :: "paxos_event list" where
  "split_events = (let a = server_a; b = server_b; c = server_c in
     [EvOpen a a, EvOpen a b, EvOpen b a, EvOpen b b, EvOpen b c, EvOpen c b,
      EvPropose a 1 (ReconfigStarted []),
      EvDeliver a a, EvDeliver a b, EvDeliver a a, EvDeliver b a, EvDeliver a a,
      EvPropose b 2 ReconfigFinished,
      EvDeliver b b, EvDeliver b c, EvDeliver b b, EvDeliver c b,
      EvDeliver b b, EvDeliver b c, EvDeliver b b, EvDeliver c b,
      EvLose b a, EvLose b a, EvLose b a, EvClose b a, EvOpen b a, EvOpen a c, EvOpen c a,
      EvPropose c 3 ReconfigFinished,
      EvDeliver c b, EvDeliver b c, EvDeliver b c, EvDeliver c a, EvDeliver a c,
      EvDeliver c a, EvDeliver c b, EvDeliver a a, EvDeliver a a, EvDeliver b a])"

lemma split_run:
  "\<exists>s. exec_events three_constants (fixed_provider [server_a, server_b, server_c])
      [server_a, server_b, server_c] split_events (initial_system (\<lambda>_. []) ()) = Some s \<and>
    log (node_log (system_nodes s server_a)) 0 = Some (ReconfigStarted []) \<and>
    log (node_log (system_nodes s server_b)) 0 = Some ReconfigFinished"
  by (simp add: run_simps split_events_def
      del: set_node_simps set_connections_simps reaction_simps(7,8))

section \<open>Properties\<close>

text \<open>
  C7: agreement. In every reachable state of a group whose majority threshold is the whole group
  (such as the two servers the program starts with), no two servers have different entries at an
  index of their logs, whatever was proposed, delivered, lost or synchronised in between.
\<close>

theorem logs_agree:
  assumes "provider_ok provider" and "distinct ns" and "length ns \<le> unat (num_slave_servers cs)"
    and "majority_is_all cs ns"
    and "paxos_reachable cs provider ns (initial_system cbs d0) s"
    and "log (node_log (system_nodes s p)) i = Some e" and "log (node_log (system_nodes s q)) i = Some e'"
  shows "e = e'"
  using system_agreement [OF reachable_inv [OF assms(1-3,5)] assms(2,3) disjI1 [OF assms(4)] assms(7,6)] .

theorem logs_agree_witness:
  "\<exists>s. paxos_reachable initialize_constants (fixed_provider [server_a, server_b]) [server_a, server_b]
       (initial_system record_indices []) s \<and>
     log (node_log (system_nodes s server_a)) 0 = Some ReconfigFinished \<and>
     log (node_log (system_nodes s server_b)) 0 = Some ReconfigFinished"
proof -
  from two_run obtain s e where run: "exec_events initialize_constants (fixed_provider [server_a, server_b])
      [server_a, server_b] two_events (initial_system record_indices []) = Some s"
    and e: "log (node_log (system_nodes s server_a)) 0 = Some ReconfigFinished"
      "log (node_log (system_nodes s server_b)) 0 = Some e" by blast
  note reach = exec_events_reachable [OF reach_init run]
  have "ReconfigFinished = e"
    by (rule logs_agree [OF _ _ _ _ reach e]) (simp_all add: majority_is_all_def)
  with reach e show ?thesis by blast
qed

text \<open>
  C39: replicated state. In a group whose majority is the whole group the states that the callbacks
  derive from the logs never diverge: after any run that ends without an exception, the state of a server that is behind becomes that of a server ahead of it by running
  the callbacks of the entries in between, in order.
\<close>

theorem derived_states_never_diverge:
  assumes "provider_ok provider" and "distinct ns" and "length ns \<le> unat (num_slave_servers cs)"
    and "majority_is_all cs ns"
    and "paxos_reachable cs provider ns (initial_system cbs d0) s"
    and "first_free (node_log (system_nodes s p)) \<le> first_free (node_log (system_nodes s q))"
  shows "apply_range cbs (log (node_log (system_nodes s q))) (first_free (node_log (system_nodes s p)))
      (first_free (node_log (system_nodes s q))) (node_derived (system_nodes s p)) =
    Inr (node_derived (system_nodes s q))"
  by (rule system_states_never_diverge [OF reachable_inv [OF assms(1-3,5)] assms(2,3) disjI1 [OF assms(4)] assms(6)])

theorem derived_states_never_diverge_witness:
  "\<exists>s. paxos_reachable initialize_constants (fixed_provider [server_a, server_b]) [server_a, server_b]
       (initial_system record_indices []) s \<and>
     first_free (node_log (system_nodes s server_a)) = 1 \<and>
     node_derived (system_nodes s server_a) = node_derived (system_nodes s server_b)"
proof -
  from two_run obtain s where run: "exec_events initialize_constants (fixed_provider [server_a, server_b])
      [server_a, server_b] two_events (initial_system record_indices []) = Some s"
    and free: "first_free (node_log (system_nodes s server_a)) = 1"
      "first_free (node_log (system_nodes s server_b)) = 1" by blast
  note reach = exec_events_reachable [OF reach_init run]
  have "apply_range record_indices (log (node_log (system_nodes s server_b)))
      (first_free (node_log (system_nodes s server_a))) (first_free (node_log (system_nodes s server_b)))
      (node_derived (system_nodes s server_a)) = Inr (node_derived (system_nodes s server_b))"
    by (rule derived_states_never_diverge [OF _ _ _ _ reach])
      (simp_all add: majority_is_all_def free)
  with reach free show ?thesis by auto
qed



text \<open>
  For a group of any size the logs agree as long as every proposer that gathered a majority
  of promises happened to hear the highest-numbered vote last, which is the vote it adopts.
\<close>

theorem logs_agree_if_highest_last:
  assumes "provider_ok provider" and "distinct ns" and "length ns \<le> unat (num_slave_servers cs)"
    and "paxos_reachable cs provider ns (initial_system cbs d0) s"
    and "\<forall>j. picks_highest cs (project j s)"
    and "log (node_log (system_nodes s p)) i = Some e" and "log (node_log (system_nodes s q)) i = Some e'"
  shows "e = e'"
  using system_agreement [OF reachable_inv [OF assms(1-4)] assms(2,3) disjI2 [OF assms(5)] assms(7,6)] .

theorem logs_agree_if_highest_last_witness:
  "\<exists>s. paxos_reachable three_constants (fixed_provider [server_a, server_b, server_c])
       [server_a, server_b, server_c] (initial_system (\<lambda>_. []) ()) s \<and>
     log (node_log (system_nodes s server_a)) 0 = log (node_log (system_nodes s server_b)) 0"
proof -
  from three_run obtain s e where run: "exec_events three_constants (fixed_provider [server_a, server_b, server_c])
      [server_a, server_b, server_c] three_events (initial_system (\<lambda>_. []) ()) = Some s"
    and e: "log (node_log (system_nodes s server_a)) 0 = Some ReconfigFinished"
      "log (node_log (system_nodes s server_b)) 0 = Some e"
    and safe: "\<forall>j. picks_highest three_constants (project j s)" by blast
  note reach = exec_events_reachable [OF reach_init run]
  have "ReconfigFinished = e"
    by (rule logs_agree_if_highest_last [OF _ _ _ reach safe e]) simp_all
  with reach e show ?thesis by auto
qed

text \<open>
  C11: with three servers the logs can disagree. \<open>max_vrnd\<close> is never updated in \<open>promise\<close>, so the
  proposer adopts the last vote it heard rather than the one with the highest round, and a value
  that a majority had already chosen is replaced by another.
\<close>

theorem three_servers_disagree:
  "\<exists>s. paxos_reachable three_constants (fixed_provider [server_a, server_b, server_c])
       [server_a, server_b, server_c] (initial_system (\<lambda>_. []) ()) s \<and>
     get_log (node_log (system_nodes s server_a)) 0 = Some (ReconfigStarted []) \<and>
     get_log (node_log (system_nodes s server_b)) 0 = Some ReconfigFinished"
  using split_run exec_events_reachable [OF reach_init] unfolding get_log_def by blast

end
