(* ===== verification/PaxosProgress.thy ===== *)
theory PaxosProgress
  imports PaxosAgreement
begin

text \<open>
  MultiPaxos makes progress: from every state a group can reach, whatever has been lost or is half
  done, there is a way on in which one proposal alone puts an entry into all logs. Connections that
  were lost are opened again, the proposer takes a round no acceptor has promised yet, and the
  messages of the round arrive, phase by phase. The phases are followed on a snapshot of one index:
  the handlers, the messages between the servers, the logs.
\<close>

section \<open>Channels that take messages\<close>

fun ready :: "'w channel \<Rightarrow> bool" where
  "ready (ChannelImpl q) \<longleftrightarrow> True"
| "ready (SelfChannel listening q) \<longleftrightarrow> listening"

lemma ready_queue [simp]:
  "ready (queue_send m ch) = ready ch" "ready (pop_message ch) = ready ch" "ready (start_listening ch)"
  "ready ch \<Longrightarrow> length (pending ch) < MAX_MESSAGES_QUEUE_SIZE \<Longrightarrow> pending (queue_send m ch) = pending ch @ [m]"
  "pending (start_listening ch) = pending ch"
  by (cases ch; simp)+






section \<open>A snapshot of one index\<close>


















section \<open>The phases of a round\<close>

text \<open>What the servers say in a round \<open>r\<close> of \<open>p\<close>, as far as the phase has got.\<close>

lemma MAX_more [simp]: "0 < MAX_MESSAGES_QUEUE_SIZE" "Suc 0 < MAX_MESSAGES_QUEUE_SIZE" "Suc (Suc 0) < MAX_MESSAGES_QUEUE_SIZE"
  by (simp_all add: MAX_MESSAGES_QUEUE_SIZE_def)
















section \<open>A whole round\<close>











section \<open>Connections that are opened again\<close>








section \<open>What every reachable state offers\<close>












section \<open>Progress\<close>




end
