(* ===== verification/KVStore.thy ===== *)
theory KVStore
  imports UniTypes
begin

text \<open>
  \<open>uni::slave::KVStore\<close> (src/src/slave/KVStore.cc): the multi-version key-value store of a
  tablet. Each key has its versions and the last access timestamp. The lemmas show that the
  binary search of \<open>read\<close> finds the newest version at or before the timestamp, that every run
  keeps the versions strictly increasing and below the last access, that a key once present
  gives the same answer to the same read for ever, and when a write throws.
\<close>

section \<open>The store\<close>

record version_entry =
  ve_timestamp :: timestamp_t
  ve_value :: string

record multi_version_entry =
  versions :: "version_entry list"
  lat :: timestamp_t

type_synonym kvstore = "string \<rightharpoonup> multi_version_entry"

definition write_past :: string where
  "write_past = ''Should never be writing to the past.''"

definition kv_write :: "string \<Rightarrow> string \<Rightarrow> timestamp_t \<Rightarrow> kvstore \<Rightarrow> kvstore result" where
  "kv_write key val timestamp kv =
     (case kv key of
        None \<Rightarrow>
          Inr (kv(key \<mapsto> \<lparr>versions = [\<lparr>ve_timestamp = timestamp, ve_value = val\<rparr>], lat = timestamp\<rparr>))
      | Some entry \<Rightarrow>
          rbind (universal_assert (lat entry < timestamp) write_past) (\<lambda>_.
          Inr (kv(key \<mapsto>
            entry\<lparr>versions := versions entry @ [\<lparr>ve_timestamp = timestamp, ve_value = val\<rparr>],
                  lat := timestamp\<rparr>))))"

text \<open>The loop of \<open>read\<close>: the first version later than the timestamp lies in \<open>start..end\<close>.\<close>

function search :: "version_entry list \<Rightarrow> timestamp_t \<Rightarrow> nat \<Rightarrow> nat \<Rightarrow> nat" where
  "search vs timestamp start stop =
     (if start < stop then
        let middle = (start + stop) div 2
        in if ve_timestamp (vs ! middle) \<le> timestamp
           then search vs timestamp (middle + 1) stop
           else search vs timestamp start middle
      else start)"
  by pat_completeness auto
termination by (relation "measure (\<lambda>(vs, timestamp, start, stop). stop - start)") auto

declare search.simps [simp del]

definition kv_read :: "string \<Rightarrow> timestamp_t \<Rightarrow> kvstore \<Rightarrow> string option \<times> kvstore" where
  "kv_read key timestamp kv =
     (case kv key of
        None \<Rightarrow> (None, kv)
      | Some entry \<Rightarrow>
          let start = search (versions entry) timestamp 0 (length (versions entry))
          in if start = 0 then (None, kv)
             else
               (Some (ve_value (versions entry ! (start - 1))),
                if timestamp > lat entry then kv(key \<mapsto> entry\<lparr>lat := timestamp\<rparr>) else kv))"

definition read_lat :: "string \<Rightarrow> kvstore \<Rightarrow> timestamp_t option" where
  "read_lat key kv = (case kv key of None \<Rightarrow> None | Some entry \<Rightarrow> Some (lat entry))"

section \<open>The specification\<close>

text \<open>The value of a key at a time: its newest version that is not later.\<close>

definition newest :: "version_entry list \<Rightarrow> timestamp_t \<Rightarrow> string option" where
  "newest vs timestamp =
     (let old = filter (\<lambda>v. ve_timestamp v \<le> timestamp) vs
      in if old = [] then None else Some (ve_value (last old)))"

definition snapshot :: "kvstore \<Rightarrow> string \<Rightarrow> timestamp_t \<Rightarrow> string option" where
  "snapshot kv key timestamp =
     (case kv key of None \<Rightarrow> None | Some entry \<Rightarrow> newest (versions entry) timestamp)"

definition entry_inv :: "multi_version_entry \<Rightarrow> bool" where
  "entry_inv entry \<longleftrightarrow> versions entry \<noteq> [] \<and>
     sorted_wrt (\<lambda>a b. ve_timestamp a < ve_timestamp b) (versions entry) \<and>
     ve_timestamp (last (versions entry)) \<le> lat entry"

definition kv_inv :: "kvstore \<Rightarrow> bool" where
  "kv_inv kv \<longleftrightarrow> (\<forall>key entry. kv key = Some entry \<longrightarrow> entry_inv entry)"

text \<open>The operations as steps of a run; reads change the store too.\<close>

datatype kv_op = WriteOp string string timestamp_t | ReadOp string timestamp_t

fun kv_step :: "kv_op \<Rightarrow> kvstore \<Rightarrow> kvstore result" where
  "kv_step (WriteOp key val timestamp) kv = kv_write key val timestamp kv"
| "kv_step (ReadOp key timestamp) kv = Inr (snd (kv_read key timestamp kv))"

section \<open>The binary search\<close>

lemma search_done: "\<not> start < stop \<Longrightarrow> search vs timestamp start stop = start"
  by (simp add: search.simps)

lemma search_right:
  "start < stop \<Longrightarrow> ve_timestamp (vs ! ((start + stop) div 2)) \<le> timestamp \<Longrightarrow>
     search vs timestamp start stop = search vs timestamp ((start + stop) div 2 + 1) stop"
  by (subst search.simps) (simp only: Let_def if_True)

lemma search_left:
  "start < stop \<Longrightarrow> \<not> ve_timestamp (vs ! ((start + stop) div 2)) \<le> timestamp \<Longrightarrow>
     search vs timestamp start stop = search vs timestamp start ((start + stop) div 2)"
  by (subst search.simps) (simp only: Let_def if_True if_False)

text \<open>\<open>n\<close> separates the versions up to the timestamp from the later ones.\<close>

definition separates :: "version_entry list \<Rightarrow> timestamp_t \<Rightarrow> nat \<Rightarrow> nat \<Rightarrow> bool" where
  "separates vs t m n \<longleftrightarrow> (\<forall>i. i < m \<longrightarrow> ve_timestamp (vs ! i) \<le> t) \<and>
     (\<forall>i. n \<le> i \<longrightarrow> i < length vs \<longrightarrow> t < ve_timestamp (vs ! i))"

lemma search_separates:
  assumes "sorted_wrt (\<lambda>a b. ve_timestamp a < ve_timestamp b) vs"
    and "separates vs timestamp start stop" "start \<le> stop" "stop \<le> length vs"
  shows "separates vs timestamp (search vs timestamp start stop) (search vs timestamp start stop) \<and>
    search vs timestamp start stop \<le> length vs"
  using assms
proof (induction vs timestamp start stop rule: search.induct)
  case (1 vs timestamp start stop)
  show ?case
  proof (cases "start < stop")
    case False
    with 1(4-6) have "start = stop" by simp
    with 1(4-6) show ?thesis by (simp add: search_done)
  next
    case True
    let ?m = "(start + stop) div 2"
    have m: "start \<le> ?m" "?m < stop" "?m < length vs" "?m + 1 \<le> stop" "?m \<le> length vs"
      using True 1(6) by linarith+
    have mono: "ve_timestamp (vs ! i) \<le> ve_timestamp (vs ! j)" if "i \<le> j" "j < length vs" for i j
    proof (cases "i = j")
      case False
      with that have "i < j" by simp
      from less_imp_le [OF sorted_wrt_nth_less [OF 1(3) this that(2)]] show ?thesis .
    qed simp
    show ?thesis
    proof (cases "ve_timestamp (vs ! ?m) \<le> timestamp")
      case le: True
      have "ve_timestamp (vs ! i) \<le> timestamp" if "i < ?m + 1" for i
      proof -
        from that have "i \<le> ?m" by simp
        from order_trans [OF mono [OF this m(3)] le] show ?thesis .
      qed
      then have "separates vs timestamp (?m + 1) stop"
        using 1(4) unfolding separates_def by blast
      from 1(1) [OF True refl le 1(3) this m(4) 1(6)] show ?thesis
        unfolding search_right [OF True le] .
    next
      case gt: False
      have "timestamp < ve_timestamp (vs ! i)" if "?m \<le> i" "i < length vs" for i
      proof -
        from gt have "timestamp < ve_timestamp (vs ! ?m)" by (simp add: not_le)
        from less_le_trans [OF this mono [OF that]] show ?thesis .
      qed
      then have "separates vs timestamp start ?m"
        using 1(4) unfolding separates_def by blast
      from 1(2) [OF True refl gt 1(3) this m(1) m(5)] show ?thesis
        unfolding search_left [OF True gt] .
    qed
  qed
qed

lemma split_newest:
  assumes "n \<le> length vs" and "separates vs t n n"
  shows "newest vs t = (if n = 0 then None else Some (ve_value (vs ! (n - 1))))"
proof -
  have "filter (\<lambda>v. ve_timestamp v \<le> t) (take n vs) = take n vs"
    using assms by (auto simp: separates_def filter_id_conv in_set_conv_nth)
  moreover have "filter (\<lambda>v. ve_timestamp v \<le> t) (drop n vs) = []"
    using assms by (fastforce simp: separates_def filter_empty_conv in_set_conv_nth not_le)
  ultimately have "filter (\<lambda>v. ve_timestamp v \<le> t) vs = take n vs"
    by (metis append_Nil2 append_take_drop_id filter_append)
  with assms(1) show ?thesis
    by (auto simp: newest_def last_conv_nth min_absorb2)
qed

lemma search_newest:
  assumes "sorted_wrt (\<lambda>a b. ve_timestamp a < ve_timestamp b) vs"
  shows "newest vs t =
    (let n = search vs t 0 (length vs) in if n = 0 then None else Some (ve_value (vs ! (n - 1))))"
proof -
  have "separates vs t 0 (length vs)" by (simp add: separates_def)
  from search_separates [OF assms this] split_newest show ?thesis by (simp add: Let_def)
qed

lemma read_eq:
  assumes "kv_inv kv"
  shows "kv_read key t kv =
    (snapshot kv key t,
     (case kv key of None \<Rightarrow> kv
      | Some e \<Rightarrow> if snapshot kv key t \<noteq> None \<and> lat e < t then kv(key \<mapsto> e\<lparr>lat := t\<rparr>) else kv))"
  using assms search_newest
  by (auto simp: kv_read_def snapshot_def kv_inv_def entry_inv_def Let_def split: option.splits)

section \<open>The invariant\<close>

lemma entry_inv_lat: "entry_inv e \<Longrightarrow> lat e < t \<Longrightarrow> entry_inv (e\<lparr>lat := t\<rparr>)"
  unfolding entry_inv_def by (auto elim: order_trans dest: less_imp_le)

lemma sorted_last:
  "sorted_wrt (\<lambda>a b. ve_timestamp a < ve_timestamp b) vs \<Longrightarrow> w \<in> set vs \<Longrightarrow>
     ve_timestamp w \<le> ve_timestamp (last vs)"
  by (induction vs) (auto intro: less_imp_le)

lemma entry_inv_push:
  assumes "entry_inv e" "lat e < t"
  shows "entry_inv (e\<lparr>versions := versions e @ [\<lparr>ve_timestamp = t, ve_value = v\<rparr>], lat := t\<rparr>)"
proof -
  have "ve_timestamp w < t" if "w \<in> set (versions e)" for w
  proof -
    have "ve_timestamp w \<le> ve_timestamp (last (versions e))"
      using assms(1) that by (auto simp: entry_inv_def intro: sorted_last)
    also have "\<dots> \<le> lat e" using assms(1) by (simp add: entry_inv_def)
    finally show ?thesis using assms(2) by (rule le_less_trans)
  qed
  with assms(1) show ?thesis by (simp add: entry_inv_def sorted_wrt_append)
qed

lemma kv_write_inv [inv_intros]:
  "kv_write key v t kv = Inr kv' \<Longrightarrow> kv_inv kv \<Longrightarrow> kv_inv kv'"
  using entry_inv_push
  by (auto simp: kv_write_def kv_inv_def rbind_eq_Inr split: option.splits if_splits)
    (auto simp: entry_inv_def)

lemma read_inv [inv_intros]: "kv_inv kv \<Longrightarrow> kv_inv (snd (kv_read key t kv))"
  using entry_inv_lat by (auto simp: read_eq) (auto simp: kv_inv_def split: option.splits)

lemma kv_step_inv [inv_intros]: "kv_step op kv = Inr kv' \<Longrightarrow> kv_inv kv \<Longrightarrow> kv_inv kv'"
  by (cases op) (auto intro: inv_intros)

lemma run_inv: "rfold kv_step ops kv = Inr kv' \<Longrightarrow> kv_inv kv \<Longrightarrow> kv_inv kv'"
  by (erule rfold_invariant) (auto intro: inv_intros)

lemma empty_inv [simp]: "kv_inv Map.empty"
  by (simp add: kv_inv_def)

section \<open>The interface the request handler relies on\<close>

text \<open>
  A store with last access times: a write succeeds exactly above the last access of its key, and
  becomes it; a read that finds a value raises it. Whoever uses such a store knows that a key
  is closed for ever to writes at or below a time at which it was written or read.
\<close>

locale access_store =
  fixes store_inv :: "'s \<Rightarrow> bool"
    and last_access :: "'k \<Rightarrow> 's \<Rightarrow> timestamp_t option"
    and put :: "'k \<Rightarrow> 'v \<Rightarrow> timestamp_t \<Rightarrow> 's \<Rightarrow> 's result"
    and get :: "'k \<Rightarrow> timestamp_t \<Rightarrow> 's \<Rightarrow> 'v option \<times> 's"
  assumes put_ok: "is_ok (put k v t s) \<longleftrightarrow> (\<forall>l. last_access k s = Some l \<longrightarrow> l < t)"
    and put_inv: "put k v t s = Inr s' \<Longrightarrow> store_inv s \<Longrightarrow> store_inv s'"
    and put_access: "put k v t s = Inr s' \<Longrightarrow>
      last_access k' s' = (if k' = k then Some t else last_access k' s)"
    and get_inv: "store_inv s \<Longrightarrow> store_inv (snd (get k t s))"
    and get_access: "store_inv s \<Longrightarrow> last_access k' (snd (get k t s)) =
      (if k' = k \<and> fst (get k t s) \<noteq> None then map_option (max t) (last_access k s)
       else last_access k' s)"
begin

text \<open>An operation is a write, with its value, or a read.\<close>

definition access_step :: "'k \<times> 'v option \<times> timestamp_t \<Rightarrow> 's \<Rightarrow> 's result" where
  "access_step op s = (case op of (k, Some v, t) \<Rightarrow> put k v t s | (k, None, t) \<Rightarrow> Inr (snd (get k t s)))"

lemma access_step_inv: "access_step op s = Inr s' \<Longrightarrow> store_inv s \<Longrightarrow> store_inv s'"
  by (auto simp: access_step_def intro: put_inv get_inv split: prod.splits option.splits)

lemma put_above: "put k v t s = Inr s' \<Longrightarrow> last_access k s = Some l \<Longrightarrow> l < t"
  using put_ok [of k v t s] by simp

lemma access_step_mono:
  assumes "access_step op s = Inr s'" "store_inv s" "last_access k s = Some l" "t \<le> l"
  shows "\<exists>l'. last_access k s' = Some l' \<and> t \<le> l'"
proof -
  obtain k' v t' where op: "op = (k', v, t')" by (cases op)
  show ?thesis
  proof (cases v)
    case None
    with assms(1) op have "s' = snd (get k' t' s)" by (simp add: access_step_def)
    with get_access [OF assms(2), of k k' t'] assms(3,4)
    have "last_access k s' = Some l \<or> last_access k s' = Some (max t' l)" by (auto split: if_splits)
    with assms(4) show ?thesis by (auto simp: le_max_iff_disj)
  next
    case (Some w)
    with assms op have p: "put k' w t' s = Inr s'" by (simp add: access_step_def)
    show ?thesis
    proof (cases "k = k'")
      case True
      with put_above [OF p] assms(3,4) have "t \<le> t'" by auto
      with put_access [OF p, of k] True show ?thesis by simp
    next
      case False
      with put_access [OF p, of k] assms(3,4) show ?thesis by simp
    qed
  qed
qed

lemma closed_for_ever:
  assumes "rfold access_step ops s = Inr s'" "store_inv s" "last_access k s = Some l" "t \<le> l"
  shows "\<not> is_ok (put k v t s')"
proof -
  have "store_inv s' \<and> (\<exists>l'. last_access k s' = Some l' \<and> t \<le> l')"
    by (rule rfold_invariant [OF assms(1), where P = "\<lambda>s. store_inv s \<and> (\<exists>l'. last_access k s = Some l' \<and> t \<le> l')"])
      (use assms in \<open>auto intro: access_step_inv dest: access_step_mono\<close>)
  then show ?thesis by (auto simp: put_ok not_less)
qed

end

lemma snapshot_None: "kv k = None \<Longrightarrow> snapshot kv k t = None"
  by (simp add: snapshot_def)

interpretation kv: access_store kv_inv read_lat kv_write kv_read
proof unfold_locales
  fix k k' v t s s'
  show "is_ok (kv_write k v t s) \<longleftrightarrow> (\<forall>l. read_lat k s = Some l \<longrightarrow> l < t)"
    by (auto simp: kv_write_def read_lat_def universal_assert_def split: option.splits)
  show "kv_write k v t s = Inr s' \<Longrightarrow> kv_inv s \<Longrightarrow> kv_inv s'" by (rule kv_write_inv)
  show "kv_write k v t s = Inr s' \<Longrightarrow> read_lat k' s' = (if k' = k then Some t else read_lat k' s)"
    by (auto simp: kv_write_def read_lat_def rbind_eq_Inr split: option.splits if_splits)
  show "kv_inv s \<Longrightarrow> kv_inv (snd (kv_read k t s))" by (rule read_inv)
  show "kv_inv s \<Longrightarrow> read_lat k' (snd (kv_read k t s)) =
      (if k' = k \<and> fst (kv_read k t s) \<noteq> None then map_option (max t) (read_lat k s) else read_lat k' s)"
    by (cases "s k") (auto simp: read_eq read_lat_def snapshot_None max_def)
qed

section \<open>Closed times\<close>

lemma newest_append:
  "t < t' \<Longrightarrow> newest (vs @ [\<lparr>ve_timestamp = t', ve_value = v\<rparr>]) t = newest vs t"
  by (simp add: newest_def not_le)

lemma read_closes:
  assumes "kv_inv kv" "kv key = Some e"
  shows "\<exists>e'. snd (kv_read key t kv) key = Some e' \<and> t \<le> lat e' \<and> versions e' = versions e"
proof (cases "snapshot kv key t = None")
  case True
  from assms have e: "versions e \<noteq> []" "entry_inv e" by (auto simp: kv_inv_def entry_inv_def)
  from True assms(2) have "newest (versions e) t = None" by (simp add: snapshot_def)
  with e(1) have "t < ve_timestamp (last (versions e))"
    by (auto simp: newest_def filter_empty_conv Let_def not_le split: if_splits)
  also have "\<dots> \<le> lat e" using e(2) by (simp add: entry_inv_def)
  finally have "t \<le> lat e" by simp
  with True assms show ?thesis by (simp add: read_eq)
next
  case False
  with assms show ?thesis by (auto simp: read_eq not_less)
qed

lemma step_keeps_snapshot:
  assumes "kv_step op kv = Inr kv'" "kv_inv kv" "kv key = Some e" "t \<le> lat e"
  shows "\<exists>e'. kv' key = Some e' \<and> t \<le> lat e' \<and> newest (versions e') t = newest (versions e) t"
proof (cases op)
  case (ReadOp k t')
  with assms show ?thesis by (auto simp: read_eq split: option.splits)
next
  case (WriteOp k v t')
  show ?thesis
  proof (cases "k = key")
    case True
    with WriteOp assms have "t < t'"
      "kv' key = Some (e\<lparr>versions := versions e @ [\<lparr>ve_timestamp = t', ve_value = v\<rparr>], lat := t'\<rparr>)"
      by (auto simp: kv_write_def rbind_eq_Inr)
    then show ?thesis by (simp add: newest_append)
  next
    case False
    with WriteOp assms show ?thesis by (auto simp: kv_write_def rbind_eq_Inr split: option.splits)
  qed
qed

lemma run_keeps_snapshot:
  assumes "rfold kv_step ops kv = Inr kv'" "kv_inv kv" "kv key = Some e" "t \<le> lat e"
  shows "snapshot kv' key t = newest (versions e) t"
proof -
  have "kv_inv kv' \<and> (\<exists>e'. kv' key = Some e' \<and> t \<le> lat e' \<and> newest (versions e') t = newest (versions e) t)"
    by (rule rfold_invariant [OF assms(1), where P = "\<lambda>kv. kv_inv kv \<and>
          (\<exists>e'. kv key = Some e' \<and> t \<le> lat e' \<and> newest (versions e') t = newest (versions e) t)"])
      (use assms in \<open>auto intro: kv_step_inv dest: step_keeps_snapshot\<close>)
  then show ?thesis by (auto simp: snapshot_def)
qed

lemma write_snapshot:
  assumes "kv_write key v t kv = Inr kv'" "kv_inv kv"
  shows "snapshot kv' key' t' = (if key' = key \<and> t \<le> t' then Some v else snapshot kv key' t')"
proof (cases "kv key")
  case None
  with assms show ?thesis by (auto simp: kv_write_def snapshot_def newest_def)
next
  case (Some e)
  with assms(1) have kv': "kv' = kv(key \<mapsto> e\<lparr>versions := versions e @ [\<lparr>ve_timestamp = t, ve_value = v\<rparr>], lat := t\<rparr>)"
    by (simp add: kv_write_def rbind_eq_Inr)
  with Some show ?thesis by (auto simp: snapshot_def newest_def)
qed

lemma write_fails_iff:
  "kv_write key v t kv = Inl err \<longleftrightarrow>
     err = UniversalException write_past \<and> (\<exists>l. read_lat key kv = Some l \<and> t \<le> l)"
  by (auto simp: kv_write_def read_lat_def universal_assert_def not_less split: option.splits)

section \<open>Properties\<close>

text \<open>
  C22: reads are correct. In every store a run of writes and reads can produce, the binary search
  returns the newest version that is not later than the timestamp, or none if there is none.
\<close>

theorem read_is_snapshot:
  assumes "rfold kv_step ops Map.empty = Inr kv"
  shows "fst (kv_read key t kv) = snapshot kv key t"
  using run_inv [OF assms] by (simp add: read_eq)

theorem read_is_snapshot_witness:
  "\<exists>kv. rfold kv_step [WriteOp ''k'' ''v1'' 3, ReadOp ''k'' 5, WriteOp ''k'' ''v2'' 8] Map.empty = Inr kv \<and>
     fst (kv_read ''k'' 7 kv) = Some ''v1''"
proof -
  have "\<exists>kv. rfold kv_step [WriteOp ''k'' ''v1'' 3, ReadOp ''k'' 5, WriteOp ''k'' ''v2'' 8] Map.empty = Inr kv \<and>
     snapshot kv ''k'' 7 = Some ''v1''"
    by (simp add: kv_write_def kv_read_def search.simps Let_def snapshot_def newest_def)
  with read_is_snapshot [of "[WriteOp ''k'' ''v1'' 3, ReadOp ''k'' 5, WriteOp ''k'' ''v2'' 8]" _ "''k''" 7]
  show ?thesis by fastforce
qed

text \<open>
  Snapshot reads. Once a key exists, the answer to a read of it at a time is the answer to
  every later read of it at that time, whatever is written and read in between (nothing is
  assumed of the writes: those that would change the past throw).
\<close>

theorem snapshot_reads_stable:
  assumes "rfold kv_step ops Map.empty = Inr kv" and "kv key \<noteq> None"
    and "rfold kv_step ops' (snd (kv_read key t kv)) = Inr kv'"
  shows "fst (kv_read key t kv') = fst (kv_read key t kv)"
proof -
  have inv: "kv_inv kv" by (rule run_inv [OF assms(1)]) simp
  from assms(2) obtain e where e: "kv key = Some e" by blast
  from read_closes [OF inv e, of t] obtain e' where
    e': "snd (kv_read key t kv) key = Some e'" "t \<le> lat e'" "versions e' = versions e" by blast
  have inv': "kv_inv (snd (kv_read key t kv))" by (rule read_inv [OF inv])
  from run_keeps_snapshot [OF assms(3) inv' e'(1,2)] e'(3) have "snapshot kv' key t = snapshot kv key t"
    using e by (simp add: snapshot_def)
  with inv run_inv [OF assms(3) inv'] show ?thesis by (simp add: read_eq)
qed

theorem snapshot_reads_stable_witness:
  "\<exists>kv kv'. rfold kv_step [WriteOp ''k'' ''v1'' 3] Map.empty = Inr kv \<and>
     rfold kv_step [WriteOp ''k'' ''v2'' 6] (snd (kv_read ''k'' 5 kv)) = Inr kv' \<and>
     fst (kv_read ''k'' 5 kv') = Some ''v1''"
proof -
  obtain kv where kv: "rfold kv_step [WriteOp ''k'' ''v1'' 3] Map.empty = Inr kv" "kv ''k'' \<noteq> None"
    "fst (kv_read ''k'' 5 kv) = Some ''v1''"
    and ok: "\<exists>kv'. rfold kv_step [WriteOp ''k'' ''v2'' 6] (snd (kv_read ''k'' 5 kv)) = Inr kv'"
    by (simp add: kv_write_def kv_read_def search.simps Let_def)
  from ok obtain kv' where kv': "rfold kv_step [WriteOp ''k'' ''v2'' 6] (snd (kv_read ''k'' 5 kv)) = Inr kv'"
    by blast
  from snapshot_reads_stable [OF kv(1,2) kv'] kv(1,3) kv' show ?thesis by auto
qed

text \<open>
  C24: writes. A write throws exactly when its key was accessed at its timestamp or later; one that
  succeeds is what reads from its timestamp on see, changes no other read, and becomes the last
  access.
\<close>

theorem write_correct:
  assumes "rfold kv_step ops Map.empty = Inr kv"
  shows "case kv_write key v t kv of
      Inl err \<Rightarrow> err = UniversalException write_past \<and> (\<exists>l. read_lat key kv = Some l \<and> t \<le> l)
    | Inr kv' \<Rightarrow> (\<forall>l. read_lat key kv = Some l \<longrightarrow> l < t) \<and>
        (\<forall>key' t'. fst (kv_read key' t' kv') =
          (if key' = key \<and> t \<le> t' then Some v else fst (kv_read key' t' kv))) \<and>
        (\<forall>key'. read_lat key' kv' = (if key' = key then Some t else read_lat key' kv))"
proof (cases "kv_write key v t kv")
  case (Inl err)
  then show ?thesis using write_fails_iff [of key v t kv err] by simp
next
  case (Inr kv')
  have inv: "kv_inv kv" by (rule run_inv [OF assms]) simp
  have "\<forall>l. read_lat key kv = Some l \<longrightarrow> l < t"
    using kv.put_above [OF Inr] by blast
  with inv kv_write_inv [OF Inr inv] kv.put_access [OF Inr] write_snapshot [OF Inr inv] Inr
  show ?thesis by (simp add: read_eq)
qed

theorem write_correct_witness:
  "\<exists>kv. rfold kv_step [WriteOp ''k'' ''v1'' 3, ReadOp ''k'' 5] Map.empty = Inr kv \<and>
     kv_write ''k'' ''v2'' 5 kv = Inl (UniversalException write_past)"
proof -
  have ok: "\<exists>kv. rfold kv_step [WriteOp ''k'' ''v1'' 3, ReadOp ''k'' 5] Map.empty = Inr kv \<and> read_lat ''k'' kv = Some 5"
    by (simp add: kv_write_def kv_read_def search.simps Let_def read_lat_def)
  then obtain kv where run: "rfold kv_step [WriteOp ''k'' ''v1'' 3, ReadOp ''k'' 5] Map.empty = Inr kv"
    and l: "read_lat ''k'' kv = Some 5" by blast
  from write_correct [OF run, where key = "''k''" and v = "''v2''" and t = 5] l
  have "kv_write ''k'' ''v2'' 5 kv = Inl (UniversalException write_past)"
    by (auto split: sum.splits)
  with run show ?thesis by blast
qed

end
