(* ===== verification/KeySpaceRange.thy ===== *)
theory KeySpaceRange
  imports UniTypes
begin

text \<open>
  \<open>uni::server::KeySpaceRange\<close> (src/src/server/KeySpaceRange.h and .cc): the part of a table a
  tablet serves, keys from \<open>start_key\<close> up to but not including \<open>end_key\<close>, and its conversion
  from and to the protocol buffer of the same name. \<open>std::string\<close> compares byte by byte, as the
  order on character lists does. \<open>TabletId\<close> (src/src/slave/TabletId.h) is the same type.
\<close>

record key_space_range =
  database_id :: string
  table_id :: string
  start_key :: "string option"
  end_key :: "string option"

type_synonym tablet_id = key_space_range

definition range_eq :: "key_space_range \<Rightarrow> key_space_range \<Rightarrow> bool" where
  "range_eq a b \<longleftrightarrow> database_id a = database_id b \<and> table_id a = table_id b \<and>
     start_key a = start_key b \<and> end_key a = end_key b"

lemma range_eq_iff [simp]: "range_eq a b \<longleftrightarrow> a = b"
  by (auto simp: range_eq_def)

text \<open>The template takes its message apart with \<open>database_id()\<close>, \<open>table_id()\<close> and \<open>key()\<close>.\<close>

definition within_range :: "key_space_range \<Rightarrow> string \<Rightarrow> string \<Rightarrow> string \<Rightarrow> bool" where
  "within_range ksr db table k =
     (if database_id ksr \<noteq> db then False
      else if table_id ksr \<noteq> table then False
      else if (case start_key ksr of None \<Rightarrow> False | Some s \<Rightarrow> s > k) then False
      else if (case end_key ksr of None \<Rightarrow> False | Some e \<Rightarrow> e \<le> k) then False
      else True)"

section \<open>Conversions\<close>

definition convert_range :: "pb_key_space_range \<Rightarrow> key_space_range" where
  "convert_range r =
     \<lparr>database_id = pb_database_id r, table_id = pb_table_id r,
      start_key = (if pb_start_key r \<noteq> None then Some (string_value (pb_start_key r)) else None),
      end_key = (if pb_end_key r \<noteq> None then Some (string_value (pb_end_key r)) else None)\<rparr>"

text \<open>\<open>utils::pb::string\<close> (src/src/utils/pbutil.cc) allocates a wrapper with its value.\<close>

definition pb_string :: "string \<Rightarrow> string option" where
  "pb_string s = Some s"

definition pb_uint64 :: "64 word \<Rightarrow> 64 word option" where
  "pb_uint64 n = Some n"

definition build_range :: "pb_key_space_range \<Rightarrow> key_space_range \<Rightarrow> pb_key_space_range" where
  "build_range p ksr =
     (let p1 = p\<lparr>pb_database_id := database_id ksr\<rparr>;
          p2 = p1\<lparr>pb_table_id := table_id ksr\<rparr>;
          p3 = (case start_key ksr of None \<Rightarrow> p2 | Some s \<Rightarrow> p2\<lparr>pb_start_key := pb_string s\<rparr>)
      in case end_key ksr of None \<Rightarrow> p3 | Some e \<Rightarrow> p3\<lparr>pb_end_key := pb_string e\<rparr>)"

definition convert_range_object :: "key_space_range \<Rightarrow> pb_key_space_range" where
  "convert_range_object ksr = build_range default_pb_key_space_range ksr"

section \<open>Lemmas\<close>

lemma convert_build_range [simp]:
  "convert_range (build_range default_pb_key_space_range ksr) = ksr"
  by (cases "start_key ksr"; cases "end_key ksr")
    (simp_all add: convert_range_def build_range_def default_pb_key_space_range_def pb_string_def)

lemma within_range_iff:
  "within_range ksr db table k \<longleftrightarrow>
     database_id ksr = db \<and> table_id ksr = table \<and>
     (\<forall>s. start_key ksr = Some s \<longrightarrow> s \<le> k) \<and> (\<forall>e. end_key ksr = Some e \<longrightarrow> k < e)"
  by (auto simp: within_range_def not_less not_le split: option.splits)

text \<open>
  A table cut at increasing keys: \<open>table_ranges db t s cuts\<close> are the ranges between consecutive
  cuts, the first from \<open>s\<close> on and the last without an end.
\<close>

fun table_ranges :: "string \<Rightarrow> string \<Rightarrow> string option \<Rightarrow> string list \<Rightarrow> key_space_range list" where
  "table_ranges db t s [] = [\<lparr>database_id = db, table_id = t, start_key = s, end_key = None\<rparr>]"
| "table_ranges db t s (c # cuts) =
     \<lparr>database_id = db, table_id = t, start_key = s, end_key = Some c\<rparr> # table_ranges db t (Some c) cuts"

lemma table_ranges_above:
  "sorted_wrt (<) (c # cuts) \<Longrightarrow> r \<in> set (table_ranges db t (Some c) cuts) \<Longrightarrow>
     within_range r db' t' k \<Longrightarrow> c \<le> k"
proof (induction cuts arbitrary: c)
  case (Cons d cuts)
  from Cons.prems(2) consider "r = \<lparr>database_id = db, table_id = t, start_key = Some c, end_key = Some d\<rparr>"
    | "r \<in> set (table_ranges db t (Some d) cuts)" by auto
  then show ?case
  proof cases
    case 1
    with Cons.prems(3) show ?thesis by (simp add: within_range_iff)
  next
    case 2
    from Cons.IH [OF _ this Cons.prems(3)] Cons.prems(1) have "d \<le> k" by simp
    moreover from Cons.prems(1) have "c < d" by simp
    ultimately show ?thesis by simp
  qed
qed (simp add: within_range_iff)

lemma ex1_nth_hd:
  assumes "P x" "\<And>y. y \<in> set xs \<Longrightarrow> \<not> P y"
  shows "\<exists>!i. i < length (x # xs) \<and> P ((x # xs) ! i)"
proof (rule ex1I [of _ 0])
  fix i assume i: "i < length (x # xs) \<and> P ((x # xs) ! i)"
  with assms(2) show "i = 0" by (cases i) auto
qed (use assms(1) in simp)

lemma ex1_nth_tl:
  assumes "\<not> P x" "\<exists>!i. i < length xs \<and> P (xs ! i)"
  shows "\<exists>!i. i < length (x # xs) \<and> P ((x # xs) ! i)"
proof -
  from assms(2) obtain i where i: "i < length xs" "P (xs ! i)"
    and uniq: "\<And>j. j < length xs \<Longrightarrow> P (xs ! j) \<Longrightarrow> j = i" by blast
  show ?thesis
  proof (rule ex1I [of _ "Suc i"])
    fix j assume j: "j < length (x # xs) \<and> P ((x # xs) ! j)"
    with assms(1) uniq show "j = Suc i" by (cases j) auto
  qed (use i in simp)
qed

lemma table_ranges_cover:
  assumes "sorted_wrt (<) cuts" "\<forall>c\<in>set cuts. \<forall>s'. s = Some s' \<longrightarrow> s' < c" "\<forall>s'. s = Some s' \<longrightarrow> s' \<le> k"
  shows "\<exists>!i. i < length (table_ranges db t s cuts) \<and> within_range (table_ranges db t s cuts ! i) db t k"
  using assms
proof (induction cuts arbitrary: s)
  case Nil
  then show ?case by (auto simp: within_range_iff intro!: ex1I [of _ 0])
next
  case (Cons c cuts)
  let ?rs = "table_ranges db t (Some c) cuts"
  show ?case
  proof (cases "k < c")
    case True
    have "\<not> within_range r db t k" if "r \<in> set ?rs" for r
      using table_ranges_above [OF Cons.prems(1) that] True by (meson leD)
    moreover have "within_range \<lparr>database_id = db, table_id = t, start_key = s, end_key = Some c\<rparr> db t k"
      using Cons.prems(3) True by (simp add: within_range_iff)
    ultimately show ?thesis unfolding table_ranges.simps by (intro ex1_nth_hd) auto
  next
    case False
    then have ck: "c \<le> k" by simp
    have "\<exists>!i. i < length ?rs \<and> within_range (?rs ! i) db t k"
      by (rule Cons.IH) (use Cons.prems(1) ck in auto)
    moreover have "\<not> within_range \<lparr>database_id = db, table_id = t, start_key = s, end_key = Some c\<rparr> db t k"
      using ck by (auto simp: within_range_iff)
    ultimately show ?thesis unfolding table_ranges.simps by (intro ex1_nth_tl)
  qed
qed

section \<open>Properties\<close>

text \<open>
  Conversions. Converting a range to a protocol buffer and back gives the range, a range read
  from a protocol buffer writes the same message again, and equality of ranges is equality of
  their messages.
\<close>

theorem range_round_trip:
  "convert_range (convert_range_object ksr) = ksr \<and>
   convert_range_object (convert_range p) = p \<and>
   (range_eq ksr ksr' \<longleftrightarrow> convert_range_object ksr = convert_range_object ksr')"
proof -
  have bk: "convert_range_object (convert_range p) = p" for p
    by (cases p; cases "pb_start_key p"; cases "pb_end_key p")
      (simp_all add: convert_range_object_def convert_range_def build_range_def
        default_pb_key_space_range_def pb_string_def Let_def)
  have forth: "convert_range (convert_range_object ksr) = ksr" for ksr
    by (simp add: convert_range_object_def)
  from bk forth show ?thesis by (metis range_eq_iff)
qed

text \<open>
  Routing. When a table is cut at increasing keys into ranges, each key of the table lies in
  exactly one of them, so a request has exactly one tablet.
\<close>

theorem cut_table_routes_once:
  assumes "sorted_wrt (<) cuts"
  shows "\<exists>!i. i < length (table_ranges db t None cuts) \<and> within_range (table_ranges db t None cuts ! i) db t k"
  by (rule table_ranges_cover) (use assms in auto)

theorem cut_table_routes_once_witness:
  "\<exists>!i. i < length (table_ranges ''db'' ''t'' None [''g'', ''p'']) \<and>
     within_range (table_ranges ''db'' ''t'' None [''g'', ''p''] ! i) ''db'' ''t'' ''hello''"
  by (rule cut_table_routes_once) simp

end
