(* ===== verification/ClientRequestHandler.thy ===== *)
theory ClientRequestHandler
  imports GuardedLog MultiPaxosHandler AsyncQueue KVStore KeySpaceRange
begin

text \<open>
  \<open>uni::slave::ClientRequestHandler\<close> (src/src/slave/ClientRequestHandler.cc) with the functor
  \<open>ClientRespond\<close> (src/src/slave/functors.h): a tablet's reads and writes. Callbacks on the Paxos
  log apply logged reads and writes to the key-value store and remember the index of each request;
  a request is a task that proposes an entry, waits, looks whether the entry was logged, and after
  three proposals gives up. The retry counter that the closure shares between its runs is a cell
  of \<open>retry_counts\<close>. \<open>to_wire\<close> is \<open>SerializeAsString\<close>, \<open>paxos_to_wire\<close> the same after the wrapper
  the owner of the handler gave its Paxos instances, \<open>rand\<close> the random engine.
\<close>

section \<open>State\<close>

text \<open>
  What the log's callbacks change: the store, the requests logged, and whatever else the owner of
  the handler keeps up to date with callbacks of its own.
\<close>

record 'o request_derived =
  kvs :: kvstore
  request_id_map :: "string \<rightharpoonup> index_t"
  owner :: 'o

record ('w, 'r, 'd) request_state =
  rs_random :: 'r
  rs_node :: "('w, 'd) paxos_node"
  rs_clients :: "'w connections"
  rs_retry_counts :: "int list"

definition RETRY_LIMIT :: int where "RETRY_LIMIT = 3"
definition WAIT_FOR_PAXOS :: int where "WAIT_FOR_PAXOS = 100"

section \<open>The log's callbacks\<close>

text \<open>\<open>entry.read()\<close> and \<open>entry.write()\<close> are default messages when the entry is of another kind.\<close>

fun read_entry :: "paxos_log_entry \<Rightarrow> string option \<times> string option \<times> 64 word option" where
  "read_entry (ReadEntry i k t) = (i, k, t)"
| "read_entry _ = (None, None, None)"

fun write_entry ::
  "paxos_log_entry \<Rightarrow> string option \<times> string option \<times> string option \<times> 64 word option" where
  "write_entry (WriteEntry i k v t) = (i, k, v, t)"
| "write_entry _ = (None, None, None, None)"

definition on_read :: "index_t \<Rightarrow> paxos_log_entry \<Rightarrow> 'o request_derived \<Rightarrow> 'o request_derived result" where
  "on_read index entry d =
     (let (request_id, k, timestamp) = read_entry entry;
          d1 = d\<lparr>request_id_map := map_insert (string_value request_id) index (request_id_map d)\<rparr>
      in Inr (d1\<lparr>kvs := snd (kv_read (string_value k) (uint64_value timestamp) (kvs d1))\<rparr>))"

definition on_write :: "index_t \<Rightarrow> paxos_log_entry \<Rightarrow> 'o request_derived \<Rightarrow> 'o request_derived result" where
  "on_write index entry d =
     (let (request_id, k, v, timestamp) = write_entry entry;
          d1 = d\<lparr>request_id_map := map_insert (string_value request_id) index (request_id_map d)\<rparr>
      in rbind (kv_write (string_value k) (string_value v) (uint64_value timestamp) (kvs d1)) (\<lambda>kv.
         Inr (d1\<lparr>kvs := kv\<rparr>)))"

text \<open>The registrations of the constructor.\<close>

definition ClientRequestHandler :: "'o request_derived paxos_log \<Rightarrow> 'o request_derived paxos_log" where
  "ClientRequestHandler pl = add_callback KWrite on_write (add_callback KRead on_read pl)"

section \<open>Answers\<close>

definition client_respond ::
  "(message_wrapper \<Rightarrow> 'w) \<Rightarrow> endpoint_id \<Rightarrow> client_response \<Rightarrow> 'w connections \<Rightarrow> 'w connections" where
  "client_respond to_wire endpoint response c =
     (case get_channel endpoint c of
        Some ch \<Rightarrow>
          c\<lparr>channels := update_channel endpoint
             (queue_send (to_wire (ClientMessage (ClientResponse response)))) (channels c)\<rparr>
      | None \<Rightarrow> c)"

definition respond ::
  "(message_wrapper \<Rightarrow> 'w) \<Rightarrow> endpoint_id \<Rightarrow> client_response \<Rightarrow> ('w, 'r, 'd) request_state
   \<Rightarrow> ('w, 'r, 'd) request_state" where
  "respond to_wire endpoint response s = s\<lparr>rs_clients := client_respond to_wire endpoint response (rs_clients s)\<rparr>"

definition error_response :: client_response where
  "error_response = \<lparr>response_value = None, response_code = ERROR\<rparr>"

definition unknown_request_type :: uni_error where
  "unknown_request_type = UniversalException ''Client request type should be READ or WRITE''"

text \<open>
  The branch of a request that was logged at \<open>index\<close>. A read reads the store again, which may
  raise the last access time. \<open>get()\<close> of an empty optional is undefined.
\<close>

definition fulfilled ::
  "client_request \<Rightarrow> index_t \<Rightarrow> ('w, 'r, 'o request_derived) request_state
   \<Rightarrow> (client_response \<times> ('w, 'r, 'o request_derived) request_state) result" where
  "fulfilled message index s =
     (if cr_request_type message = READ then
        case get_entry (node_log (rs_node s)) index of
          None \<Rightarrow> Inl UndefinedBehaviour
        | Some entry \<Rightarrow>
            let (request_id, k, timestamp) = read_entry entry; d = node_derived (rs_node s);
                (v, kv) = kv_read (string_value k) (uint64_value timestamp) (kvs d);
                s' = s\<lparr>rs_node := (rs_node s)\<lparr>node_derived := d\<lparr>kvs := kv\<rparr>\<rparr>\<rparr>
            in Inr (if v \<noteq> None
                    then \<lparr>response_value = v, response_code = SUCCESS\<rparr>
                    else error_response, s')
      else if cr_request_type message = WRITE then
        Inr (\<lparr>response_value = None, response_code = SUCCESS\<rparr>, s)
      else Inl unknown_request_type)"

section \<open>The task of a request\<close>

text \<open>The entry proposed; an absent value or timestamp is sent as an empty wrapper.\<close>

definition request_entry :: "client_request \<Rightarrow> paxos_log_entry result" where
  "request_entry message =
     (if cr_request_type message = WRITE then
        Inr (WriteEntry (pb_string (cr_request_id message)) (pb_string (cr_key message))
          (pb_string (string_value (cr_value message))) (pb_uint64 (uint64_value (cr_timestamp message))))
      else if cr_request_type message = READ then
        Inr (ReadEntry (pb_string (cr_request_id message)) (pb_string (cr_key message))
          (pb_uint64 (uint64_value (cr_timestamp message))))
      else Inl unknown_request_type)"

text \<open>\<open>timestamp <= lat\<close> against an optional: nothing is less than or equal to none.\<close>

definition in_the_past :: "client_request \<Rightarrow> kvstore \<Rightarrow> bool" where
  "in_the_past message kv =
     (case read_lat (cr_key message) kv of None \<Rightarrow> False | Some l \<Rightarrow> uint64_value (cr_timestamp message) \<le> l)"

text \<open>\<open>rand_uniform\<close> is drawn inside \<open>propose\<close>.\<close>

definition request_propose ::
  "(paxos_message \<Rightarrow> 'w) \<Rightarrow> 'd instance_provider \<Rightarrow> ('r \<Rightarrow> 32 word \<times> 'r) \<Rightarrow> paxos_log_entry
   \<Rightarrow> ('w, 'r, 'd) request_state \<Rightarrow> ('w, 'r, 'd) request_state result" where
  "request_propose paxos_to_wire provider rand entry s =
     (let (draw, r) = rand (rs_random s)
      in rbind (multi_propose paxos_to_wire provider draw entry (rs_node s)) (\<lambda>nd.
         Inr (s\<lparr>rs_random := r, rs_node := nd\<rparr>)))"

lemma request_propose_node:
  "request_propose pw provider rand e s = Inr s' \<Longrightarrow>
     \<exists>draw. multi_propose pw provider draw e (rs_node s) = Inr (rs_node s') \<and>
       rs_clients s' = rs_clients s \<and> rs_retry_counts s' = rs_retry_counts s"
  by (auto simp: request_propose_def Let_def rbind_eq_Inr split: prod.splits)

definition request_task ::
  "(message_wrapper \<Rightarrow> 'w) \<Rightarrow> (paxos_message \<Rightarrow> 'w) \<Rightarrow> 'o request_derived instance_provider
   \<Rightarrow> ('r \<Rightarrow> 32 word \<times> 'r) \<Rightarrow> nat \<Rightarrow> client_request \<Rightarrow> endpoint_id
   \<Rightarrow> ('w, 'r, 'o request_derived) request_state async_task" where
  "request_task to_wire paxos_to_wire provider rand retry_count message endpoint s =
     (case request_id_map (node_derived (rs_node s)) (cr_request_id message) of
        Some index \<Rightarrow>
          rbind (fulfilled message index s) (\<lambda>(response, s').
          Inr (TERMINATE, respond to_wire endpoint response s'))
      | None \<Rightarrow>
          if rs_retry_counts s ! retry_count = RETRY_LIMIT then
            Inr (TERMINATE, respond to_wire endpoint error_response s)
          else if cr_request_type message = WRITE \<and> in_the_past message (kvs (node_derived (rs_node s))) then
            Inr (TERMINATE, respond to_wire endpoint error_response s)
          else
            rbind (request_entry message) (\<lambda>entry.
            rbind (request_propose paxos_to_wire provider rand entry s) (\<lambda>s'.
            Inr (WAIT_FOR_PAXOS,
              s'\<lparr>rs_retry_counts := (rs_retry_counts s')[retry_count := rs_retry_counts s' ! retry_count + 1]\<rparr>))))"

definition handle_request ::
  "(message_wrapper \<Rightarrow> 'w) \<Rightarrow> (paxos_message \<Rightarrow> 'w) \<Rightarrow> 'o request_derived instance_provider
   \<Rightarrow> ('r \<Rightarrow> 32 word \<times> 'r) \<Rightarrow> endpoint_id \<Rightarrow> client_request
   \<Rightarrow> ('w, 'r, 'o request_derived) request_state async_queue \<times> ('w, 'r, 'o request_derived) request_state
   \<Rightarrow> ('w, 'r, 'o request_derived) request_state async_queue \<times> ('w, 'r, 'o request_derived) request_state" where
  "handle_request to_wire paxos_to_wire provider rand endpoint message x =
     (let (q, s) = x; retry_count = length (rs_retry_counts s);
          s' = s\<lparr>rs_retry_counts := rs_retry_counts s @ [0]\<rparr>
      in (add_task (request_task to_wire paxos_to_wire provider rand retry_count message endpoint) q, s'))"

section \<open>What a log makes of the state\<close>

definition request_callbacks :: "content_case \<Rightarrow> 'o request_derived log_callback list" where
  "request_callbacks = callbacks (ClientRequestHandler PaxosLog)"

lemma request_callbacks_simps [simp]:
  "request_callbacks KRead = [on_read]" "request_callbacks KWrite = [on_write]"
  "cc \<noteq> KRead \<Longrightarrow> cc \<noteq> KWrite \<Longrightarrow> request_callbacks cc = []"
  by (simp_all add: request_callbacks_def ClientRequestHandler_def add_callback_def PaxosLog_def)

text \<open>The requests and the writes of a log, in its order.\<close>

fun entry_request_id :: "paxos_log_entry \<Rightarrow> string option" where
  "entry_request_id (ReadEntry i k t) = Some (string_value i)"
| "entry_request_id (WriteEntry i k v t) = Some (string_value i)"
| "entry_request_id _ = None"

fun entry_versions :: "paxos_log_entry \<Rightarrow> string \<Rightarrow> version_entry list" where
  "entry_versions (WriteEntry i k v t) key =
     (if string_value k = key then [\<lparr>ve_timestamp = uint64_value t, ve_value = string_value v\<rparr>] else [])"
| "entry_versions _ key = []"

definition logged_writes :: "(index_t \<rightharpoonup> paxos_log_entry) \<Rightarrow> index_t \<Rightarrow> string \<Rightarrow> version_entry list" where
  "logged_writes m n key = concat (map (\<lambda>i. entry_versions (the (m i)) key) (word_upt 0 n))"

definition logged_request :: "(index_t \<rightharpoonup> paxos_log_entry) \<Rightarrow> index_t \<Rightarrow> string \<Rightarrow> index_t option" where
  "logged_request m n r = find (\<lambda>i. entry_request_id (the (m i)) = Some r) (word_upt 0 n)"

definition stored_versions :: "kvstore \<Rightarrow> string \<Rightarrow> version_entry list" where
  "stored_versions kv key = (case kv key of None \<Rightarrow> [] | Some e \<Rightarrow> versions e)"

lemma snapshot_stored: "snapshot kv key t = newest (stored_versions kv key) t"
  by (simp add: snapshot_def stored_versions_def newest_def split: option.splits)

lemma stored_versions_read [simp]:
  "stored_versions (snd (kv_read k t kv)) key = stored_versions kv key"
  by (auto simp: kv_read_def stored_versions_def Let_def split: option.splits)

lemma stored_versions_write:
  "kv_write k v t kv = Inr kv' \<Longrightarrow> stored_versions kv' key =
     stored_versions kv key @ (if k = key then [\<lparr>ve_timestamp = t, ve_value = v\<rparr>] else [])"
  by (auto simp: kv_write_def stored_versions_def rbind_eq_Inr split: option.splits)

lemma logged_succ:
  assumes "i < j"
  shows "logged_writes m (i + 1) key = logged_writes m i key @ entry_versions (the (m i)) key"
    and "logged_request m (i + 1) r =
      (case logged_request m i r of Some k \<Rightarrow> Some k
       | None \<Rightarrow> if entry_request_id (the (m i)) = Some r then Some i else None)"
proof -
  have "i \<le> i + 1" using below_succ [OF assms] by simp
  then have "word_upt 0 (i + 1) = word_upt 0 i @ [i]"
    using word_upt_append [of 0 i "i + 1"] word_upt_succ [OF assms] by simp
  then show "logged_writes m (i + 1) key = logged_writes m i key @ entry_versions (the (m i)) key"
    "logged_request m (i + 1) r =
      (case logged_request m i r of Some k \<Rightarrow> Some k
       | None \<Rightarrow> if entry_request_id (the (m i)) = Some r then Some i else None)"
    by (auto simp: logged_writes_def logged_request_def find_append split: option.splits)
qed

section \<open>Checked requests\<close>

text \<open>The check of the handler, as a predicate on the replayed state and the entry.\<close>

definition request_guard :: "'o request_derived \<Rightarrow> paxos_log_entry \<Rightarrow> bool" where
  "request_guard d e =
     (case e of
        WriteEntry i k v t \<Rightarrow>
          (case read_lat (string_value k) (kvs d) of None \<Rightarrow> True | Some l \<Rightarrow> l < uint64_value t)
      | _ \<Rightarrow> True)"

text \<open>
  A local state is ahead of the replay when its last accesses are: answering a read may raise
  them (see \<open>fulfilled\<close>), nothing lowers them.
\<close>

definition ahead :: "'o request_derived \<Rightarrow> 'o request_derived \<Rightarrow> bool" where
  "ahead d d0 \<longleftrightarrow> (\<forall>k l. read_lat k (kvs d0) = Some l \<longrightarrow> (\<exists>l'. read_lat k (kvs d) = Some l' \<and> l \<le> l'))"

lemma ahead_refl [simp]: "ahead d d"
  by (auto simp: ahead_def)

lemma ahead_fulfilled:
  assumes "fulfilled message index s = Inr (response, s')" "kv_inv (kvs (node_derived (rs_node s)))"
    "ahead (node_derived (rs_node s)) d0"
  shows "ahead (node_derived (rs_node s')) d0"
proof -
  have "\<exists>l'. read_lat k (kvs (node_derived (rs_node s'))) = Some l' \<and> l \<le> l'"
    if l: "read_lat k (kvs d0) = Some l" for k l
  proof -
    from assms(3) l obtain l1 where l1: "read_lat k (kvs (node_derived (rs_node s))) = Some l1" "l \<le> l1"
      by (auto simp: ahead_def)
    with assms(1) kv.get_access [OF assms(2)] show ?thesis
      by (auto simp: fulfilled_def Let_def le_max_iff_disj split: if_splits option.splits prod.splits)
        (metis (no_types, lifting) le_max_iff_disj option.map(2) snd_conv)+
  qed
  then show ?thesis by (auto simp: ahead_def)
qed

text \<open>Apart from the last accesses, such a state is the replay.\<close>

definition follows :: "'o request_derived \<Rightarrow> 'o request_derived \<Rightarrow> bool" where
  "follows d d0 \<longleftrightarrow> kv_inv (kvs d) \<and> kv_inv (kvs d0) \<and>
     (\<forall>k. stored_versions (kvs d) k = stored_versions (kvs d0) k) \<and>
     request_id_map d = request_id_map d0 \<and> owner d = owner d0 \<and> ahead d d0"

lemma follows_refl: "kv_inv (kvs d) \<Longrightarrow> follows d d"
  by (simp add: follows_def)

lemma fulfilled_state:
  assumes "fulfilled message index s = Inr (response, s')"
  shows "\<exists>kv. s' = s\<lparr>rs_node := (rs_node s)\<lparr>node_derived := (node_derived (rs_node s))\<lparr>kvs := kv\<rparr>\<rparr>\<rparr> \<and>
    (kv = kvs (node_derived (rs_node s)) \<or> (\<exists>k t. kv = snd (kv_read k t (kvs (node_derived (rs_node s))))))"
proof (cases "cr_request_type message")
  case READ
  with assms show ?thesis
    by (auto simp: fulfilled_def Let_def split: if_splits option.splits prod.splits) (metis snd_conv)+
next
  case WRITE
  with assms have "s' = s" by (auto simp: fulfilled_def)
  then show ?thesis by (intro exI [of _ "kvs (node_derived (rs_node s))"]) simp
qed (use assms in \<open>simp add: fulfilled_def\<close>)

lemma follows_fulfilled:
  assumes "fulfilled message index s = Inr (response, s')" "follows (node_derived (rs_node s)) d0"
  shows "follows (node_derived (rs_node s')) d0"
proof -
  have "ahead (node_derived (rs_node s')) d0"
    by (rule ahead_fulfilled [OF assms(1)]) (use assms(2) in \<open>simp_all add: follows_def\<close>)
  with fulfilled_state [OF assms(1)] assms(2) show ?thesis
    by (auto simp: follows_def read_inv)
qed

lemma task_proposes:
  assumes "request_task to_wire pw provider rand rc message endpoint s = Inr (w, s')" "w \<noteq> TERMINATE"
  shows "w = WAIT_FOR_PAXOS \<and> request_id_map (node_derived (rs_node s)) (cr_request_id message) = None \<and>
    rs_retry_counts s ! rc \<noteq> RETRY_LIMIT \<and>
    (\<exists>e s1. request_entry message = Inr e \<and> request_guard (node_derived (rs_node s)) e \<and>
      request_propose pw provider rand e s = Inr s1 \<and>
      s' = s1\<lparr>rs_retry_counts := (rs_retry_counts s1)[rc := rs_retry_counts s1 ! rc + 1]\<rparr>)"
  using assms
  by (auto simp: request_task_def rbind_eq_Inr request_guard_def request_entry_def in_the_past_def
      pb_string_def pb_uint64_def not_le split: option.splits if_splits prod.splits)

lemma guard_ahead: "request_guard d e \<Longrightarrow> ahead d d0 \<Longrightarrow> request_guard d0 e"
  unfolding request_guard_def ahead_def
  by (auto split: paxos_log_entry.splits option.splits) (fastforce intro: le_less_trans)+

lemma newest_nonempty: "newest vs t = Some v \<Longrightarrow> vs \<noteq> []"
  by (auto simp: newest_def)

section \<open>A log with these callbacks\<close>

text \<open>
  The handler's owner may register further callbacks, as long as they run on entries of other kinds
  and touch the owner's part of the state alone. What follows holds for every such log.
\<close>

locale request_log =
  fixes cbs :: "content_case \<Rightarrow> 'o request_derived log_callback list"
    and owner_step :: "index_t \<Rightarrow> paxos_log_entry \<Rightarrow> 'o \<Rightarrow> 'o result"
  assumes cbs_read: "cbs KRead = [on_read]"
    and cbs_write: "cbs KWrite = [on_write]"
    and cbs_other: "entry_content_case e \<noteq> KRead \<Longrightarrow> entry_content_case e \<noteq> KWrite \<Longrightarrow>
      apply_entry cbs i e d = rbind (owner_step i e (owner d)) (\<lambda>ow. Inr (d\<lparr>owner := ow\<rparr>))"
begin

lemma apply_request_entry:
  "apply_entry cbs i e d =
     (if entry_content_case e = KRead then on_read i e d
      else if entry_content_case e = KWrite then on_write i e d
      else rbind (owner_step i e (owner d)) (\<lambda>ow. Inr (d\<lparr>owner := ow\<rparr>)))"
proof -
  consider "entry_content_case e = KRead" | "entry_content_case e = KWrite"
    | "entry_content_case e \<noteq> KRead" "entry_content_case e \<noteq> KWrite" by blast
  then show ?thesis
  proof cases
    case 1
    then show ?thesis by (cases "on_read i e d") (simp_all add: apply_entry_def cbs_read)
  next
    case 2
    then show ?thesis by (cases "on_write i e d") (simp_all add: apply_entry_def cbs_write)
  qed (simp add: cbs_other)
qed

text \<open>One entry appends its write and records its request, unless it is known.\<close>

lemma apply_request_entry_effect:
  assumes "apply_entry cbs i e d = Inr d'"
  shows "stored_versions (kvs d') key = stored_versions (kvs d) key @ entry_versions e key \<and>
    request_id_map d' r =
      (case request_id_map d r of Some j \<Rightarrow> Some j
       | None \<Rightarrow> if entry_request_id e = Some r then Some i else None) \<and>
    (kv_inv (kvs d) \<longrightarrow> kv_inv (kvs d'))"
proof (cases e)
  case (ReadEntry ri k t)
  with assms show ?thesis
    by (auto simp: apply_request_entry on_read_def Let_def map_insert_def read_inv split: option.splits)
next
  case (WriteEntry ri k v t)
  with assms obtain kv where "kv_write (string_value k) (string_value v) (uint64_value t) (kvs d) = Inr kv"
    "d' = d\<lparr>request_id_map := map_insert (string_value ri) i (request_id_map d), kvs := kv\<rparr>"
    by (auto simp: apply_request_entry on_write_def Let_def rbind_eq_Inr)
  with WriteEntry show ?thesis
    by (auto simp: stored_versions_write map_insert_def kv_write_inv split: option.splits)
qed (use assms in \<open>auto simp: apply_request_entry rbind_eq_Inr split: option.splits\<close>)

lemma replay_is_history:
  assumes "replay cbs m n d0 = Inr d" "kvs d0 = Map.empty" "request_id_map d0 = Map.empty"
  shows "stored_versions (kvs d) key = logged_writes m n key \<and>
    request_id_map d r = logged_request m n r \<and> kv_inv (kvs d)"
proof -
  have "\<forall>d. replay cbs m n d0 = Inr d \<longrightarrow>
      stored_versions (kvs d) key = logged_writes m n key \<and>
      request_id_map d r = logged_request m n r \<and> kv_inv (kvs d)"
  proof (rule word_induct_below [where j = n])
    show "\<forall>d. replay cbs m 0 d0 = Inr d \<longrightarrow>
        stored_versions (kvs d) key = logged_writes m 0 key \<and>
        request_id_map d r = logged_request m 0 r \<and> kv_inv (kvs d)"
      by (simp add: assms(2,3) logged_writes_def logged_request_def stored_versions_def)
    fix i
    assume i: "i < n" and IH: "\<forall>d. replay cbs m i d0 = Inr d \<longrightarrow>
        stored_versions (kvs d) key = logged_writes m i key \<and>
        request_id_map d r = logged_request m i r \<and> kv_inv (kvs d)"
    show "\<forall>d. replay cbs m (i + 1) d0 = Inr d \<longrightarrow>
        stored_versions (kvs d) key = logged_writes m (i + 1) key \<and>
        request_id_map d r = logged_request m (i + 1) r \<and> kv_inv (kvs d)"
    proof (intro allI impI)
      fix d assume "replay cbs m (i + 1) d0 = Inr d"
      then obtain d1 where d1: "replay cbs m i d0 = Inr d1"
        "apply_entry cbs i (the (m i)) d1 = Inr d"
        by (auto simp: replay_step [OF i] rbind_eq_Inr)
      with IH apply_request_entry_effect [OF d1(2), of key r]
      show "stored_versions (kvs d) key = logged_writes m (i + 1) key \<and>
          request_id_map d r = logged_request m (i + 1) r \<and> kv_inv (kvs d)"
        by (simp add: logged_succ [OF i])
    qed
  qed
  with assms(1) show ?thesis by simp
qed

lemma guarded_request_applies:
  assumes "request_guard d e" and "entry_content_case e = KRead \<or> entry_content_case e = KWrite"
  shows "is_ok (apply_entry cbs i e d)"
proof (cases e)
  case (WriteEntry ri k v t)
  with assms(1) have "is_ok (kv_write (string_value k) (string_value v) (uint64_value t) (kvs d))"
    by (auto simp: kv.put_ok request_guard_def split: option.splits)
  with WriteEntry show ?thesis
    by (auto simp: apply_request_entry on_write_def Let_def is_ok_iff rbind_eq_Inr)
qed (use assms(2) in \<open>simp_all add: apply_request_entry on_read_def Let_def\<close>)

lemma follows_apply:
  assumes "apply_entry cbs i e d = Inr d'" "follows d d0"
  shows "\<exists>d0'. apply_entry cbs i e d0 = Inr d0' \<and> follows d' d0'"
proof (cases e)
  case (ReadEntry ri k t)
  let ?k = "string_value k" and ?t = "uint64_value t"
  have inv: "kv_inv (kvs d)" "kv_inv (kvs d0)" and vs: "\<And>k. stored_versions (kvs d) k = stored_versions (kvs d0) k"
    using assms(2) by (auto simp: follows_def)
  then have found: "fst (kv_read ?k ?t (kvs d)) = fst (kv_read ?k ?t (kvs d0))"
    by (simp add: read_eq snapshot_stored)
  from assms(1) ReadEntry have d': "d' = d\<lparr>request_id_map := map_insert (string_value ri) i (request_id_map d),
      kvs := snd (kv_read ?k ?t (kvs d))\<rparr>"
    by (auto simp: apply_request_entry on_read_def Let_def)
  let ?d0' = "d0\<lparr>request_id_map := map_insert (string_value ri) i (request_id_map d0),
      kvs := snd (kv_read ?k ?t (kvs d0))\<rparr>"
  have "\<exists>l'. read_lat k' (snd (kv_read ?k ?t (kvs d))) = Some l' \<and> l \<le> l'"
    if l: "read_lat k' (snd (kv_read ?k ?t (kvs d0))) = Some l" for k' l
  proof -
    from l kv.get_access [OF inv(2), of k' ?k ?t] obtain l0 where
      l0: "read_lat k' (kvs d0) = Some l0" "l = (if k' = ?k \<and> fst (kv_read ?k ?t (kvs d0)) \<noteq> None then max ?t l0 else l0)"
      by (auto split: if_splits)
    from assms(2) l0(1) obtain l1 where "read_lat k' (kvs d) = Some l1" "l0 \<le> l1"
      unfolding follows_def ahead_def by blast
    with kv.get_access [OF inv(1), of k' ?k ?t] l0(2) found show ?thesis
      by (auto simp: le_max_iff_disj split: if_splits)
  qed
  then have "ahead d' ?d0'" by (simp add: ahead_def d')
  moreover have "apply_entry cbs i e d0 = Inr ?d0'"
    using ReadEntry by (simp add: apply_request_entry on_read_def Let_def)
  ultimately show ?thesis using assms(2) inv by (auto simp: follows_def d' read_inv)
next
  case (WriteEntry ri k v t)
  let ?k = "string_value k" and ?v = "string_value v" and ?t = "uint64_value t"
  from assms(1) WriteEntry obtain kv where kv: "kv_write ?k ?v ?t (kvs d) = Inr kv"
    "d' = d\<lparr>request_id_map := map_insert (string_value ri) i (request_id_map d), kvs := kv\<rparr>"
    by (auto simp: apply_request_entry on_write_def Let_def rbind_eq_Inr)
  have "\<forall>l. read_lat ?k (kvs d0) = Some l \<longrightarrow> l < ?t"
    using assms(2) kv.put_above [OF kv(1)] unfolding follows_def ahead_def by (meson order.strict_trans1)
  then obtain kv0 where kv0: "kv_write ?k ?v ?t (kvs d0) = Inr kv0"
    using kv.put_ok [of ?k ?v ?t "kvs d0"] by (auto simp: is_ok_iff)
  let ?d0' = "d0\<lparr>request_id_map := map_insert (string_value ri) i (request_id_map d0), kvs := kv0\<rparr>"
  have "apply_entry cbs i e d0 = Inr ?d0'"
    using WriteEntry kv0 by (simp add: apply_request_entry on_write_def Let_def)
  moreover have "follows d' ?d0'"
    using assms(2) kv(2) stored_versions_write [OF kv(1)] stored_versions_write [OF kv0]
      kv.put_access [OF kv(1)] kv.put_access [OF kv0] kv_write_inv [OF kv(1)] kv_write_inv [OF kv0]
    by (auto simp: follows_def ahead_def)
  ultimately show ?thesis by blast
qed (use assms in \<open>auto simp: apply_request_entry rbind_eq_Inr follows_def ahead_def\<close>)

text \<open>Once a key exists and its last access has reached a time, further entries keep its answer then.\<close>

lemma apply_entry_keeps_answer:
  assumes "apply_entry cbs i e d = Inr d'" "kv_inv (kvs d)"
    and "kvs d key = Some x" "t \<le> lat x"
  shows "\<exists>x'. kvs d' key = Some x' \<and> t \<le> lat x' \<and> newest (versions x') t = newest (versions x) t"
proof (cases e)
  case (ReadEntry ri k u)
  with assms(1) have "kv_step (ReadOp (string_value k) (uint64_value u)) (kvs d) = Inr (kvs d')"
    by (auto simp: apply_request_entry on_read_def Let_def)
  from step_keeps_snapshot [OF this assms(2-4)] show ?thesis .
next
  case (WriteEntry ri k v u)
  with assms(1) have "kv_step (WriteOp (string_value k) (string_value v) (uint64_value u)) (kvs d) = Inr (kvs d')"
    by (auto simp: apply_request_entry on_write_def Let_def rbind_eq_Inr)
  from step_keeps_snapshot [OF this assms(2-4)] show ?thesis .
qed (use assms in \<open>auto simp: apply_request_entry rbind_eq_Inr\<close>)

lemma apply_range_keeps_answer:
  assumes "apply_range cbs m i n d = Inr d'" "kv_inv (kvs d)" "kvs d key = Some x" "t \<le> lat x"
  shows "snapshot (kvs d') key t = newest (versions x) t"
proof -
  let ?P = "\<lambda>d. kv_inv (kvs d) \<and>
    (\<exists>x'. kvs d key = Some x' \<and> t \<le> lat x' \<and> newest (versions x') t = newest (versions x) t)"
  have "?P d'"
    by (rule rfold_invariant [OF assms(1) [unfolded apply_range_def], where P = ?P])
      (use assms(2-4) in \<open>auto dest: apply_request_entry_effect apply_entry_keeps_answer\<close>)
  then show ?thesis by (auto simp: snapshot_def)
qed

lemma logged_read_keeps_answer:
  assumes rep: "replay cbs m n d0 = Inr d" and d0: "kvs d0 = Map.empty" "request_id_map d0 = Map.empty"
    and j: "j < n" "m j = Some (ReadEntry r (Some k) (Some t))" and v: "newest (logged_writes m j k) t = Some v"
  shows "newest (logged_writes m n k) t = Some v"
proof -
  have jn: "j + 1 \<le> n" using j(1) by (rule inc_le)
  from rep replay_append [OF jn, of cbs m d0] obtain d1 where
    d1: "replay cbs m (j + 1) d0 = Inr d1" "apply_range cbs m (j + 1) n d1 = Inr d"
    by (auto simp: rbind_eq_Inr)
  then obtain dj where dj: "replay cbs m j d0 = Inr dj" "apply_entry cbs j (the (m j)) dj = Inr d1"
    by (auto simp: replay_step [OF j(1)] rbind_eq_Inr)
  note hj = replay_is_history [OF dj(1) d0, of k] and h1 = replay_is_history [OF d1(1) d0, of k]
  from hj v have "stored_versions (kvs dj) k \<noteq> []" using newest_nonempty by metis
  then obtain x where x: "kvs dj k = Some x" by (auto simp: stored_versions_def split: option.splits)
  from dj(2) j(2) have kv1: "kvs d1 = snd (kv_read k t (kvs dj))"
    by (auto simp: apply_request_entry on_read_def Let_def)
  from hj have "kv_inv (kvs dj)" by blast
  from read_closes [OF this x, of t] obtain x1 where
    x1: "kvs d1 k = Some x1" "t \<le> lat x1" "versions x1 = versions x" unfolding kv1 by blast
  from h1 have "kv_inv (kvs d1)" by blast
  from apply_range_keeps_answer [OF d1(2) this x1(1,2)] have "snapshot (kvs d) k t = newest (versions x) t"
    by (simp add: x1(3))
  moreover have "newest (versions x) t = Some v" using hj v x by (simp add: stored_versions_def)
  ultimately show ?thesis using replay_is_history [OF rep d0, of k] by (simp add: snapshot_stored)
qed

lemma read_answer:
  assumes "replay cbs (log (node_log (rs_node s))) n d0 = Inr d" and "follows (node_derived (rs_node s)) d"
    and "kvs d0 = Map.empty" and "request_id_map d0 = Map.empty"
    and "cr_request_type message = READ"
    and "request_id_map (node_derived (rs_node s)) (cr_request_id message) = Some j" and "j < n"
    and "log (node_log (rs_node s)) j = Some (ReadEntry r (Some k) (Some t))"
  shows "(\<exists>s'. request_task to_wire pw provider rand rc message endpoint s =
      Inr (TERMINATE, respond to_wire endpoint
        (case newest (logged_writes (log (node_log (rs_node s))) n k) t of
           None \<Rightarrow> error_response | Some v \<Rightarrow> \<lparr>response_value = Some v, response_code = SUCCESS\<rparr>) s')) \<and>
    (\<forall>v. newest (logged_writes (log (node_log (rs_node s))) j k) t = Some v \<longrightarrow>
       newest (logged_writes (log (node_log (rs_node s))) n k) t = Some v)"
proof -
  let ?d = "node_derived (rs_node s)" and ?m = "log (node_log (rs_node s))"
  note h = replay_is_history [OF assms(1,3,4), of k]
  have "fst (kv_read k t (kvs ?d)) = newest (logged_writes ?m n k) t"
    using h assms(2) by (simp add: read_eq snapshot_stored follows_def)
  then have "kv_read k t (kvs ?d) = (newest (logged_writes ?m n k) t, snd (kv_read k t (kvs ?d)))"
    by (metis prod.collapse)
  with assms(5,6,8) have "\<exists>s'. request_task to_wire pw provider rand rc message endpoint s =
      Inr (TERMINATE, respond to_wire endpoint
        (case newest (logged_writes ?m n k) t of
           None \<Rightarrow> error_response | Some v \<Rightarrow> \<lparr>response_value = Some v, response_code = SUCCESS\<rparr>) s')"
    by (auto simp: request_task_def fulfilled_def get_entry_def Let_def split: option.splits prod.splits)
  with logged_read_keeps_answer [OF assms(1,3,4,7,8)] show ?thesis by blast
qed

end

interpretation handler_log: request_log request_callbacks "\<lambda>i e ow. Inr ow"
  by unfold_locales (auto simp: apply_entry_def)

text \<open>Without further callbacks the check alone is enough.\<close>

interpretation requests: guarded_client request_callbacks request_guard
proof
  fix d :: "'o request_derived" and e i
  assume "request_guard d e"
  then show "is_ok (apply_entry request_callbacks i e d)"
    using handler_log.guarded_request_applies [of d e i]
    by (cases e) (simp_all add: handler_log.apply_request_entry)
qed

section \<open>The runs of one task\<close>

text \<open>
  A task runs, and as long as it does not return \<open>TERMINATE\<close> other code of the server runs (the
  functions of the list) before its timer fires again. Of each run: the value returned, the state
  it found and the state it left.
\<close>

fun task_runs :: "'s async_task \<Rightarrow> ('s \<Rightarrow> 's) list \<Rightarrow> 's \<Rightarrow> (int \<times> 's \<times> 's) list result" where
  "task_runs t [] s = rbind (t s) (\<lambda>(w, s'). Inr [(w, s, s')])"
| "task_runs t (f # fs) s = rbind (t s) (\<lambda>(w, s').
     if w = TERMINATE then Inr [(w, s, s')]
     else rbind (task_runs t fs (f s')) (\<lambda>runs. Inr ((w, s, s') # runs)))"

text \<open>What a run that waits does, and a run that answers.\<close>

definition proposing_run ::
  "(paxos_message \<Rightarrow> 'w) \<Rightarrow> 'o request_derived instance_provider \<Rightarrow> ('r \<Rightarrow> 32 word \<times> 'r) \<Rightarrow> nat \<Rightarrow> client_request
   \<Rightarrow> int \<times> ('w, 'r, 'o request_derived) request_state \<times> ('w, 'r, 'o request_derived) request_state \<Rightarrow> bool" where
  "proposing_run pw provider rand rc message x \<longleftrightarrow>
     (case x of (w, s, s') \<Rightarrow> w = WAIT_FOR_PAXOS \<and> rs_clients s' = rs_clients s \<and>
        rs_retry_counts s' = (rs_retry_counts s)[rc := rs_retry_counts s ! rc + 1] \<and>
        (\<exists>entry s1. request_entry message = Inr entry \<and> request_propose pw provider rand entry s = Inr s1 \<and> rs_node s' = rs_node s1))"

definition answering_run ::
  "(message_wrapper \<Rightarrow> 'w) \<Rightarrow> nat \<Rightarrow> client_request \<Rightarrow> endpoint_id
   \<Rightarrow> int \<times> ('w, 'r, 'o request_derived) request_state \<times> ('w, 'r, 'o request_derived) request_state \<Rightarrow> bool" where
  "answering_run to_wire rc message endpoint x \<longleftrightarrow>
     (case x of (w, s, s') \<Rightarrow> w = TERMINATE \<and>
        (case request_id_map (node_derived (rs_node s)) (cr_request_id message) of
           Some index \<Rightarrow> \<exists>response s1. fulfilled message index s = Inr (response, s1) \<and> s' = respond to_wire endpoint response s1
         | None \<Rightarrow> s' = respond to_wire endpoint error_response s \<and>
             (rs_retry_counts s ! rc = RETRY_LIMIT \<or>
              cr_request_type message = WRITE \<and> in_the_past message (kvs (node_derived (rs_node s))))))"

lemma request_task_run:
  assumes "request_task to_wire pw provider rand rc message endpoint s = Inr (w, s')"
  shows "answering_run to_wire rc message endpoint (w, s, s') \<or>
    proposing_run pw provider rand rc message (w, s, s') \<and> rs_retry_counts s ! rc \<noteq> RETRY_LIMIT"
proof (cases "request_id_map (node_derived (rs_node s)) (cr_request_id message)")
  case (Some index)
  with assms show ?thesis by (auto simp: request_task_def answering_run_def rbind_eq_Inr)
next
  case None
  show ?thesis
  proof (cases "rs_retry_counts s ! rc = RETRY_LIMIT \<or> cr_request_type message = WRITE \<and> in_the_past message (kvs (node_derived (rs_node s)))")
    case True
    with None assms show ?thesis by (auto simp: request_task_def answering_run_def split: if_splits)
  next
    case False
    with None assms obtain entry s1 where e: "request_entry message = Inr entry" "request_propose pw provider rand entry s = Inr s1"
      and s': "w = WAIT_FOR_PAXOS" "s' = s1\<lparr>rs_retry_counts := (rs_retry_counts s1)[rc := rs_retry_counts s1 ! rc + 1]\<rparr>"
      by (auto simp: request_task_def rbind_eq_Inr split: if_splits)
    from request_propose_node [OF e(2)] have "rs_clients s1 = rs_clients s" "rs_retry_counts s1 = rs_retry_counts s" by auto
    with e s' False show ?thesis unfolding proposing_run_def by auto
  qed
qed

lemma task_runs_bound:
  assumes "task_runs (request_task to_wire pw provider rand rc message endpoint) fs s = Inr runs"
    and "rc < length (rs_retry_counts s)" "rs_retry_counts s ! rc = RETRY_LIMIT - int n" "n \<le> length fs"
    and "\<forall>f\<in>set fs. \<forall>s. length (rs_retry_counts s) \<le> length (rs_retry_counts (f s)) \<and>
      rs_retry_counts (f s) ! rc = rs_retry_counts s ! rc"
  shows "\<exists>ps x. runs = ps @ [x] \<and> length ps \<le> n \<and> answering_run to_wire rc message endpoint x \<and>
    (\<forall>p\<in>set ps. proposing_run pw provider rand rc message p)"
  using assms
proof (induction fs arbitrary: s runs n)
  case Nil
  then obtain w s' where w: "request_task to_wire pw provider rand rc message endpoint s = Inr (w, s')" "runs = [(w, s, s')]"
    by (auto simp: rbind_eq_Inr)
  from Nil have "rs_retry_counts s ! rc = RETRY_LIMIT" by simp
  with request_task_run [OF w(1)] w(2) show ?case by (intro exI [of _ "[]"]) auto
next
  case (Cons f fs)
  from Cons.prems(1) obtain w s1 where
    w: "request_task to_wire pw provider rand rc message endpoint s = Inr (w, s1)"
    by (auto simp: rbind_eq_Inr)
  show ?case
  proof (cases "answering_run to_wire rc message endpoint (w, s, s1)")
    case True
    then have "w = TERMINATE" by (simp add: answering_run_def)
    with Cons.prems(1) w True show ?thesis by (intro exI [of _ "[]"]) auto
  next
    case False
    with request_task_run [OF w] have p: "proposing_run pw provider rand rc message (w, s, s1)" "rs_retry_counts s ! rc \<noteq> RETRY_LIMIT"
      by auto
    then have counts: "rs_retry_counts s1 = (rs_retry_counts s)[rc := rs_retry_counts s ! rc + 1]" and "w \<noteq> TERMINATE"
      by (simp_all add: proposing_run_def WAIT_FOR_PAXOS_def TERMINATE_def)
    from p(2) Cons.prems(3) obtain n' where n': "n = Suc n'" by (cases n) auto
    from \<open>w \<noteq> TERMINATE\<close> Cons.prems(1) w obtain rest where
      r: "task_runs (request_task to_wire pw provider rand rc message endpoint) fs (f s1) = Inr rest" "runs = (w, s, s1) # rest"
      by (auto simp: rbind_eq_Inr)
    have fs: "length (rs_retry_counts s1) \<le> length (rs_retry_counts (f s1))"
      "rs_retry_counts (f s1) ! rc = rs_retry_counts s1 ! rc" using Cons.prems(5) by simp_all
    have "\<exists>ps x. rest = ps @ [x] \<and> length ps \<le> n' \<and> answering_run to_wire rc message endpoint x \<and>
        (\<forall>p\<in>set ps. proposing_run pw provider rand rc message p)"
      by (rule Cons.IH [OF r(1)]) (use Cons.prems(2-5) counts fs n' in auto)
    then obtain ps x where "rest = ps @ [x]" "length ps \<le> n'" "answering_run to_wire rc message endpoint x"
      "\<forall>p\<in>set ps. proposing_run pw provider rand rc message p" by blast
    with r(2) n' p(1) show ?thesis by (intro exI [of _ "(w, s, s1) # ps"] exI [of _ x]) simp
  qed
qed

section \<open>Properties\<close>

text \<open>
  C27: the store is the history of the log. After the callbacks of a log's prefix, from an empty
  store, the versions of each key are the writes logged for it, in the order of the log, every
  read returns the newest of them that is not later, and a request id is mapped to the first
  index that holds the request.
\<close>

theorem store_is_log_history:
  assumes "replay request_callbacks m n d0 = Inr d" and "kvs d0 = Map.empty" and "request_id_map d0 = Map.empty"
  shows "stored_versions (kvs d) key = logged_writes m n key \<and>
    fst (kv_read key t (kvs d)) = newest (logged_writes m n key) t \<and>
    request_id_map d r = logged_request m n r"
  using handler_log.replay_is_history [OF assms] by (simp add: read_eq snapshot_stored)

definition empty_derived :: "unit request_derived" where
  "empty_derived = \<lparr>kvs = Map.empty, request_id_map = Map.empty, owner = ()\<rparr>"

definition write_of :: "string \<Rightarrow> string \<Rightarrow> string \<Rightarrow> timestamp_t \<Rightarrow> paxos_log_entry" where
  "write_of r k v t = WriteEntry (Some r) (Some k) (Some v) (Some t)"

definition read_of :: "string \<Rightarrow> string \<Rightarrow> timestamp_t \<Rightarrow> paxos_log_entry" where
  "read_of r k t = ReadEntry (Some r) (Some k) (Some t)"

lemma word_upt_0_2: "word_upt 0 (2::index_t) = [0, 1]"
  by (simp add: word_upt_Cons)

theorem store_is_log_history_witness:
  "\<exists>d. replay request_callbacks [0 \<mapsto> write_of ''w1'' ''k'' ''a'' 3, 1 \<mapsto> read_of ''r1'' ''k'' 5] 2 empty_derived = Inr d \<and>
     fst (kv_read ''k'' 9 (kvs d)) = Some ''a'' \<and> request_id_map d ''r1'' = Some 1"
proof -
  let ?m = "[0 \<mapsto> write_of ''w1'' ''k'' ''a'' 3, 1 \<mapsto> read_of ''r1'' ''k'' 5]"
  have "\<exists>d. replay request_callbacks ?m 2 empty_derived = Inr d"
    by (simp add: replay_def apply_range_def word_upt_0_2 handler_log.apply_request_entry write_of_def read_of_def
        on_write_def on_read_def kv_write_def Let_def empty_derived_def split_beta)
  then obtain d where d: "replay request_callbacks ?m 2 empty_derived = Inr d" by blast
  have "logged_writes ?m 2 ''k'' = [\<lparr>ve_timestamp = 3, ve_value = ''a''\<rparr>]" "logged_request ?m 2 ''r1'' = Some 1"
    by (simp_all add: logged_writes_def logged_request_def word_upt_0_2 write_of_def read_of_def)
  with store_is_log_history [OF d, of "''k''" 9 "''r1''"] d show ?thesis
    by (auto simp: empty_derived_def newest_def)
qed

text \<open>
  C28: checked requests never crash a replica that answers no reads. If every entry of a log was
  proposed by a request task in a state that has the log below the entry or more of it (\<open>ahead\<close>), then
  a replica that starts from the initial state, learns entries of this log, in any order, and does
  nothing else, applies them without throwing. (C31: answering a read can break this.)
\<close>

theorem checked_requests_replay:
  fixes d0 :: "'o request_derived"
  assumes "\<forall>i<n. \<exists>message endpoint rc s s'.
      request_task to_wire pw provider rand rc message endpoint s = Inr (WAIT_FOR_PAXOS, s') \<and>
      request_entry message = Inr (the (m i)) \<and>
      (\<forall>d. replay request_callbacks m i d0 = Inr d \<longrightarrow> ahead (node_derived (rs_node s)) d)"
    and "- 1 \<notin> fst ` set es" and "\<forall>i e. map_of es i = Some e \<longrightarrow> m i = Some e"
    and "first_free (fold store_entry es (ClientRequestHandler PaxosLog :: 'o request_derived paxos_log)) \<le> n"
  shows "is_ok (set_entries es (ClientRequestHandler PaxosLog, d0))"
proof -
  have pl: "(ClientRequestHandler PaxosLog :: 'o request_derived paxos_log) =
      PaxosLog\<lparr>callbacks := request_callbacks\<rparr>"
    by (simp add: request_callbacks_def ClientRequestHandler_def add_callback_def PaxosLog_def)
  have "requests.guarded m n d0"
    unfolding requests.guarded_def
  proof (intro allI impI)
    fix i d assume i: "i < n" and d: "replay request_callbacks m i d0 = Inr d"
    from assms(1) i obtain message endpoint rc s s' where
      t: "request_task to_wire pw provider rand rc message endpoint s = Inr (WAIT_FOR_PAXOS, s')"
      and e: "request_entry message = Inr (the (m i))" and a: "ahead (node_derived (rs_node s)) d"
      using d by blast
    have "WAIT_FOR_PAXOS \<noteq> TERMINATE" by (simp add: WAIT_FOR_PAXOS_def TERMINATE_def)
    from task_proposes [OF t this] e have "request_guard (node_derived (rs_node s)) (the (m i))" by auto
    from guard_ahead [OF this a] show "request_guard d (the (m i))" .
  qed
  from requests.guarded_learning [OF assms(2,3) this] assms(4) show ?thesis by (simp add: pl)
qed

text \<open>A server without connections, for the examples.\<close>

definition lone_state :: "unit request_derived paxos_log \<Rightarrow> unit request_derived \<Rightarrow> (unit, unit, unit request_derived) request_state" where
  "lone_state pl d =
     \<lparr>rs_random = (), rs_node = \<lparr>node_paxos = MultiPaxosHandler, node_connections = \<lparr>channels = []\<rparr>,
        node_log = pl, node_derived = d\<rparr>, rs_clients = \<lparr>channels = []\<rparr>, rs_retry_counts = [0]\<rparr>"

definition lone_task :: "client_request \<Rightarrow> (unit, unit, unit request_derived) request_state async_task" where
  "lone_task message =
     request_task (\<lambda>_. ()) (\<lambda>_. ()) (\<lambda>d i. Inr (SinglePaxosHandler i [])) (\<lambda>r. (7, r)) 0 message (EndpointId ''c'' 0)"

definition write_request :: "string \<Rightarrow> string \<Rightarrow> string \<Rightarrow> timestamp_t \<Rightarrow> client_request" where
  "write_request r k v t = \<lparr>cr_request_id = r, cr_request_type = WRITE, cr_database_id = ''db'',
     cr_table_id = ''t'', cr_key = k, cr_value = Some v, cr_timestamp = Some t\<rparr>"

definition read_request :: "string \<Rightarrow> string \<Rightarrow> timestamp_t \<Rightarrow> client_request" where
  "read_request r k t = \<lparr>cr_request_id = r, cr_request_type = READ, cr_database_id = ''db'',
     cr_table_id = ''t'', cr_key = k, cr_value = None, cr_timestamp = Some t\<rparr>"

lemma request_entries [simp]:
  "request_entry (write_request r k v t) = Inr (write_of r k v t)"
  "request_entry (read_request r k t) = Inr (read_of r k t)"
  by (simp_all add: request_entry_def write_request_def read_request_def write_of_def read_of_def
      pb_string_def pb_uint64_def)

text \<open>A lone server proposes whenever its log works and the request is new and not in the past.\<close>

lemma lone_task_proposes:
  assumes "log_inv pl" "request_id_map d (cr_request_id message) = None"
    "request_entry message = Inr e" "\<not> in_the_past message (kvs d)"
  shows "\<exists>s'. lone_task message (lone_state pl d) = Inr (WAIT_FOR_PAXOS, s')"
proof -
  have "next_available_index pl = Inr (first_free pl)" using assms(1) by simp
  with assms(2-4) show ?thesis
    by (simp add: lone_task_def lone_state_def request_task_def request_propose_def RETRY_LIMIT_def
        multi_propose_def get_instance_def MultiPaxosHandler_def put_instance_def split_beta Let_def)
qed

lemma handler_log [simp]:
  "log_inv (ClientRequestHandler PaxosLog)"
  "log (ClientRequestHandler PaxosLog) = Map.empty"
  by (simp add: ClientRequestHandler_def log_inv_add_callback log_inv_PaxosLog)
    (simp add: ClientRequestHandler_def add_callback_def PaxosLog_def)

theorem checked_requests_replay_witness:
  "is_ok (set_entries [(0, write_of ''w1'' ''k'' ''a'' 3)] (ClientRequestHandler PaxosLog, empty_derived))"
proof (rule checked_requests_replay [where n = 1 and m = "[0 \<mapsto> write_of ''w1'' ''k'' ''a'' 3]"
      and to_wire = "\<lambda>_. ()" and pw = "\<lambda>_. ()" and provider = "\<lambda>d i. Inr (SinglePaxosHandler i [])"
      and rand = "\<lambda>r::unit. (7, r)"])
  let ?e = "write_of ''w1'' ''k'' ''a'' 3" and ?w = "write_request ''w1'' ''k'' ''a'' 3"
  show "\<forall>i<1. \<exists>message endpoint rc s s'.
      request_task (\<lambda>_. ()) (\<lambda>_. ()) (\<lambda>d i. Inr (SinglePaxosHandler i [])) (\<lambda>r::unit. (7, r)) rc message endpoint s =
        Inr (WAIT_FOR_PAXOS, s') \<and> request_entry message = Inr (the ([0 \<mapsto> ?e] i)) \<and>
      (\<forall>d. replay request_callbacks [0 \<mapsto> ?e] i empty_derived = Inr d \<longrightarrow> ahead (node_derived (rs_node s)) d)"
  proof (intro allI impI)
    fix i :: index_t
    assume "i < 1"
    then have i: "i = 0" by (simp add: word_less_nat_alt unat_eq_0)
    obtain s' where "lone_task ?w (lone_state (ClientRequestHandler PaxosLog) empty_derived) = Inr (WAIT_FOR_PAXOS, s')"
      using lone_task_proposes [of "ClientRequestHandler PaxosLog" empty_derived ?w ?e]
      by (auto simp: empty_derived_def in_the_past_def read_lat_def)
    moreover have "node_derived (rs_node (lone_state (ClientRequestHandler PaxosLog) empty_derived)) = empty_derived"
      by (simp add: lone_state_def)
    ultimately show "\<exists>message endpoint rc s s'.
      request_task (\<lambda>_. ()) (\<lambda>_. ()) (\<lambda>d i. Inr (SinglePaxosHandler i [])) (\<lambda>r::unit. (7, r)) rc message endpoint s =
        Inr (WAIT_FOR_PAXOS, s') \<and> request_entry message = Inr (the ([0 \<mapsto> ?e] i)) \<and>
      (\<forall>d. replay request_callbacks [0 \<mapsto> ?e] i empty_derived = Inr d \<longrightarrow> ahead (node_derived (rs_node s)) d)"
      unfolding lone_task_def i by fastforce
  qed
  show "first_free (fold store_entry [(0, ?e)] (ClientRequestHandler PaxosLog :: unit request_derived paxos_log)) \<le> 1"
    by (simp add: store_entry_def fill_index_def first_free_def ClientRequestHandler_def add_callback_def
        PaxosLog_def take_index_def)
qed simp_all

text \<open>
  C29: every request is answered. Whatever the rest of the server does between the runs of a
  request's task (it leaves the task's own counter alone), unless a run throws there are at most
  three that propose the request's entry, count, send nothing and wait \<open>WAIT_FOR_PAXOS\<close>; then one
  that returns \<open>TERMINATE\<close> and sends the response, its only one: what the log says if the request is
  logged, an error if the tries are used up or a write has come too late.
\<close>

theorem request_answered_within_four_runs:
  assumes "task_runs (request_task to_wire pw provider rand rc message endpoint) fs s = Inr runs"
    and "rc < length (rs_retry_counts s)" "rs_retry_counts s ! rc = 0" "3 \<le> length fs"
    and "\<forall>f\<in>set fs. \<forall>s. length (rs_retry_counts s) \<le> length (rs_retry_counts (f s)) \<and>
      rs_retry_counts (f s) ! rc = rs_retry_counts s ! rc"
  shows "\<exists>ps w before after. runs = ps @ [(w, before, after)] \<and> length ps \<le> 3 \<and>
    (\<forall>(w, s, s')\<in>set ps. w = WAIT_FOR_PAXOS \<and> rs_clients s' = rs_clients s \<and>
      (\<exists>entry s1. request_entry message = Inr entry \<and> request_propose pw provider rand entry s = Inr s1 \<and> rs_node s' = rs_node s1)) \<and>
    w = TERMINATE \<and>
    (case request_id_map (node_derived (rs_node before)) (cr_request_id message) of
       Some index \<Rightarrow> \<exists>response s1. fulfilled message index before = Inr (response, s1) \<and> after = respond to_wire endpoint response s1
     | None \<Rightarrow> after = respond to_wire endpoint error_response before \<and>
         (rs_retry_counts before ! rc = RETRY_LIMIT \<or>
          cr_request_type message = WRITE \<and> in_the_past message (kvs (node_derived (rs_node before)))))"
proof -
  have "rs_retry_counts s ! rc = RETRY_LIMIT - int 3" using assms(3) by (simp add: RETRY_LIMIT_def)
  from task_runs_bound [OF assms(1,2) this assms(4,5)] obtain ps x where
    runs: "runs = ps @ [x]" "length ps \<le> 3" "answering_run to_wire rc message endpoint x"
      "\<forall>p\<in>set ps. proposing_run pw provider rand rc message p" by blast
  obtain w before after where x: "x = (w, before, after)" by (cases x)
  from runs(4) have waits: "\<forall>(w, s, s')\<in>set ps. w = WAIT_FOR_PAXOS \<and> rs_clients s' = rs_clients s \<and>
      (\<exists>entry s1. request_entry message = Inr entry \<and> request_propose pw provider rand entry s = Inr s1 \<and> rs_node s' = rs_node s1)"
    unfolding proposing_run_def by blast
  from runs(3) have "w = TERMINATE \<and>
    (case request_id_map (node_derived (rs_node before)) (cr_request_id message) of
       Some index \<Rightarrow> \<exists>response s1. fulfilled message index before = Inr (response, s1) \<and> after = respond to_wire endpoint response s1
     | None \<Rightarrow> after = respond to_wire endpoint error_response before \<and>
         (rs_retry_counts before ! rc = RETRY_LIMIT \<or>
          cr_request_type message = WRITE \<and> in_the_past message (kvs (node_derived (rs_node before)))))"
    unfolding x answering_run_def prod.case .
  with runs(1,2) waits x show ?thesis by blast
qed

text \<open>The write is proposed, and learned before the task runs again.\<close>

definition learn_write :: "(unit, unit, unit request_derived) request_state \<Rightarrow> (unit, unit, unit request_derived) request_state" where
  "learn_write s = s\<lparr>rs_node := (rs_node s)\<lparr>node_derived := (node_derived (rs_node s))\<lparr>request_id_map := [''w1'' \<mapsto> 0]\<rparr>\<rparr>\<rparr>"

theorem request_answered_within_four_runs_witness:
  "\<exists>r before after. task_runs (lone_task (write_request ''w1'' ''k'' ''a'' 3)) [learn_write, id, id]
       (lone_state (ClientRequestHandler PaxosLog) empty_derived) = Inr [r, (TERMINATE, before, after)] \<and>
     fst r = WAIT_FOR_PAXOS \<and>
     (\<exists>response s1. fulfilled (write_request ''w1'' ''k'' ''a'' 3) 0 before = Inr (response, s1) \<and>
        after = respond (\<lambda>_. ()) (EndpointId ''c'' 0) response s1)"
proof -
  let ?s = "lone_state (ClientRequestHandler PaxosLog) empty_derived" and ?w = "write_request ''w1'' ''k'' ''a'' 3"
  obtain s1 where s1: "lone_task ?w ?s = Inr (WAIT_FOR_PAXOS, s1)"
    using lone_task_proposes [of "ClientRequestHandler PaxosLog" empty_derived ?w "write_of ''w1'' ''k'' ''a'' 3"]
    by (auto simp: empty_derived_def in_the_past_def read_lat_def)
  define before where "before = learn_write s1"
  have logged: "request_id_map (node_derived (rs_node before)) ''w1'' = Some 0" by (simp add: before_def learn_write_def)
  then obtain after where "lone_task ?w before = Inr (TERMINATE, after)"
    by (simp add: lone_task_def request_task_def write_request_def fulfilled_def)
  with s1 have r: "task_runs (lone_task ?w) [learn_write, id, id] ?s = Inr [(WAIT_FOR_PAXOS, ?s, s1), (TERMINATE, before, after)]"
    by (simp add: before_def WAIT_FOR_PAXOS_def TERMINATE_def)
  have kept: "\<forall>f\<in>set [learn_write, id, id]. \<forall>s. length (rs_retry_counts s) \<le> length (rs_retry_counts (f s)) \<and>
      rs_retry_counts (f s) ! 0 = rs_retry_counts s ! 0" by (simp add: learn_write_def)
  from request_answered_within_four_runs [OF r [unfolded lone_task_def] _ _ _ kept]
  obtain ps w before' after' where "[(WAIT_FOR_PAXOS, ?s, s1), (TERMINATE, before, after)] = ps @ [(w, before', after')]"
    and answer: "case request_id_map (node_derived (rs_node before')) (cr_request_id ?w) of
       Some index \<Rightarrow> \<exists>response s1. fulfilled ?w index before' = Inr (response, s1) \<and>
         after' = respond (\<lambda>_. ()) (EndpointId ''c'' 0) response s1
     | None \<Rightarrow> after' = respond (\<lambda>_. ()) (EndpointId ''c'' 0) error_response before' \<and>
         (rs_retry_counts before' ! 0 = RETRY_LIMIT \<or>
          cr_request_type ?w = WRITE \<and> in_the_past ?w (kvs (node_derived (rs_node before'))))"
    by (auto simp: lone_state_def)
  then have "before' = before" "after' = after" by (auto simp: append_eq_Cons_conv Cons_eq_append_conv)
  with answer logged r show ?thesis by (fastforce simp: write_request_def)
qed

text \<open>
  C30: what a read is answered. When the task of a read runs on a server whose state is the replay
  of its log (up to last accesses) and finds its request logged at \<open>j\<close>, it answers with the newest write, of all the
  log holds, that is not later than the read, or with an error if there is none; and if a write
  below \<open>j\<close> already answered the read, the answer is that write's value, whatever was logged after.
\<close>

theorem read_answer_is_snapshot:
  assumes "replay request_callbacks (log (node_log (rs_node s))) n d0 = Inr d" and "follows (node_derived (rs_node s)) d"
    and "kvs d0 = Map.empty" and "request_id_map d0 = Map.empty"
    and "cr_request_type message = READ"
    and "request_id_map (node_derived (rs_node s)) (cr_request_id message) = Some j" and "j < n"
    and "log (node_log (rs_node s)) j = Some (ReadEntry r (Some k) (Some t))"
  shows "(\<exists>s'. request_task to_wire pw provider rand rc message endpoint s =
      Inr (TERMINATE, respond to_wire endpoint
        (case newest (logged_writes (log (node_log (rs_node s))) n k) t of
           None \<Rightarrow> error_response | Some v \<Rightarrow> \<lparr>response_value = Some v, response_code = SUCCESS\<rparr>) s')) \<and>
    (\<forall>v. newest (logged_writes (log (node_log (rs_node s))) j k) t = Some v \<longrightarrow>
       newest (logged_writes (log (node_log (rs_node s))) n k) t = Some v)"
  using handler_log.read_answer [OF assms] .

definition written_log :: "unit request_derived paxos_log" where
  "written_log = \<lparr>log = [0 \<mapsto> write_of ''w1'' ''k'' ''a'' 3, 1 \<mapsto> read_of ''r1'' ''k'' 5],
     available_indices = [2], callbacks = request_callbacks\<rparr>"

definition written_derived :: "unit request_derived" where
  "written_derived = \<lparr>kvs = [''k'' \<mapsto> \<lparr>versions = [\<lparr>ve_timestamp = 3, ve_value = ''a''\<rparr>], lat = 5\<rparr>],
     request_id_map = [''w1'' \<mapsto> 0, ''r1'' \<mapsto> 1], owner = ()\<rparr>"

lemma written_replay: "replay request_callbacks (log written_log) 2 empty_derived = Inr written_derived"
  by (simp add: replay_def apply_range_def word_upt_0_2 written_log_def written_derived_def handler_log.apply_request_entry
      write_of_def read_of_def on_read_def on_write_def kv_write_def kv_read_def search.simps map_insert_def
      empty_derived_def Let_def)

theorem read_answer_is_snapshot_witness:
  "\<exists>s'. lone_task (read_request ''r1'' ''k'' 5) (lone_state written_log written_derived) =
     Inr (TERMINATE, respond (\<lambda>_. ()) (EndpointId ''c'' 0) \<lparr>response_value = Some ''a'', response_code = SUCCESS\<rparr> s')"
proof -
  let ?s = "lone_state written_log written_derived"
  have s: "node_log (rs_node ?s) = written_log" "node_derived (rs_node ?s) = written_derived"
    by (simp_all add: lone_state_def)
  have w: "logged_writes (log written_log) 2 ''k'' = [\<lparr>ve_timestamp = 3, ve_value = ''a''\<rparr>]"
    by (simp add: logged_writes_def word_upt_0_2 written_log_def write_of_def read_of_def)
  have rep: "replay request_callbacks (log (node_log (rs_node ?s))) 2 empty_derived = Inr written_derived"
    by (simp only: s written_replay)
  have tr: "follows (node_derived (rs_node ?s)) written_derived"
    using handler_log.replay_is_history [OF written_replay] by (simp add: s follows_refl empty_derived_def)
  from read_answer_is_snapshot [OF rep tr, where message = "read_request ''r1'' ''k'' 5" and j = 1 and k = "''k''"
      and t = 5 and r = "Some ''r1''" and to_wire = "\<lambda>_. ()" and pw = "\<lambda>_. ()" and rc = 0
      and provider = "\<lambda>d i. Inr (SinglePaxosHandler i [])" and rand = "\<lambda>r. (7, r)" and endpoint = "EndpointId ''c'' 0"]
  show ?thesis
    unfolding lone_task_def s w
    by (auto simp: empty_derived_def read_request_def written_derived_def written_log_def read_of_def newest_def)
qed

definition raced_log :: "unit request_derived paxos_log" where
  "raced_log = \<lparr>log = [0 \<mapsto> read_of ''r1'' ''k'' 5, 1 \<mapsto> write_of ''w1'' ''k'' ''a'' 3],
     available_indices = [2], callbacks = request_callbacks\<rparr>"

definition raced_derived :: "unit request_derived" where
  "raced_derived = \<lparr>kvs = [''k'' \<mapsto> \<lparr>versions = [\<lparr>ve_timestamp = 3, ve_value = ''a''\<rparr>], lat = 3\<rparr>],
     request_id_map = [''r1'' \<mapsto> 0, ''w1'' \<mapsto> 1], owner = ()\<rparr>"

lemma handler_log_eq:
  "ClientRequestHandler PaxosLog = \<lparr>log = Map.empty, available_indices = [0], callbacks = request_callbacks\<rparr>"
  by (simp add: request_callbacks_def ClientRequestHandler_def add_callback_def PaxosLog_def)

text \<open>
  C31: answering a read can break a replica. Two replicas have logged a read of a key at time 5
  and then a write of the key at time 3. One answers the read, which reads the store again and
  now finds a version, so its last access becomes 5; the other, whose last access is 3, accepts a
  write at time 4 and proposes it. Logged, this write is applied by the one and throws on the other.
\<close>

theorem answered_read_breaks_replica:
  "set_entries [(0, read_of ''r1'' ''k'' 5), (1, write_of ''w1'' ''k'' ''a'' 3)] (ClientRequestHandler PaxosLog, empty_derived) =
     Inr (raced_log, raced_derived) \<and>
   (\<exists>s'. lone_task (write_request ''w2'' ''k'' ''b'' 4) (lone_state raced_log raced_derived) = Inr (WAIT_FOR_PAXOS, s')) \<and>
   is_ok (set_entry 2 (write_of ''w2'' ''k'' ''b'' 4) (raced_log, raced_derived)) \<and>
   (\<exists>s'. lone_task (read_request ''r1'' ''k'' 5) (lone_state raced_log raced_derived) = Inr (TERMINATE, s') \<and>
      set_entry 2 (write_of ''w2'' ''k'' ''b'' 4) (node_log (rs_node s'), node_derived (rs_node s')) =
        Inl (UniversalException write_past))"
proof (intro conjI)
  note run = set_entry_def next_available_index_def take_index_def log_insert_def
    word_upt_Cons invoke_callbacks_def log_at_def write_of_def read_of_def on_read_def on_write_def
    kv_write_def kv_read_def search.simps map_insert_def Let_def
  show pre: "set_entries [(0, read_of ''r1'' ''k'' 5), (1, write_of ''w1'' ''k'' ''a'' 3)] (ClientRequestHandler PaxosLog, empty_derived) =
      Inr (raced_log, raced_derived)"
    unfolding handler_log_eq by (simp add: set_entries_def run raced_log_def raced_derived_def empty_derived_def)
  have inv: "log_inv raced_log"
    using set_entries_log_inv [OF handler_log(1) _ pre] by simp
  show "\<exists>s'. lone_task (write_request ''w2'' ''k'' ''b'' 4) (lone_state raced_log raced_derived) = Inr (WAIT_FOR_PAXOS, s')"
    by (rule lone_task_proposes [OF inv _ request_entries(1)])
      (simp_all add: raced_derived_def write_request_def in_the_past_def read_lat_def)
  show "is_ok (set_entry 2 (write_of ''w2'' ''k'' ''b'' 4) (raced_log, raced_derived))"
    by (simp add: run raced_log_def raced_derived_def)
  show "\<exists>s'. lone_task (read_request ''r1'' ''k'' 5) (lone_state raced_log raced_derived) = Inr (TERMINATE, s') \<and>
      set_entry 2 (write_of ''w2'' ''k'' ''b'' 4) (node_log (rs_node s'), node_derived (rs_node s')) =
        Inl (UniversalException write_past)"
    by (simp add: run raced_log_def raced_derived_def lone_task_def lone_state_def request_task_def
        read_request_def fulfilled_def get_entry_def respond_def)
qed

end
