(* ===== verification/TabletParticipant.thy ===== *)
theory TabletParticipant
  imports PaxosServer ClientRequestHandler
begin

text \<open>
  A tablet of a slave: \<open>uni::slave::TabletParticipant\<close> (src/src/slave/TabletParticipant.cc) and its
  \<open>IncomingMessageHandler\<close>. The constructor wires a Paxos log, its configuration manager, the
  MultiPaxos handler, the key-value store, the request handler and the log synchroniser; messages
  arrive through the tablet's scheduler and requests run from its task queue. The lemmas show that
  whatever the tablet does, its store is the one its log describes. \<open>to_wire\<close> and \<open>parse\<close> are
  \<open>SerializeAsString\<close> and \<open>ParseFromString\<close>.
\<close>

section \<open>State\<close>

type_synonym tablet_derived = "config_timeline request_derived"

record ('w, 'r) tablet_participant =
  tp_tablet_id :: tablet_id
  tp_scheduler :: "'w incoming_message async_scheduler"
  tp_async_queue :: "('w, 'r, tablet_derived) request_state async_queue"
  tp_state :: "('w, 'r, tablet_derived) request_state"

text \<open>The wrappers the tablet gives its Paxos instances and its synchroniser.\<close>

definition tablet_paxos_wrapper :: "tablet_id \<Rightarrow> paxos_message \<Rightarrow> message_wrapper" where
  "tablet_paxos_wrapper tid m =
     TabletMessage \<lparr>tablet_range = convert_range_object tid, tablet_payload = TabletPaxos m\<rparr>"

definition tablet_sync_wrapper :: "tablet_id \<Rightarrow> sync_message \<Rightarrow> message_wrapper" where
  "tablet_sync_wrapper tid m =
     TabletMessage \<lparr>tablet_range = convert_range_object tid, tablet_payload = TabletSync m\<rparr>"

definition tablet_log :: "tablet_derived paxos_log" where
  "tablet_log = ClientRequestHandler (register_config_manager owner (\<lambda>t d. d\<lparr>owner := t\<rparr>) PaxosLog)"

definition tablet_initial :: "endpoint_id list \<Rightarrow> tablet_derived" where
  "tablet_initial slaves = \<lparr>kvs = Map.empty, request_id_map = Map.empty, owner = PaxosConfigManager 0 slaves\<rparr>"

definition TabletParticipant ::
  "'r \<Rightarrow> 'w connections \<Rightarrow> 'w connections \<Rightarrow> tablet_id \<Rightarrow> ('w, 'r) tablet_participant" where
  "TabletParticipant random slave_connections client_connections tid =
     \<lparr>tp_tablet_id = tid, tp_scheduler = AsyncSchedulerImpl, tp_async_queue = AsyncQueue,
      tp_state =
        \<lparr>rs_random = random,
         rs_node =
           \<lparr>node_paxos = MultiPaxosHandler, node_connections = slave_connections, node_log = tablet_log,
            node_derived = tablet_initial (get_all_endpoints slave_connections)\<rparr>,
         rs_clients = client_connections, rs_retry_counts = []\<rparr>\<rparr>"

section \<open>Messages\<close>

definition with_node :: "('w, tablet_derived) paxos_node \<Rightarrow> ('w, 'r) tablet_participant \<Rightarrow> ('w, 'r) tablet_participant" where
  "with_node nd tp = tp\<lparr>tp_state := (tp_state tp)\<lparr>rs_node := nd\<rparr>\<rparr>"

text \<open>\<open>IncomingMessageHandler::handle\<close>; unknown messages are logged and dropped.\<close>

definition tablet_handle ::
  "(message_wrapper \<Rightarrow> 'w) \<Rightarrow> ('w \<Rightarrow> message_wrapper) \<Rightarrow> ('r \<Rightarrow> 32 word \<times> 'r) \<Rightarrow> constants
   \<Rightarrow> 'w incoming_message \<Rightarrow> ('w, 'r) tablet_participant \<Rightarrow> ('w, 'r) tablet_participant result option" where
  "tablet_handle to_wire parse rand cs m tp =
     (let endpoint = incoming_endpoint m; tid = tp_tablet_id tp; nd = rs_node (tp_state tp);
          paxos_to_wire = (\<lambda>p. to_wire (tablet_paxos_wrapper tid p));
          sync_to_wire = (\<lambda>p. to_wire (tablet_sync_wrapper tid p))
      in case parse (incoming_payload m) of
           ClientMessage client_message \<Rightarrow>
             (case client_message of
                ClientRequest request \<Rightarrow>
                  (let (q, s) = handle_request to_wire paxos_to_wire (config_provider owner) rand endpoint request
                         (tp_async_queue tp, tp_state tp)
                   in Some (Inr (tp\<lparr>tp_async_queue := q, tp_state := s\<rparr>)))
              | _ \<Rightarrow> Some (Inr tp))
         | TabletMessage tablet_message \<Rightarrow>
             (case tablet_payload tablet_message of
                TabletPaxos paxos_message \<Rightarrow>
                  Some (rbind (handle_incoming_message paxos_to_wire cs (config_provider owner) endpoint paxos_message nd)
                    (\<lambda>nd'. Inr (with_node nd' tp)))
              | TabletSync sync_message \<Rightarrow>
                  map_option (\<lambda>r. rbind r (\<lambda>nd'. Inr (with_node nd' tp)))
                    (handle_sync_message sync_to_wire endpoint sync_message nd)
              | TabletNotSet \<Rightarrow> Some (Inr tp))
         | _ \<Rightarrow> Some (Inr tp))"

text \<open>
  What can happen to a tablet: the slave queues a message for it, the posted closure of its
  scheduler handles the oldest message, a timer runs the task at the front, the synchroniser's
  timer fires.
\<close>

datatype 'w tablet_event = QueueMessage "'w incoming_message" | HandleMessage | RunTask | SyncTimer

fun tablet_step ::
  "(message_wrapper \<Rightarrow> 'w) \<Rightarrow> ('w \<Rightarrow> message_wrapper) \<Rightarrow> ('r \<Rightarrow> 32 word \<times> 'r) \<Rightarrow> constants
   \<Rightarrow> 'w tablet_event \<Rightarrow> ('w, 'r) tablet_participant \<Rightarrow> ('w, 'r) tablet_participant result option" where
  "tablet_step to_wire parse rand cs (QueueMessage m) tp =
     Some (Inr (tp\<lparr>tp_scheduler := queue_message m (tp_scheduler tp)\<rparr>))"
| "tablet_step to_wire parse rand cs HandleMessage tp =
     (case posted (tp_scheduler tp) of
        [] \<Rightarrow> Some (Inr tp)
      | m # _ \<Rightarrow>
          map_option (\<lambda>r. rbind r (\<lambda>tp'. Inr (tp'\<lparr>tp_scheduler := message_handled (tp_scheduler tp')\<rparr>)))
            (tablet_handle to_wire parse rand cs m tp))"
| "tablet_step to_wire parse rand cs RunTask tp =
     Some (if scheduled_runs (tp_async_queue tp) = [] then Inr tp
           else rbind (fire_run (tp_async_queue tp, tp_state tp)) (\<lambda>(q, s).
             Inr (tp\<lparr>tp_async_queue := q, tp_state := s\<rparr>)))"
| "tablet_step to_wire parse rand cs SyncTimer tp =
     Some (rbind (sync_timer (\<lambda>p. to_wire (tablet_sync_wrapper (tp_tablet_id tp) p)) owner (rs_node (tp_state tp)))
       (\<lambda>nd. Inr (with_node nd tp)))"

fun tablet_run ::
  "(message_wrapper \<Rightarrow> 'w) \<Rightarrow> ('w \<Rightarrow> message_wrapper) \<Rightarrow> ('r \<Rightarrow> 32 word \<times> 'r) \<Rightarrow> constants
   \<Rightarrow> 'w tablet_event list \<Rightarrow> ('w, 'r) tablet_participant \<Rightarrow> ('w, 'r) tablet_participant result option" where
  "tablet_run to_wire parse rand cs [] tp = Some (Inr tp)"
| "tablet_run to_wire parse rand cs (ev # evs) tp =
     (case tablet_step to_wire parse rand cs ev tp of
        None \<Rightarrow> None
      | Some (Inl e) \<Rightarrow> Some (Inl e)
      | Some (Inr tp') \<Rightarrow> tablet_run to_wire parse rand cs evs tp')"

section \<open>The log of a tablet\<close>

definition tablet_callbacks :: "content_case \<Rightarrow> tablet_derived log_callback list" where
  "tablet_callbacks = callbacks tablet_log"

definition timeline_step :: "index_t \<Rightarrow> paxos_log_entry \<Rightarrow> config_timeline \<Rightarrow> config_timeline result" where
  "timeline_step i e t =
     (if entry_content_case e = KReconfigStarted then on_reconfig_started i e t else Inr t)"

lemma tablet_callbacks_simps [simp]:
  "tablet_callbacks KRead = [on_read]" "tablet_callbacks KWrite = [on_write]"
  "tablet_callbacks KReconfigStarted =
     [\<lambda>i e d. rbind (on_reconfig_started i e (owner d)) (\<lambda>t. Inr (d\<lparr>owner := t\<rparr>))]"
  "cc \<noteq> KRead \<Longrightarrow> cc \<noteq> KWrite \<Longrightarrow> cc \<noteq> KReconfigStarted \<Longrightarrow> tablet_callbacks cc = []"
  by (simp_all add: tablet_callbacks_def tablet_log_def ClientRequestHandler_def register_config_manager_def
      add_callback_def PaxosLog_def)

sublocale request_log \<subseteq> log_follower cbs follows
  by unfold_locales (rule follows_apply)

interpretation tablet: request_log tablet_callbacks timeline_step
proof
  fix e i and d :: tablet_derived
  assume e: "entry_content_case e \<noteq> KRead" "entry_content_case e \<noteq> KWrite"
  show "apply_entry tablet_callbacks i e d =
      rbind (timeline_step i e (owner d)) (\<lambda>ow. Inr (d\<lparr>owner := ow\<rparr>))"
  proof (cases "entry_content_case e = KReconfigStarted")
    case True
    then show ?thesis
      by (cases "on_reconfig_started i e (owner d)") (simp_all add: apply_entry_def timeline_step_def)
  qed (use e in \<open>simp add: apply_entry_def timeline_step_def\<close>)
qed simp_all

section \<open>The invariant of a tablet\<close>

lemma fulfilled_log:
  "fulfilled message index s = Inr (response, s') \<Longrightarrow>
     node_paxos (rs_node s') = node_paxos (rs_node s) \<and> node_log (rs_node s') = node_log (rs_node s) \<and>
     rs_retry_counts s' = rs_retry_counts s"
  using fulfilled_state [of message index s response s'] by auto

lemma respond_simps [simp]:
  "rs_node (respond to_wire e r s) = rs_node s" "rs_retry_counts (respond to_wire e r s) = rs_retry_counts s"
  by (simp_all add: respond_def)

lemma fulfilled_server:
  assumes "fulfilled message index s = Inr (response, s')" "tablet.server_inv init (rs_node s)"
  shows "tablet.server_inv init (rs_node s')"
proof -
  from assms(2) obtain d0 where
    d0: "replay tablet_callbacks (log (node_log (rs_node s))) (first_free (node_log (rs_node s))) init = Inr d0"
    "follows (node_derived (rs_node s)) d0"
    by (auto simp: tablet.server_inv_def tablet.log_followed_def)
  from follows_fulfilled [OF assms(1) d0(2)] fulfilled_log [OF assms(1)] d0(1) assms(2) show ?thesis
    by (auto simp: tablet.server_inv_def tablet.log_followed_def)
qed

definition counts_ok :: "int list \<Rightarrow> bool" where
  "counts_ok counts \<longleftrightarrow> (\<forall>c\<in>set counts. 0 \<le> c \<and> c \<le> RETRY_LIMIT)"

lemma request_task_effect:
  assumes "request_task to_wire pw (config_provider owner) rand rc message endpoint s = Inr (w, s')"
    and "tablet.server_inv init (rs_node s)" "counts_ok (rs_retry_counts s)" "rc < length (rs_retry_counts s)"
  shows "tablet.server_inv init (rs_node s') \<and> counts_ok (rs_retry_counts s') \<and>
    length (rs_retry_counts s') = length (rs_retry_counts s) \<and>
    (\<forall>i. i \<noteq> rc \<longrightarrow> rs_retry_counts s' ! i = rs_retry_counts s ! i)"
proof (cases "w = TERMINATE")
  case True
  have "WAIT_FOR_PAXOS \<noteq> TERMINATE" by (simp add: WAIT_FOR_PAXOS_def TERMINATE_def)
  with True assms(1) obtain r s1 where "s' = respond to_wire endpoint r s1"
    "s1 = s \<or> (\<exists>index. fulfilled message index s = Inr (r, s1))"
    by (auto simp: request_task_def rbind_eq_Inr split: option.splits if_splits)
  moreover from this(2) have "tablet.server_inv init (rs_node s1) \<and> rs_retry_counts s1 = rs_retry_counts s"
    using assms(2) by (auto dest: fulfilled_log intro: fulfilled_server)
  ultimately show ?thesis using assms(3) by simp
next
  case False
  from task_proposes [OF assms(1) False] obtain e s1 where
    p: "rs_retry_counts s ! rc \<noteq> RETRY_LIMIT" "request_propose pw (config_provider owner) rand e s = Inr s1"
    "s' = s1\<lparr>rs_retry_counts := (rs_retry_counts s1)[rc := rs_retry_counts s1 ! rc + 1]\<rparr>" by blast
  from p(2) obtain draw nd where nd: "multi_propose pw (config_provider owner) draw e (rs_node s) = Inr nd"
    "rs_node s1 = nd" "rs_retry_counts s1 = rs_retry_counts s"
    by (auto simp: request_propose_def Let_def rbind_eq_Inr split: prod.splits)
  have "0 \<le> rs_retry_counts s ! rc" "rs_retry_counts s ! rc \<le> RETRY_LIMIT"
    using assms(3,4) by (auto simp: counts_ok_def)
  with p(1) have "counts_ok ((rs_retry_counts s)[rc := rs_retry_counts s ! rc + 1])"
    using assms(3) by (auto simp: counts_ok_def dest!: set_update_subset_insert [THEN subsetD])
  with tablet.propose_server [OF nd(1) assms(2)] nd(2,3) p(3) show ?thesis by simp
qed

lemma request_task_endpoints:
  "request_task to_wire pw provider rand rc message endpoint s = Inr (w, s') \<Longrightarrow>
     get_all_endpoints (node_connections (rs_node s')) = get_all_endpoints (node_connections (rs_node s))"
  by (auto simp: request_task_def fulfilled_def Let_def rbind_eq_Inr split: option.splits if_splits prod.splits
      dest!: request_propose_node propose_endpoints)

text \<open>The tasks of the queue are requests, each with a counter of its own.\<close>

definition request_tasks ::
  "(message_wrapper \<Rightarrow> 'w) \<Rightarrow> ('r \<Rightarrow> 32 word \<times> 'r) \<Rightarrow> tablet_id
   \<Rightarrow> (nat \<times> client_request \<times> endpoint_id) list \<Rightarrow> ('w, 'r, tablet_derived) request_state async_task list" where
  "request_tasks to_wire rand tid ts =
     map (\<lambda>(rc, message, endpoint). request_task to_wire (\<lambda>p. to_wire (tablet_paxos_wrapper tid p))
            (config_provider owner) rand rc message endpoint) ts"

definition tablet_inv ::
  "(message_wrapper \<Rightarrow> 'w) \<Rightarrow> ('r \<Rightarrow> 32 word \<times> 'r) \<Rightarrow> tablet_derived \<Rightarrow> ('w, 'r) tablet_participant \<Rightarrow> bool" where
  "tablet_inv to_wire rand init tp \<longleftrightarrow>
     tablet.server_inv init (rs_node (tp_state tp)) \<and>
     async_queue_inv (tp_async_queue tp) \<and>
     posted (tp_scheduler tp) = take 1 (message_queue (tp_scheduler tp)) \<and>
     counts_ok (rs_retry_counts (tp_state tp)) \<and>
     (\<exists>ts. queue_callbacks (tp_async_queue tp) = request_tasks to_wire rand (tp_tablet_id tp) ts \<and>
        distinct (map fst ts) \<and> (\<forall>t\<in>set ts. fst t < length (rs_retry_counts (tp_state tp))))"

lemma handle_request_inv:
  assumes "tablet_inv to_wire rand init tp"
    and "handle_request to_wire (\<lambda>p. to_wire (tablet_paxos_wrapper (tp_tablet_id tp) p)) (config_provider owner) rand
      endpoint request (tp_async_queue tp, tp_state tp) = (q, s)"
  shows "tablet_inv to_wire rand init (tp\<lparr>tp_async_queue := q, tp_state := s\<rparr>)"
proof -
  let ?n = "length (rs_retry_counts (tp_state tp))"
  from assms(1) obtain ts where
    ts: "queue_callbacks (tp_async_queue tp) = request_tasks to_wire rand (tp_tablet_id tp) ts"
    "distinct (map fst ts)" "\<forall>t\<in>set ts. fst t < ?n" by (auto simp: tablet_inv_def)
  from assms(2) have q: "queue_callbacks q = request_tasks to_wire rand (tp_tablet_id tp) (ts @ [(?n, request, endpoint)])"
    "async_queue_inv (tp_async_queue tp) \<Longrightarrow> async_queue_inv q"
    and s: "s = (tp_state tp)\<lparr>rs_retry_counts := rs_retry_counts (tp_state tp) @ [0]\<rparr>"
    by (auto simp: handle_request_def Let_def add_task_def schedule_run_def request_tasks_def ts(1)
        async_queue_inv_def)
  have "distinct (map fst (ts @ [(?n, request, endpoint)]))" using ts(2,3) by auto
  moreover have "\<forall>t\<in>set (ts @ [(?n, request, endpoint)]). fst t < ?n + 1" using ts(3) by auto
  ultimately show ?thesis
    using assms(1) q s unfolding tablet_inv_def
    by (auto simp: counts_ok_def RETRY_LIMIT_def intro!: exI [of _ "ts @ [(?n, request, endpoint)]"])
qed

lemma with_node_inv:
  "tablet_inv to_wire rand init tp \<Longrightarrow> tablet.server_inv init nd \<Longrightarrow> tablet_inv to_wire rand init (with_node nd tp)"
  by (auto simp: tablet_inv_def with_node_def)

lemma tablet_handle_inv:
  assumes "tablet_handle to_wire parse rand cs m tp = Some (Inr tp')" "tablet_inv to_wire rand init tp"
  shows "tablet_inv to_wire rand init tp' \<and> tp_scheduler tp' = tp_scheduler tp \<and> tp_tablet_id tp' = tp_tablet_id tp"
proof -
  have srv: "tablet.server_inv init (rs_node (tp_state tp))" using assms(2) by (simp add: tablet_inv_def)
  show ?thesis
  proof (cases "parse (incoming_payload m)")
    case (ClientMessage cm)
    show ?thesis
    proof (cases cm)
      case (ClientRequest request)
      obtain q s where qs: "handle_request to_wire (\<lambda>p. to_wire (tablet_paxos_wrapper (tp_tablet_id tp) p))
          (config_provider owner) rand (incoming_endpoint m) request (tp_async_queue tp, tp_state tp) = (q, s)"
        by (metis surj_pair)
      with assms(1) ClientMessage ClientRequest have "tp' = tp\<lparr>tp_async_queue := q, tp_state := s\<rparr>"
        by (simp add: tablet_handle_def Let_def)
      with handle_request_inv [OF assms(2) qs] show ?thesis by simp
    qed (use assms ClientMessage in \<open>auto simp: tablet_handle_def Let_def\<close>)
  next
    case (TabletMessage tm)
    show ?thesis
    proof (cases "tablet_payload tm")
      case (TabletPaxos pm)
      with assms(1) TabletMessage obtain nd where nd: "tp' = with_node nd tp"
        "handle_incoming_message (\<lambda>p. to_wire (tablet_paxos_wrapper (tp_tablet_id tp) p)) cs
          (config_provider owner) (incoming_endpoint m) pm (rs_node (tp_state tp)) = Inr nd"
        by (auto simp: tablet_handle_def Let_def rbind_eq_Inr)
      with with_node_inv [OF assms(2) tablet.paxos_message_server [OF nd(2) srv]] show ?thesis
        by (simp add: with_node_def)
    next
      case (TabletSync sm)
      with assms(1) TabletMessage obtain nd where nd: "tp' = with_node nd tp"
        "handle_sync_message (\<lambda>p. to_wire (tablet_sync_wrapper (tp_tablet_id tp) p)) (incoming_endpoint m) sm
          (rs_node (tp_state tp)) = Some (Inr nd)"
        by (auto simp: tablet_handle_def Let_def rbind_eq_Inr)
      with with_node_inv [OF assms(2) tablet.sync_message_server [OF nd(2) srv]] show ?thesis
        by (simp add: with_node_def)
    qed (use assms TabletMessage in \<open>auto simp: tablet_handle_def Let_def\<close>)
  qed (use assms in \<open>auto simp: tablet_handle_def Let_def\<close>)
qed

lemma run_task_inv:
  assumes "fire_run (tp_async_queue tp, tp_state tp) = Inr (q, s)" "tablet_inv to_wire rand init tp"
    and "scheduled_runs (tp_async_queue tp) \<noteq> []"
  shows "tablet_inv to_wire rand init (tp\<lparr>tp_async_queue := q, tp_state := s\<rparr>)"
proof -
  let ?q = "tp_async_queue tp" and ?s = "tp_state tp"
  from assms(2) obtain ts where
    ts: "queue_callbacks ?q = request_tasks to_wire rand (tp_tablet_id tp) ts" "distinct (map fst ts)"
    "\<forall>t\<in>set ts. fst t < length (rs_retry_counts ?s)" and inv: "async_queue_inv ?q" by (auto simp: tablet_inv_def)
  from fire_run_tasks [OF assms(1) ts(1) [unfolded request_tasks_def]] obtain t ts' w where
    tts: "ts = t # ts'" and run: "(case t of (rc, message, endpoint) \<Rightarrow>
      request_task to_wire (\<lambda>p. to_wire (tablet_paxos_wrapper (tp_tablet_id tp) p)) (config_provider owner) rand
        rc message endpoint) ?s = Inr (w, s)"
    and q: "queue_callbacks q = request_tasks to_wire rand (tp_tablet_id tp) (if w = TERMINATE then ts' else ts)"
      "async_queue_inv q"
    using inv assms(3) unfolding request_tasks_def by metis
  obtain rc message endpoint where t: "t = (rc, message, endpoint)" by (cases t)
  have srv: "tablet.server_inv init (rs_node ?s)" "counts_ok (rs_retry_counts ?s)"
    using assms(2) by (simp_all add: tablet_inv_def)
  have "rc < length (rs_retry_counts ?s)" using ts(3) by (simp add: tts t)
  note eff = request_task_effect [OF run [unfolded t, simplified] srv this]
  have "distinct (map fst (if w = TERMINATE then ts' else ts))"
    "\<forall>t\<in>set (if w = TERMINATE then ts' else ts). fst t < length (rs_retry_counts s)"
    using ts(2,3) eff by (auto simp: tts)
  with assms(2) eff q show ?thesis unfolding tablet_inv_def by auto
qed

lemma tablet_step_inv:
  assumes "tablet_step to_wire parse rand cs ev tp = Some (Inr tp')" "tablet_inv to_wire rand init tp"
  shows "tablet_inv to_wire rand init tp'"
proof (cases ev)
  case (QueueMessage m)
  with assms show ?thesis
    by (cases "message_queue (tp_scheduler tp)")
      (auto simp: tablet_inv_def queue_message_def schedule_async_def Let_def)
next
  case HandleMessage
  show ?thesis
  proof (cases "posted (tp_scheduler tp)")
    case Nil
    with assms HandleMessage show ?thesis by simp
  next
    case (Cons m ms)
    with assms(1) HandleMessage obtain tp1 where
      h: "tablet_handle to_wire parse rand cs m tp = Some (Inr tp1)"
      and tp': "tp' = tp1\<lparr>tp_scheduler := message_handled (tp_scheduler tp1)\<rparr>"
      by (auto simp: rbind_eq_Inr)
    from tablet_handle_inv [OF h assms(2)] have "tablet_inv to_wire rand init tp1" by blast
    moreover from this have "posted (message_handled (tp_scheduler tp1)) =
        take 1 (message_queue (message_handled (tp_scheduler tp1)))"
      by (cases "message_queue (tp_scheduler tp1)"; cases "tl (message_queue (tp_scheduler tp1))")
        (auto simp: tablet_inv_def message_handled_def schedule_async_def Let_def)
    ultimately show ?thesis by (simp add: tp' tablet_inv_def)
  qed
next
  case RunTask
  show ?thesis
  proof (cases "scheduled_runs (tp_async_queue tp) = []")
    case False
    with assms(1) RunTask obtain q s where "fire_run (tp_async_queue tp, tp_state tp) = Inr (q, s)"
      "tp' = tp\<lparr>tp_async_queue := q, tp_state := s\<rparr>"
      by (auto simp: rbind_eq_Inr)
    with run_task_inv [OF _ assms(2) False] show ?thesis by simp
  qed (use assms RunTask in simp)
next
  case SyncTimer
  with assms(1) obtain nd where nd: "tp' = with_node nd tp"
    "sync_timer (\<lambda>p. to_wire (tablet_sync_wrapper (tp_tablet_id tp) p)) owner (rs_node (tp_state tp)) = Inr nd"
    by (auto simp: rbind_eq_Inr)
  with with_node_inv [OF assms(2) tablet.sync_timer_server [OF nd(2)]] assms(2) show ?thesis
    by (simp add: tablet_inv_def)
qed

lemma tablet_log_eq:
  "tablet_log = \<lparr>log = Map.empty, available_indices = [0], callbacks = tablet_callbacks\<rparr>"
  by (simp add: tablet_callbacks_def tablet_log_def ClientRequestHandler_def register_config_manager_def
      add_callback_def PaxosLog_def)

lemma tablet_log_inv: "log_inv tablet_log"
  by (simp add: tablet_log_def ClientRequestHandler_def register_config_manager_def log_inv_add_callback log_inv_PaxosLog)

lemma TabletParticipant_inv:
  "tablet_inv to_wire rand (tablet_initial (get_all_endpoints sc)) (TabletParticipant random sc cc tid)"
proof -
  let ?init = "tablet_initial (get_all_endpoints sc)"
  have "kv_inv (kvs ?init)" by (simp add: tablet_initial_def)
  then have "follows ?init ?init" by (rule follows_refl)
  then have "tablet.log_followed ?init tablet_log ?init"
    using tablet_log_inv by (simp add: tablet.log_followed_def) (simp add: tablet_log_eq first_free_def)
  then show ?thesis
    by (simp add: tablet_inv_def TabletParticipant_def tablet.server_inv_def MultiPaxosHandler_def
        async_queue_inv_def AsyncQueue_def AsyncSchedulerImpl_def counts_ok_def request_tasks_def)
qed

lemma tablet_run_inv:
  "tablet_run to_wire parse rand cs evs tp = Some (Inr tp') \<Longrightarrow> tablet_inv to_wire rand init tp \<Longrightarrow>
     tablet_inv to_wire rand init tp'"
  by (induction evs arbitrary: tp)
    (auto split: option.splits sum.splits dest: tablet_step_inv)

text \<open>What the invariant says of the store, the requests and the configuration.\<close>

lemma tablet_inv_log:
  assumes "tablet_inv to_wire rand (tablet_initial es) tp"
  shows "let nd = rs_node (tp_state tp); m = log (node_log nd); n = first_free (node_log nd)
    in \<exists>d. replay tablet_callbacks m n (tablet_initial es) = Inr d \<and>
      owner (node_derived nd) = owner d \<and> ahead (node_derived nd) d \<and>
      (\<forall>k. stored_versions (kvs (node_derived nd)) k = logged_writes m n k) \<and>
      (\<forall>r. request_id_map (node_derived nd) r = logged_request m n r)"
proof -
  let ?nd = "rs_node (tp_state tp)"
  from assms obtain d where
    d: "replay tablet_callbacks (log (node_log ?nd)) (first_free (node_log ?nd)) (tablet_initial es) = Inr d"
    "follows (node_derived ?nd) d"
    by (auto simp: tablet_inv_def tablet.server_inv_def tablet.log_followed_def)
  from tablet.replay_is_history [OF d(1)] d show ?thesis
    by (auto simp: follows_def tablet_initial_def Let_def)
qed

section \<open>An example run\<close>

definition whole_table :: tablet_id where
  "whole_table = \<lparr>database_id = ''db'', table_id = ''t'', start_key = None, end_key = None\<rparr>"

definition lone_tablet :: "(message_wrapper, unit) tablet_participant" where
  "lone_tablet = TabletParticipant () \<lparr>channels = []\<rparr> \<lparr>channels = []\<rparr> whole_table"

text \<open>A sync response with a write, a read request for it, and the request's first run.\<close>

definition tablet_events :: "message_wrapper tablet_event list" where
  "tablet_events =
     [QueueMessage \<lparr>incoming_endpoint = EndpointId ''b'' 0, incoming_payload =
        TabletMessage \<lparr>tablet_range = convert_range_object whole_table, tablet_payload =
          TabletSync (SyncResponse \<lparr>missing_entries = [(0, write_of ''w1'' ''k'' ''a'' 3)]\<rparr>)\<rparr>\<rparr>,
      QueueMessage \<lparr>incoming_endpoint = EndpointId ''c'' 0, incoming_payload =
        ClientMessage (ClientRequest (read_request ''r1'' ''k'' 5))\<rparr>,
      HandleMessage, HandleMessage, RunTask]"

abbreviation lone_run :: "message_wrapper tablet_event list \<Rightarrow> (message_wrapper, unit) tablet_participant result option" where
  "lone_run evs \<equiv> tablet_run (\<lambda>w. w) (\<lambda>w. w) (\<lambda>r. (7, r)) initialize_constants evs lone_tablet"

lemma lone_tablet_run:
  "\<exists>tp. lone_run tablet_events = Some (Inr tp) \<and>
     log (node_log (rs_node (tp_state tp))) = [0 \<mapsto> write_of ''w1'' ''k'' ''a'' 3] \<and>
     available_indices (node_log (rs_node (tp_state tp))) = [1] \<and>
     rs_retry_counts (tp_state tp) = [1] \<and> scheduled_runs (tp_async_queue tp) = [WAIT_FOR_PAXOS]"
  by (simp add: tablet_events_def lone_tablet_def TabletParticipant_def queue_message_def schedule_async_def
      message_handled_def AsyncSchedulerImpl_def AsyncQueue_def tablet_handle_def with_node_def
      handle_sync_message_def handle_sync_response_def tablet_log_eq tablet_initial_def set_entry_def
      next_available_index_def take_index_def log_insert_def word_upt_Cons invoke_callbacks_def log_at_def
      write_of_def on_write_def kv_write_def Let_def handle_request_def add_task_def schedule_run_def
      fire_run_def run_task_def request_task_def read_request_def request_entry_def pb_string_def pb_uint64_def
      request_propose_def multi_propose_def get_instance_def put_instance_def MultiPaxosHandler_def config_provider_def
      PaxosConfigManager_def config_def get_all_endpoints_def RETRY_LIMIT_def single_propose_react task_returned_def
      WAIT_FOR_PAXOS_def TERMINATE_def map_insert_def)

section \<open>Properties\<close>

text \<open>
  C32: a tablet is what its log says. After any messages, timers and requests, in any order, the
  versions of every key in the tablet's store are the writes of its log's contiguous prefix, in
  order, the requests it knows are those the prefix holds, and the configuration is the one the
  prefix leads to; only the last access times may be ahead of the log.
\<close>

theorem tablet_follows_log:
  assumes "tablet_run to_wire parse rand cs evs (TabletParticipant random slave_connections client_connections tid) =
      Some (Inr tp)"
    and "nd = rs_node (tp_state tp)"
  shows "\<exists>d. replay tablet_callbacks (log (node_log nd)) (first_free (node_log nd))
        (tablet_initial (get_all_endpoints slave_connections)) = Inr d \<and>
      owner (node_derived nd) = owner d \<and> ahead (node_derived nd) d \<and>
      stored_versions (kvs (node_derived nd)) key = logged_writes (log (node_log nd)) (first_free (node_log nd)) key \<and>
      request_id_map (node_derived nd) r = logged_request (log (node_log nd)) (first_free (node_log nd)) r"
  using tablet_inv_log [OF tablet_run_inv [OF assms(1) TabletParticipant_inv], unfolded Let_def] unfolding assms(2) by blast

theorem tablet_follows_log_witness:
  "\<exists>tp. lone_run tablet_events = Some (Inr tp) \<and>
     stored_versions (kvs (node_derived (rs_node (tp_state tp)))) ''k'' = [\<lparr>ve_timestamp = 3, ve_value = ''a''\<rparr>]"
proof -
  obtain tp where tp: "lone_run tablet_events = Some (Inr tp)"
    "log (node_log (rs_node (tp_state tp))) = [0 \<mapsto> write_of ''w1'' ''k'' ''a'' 3]"
    "available_indices (node_log (rs_node (tp_state tp))) = [1]"
    using lone_tablet_run by blast
  from tablet_follows_log [OF tp(1) [unfolded lone_tablet_def] refl, of "''k''"] show ?thesis
    by (auto simp: tp first_free_def logged_writes_def word_upt_Cons write_of_def)
qed

text \<open>
  C33: bounds of a tablet. In every state a tablet can reach, at most one message is being handled
  and it is the oldest one, and a timer is pending exactly while requests wait, and then only one. The
  tasks that wait are those of requests, each with a retry counter that it shares with no other,
  and no counter leaves 0 to \<open>RETRY_LIMIT\<close>. (A tablet's messages and timers share one thread.)
\<close>

theorem tablet_bounds:
  assumes "tablet_run to_wire parse rand cs evs (TabletParticipant random slave_connections client_connections tid) =
      Some (Inr tp)"
  shows "posted (tp_scheduler tp) = take 1 (message_queue (tp_scheduler tp)) \<and>
    length (scheduled_runs (tp_async_queue tp)) = (if queue_empty (tp_async_queue tp) then 0 else 1) \<and>
    (\<exists>ts. queue_callbacks (tp_async_queue tp) = request_tasks to_wire rand (tp_tablet_id tp) ts \<and>
       distinct (map fst ts) \<and> set (map fst ts) \<subseteq> {..<length (rs_retry_counts (tp_state tp))}) \<and>
    (\<forall>c\<in>set (rs_retry_counts (tp_state tp)). 0 \<le> c \<and> c \<le> RETRY_LIMIT)"
proof -
  have "tablet_inv to_wire rand (tablet_initial (get_all_endpoints slave_connections)) tp"
    by (rule tablet_run_inv [OF assms]) (rule TabletParticipant_inv)
  then show ?thesis
    unfolding tablet_inv_def counts_ok_def async_queue_inv_def queue_empty_def by auto
qed

theorem tablet_bounds_witness:
  "\<exists>tp. lone_run tablet_events = Some (Inr tp) \<and> scheduled_runs (tp_async_queue tp) = [WAIT_FOR_PAXOS] \<and>
     \<not> queue_empty (tp_async_queue tp)"
proof -
  obtain tp where tp: "lone_run tablet_events = Some (Inr tp)"
    "scheduled_runs (tp_async_queue tp) = [WAIT_FOR_PAXOS]"
    using lone_tablet_run by blast
  from tablet_bounds [OF tp(1) [unfolded lone_tablet_def]] tp show ?thesis by (auto split: if_splits)
qed

end
