(* ===== verification/TabletParticipantManager.thy ===== *)
theory TabletParticipantManager
  imports TabletParticipant
begin

text \<open>
  \<open>uni::slave::TabletParticipantManager\<close> (src/src/slave/TabletParticipantManager.cc): the tablets
  of a slave, created when the key space of the slave's group changes, and the routing of client
  requests and tablet messages to the scheduler of a tablet; and the placement of new tablets on
  threads by \<open>ProductionContext\<close> (src/src/slave/impl/ProductionContext.cc). \<open>_tp_map\<close> is an
  unordered map: an association list with distinct keys, whose order is the iteration order.
\<close>

section \<open>Routing\<close>

type_synonym ('w, 'r) tp_map = "(tablet_id \<times> ('w, 'r) tablet_participant) list"

definition queue_tablet_message ::
  "'w incoming_message \<Rightarrow> ('w, 'r) tablet_participant \<Rightarrow> ('w, 'r) tablet_participant" where
  "queue_tablet_message m tp = tp\<lparr>tp_scheduler := queue_message m (tp_scheduler tp)\<rparr>"

text \<open>The two loops: the first tablet that matches gets the message.\<close>

fun route :: "(tablet_id \<Rightarrow> bool) \<Rightarrow> 'w incoming_message \<Rightarrow> ('w, 'r) tp_map \<Rightarrow> ('w, 'r) tp_map option" where
  "route matches m [] = None"
| "route matches m ((tid, tp) # tps) =
     (if matches tid then Some ((tid, queue_tablet_message m tp) # tps)
      else map_option (\<lambda>tps'. (tid, tp) # tps') (route matches m tps))"

definition handle_client_request ::
  "(message_wrapper \<Rightarrow> 'w) \<Rightarrow> client_request \<Rightarrow> 'w incoming_message
   \<Rightarrow> ('w, 'r) tp_map \<times> 'w connections \<Rightarrow> ('w, 'r) tp_map \<times> 'w connections" where
  "handle_client_request to_wire request m x =
     (let (tps, clients) = x
      in case route (\<lambda>tid. within_range tid (cr_database_id request) (cr_table_id request) (cr_key request)) m tps of
           Some tps' \<Rightarrow> (tps', clients)
         | None \<Rightarrow> (tps, client_respond to_wire (incoming_endpoint m) error_response clients))"

definition handle_tablet_message ::
  "tablet_message \<Rightarrow> 'w incoming_message \<Rightarrow> ('w, 'r) tp_map \<Rightarrow> ('w, 'r) tp_map" where
  "handle_tablet_message tm m tps =
     (case route (\<lambda>tid. range_eq tid (convert_range (tablet_range tm))) m tps of
        Some tps' \<Rightarrow> tps' | None \<Rightarrow> tps)"

definition tp_handle ::
  "(message_wrapper \<Rightarrow> 'w) \<Rightarrow> ('w \<Rightarrow> message_wrapper) \<Rightarrow> 'w incoming_message
   \<Rightarrow> ('w, 'r) tp_map \<times> 'w connections \<Rightarrow> ('w, 'r) tp_map \<times> 'w connections" where
  "tp_handle to_wire parse m x =
     (case parse (incoming_payload m) of
        ClientMessage client_message \<Rightarrow>
          (case client_message of
             ClientRequest request \<Rightarrow> handle_client_request to_wire request m x
           | _ \<Rightarrow> x)
      | TabletMessage tm \<Rightarrow> (handle_tablet_message tm m (fst x), snd x)
      | _ \<Rightarrow> x)"

text \<open>
  Only ranges without a tablet get a new one; no tablet is ever removed. \<open>_tp_provider\<close> keeps state
  of its own, the \<open>'c\<close>, and may fail.
\<close>

type_synonym ('w, 'r, 'c) tp_provider = "tablet_id \<Rightarrow> 'c \<Rightarrow> (('w, 'r) tablet_participant \<times> 'c) result"

definition add_tablet ::
  "('w, 'r, 'c) tp_provider \<Rightarrow> key_space_range \<Rightarrow> ('w, 'r) tp_map \<times> 'c \<Rightarrow> (('w, 'r) tp_map \<times> 'c) result" where
  "add_tablet provider r x =
     (let (tps, c) = x
      in if r \<in> fst ` set tps then Inr (tps, c)
         else rbind (provider r c) (\<lambda>(tp, c'). Inr (tps @ [(r, tp)], c')))"

definition tp_key_space_change ::
  "('w, 'r, 'c) tp_provider \<Rightarrow> key_space_range list \<Rightarrow> ('w, 'r) tp_map \<times> 'c \<Rightarrow> (('w, 'r) tp_map \<times> 'c) result" where
  "tp_key_space_change provider ranges x = rfold (add_tablet provider) ranges x"

definition get_tps :: "('w, 'r) tp_map \<Rightarrow> ('w, 'r) tp_map" where
  "get_tps tps = tps"

section \<open>Placement on threads\<close>

text \<open>
  \<open>std::min_element\<close> finds the first of the smallest counts, or the end of an empty vector, at
  distance 0; indexing an empty vector is undefined. The count of threads is unsigned arithmetic.
\<close>

definition num_supported_threads :: "32 word \<Rightarrow> 32 word" where
  "num_supported_threads hardware_concurrency = hardware_concurrency - 2"

fun min_index :: "32 word list \<Rightarrow> nat" where
  "min_index [] = 0"
| "min_index [c] = 0"
| "min_index (c # cs) = (if cs ! min_index cs < c then Suc (min_index cs) else 0)"

definition place_participant :: "32 word list \<Rightarrow> (nat \<times> 32 word list) result" where
  "place_participant participants_per_thread =
     (let i = min_index participants_per_thread
      in if i < length participants_per_thread
         then Inr (i, participants_per_thread[i := participants_per_thread ! i + 1])
         else Inl UndefinedBehaviour)"

definition initial_threads :: "32 word \<Rightarrow> 32 word list" where
  "initial_threads hardware_concurrency = replicate (unat (num_supported_threads hardware_concurrency)) 0"

text \<open>
  The provider of the slave: a thread is chosen, and a tablet with its own random numbers built
  over the connections to the slaves as they are at that moment.
\<close>

definition production_provider ::
  "(tablet_id \<Rightarrow> 'r) \<Rightarrow> 'w connections \<Rightarrow> 'w connections \<Rightarrow> ('w, 'r, 32 word list) tp_provider" where
  "production_provider random client_connections slave_connections tid participants_per_thread =
     rbind (place_participant participants_per_thread) (\<lambda>(i, participants_per_thread').
     Inr (TabletParticipant (random tid) slave_connections client_connections tid, participants_per_thread'))"

section \<open>Lemmas\<close>

lemma route_None: "route matches m tps = None \<longleftrightarrow> (\<forall>x\<in>set tps. \<not> matches (fst x))"
  by (induction matches m tps rule: route.induct) simp_all

lemma route_Some:
  "route matches m tps = Some tps' \<Longrightarrow>
     \<exists>us tid tp vs. tps = us @ (tid, tp) # vs \<and> tps' = us @ (tid, queue_tablet_message m tp) # vs \<and>
       matches tid \<and> (\<forall>x\<in>set us. \<not> matches (fst x))"
proof (induction tps arbitrary: tps')
  case (Cons x tps)
  obtain tid tp where x: "x = (tid, tp)" by (cases x)
  show ?case
  proof (cases "matches tid")
    case True
    with Cons.prems show ?thesis unfolding x by (intro exI [of _ "[]"] exI [of _ tid] exI [of _ tp] exI [of _ tps]) simp
  next
    case False
    with Cons.prems obtain tps1 where t: "route matches m tps = Some tps1" "tps' = (tid, tp) # tps1"
      by (auto simp: x)
    from Cons.IH [OF t(1)] obtain us tid' tp' vs where
      "tps = us @ (tid', tp') # vs" "tps1 = us @ (tid', queue_tablet_message m tp') # vs"
      "matches tid'" "\<forall>x\<in>set us. \<not> matches (fst x)" by blast
    with False t(2) show ?thesis
      unfolding x by (intro exI [of _ "(tid, tp) # us"] exI [of _ tid'] exI [of _ tp'] exI [of _ vs]) simp
  qed
qed simp

lemma route_keys: "route matches m tps = Some tps' \<Longrightarrow> map fst tps' = map fst tps"
  by (drule route_Some) auto

lemma tp_handle_keys: "map fst (fst (tp_handle to_wire parse m x)) = map fst (fst x)"
  by (auto simp: tp_handle_def handle_client_request_def handle_tablet_message_def route_keys Let_def
      split: message_wrapper.splits client_message.splits option.splits prod.splits)

lemma key_space_change_keys:
  "tp_key_space_change prov ranges (tps, c) = Inr (tps', c') \<Longrightarrow>
     set (map fst tps') = set (map fst tps) \<union> set ranges \<and>
     (distinct (map fst tps) \<longrightarrow> distinct (map fst tps'))"
  unfolding tp_key_space_change_def
proof (induction ranges arbitrary: tps c)
  case (Cons r ranges)
  then obtain tps1 c1 where step: "add_tablet prov r (tps, c) = Inr (tps1, c1)"
    "rfold (add_tablet prov) ranges (tps1, c1) = Inr (tps', c')" by (auto simp: rbind_eq_Inr)
  from step(1) have "set (map fst tps1) = insert r (set (map fst tps))"
    "distinct (map fst tps) \<Longrightarrow> distinct (map fst tps1)"
    by (auto simp: add_tablet_def rbind_eq_Inr split: if_splits)
  with Cons.IH [OF step(2)] show ?case by auto
qed simp

text \<open>Old tablets stay as they are, new ones come from the provider.\<close>

lemma key_space_change_tablets:
  assumes "tp_key_space_change prov ranges (tps, c) = Inr (tps', c')"
    and "\<And>x. x \<in> set tps \<Longrightarrow> P x" and "\<And>r c tp c'. prov r c = Inr (tp, c') \<Longrightarrow> P (r, tp)"
  shows "set tps \<subseteq> set tps' \<and> (\<forall>x\<in>set tps'. P x)"
proof -
  let ?Q = "\<lambda>x. set tps \<subseteq> set (fst x) \<and> (\<forall>y\<in>set (fst x). P y)"
  have "?Q (tps', c')"
  proof (rule rfold_invariant [OF assms(1) [unfolded tp_key_space_change_def], of ?Q])
    fix r x x'
    assume "?Q x" "add_tablet prov r x = Inr x'"
    then show "?Q x'"
      using assms(3) by (cases x) (auto simp: add_tablet_def rbind_eq_Inr split: if_splits)
  qed (use assms(2) in simp)
  then show ?thesis by simp
qed

text \<open>
  Which tablets are created depends on the ranges that have one, not on what these tablets do, nor
  on what the provider builds.
\<close>

lemma key_space_change_same_keys:
  assumes "\<And>r c tp c'. prov r c = Inr (tp, c') \<Longrightarrow> \<exists>tp0. prov0 r c = Inr (tp0, c')"
  shows "tp_key_space_change prov ranges (tps, c) = Inr (tps', c') \<Longrightarrow> map fst tps0 = map fst tps \<Longrightarrow>
     \<exists>tps0'. tp_key_space_change prov0 ranges (tps0, c) = Inr (tps0', c') \<and> map fst tps0' = map fst tps'"
  unfolding tp_key_space_change_def
proof (induction ranges arbitrary: tps tps0 c)
  case (Cons r ranges)
  then obtain tps1 c1 where step: "add_tablet prov r (tps, c) = Inr (tps1, c1)"
    "rfold (add_tablet prov) ranges (tps1, c1) = Inr (tps', c')" by (auto simp: rbind_eq_Inr)
  have "fst ` set tps0 = fst ` set tps" using Cons.prems(2) by (metis set_map)
  moreover have "\<exists>tps2. add_tablet prov0 r (tps0, c) = Inr (tps2, c1) \<and> map fst tps2 = map fst tps1"
  proof (cases "r \<in> fst ` set tps")
    case True
    with step(1) Cons.prems(2) calculation show ?thesis by (auto simp: add_tablet_def)
  next
    case False
    with step(1) obtain tp where tp: "prov r c = Inr (tp, c1)" "tps1 = tps @ [(r, tp)]"
      by (auto simp: add_tablet_def rbind_eq_Inr)
    from assms [OF tp(1)] obtain tp0 where "prov0 r c = Inr (tp0, c1)" by blast
    with False Cons.prems(2) calculation tp(2) show ?thesis by (simp add: add_tablet_def)
  qed
  then obtain tps2 where "add_tablet prov0 r (tps0, c) = Inr (tps2, c1)" "map fst tps2 = map fst tps1" by blast
  with Cons.IH [OF step(2)] show ?case by simp
qed simp

lemma production_provider_any:
  "production_provider random cc sc r c = Inr (tp, c') \<Longrightarrow> \<exists>tp0. production_provider random cc sc0 r c = Inr (tp0, c')"
  by (auto simp: production_provider_def rbind_eq_Inr)

lemma production_same_keys:
  assumes "tp_key_space_change (production_provider random cc sc) ranges (tps, c) = Inr (tps', c')"
    and "map fst other = map fst tps"
  shows "\<exists>other'. tp_key_space_change (production_provider random cc sc') ranges (other, c) = Inr (other', c') \<and>
    map fst other' = map fst tps'"
  by (rule key_space_change_same_keys [OF _ assms]) (rule production_provider_any)

lemma min_index_least:
  "cs \<noteq> [] \<Longrightarrow> min_index cs < length cs \<and> (\<forall>c\<in>set cs. cs ! min_index cs \<le> c)"
  by (induction cs rule: min_index.induct) (auto intro: order_trans less_imp_le)

lemma place_participant_ok: "cs \<noteq> [] \<Longrightarrow> is_ok (place_participant cs)"
  by (simp add: place_participant_def Let_def min_index_least)

lemma place_participant_length: "place_participant cs = Inr (i, cs') \<Longrightarrow> length cs' = length cs \<and> cs \<noteq> []"
  by (auto simp: place_participant_def Let_def split: if_splits)

lemma production_add_ok:
  assumes "threads \<noteq> []"
  shows "\<exists>tps' threads'. add_tablet (production_provider random cc sc) r (tps, threads) = Inr (tps', threads') \<and>
    length threads' = length threads"
proof -
  from place_participant_ok [OF assms] obtain i threads1 where
    p: "place_participant threads = Inr (i, threads1)" by (auto simp: is_ok_iff)
  with place_participant_length [OF p] show ?thesis
    by (cases "r \<in> fst ` set tps") (simp_all add: add_tablet_def production_provider_def)
qed

lemma production_tablets_ok: "threads \<noteq> [] \<Longrightarrow>
    \<exists>tps' threads'. tp_key_space_change (production_provider random cc sc) ranges (tps, threads) = Inr (tps', threads') \<and>
      length threads' = length threads"
  unfolding tp_key_space_change_def
proof (induction ranges arbitrary: tps threads)
  case (Cons r ranges)
  from production_add_ok [OF Cons.prems] obtain tps1 threads1 where
    p: "add_tablet (production_provider random cc sc) r (tps, threads) = Inr (tps1, threads1)"
      "length threads1 = length threads" by metis
  with Cons.prems have "threads1 \<noteq> []" by auto
  from Cons.IH [OF this, of tps1] p show ?case by auto
qed simp

text \<open>Placement keeps the threads balanced: their counts differ by at most one, and the tablets are counted.\<close>

definition balanced :: "32 word list \<Rightarrow> bool" where
  "balanced cs \<longleftrightarrow> (\<forall>a\<in>set cs. \<forall>b\<in>set cs. unat a \<le> unat b + 1)"

lemma place_balanced:
  assumes "place_participant cs = Inr (i, cs')" "balanced cs" "sum_list (map unat cs) < 2 ^ 32 - 1"
  shows "balanced cs' \<and> sum_list (map unat cs') = sum_list (map unat cs) + 1"
proof -
  from assms(1) have i: "i = min_index cs" "i < length cs" "cs' = cs[i := cs ! i + 1]"
    by (auto simp: place_participant_def Let_def split: if_splits)
  then have "cs \<noteq> []" by auto
  from min_index_least [OF this] i have least: "\<And>c. c \<in> set cs \<Longrightarrow> unat (cs ! i) \<le> unat c"
    by (auto simp: word_le_nat_alt)
  have "unat (cs ! i) \<le> sum_list (map unat cs)" using i(2) by (intro member_le_sum_list) auto
  with assms(3) have s: "unat (cs ! i + 1) = unat (cs ! i) + 1" by (simp add: unat_word_ariths)
  have "unat a \<le> unat b + 1" if a: "a \<in> set cs'" and b: "b \<in> set cs'" for a b
  proof -
    from a i(3) have "a = cs ! i + 1 \<or> a \<in> set cs" by (auto dest: set_update_subset_insert [THEN subsetD])
    moreover from b i(3) have "b = cs ! i + 1 \<or> b \<in> set cs" by (auto dest: set_update_subset_insert [THEN subsetD])
    moreover have "cs ! i \<in> set cs" using i(2) by simp
    ultimately show ?thesis using assms(2) least [of b] s unfolding balanced_def by force
  qed
  moreover have "sum_list (map unat cs') = sum_list (map unat cs) + 1"
    unfolding i(3) map_update s using i(2) by (simp add: sum_list_update)
  ultimately show ?thesis by (simp add: balanced_def)
qed

end
