(* ===== verification/HeartbeatTracker.thy ===== *)
theory HeartbeatTracker
  imports Connections
begin

text \<open>
  \<open>uni::server::HeartbeatTracker\<close> and \<open>FailureDetector\<close> (src/src/server). \<open>_heartbeat_count\<close> is a
  \<open>std::map\<close> whose order compares the address of an \<open>EndpointId\<close> alone: a list of pairs in strictly
  increasing address order, in which two endpoints with one address are the same key. The lemmas
  show that the order is kept and that the tracker implements its specification: an address is
  alive when fewer than four periods have passed since its last heartbeat, and the leader is the
  smallest alive address.
\<close>

section \<open>State and operations\<close>

type_synonym heartbeat_count = "(endpoint_id \<times> 32 word) list"

definition HEARTBEAT_FAILURE_COUNT :: "32 word" where "HEARTBEAT_FAILURE_COUNT = 4"
definition HEARTBEAT_SEND_PERIOD :: "32 word" where "HEARTBEAT_SEND_PERIOD = 1000"

definition increment_counts :: "heartbeat_count \<Rightarrow> heartbeat_count" where
  "increment_counts hc = map (\<lambda>(endpoint, count). (endpoint, count + 1)) hc"

fun handle_heartbeat :: "heartbeat_count \<Rightarrow> endpoint_id \<Rightarrow> heartbeat_count" where
  "handle_heartbeat [] e = [(e, 0)]"
| "handle_heartbeat ((k, count) # hc) e =
     (if endpoint_less k e then (k, count) # handle_heartbeat hc e
      else if endpoint_less e k then (e, 0) # (k, count) # hc
      else (k, 0) # hc)"

text \<open>The \<open>while\<close> loop: the endpoints still alive, and the map without the dead ones.\<close>

fun alive_endpoints :: "heartbeat_count \<Rightarrow> endpoint_id list \<times> heartbeat_count" where
  "alive_endpoints [] = ([], [])"
| "alive_endpoints ((k, count) # hc) =
     (let (endpoints, hc') = alive_endpoints hc
      in if count \<ge> HEARTBEAT_FAILURE_COUNT then (endpoints, hc') else (k # endpoints, (k, count) # hc'))"

definition leader_endpoint_id :: "heartbeat_count \<Rightarrow> endpoint_id option \<times> heartbeat_count" where
  "leader_endpoint_id hc =
     (let (endpoints, hc') = alive_endpoints hc
      in (if length endpoints > 0 then Some (endpoints ! 0) else None, hc'))"

text \<open>The callback \<open>FailureDetector::schedule_heartbeat\<close> repeats every \<open>HEARTBEAT_SEND_PERIOD\<close>.\<close>

definition heartbeat_callback ::
  "(message_wrapper \<Rightarrow> 'w) \<Rightarrow> endpoint_id list \<Rightarrow> heartbeat_count \<times> 'w connections
   \<Rightarrow> heartbeat_count \<times> 'w connections" where
  "heartbeat_callback to_wire endpoints x =
     (let (hc, c) = x
      in (increment_counts hc, broadcast endpoints (to_wire (SlaveMessage Heartbeat)) c))"

definition schedule_heartbeat :: "'cb \<Rightarrow> ('cb \<Rightarrow> int \<Rightarrow> 't \<Rightarrow> 't) \<Rightarrow> 't \<Rightarrow> 't" where
  "schedule_heartbeat callback schedule_repeated timer =
     schedule_repeated callback (uint HEARTBEAT_SEND_PERIOD) timer"

definition FailureDetector :: "'cb \<Rightarrow> ('cb \<Rightarrow> int \<Rightarrow> 't \<Rightarrow> 't) \<Rightarrow> 't \<Rightarrow> 't" where
  "FailureDetector callback schedule_repeated timer = schedule_heartbeat callback schedule_repeated timer"

section \<open>The order of the map\<close>

definition tracker_inv :: "heartbeat_count \<Rightarrow> bool" where
  "tracker_inv hc \<longleftrightarrow> sorted_wrt (\<lambda>a b. ip_string (fst a) < ip_string (fst b)) hc"

definition count_of :: "heartbeat_count \<Rightarrow> string \<Rightarrow> 32 word option" where
  "count_of hc ip = map_of (map (\<lambda>(e, c). (ip_string e, c)) hc) ip"

lemma count_of_simps [simp]:
  "count_of [] ip = None"
  "count_of ((k, c) # hc) ip = (if ip = ip_string k then Some c else count_of hc ip)"
  by (simp_all add: count_of_def)

lemma count_of_None:
  "(\<And>x. x \<in> set hc \<Longrightarrow> ip < ip_string (fst x)) \<Longrightarrow> count_of hc ip = None"
  by (induction hc) force+

lemma tracker_inv_increment [inv_intros]: "tracker_inv hc \<Longrightarrow> tracker_inv (increment_counts hc)"
  by (auto simp: tracker_inv_def increment_counts_def sorted_wrt_map split_beta)

lemma set_handle_heartbeat:
  "x \<in> set (handle_heartbeat hc e) \<Longrightarrow> ip_string (fst x) = ip_string e \<or> fst x \<in> fst ` set hc"
  by (induction hc e rule: handle_heartbeat.induct) (force split: if_splits)+

lemma tracker_inv_heartbeat [inv_intros]: "tracker_inv hc \<Longrightarrow> tracker_inv (handle_heartbeat hc e)"
proof (induction hc e rule: handle_heartbeat.induct)
  case (2 k c hc e)
  then show ?case
    using set_handle_heartbeat [of _ hc e]
    by (fastforce simp: tracker_inv_def endpoint_less_def not_less)
qed (simp add: tracker_inv_def)

lemma set_alive_endpoints: "set (snd (alive_endpoints hc)) \<subseteq> set hc"
  by (induction hc) (auto simp: split_beta Let_def split: if_splits)

lemma tracker_inv_alive [inv_intros]: "tracker_inv hc \<Longrightarrow> tracker_inv (snd (alive_endpoints hc))"
  using set_alive_endpoints
  by (induction hc) (auto simp: tracker_inv_def split_beta Let_def, fastforce)

lemma fst_alive_endpoints: "fst (alive_endpoints hc) = map fst (snd (alive_endpoints hc))"
  by (induction hc) (auto simp: split_beta Let_def)

lemma count_of_increment [simp]: "count_of (increment_counts hc) ip = map_option (\<lambda>c. c + 1) (count_of hc ip)"
  by (induction hc) (auto simp: increment_counts_def)

lemma count_of_heartbeat:
  "tracker_inv hc \<Longrightarrow> count_of (handle_heartbeat hc e) ip = (if ip = ip_string e then Some 0 else count_of hc ip)"
proof (induction hc e rule: handle_heartbeat.induct)
  case (2 k c hc e)
  have "ip_string e = ip_string k \<or> ip_string k < ip_string e \<or> ip_string e < ip_string k" by force
  with 2 show ?case by (auto simp: tracker_inv_def endpoint_less_def)
qed simp

lemma count_of_alive:
  "tracker_inv hc \<Longrightarrow> count_of (snd (alive_endpoints hc)) ip =
     (case count_of hc ip of None \<Rightarrow> None | Some c \<Rightarrow> if c < HEARTBEAT_FAILURE_COUNT then Some c else None)"
proof (induction hc)
  case (Cons x hc)
  obtain k c where x: "x = (k, c)" by (cases x)
  from Cons.prems have inv: "tracker_inv hc" and above: "\<And>y. y \<in> set hc \<Longrightarrow> ip_string k < ip_string (fst y)"
    by (auto simp: tracker_inv_def x)
  from above have "count_of (snd (alive_endpoints hc)) (ip_string k) = None"
    using set_alive_endpoints [of hc] by (intro count_of_None) blast
  with Cons.IH [OF inv] show ?case by (auto simp: x split_beta Let_def not_le)
qed simp

lemma alive_iff_count:
  assumes "tracker_inv hc"
  shows "ip \<in> ip_string ` set (fst (alive_endpoints hc)) \<longleftrightarrow>
    (\<exists>c. count_of hc ip = Some c \<and> c < HEARTBEAT_FAILURE_COUNT)"
proof -
  have "ip \<in> ip_string ` fst ` set h \<longleftrightarrow> count_of h ip \<noteq> None" for h
    by (induction h) auto
  then show ?thesis
    unfolding fst_alive_endpoints set_map count_of_alive [OF assms]
    by (auto simp: count_of_alive [OF assms] split: option.splits if_splits)
qed

section \<open>The specification\<close>

text \<open>What happens to a tracker, and the periods since an address was last heard.\<close>

datatype heartbeat_event = HeartbeatFrom endpoint_id | Period | Query

fun tracker_step :: "heartbeat_event \<Rightarrow> heartbeat_count \<Rightarrow> heartbeat_count" where
  "tracker_step (HeartbeatFrom e) hc = handle_heartbeat hc e"
| "tracker_step Period hc = increment_counts hc"
| "tracker_step Query hc = snd (alive_endpoints hc)"

fun silence_step :: "heartbeat_event \<Rightarrow> (string \<Rightarrow> nat option) \<Rightarrow> string \<Rightarrow> nat option" where
  "silence_step (HeartbeatFrom e) f = f(ip_string e := Some 0)"
| "silence_step Period f = (\<lambda>ip. map_option Suc (f ip))"
| "silence_step Query f = f"

definition silence :: "heartbeat_event list \<Rightarrow> string \<Rightarrow> nat option" where
  "silence evs = fold silence_step evs (\<lambda>_. None)"

definition tracker_run :: "heartbeat_event list \<Rightarrow> heartbeat_count" where
  "tracker_run evs = fold tracker_step evs []"

definition periods :: "heartbeat_event list \<Rightarrow> nat" where
  "periods evs = length (filter (\<lambda>ev. ev = Period) evs)"

definition tracks :: "nat \<Rightarrow> heartbeat_count \<Rightarrow> (string \<Rightarrow> nat option) \<Rightarrow> bool" where
  "tracks n hc f \<longleftrightarrow> tracker_inv hc \<and>
     (\<forall>ip c. count_of hc ip = Some c \<longrightarrow> f ip = Some (unat c) \<and> unat c \<le> n) \<and>
     (\<forall>ip k. count_of hc ip = None \<longrightarrow> f ip = Some k \<longrightarrow> unat HEARTBEAT_FAILURE_COUNT \<le> k)"

lemma tracks_step:
  assumes "tracks n hc f" and "ev = Period \<Longrightarrow> n + 1 < 2 ^ 32"
  shows "tracks (if ev = Period then n + 1 else n) (tracker_step ev hc) (silence_step ev f)"
proof (cases ev)
  case (HeartbeatFrom e)
  with assms(1) show ?thesis
    by (auto simp: tracks_def count_of_heartbeat tracker_inv_heartbeat)
next
  case Period
  have "unat (c + 1) = Suc (unat c)" if "unat c \<le> n" for c :: "32 word"
    using that assms(2) Period by (simp add: unat_word_ariths)
  with assms(1) Period show ?thesis
    by (auto simp: tracks_def tracker_inv_increment intro: le_SucI)
next
  case Query
  with assms(1) show ?thesis
    by (auto simp: tracks_def tracker_inv_alive count_of_alive word_less_nat_alt split: option.splits if_splits)
qed

lemma tracks_run: "periods evs < 2 ^ 32 \<Longrightarrow> tracks (periods evs) (tracker_run evs) (silence evs)"
proof (induction evs rule: rev_induct)
  case Nil
  then show ?case by (simp add: tracks_def tracker_run_def silence_def periods_def tracker_inv_def)
next
  case (snoc ev evs)
  have p: "periods (evs @ [ev]) = (if ev = Period then periods evs + 1 else periods evs)"
    by (simp add: periods_def)
  with snoc have IH: "tracks (periods evs) (tracker_run evs) (silence evs)" by (simp split: if_splits)
  have "ev = Period \<Longrightarrow> periods evs + 1 < 2 ^ 32" using snoc.prems p by simp
  from tracks_step [OF IH this] show ?case
    by (simp add: p tracker_run_def silence_def)
qed

lemma alive_endpoints_of_run:
  assumes "periods evs < 2 ^ 32"
  shows "ip \<in> ip_string ` set (fst (alive_endpoints (tracker_run evs))) \<longleftrightarrow>
    (\<exists>k. silence evs ip = Some k \<and> k < 4)"
proof -
  from tracks_run [OF assms] have t: "tracker_inv (tracker_run evs)"
      "\<And>c. count_of (tracker_run evs) ip = Some c \<Longrightarrow> silence evs ip = Some (unat c)"
      "\<And>k. count_of (tracker_run evs) ip = None \<Longrightarrow> silence evs ip = Some k \<Longrightarrow> 4 \<le> k"
    by (simp_all add: tracks_def HEARTBEAT_FAILURE_COUNT_def)
  show ?thesis
  proof (cases "count_of (tracker_run evs) ip")
    case None
    with t(3) show ?thesis unfolding alive_iff_count [OF t(1)] by fastforce
  next
    case (Some c)
    with t(2) [OF Some] show ?thesis
      unfolding alive_iff_count [OF t(1)] by (auto simp: HEARTBEAT_FAILURE_COUNT_def word_less_nat_alt)
  qed
qed

section \<open>Properties\<close>

text \<open>
  C14: the tracker implements its specification. After any sequence of heartbeats, periods and
  queries (fewer than \<open>2^32\<close> periods, so that no count wraps), the addresses of the alive endpoints
  are exactly those heard from fewer than four periods ago, each once, in increasing order.
\<close>

theorem alive_endpoints_correct:
  assumes "periods evs < 2 ^ 32"
  shows "sorted_wrt (<) (map ip_string (fst (alive_endpoints (tracker_run evs)))) \<and>
    set (map ip_string (fst (alive_endpoints (tracker_run evs)))) = {ip. \<exists>k. silence evs ip = Some k \<and> k < 4}"
proof
  have "tracker_inv (snd (alive_endpoints (tracker_run evs)))"
    using tracks_run [OF assms] by (simp add: tracks_def tracker_inv_alive)
  then show "sorted_wrt (<) (map ip_string (fst (alive_endpoints (tracker_run evs))))"
    by (simp add: fst_alive_endpoints tracker_inv_def sorted_wrt_map)
qed (use alive_endpoints_of_run [OF assms] in auto)

theorem alive_endpoints_correct_witness:
  "map ip_string (fst (alive_endpoints (tracker_run
     [HeartbeatFrom (EndpointId ''10.0.0.2'' 0), Period, HeartbeatFrom (EndpointId ''10.0.0.1'' 0), Period, Query]))) =
   [''10.0.0.1'', ''10.0.0.2'']"
proof -
  let ?evs = "[HeartbeatFrom (EndpointId ''10.0.0.2'' 0), Period, HeartbeatFrom (EndpointId ''10.0.0.1'' 0), Period, Query]"
  let ?ips = "map ip_string (fst (alive_endpoints (tracker_run ?evs)))"
  have "periods ?evs < 2 ^ 32" by (simp add: periods_def)
  from alive_endpoints_correct [OF this] have ips: "sorted_wrt (<) ?ips"
    "set ?ips = {ip. \<exists>k. silence ?evs ip = Some k \<and> k < 4}" by simp_all
  have "{ip. \<exists>k. silence ?evs ip = Some k \<and> k < 4} = {''10.0.0.1'', ''10.0.0.2''}"
    by (auto simp: silence_def)
  then have all: "set ?ips = set [''10.0.0.1'', ''10.0.0.2'']" unfolding ips(2) by simp
  have "sorted_wrt (<) [''10.0.0.1'', ''10.0.0.2'']" by simp
  from strict_sorted_equal [OF this ips(1) all] show ?thesis .
qed

text \<open>
  The leader is the alive endpoint with the smallest address, and there is none exactly when
  no address has been heard from in the last four periods.
\<close>

theorem leader_is_smallest_alive:
  assumes "periods evs < 2 ^ 32"
  shows "case fst (leader_endpoint_id (tracker_run evs)) of
      None \<Rightarrow> (\<nexists>ip k. silence evs ip = Some k \<and> k < 4)
    | Some e \<Rightarrow> (\<exists>k. silence evs (ip_string e) = Some k \<and> k < 4) \<and>
        (\<forall>ip k. silence evs ip = Some k \<longrightarrow> k < 4 \<longrightarrow> ip_string e \<le> ip)"
proof -
  let ?es = "fst (alive_endpoints (tracker_run evs))"
  note alive = alive_endpoints_of_run [OF assms]
  have "tracker_inv (snd (alive_endpoints (tracker_run evs)))"
    using tracks_run [OF assms] by (simp add: tracks_def tracker_inv_alive)
  then have sorted: "sorted_wrt (\<lambda>a b. ip_string a < ip_string b) ?es"
    by (simp add: fst_alive_endpoints tracker_inv_def sorted_wrt_map)
  show ?thesis
  proof (cases ?es)
    case Nil
    then have "fst (leader_endpoint_id (tracker_run evs)) = None"
      by (simp add: leader_endpoint_id_def split_beta Let_def)
    with alive Nil show ?thesis by auto
  next
    case (Cons e es)
    then have "fst (leader_endpoint_id (tracker_run evs)) = Some e"
      by (simp add: leader_endpoint_id_def split_beta Let_def)
    moreover have "ip_string e \<le> ip" if "ip \<in> ip_string ` set ?es" for ip
      using sorted that Cons by (auto intro: less_imp_le)
    ultimately show ?thesis using alive Cons by auto
  qed
qed

theorem leader_is_smallest_alive_witness:
  "fst (leader_endpoint_id (tracker_run [HeartbeatFrom (EndpointId ''b'' 0), HeartbeatFrom (EndpointId ''a'' 0),
     Period, Period, Period, HeartbeatFrom (EndpointId ''b'' 0), Period])) = Some (EndpointId ''b'' 0) \<and>
   (\<nexists>ip k. silence [HeartbeatFrom (EndpointId ''b'' 0), HeartbeatFrom (EndpointId ''a'' 0),
     Period, Period, Period, HeartbeatFrom (EndpointId ''b'' 0), Period] ip = Some k \<and> k < 4 \<and> ip < ''b'')"
proof -
  let ?evs = "[HeartbeatFrom (EndpointId ''b'' 0), HeartbeatFrom (EndpointId ''a'' 0),
     Period, Period, Period, HeartbeatFrom (EndpointId ''b'' 0), Period]"
  have lt: "''a'' < ''b''" by simp
  have "fst (leader_endpoint_id (tracker_run ?evs)) = Some (EndpointId ''b'' 0)"
    by (simp add: leader_endpoint_id_def tracker_run_def endpoint_less_def increment_counts_def
        HEARTBEAT_FAILURE_COUNT_def word_le_nat_alt)
  with leader_is_smallest_alive [of ?evs] show ?thesis
    by (auto simp: periods_def dest: leD)
qed

end
