(* ===== verification/SlaveKeySpaceManager.thy ===== *)
theory SlaveKeySpaceManager
  imports TabletParticipantManager HeartbeatTracker
begin

text \<open>
  \<open>uni::slave::SlaveKeySpaceManager\<close> (src/src/slave/SlaveKeySpaceManager.cc): the ranges a slave
  group serves and their generation. The callback on the log installs a new key space, creates the
  missing tablets and tells a master; the task of a \<open>NewKeySpaceSelected\<close> message proposes the next
  key space. The lemmas describe the state by the key spaces in the log, and show that entries that
  passed the task's check never make the callback throw. \<open>SlaveConfigManager\<close> and the functors of
  src/src/slave/functors.h are here too.
\<close>

section \<open>State\<close>

text \<open>
  What the callbacks of a slave's log reach; the connections to the masters are among it. From the
  connections to the slaves they only read the endpoints: \<open>sd_slaves\<close> has the endpoints of the
  node's connections, and every event that changes these changes it.
\<close>

record ('w, 'r) slave_derived =
  sd_timeline :: config_timeline
  sd_ranges :: "key_space_range list"
  sd_generation :: "32 word"
  sd_tablets :: "('w, 'r) tp_map"
  sd_threads :: "32 word list"
  sd_masters :: "'w connections"
  sd_slaves :: "'w connections"

text \<open>What builds the tablets, given the connections to the slaves at that moment.\<close>

type_synonym ('w, 'r) slave_provider = "'w connections \<Rightarrow> ('w, 'r, 32 word list) tp_provider"

text \<open>The tasks of a slave reach the record of \<open>ClientRequestHandler\<close>; none has a retry counter.\<close>

type_synonym ('w, 'r) slave_state = "('w, 'r, ('w, 'r) slave_derived) request_state"

record slave_config =
  config_slaves :: "endpoint_id list"
  config_generation :: "32 word"

definition SlaveConfigManager :: "endpoint_id \<Rightarrow> slave_config" where
  "SlaveConfigManager self_endpoint_id = \<lparr>config_slaves = [self_endpoint_id], config_generation = 0\<rparr>"

definition config_endpoints :: "'w connections \<Rightarrow> endpoint_id list" where
  "config_endpoints slave_connections = get_all_endpoints slave_connections"

text \<open>The functors.\<close>

definition slave_paxos_wrapper :: "paxos_message \<Rightarrow> message_wrapper" where
  "slave_paxos_wrapper m = SlaveMessage (SlavePaxos m)"

definition slave_sync_wrapper :: "sync_message \<Rightarrow> message_wrapper" where
  "slave_sync_wrapper m = SlaveMessage (SlaveSync m)"

section \<open>The callback\<close>

text \<open>\<open>entry.key_space_changed()\<close>; the default message when the entry is of another kind.\<close>

fun key_space_changed :: "paxos_log_entry \<Rightarrow> pb_key_space_range list \<times> 32 word" where
  "key_space_changed (KeySpaceChanged new_ranges generation) = (new_ranges, generation)"
| "key_space_changed _ = ([], 0)"

definition key_space_changed_message :: "32 word \<Rightarrow> message_wrapper" where
  "key_space_changed_message generation = SlaveMessage (SlaveKeySpaceChanged generation)"

definition on_key_space_changed ::
  "(message_wrapper \<Rightarrow> 'w) \<Rightarrow> ('w, 'r) slave_provider
   \<Rightarrow> index_t \<Rightarrow> paxos_log_entry \<Rightarrow> ('w, 'r) slave_derived \<Rightarrow> ('w, 'r) slave_derived result" where
  "on_key_space_changed to_wire provider index entry d =
     (let (new_ranges, generation) = key_space_changed entry
      in rbind (universal_assert (generation = sd_generation d + 1)
           ''The generation of the KeySpaceChanged message should be 1 greater than the current.'') (\<lambda>_.
         let ranges = map convert_range new_ranges
         in rbind (tp_key_space_change (provider (sd_slaves d)) ranges (sd_tablets d, sd_threads d)) (\<lambda>(tps, threads).
            let endpoints = get_all_endpoints (sd_masters d)
            in if endpoints = [] then Inl UndefinedBehaviour
               else Inr (d\<lparr>sd_ranges := ranges, sd_generation := generation, sd_tablets := tps, sd_threads := threads,
                 sd_masters := broadcast [endpoints ! 0] (to_wire (key_space_changed_message generation))
                   (sd_masters d)\<rparr>))))"

text \<open>The registrations: the configuration manager's, then this one.\<close>

definition slave_log ::
  "(message_wrapper \<Rightarrow> 'w) \<Rightarrow> ('w, 'r) slave_provider \<Rightarrow> ('w, 'r) slave_derived paxos_log" where
  "slave_log to_wire provider =
     add_callback KKeySpaceChanged (on_key_space_changed to_wire provider)
       (register_config_manager sd_timeline (\<lambda>t d. d\<lparr>sd_timeline := t\<rparr>) PaxosLog)"

section \<open>The task\<close>

definition WAIT_FOR_PAXOS :: int where "WAIT_FOR_PAXOS = 100"

text \<open>The loop copies each range of the message field by field.\<close>

definition copy_range :: "pb_key_space_range \<Rightarrow> pb_key_space_range" where
  "copy_range r =
     (let p = default_pb_key_space_range\<lparr>pb_database_id := pb_database_id r, pb_table_id := pb_table_id r\<rparr>;
          p1 = (if pb_start_key r \<noteq> None then p\<lparr>pb_start_key := pb_string (string_value (pb_start_key r))\<rparr> else p)
      in if pb_end_key r \<noteq> None then p1\<lparr>pb_end_key := pb_string (string_value (pb_end_key r))\<rparr> else p1)"

definition key_space_task ::
  "(message_wrapper \<Rightarrow> 'w) \<Rightarrow> ('r \<Rightarrow> 32 word \<times> 'r) \<Rightarrow> endpoint_id \<Rightarrow> pb_key_space_range list \<Rightarrow> 32 word
   \<Rightarrow> ('w, 'r) slave_state async_task" where
  "key_space_task to_wire rand endpoint new_ranges generation s =
     (let d = node_derived (rs_node s)
      in if sd_generation d + 1 < generation then Inr (TERMINATE, s)
         else if sd_generation d + 1 = generation then
           rbind (request_propose (\<lambda>p. to_wire (slave_paxos_wrapper p)) (config_provider sd_timeline) rand
             (KeySpaceChanged (map copy_range new_ranges) generation) s) (\<lambda>s'.
           Inr (SlaveKeySpaceManager.WAIT_FOR_PAXOS, s'))
         else if sd_generation d = generation then
           Inr (TERMINATE, s\<lparr>rs_node := (rs_node s)\<lparr>node_derived := d\<lparr>sd_masters :=
             broadcast [endpoint] (to_wire (key_space_changed_message generation)) (sd_masters d)\<rparr>\<rparr>\<rparr>)
         else Inr (TERMINATE, s))"

definition handle_key_space_change ::
  "(message_wrapper \<Rightarrow> 'w) \<Rightarrow> ('r \<Rightarrow> 32 word \<times> 'r) \<Rightarrow> endpoint_id \<Rightarrow> pb_key_space_range list \<Rightarrow> 32 word
   \<Rightarrow> ('w, 'r) slave_state async_queue \<Rightarrow> ('w, 'r) slave_state async_queue" where
  "handle_key_space_change to_wire rand endpoint new_ranges generation q =
     add_task (key_space_task to_wire rand endpoint new_ranges generation) q"

section \<open>Lemmas\<close>

lemma copy_range_id [simp]: "copy_range r = r"
  by (cases r; cases "pb_start_key r"; cases "pb_end_key r")
    (simp_all add: copy_range_def default_pb_key_space_range_def pb_string_def)

definition slave_callbacks ::
  "(message_wrapper \<Rightarrow> 'w) \<Rightarrow> ('w, 'r) slave_provider \<Rightarrow> content_case
   \<Rightarrow> ('w, 'r) slave_derived log_callback list" where
  "slave_callbacks to_wire provider = callbacks (slave_log to_wire provider)"

lemma slave_log_eq:
  "slave_log to_wire provider =
     \<lparr>log = Map.empty, available_indices = [0], callbacks = slave_callbacks to_wire provider\<rparr>"
  by (simp add: slave_callbacks_def slave_log_def register_config_manager_def add_callback_def PaxosLog_def)

lemma slave_callbacks_simps:
  "slave_callbacks to_wire provider KKeySpaceChanged = [on_key_space_changed to_wire provider]"
  "slave_callbacks to_wire provider KReconfigStarted =
     [\<lambda>i e d. rbind (on_reconfig_started i e (sd_timeline d)) (\<lambda>t. Inr (d\<lparr>sd_timeline := t\<rparr>))]"
  "cc \<noteq> KKeySpaceChanged \<Longrightarrow> cc \<noteq> KReconfigStarted \<Longrightarrow> slave_callbacks to_wire provider cc = []"
  by (simp_all add: slave_callbacks_def slave_log_def register_config_manager_def add_callback_def PaxosLog_def)

lemma slave_log_inv: "log_inv (slave_log to_wire provider)"
  by (simp add: slave_log_def register_config_manager_def log_inv_add_callback log_inv_PaxosLog)

lemma apply_entry_slave:
  "apply_entry (slave_callbacks to_wire provider) i e d =
     (case e of
        KeySpaceChanged rs g \<Rightarrow> on_key_space_changed to_wire provider i e d
      | ReconfigStarted ss \<Rightarrow> rbind (on_reconfig_started i e (sd_timeline d)) (\<lambda>t. Inr (d\<lparr>sd_timeline := t\<rparr>))
      | _ \<Rightarrow> Inr d)"
proof -
  have bind_Inr: "rbind r (rfold f []) = r" for r :: "'x result" and f :: "'y \<Rightarrow> 'x \<Rightarrow> 'x result"
    by (cases r) simp_all
  show ?thesis
    by (cases e) (simp_all add: apply_entry_def slave_callbacks_simps bind_Inr)
qed

lemma on_key_space_changed_Inr:
  "on_key_space_changed to_wire provider i (KeySpaceChanged rs g) d = Inr d' \<longleftrightarrow>
     g = sd_generation d + 1 \<and> get_all_endpoints (sd_masters d) \<noteq> [] \<and>
     (\<exists>tps threads. tp_key_space_change (provider (sd_slaves d)) (map convert_range rs) (sd_tablets d, sd_threads d) = Inr (tps, threads) \<and>
        d' = d\<lparr>sd_ranges := map convert_range rs, sd_generation := g, sd_tablets := tps, sd_threads := threads,
               sd_masters := broadcast [get_all_endpoints (sd_masters d) ! 0]
                 (to_wire (key_space_changed_message g)) (sd_masters d)\<rparr>)"
  by (auto simp: on_key_space_changed_def Let_def rbind_eq_Inr simp del: broadcast.simps split: if_splits)

section \<open>The key spaces of a log\<close>

fun entry_key_spaces :: "paxos_log_entry \<Rightarrow> (key_space_range list \<times> 32 word) list" where
  "entry_key_spaces (KeySpaceChanged rs g) = [(map convert_range rs, g)]"
| "entry_key_spaces _ = []"

definition logged_key_spaces ::
  "(index_t \<rightharpoonup> paxos_log_entry) \<Rightarrow> index_t \<Rightarrow> (key_space_range list \<times> 32 word) list" where
  "logged_key_spaces m n = concat (map (\<lambda>i. entry_key_spaces (the (m i))) (word_upt 0 n))"

lemma logged_key_spaces_0 [simp]: "logged_key_spaces m 0 = []"
  by (simp add: logged_key_spaces_def)

lemma logged_key_spaces_succ:
  "i < j \<Longrightarrow> logged_key_spaces m (i + 1) = logged_key_spaces m i @ entry_key_spaces (the (m i))"
  using word_upt_snoc [of 0 i] not_max_below [of i j] by (simp add: logged_key_spaces_def)

text \<open>A state that is the replay of the key spaces \<open>ks\<close>.\<close>

definition holds_key_spaces :: "(key_space_range list \<times> 32 word) list \<Rightarrow> ('w, 'r) slave_derived \<Rightarrow> bool" where
  "holds_key_spaces ks d \<longleftrightarrow>
     map snd ks = map (\<lambda>n. of_nat (Suc n)) [0..<length ks] \<and>
     sd_generation d = of_nat (length ks) \<and>
     sd_ranges d = (if ks = [] then [] else fst (last ks)) \<and>
     fst ` set (sd_tablets d) = (\<Union>k\<in>set ks. set (fst k))"

lemma holds_key_spaces_apply:
  assumes "apply_entry (slave_callbacks to_wire provider) i e d = Inr d'" "holds_key_spaces ks d"
  shows "holds_key_spaces (ks @ entry_key_spaces e) d'"
proof (cases e)
  case (KeySpaceChanged rs g)
  with assms(1) obtain tps threads where g: "g = sd_generation d + 1"
    and tps: "tp_key_space_change (provider (sd_slaves d)) (map convert_range rs) (sd_tablets d, sd_threads d) = Inr (tps, threads)"
    and d': "sd_ranges d' = map convert_range rs" "sd_generation d' = g" "sd_tablets d' = tps"
    by (auto simp: apply_entry_slave on_key_space_changed_Inr)
  from key_space_change_keys [OF tps] have "fst ` set tps = fst ` set (sd_tablets d) \<union> convert_range ` set rs"
    by simp
  with assms(2) g d' KeySpaceChanged show ?thesis
    by (auto simp: holds_key_spaces_def)
next
  case (ReconfigStarted ss)
  with assms(1) obtain t where "d' = d\<lparr>sd_timeline := t\<rparr>" by (auto simp: apply_entry_slave rbind_eq_Inr)
  with assms(2) ReconfigStarted show ?thesis by (simp add: holds_key_spaces_def)
qed (use assms in \<open>simp_all add: apply_entry_slave\<close>)

lemma replay_key_spaces:
  assumes "holds_key_spaces [] init"
  shows "replay (slave_callbacks to_wire provider) m n init = Inr d \<Longrightarrow> holds_key_spaces (logged_key_spaces m n) d"
proof (induction arbitrary: d rule: word_induct_below [where j = n])
  case 1
  with assms show ?case by simp
next
  case (2 i)
  from 2(3) obtain d1 where "replay (slave_callbacks to_wire provider) m i init = Inr d1"
    "apply_entry (slave_callbacks to_wire provider) i (the (m i)) d1 = Inr d"
    by (auto simp: replay_step [OF 2(1)] rbind_eq_Inr)
  with 2(2) holds_key_spaces_apply show ?case by (simp add: logged_key_spaces_succ [OF 2(1)]) blast
qed

section \<open>Checked key spaces\<close>

text \<open>
  The check of the task: the proposed key space is the next one. \<open>equipped\<close> says that there is a
  thread for new tablets and a master to tell; nothing in the log changes that.
\<close>

definition next_key_space :: "('w, 'r) slave_derived \<Rightarrow> paxos_log_entry \<Rightarrow> bool" where
  "next_key_space d e \<longleftrightarrow> (\<exists>rs. e = KeySpaceChanged rs (sd_generation d + 1))"

definition equipped :: "('w, 'r) slave_derived \<Rightarrow> bool" where
  "equipped d \<longleftrightarrow> sd_threads d \<noteq> [] \<and> get_all_endpoints (sd_masters d) \<noteq> []"

interpretation key_spaces: guarded_client "slave_callbacks to_wire (production_provider random cc)"
  "\<lambda>d e. next_key_space d e \<and> equipped d" for to_wire random cc
proof
  fix d :: "('a, 'b) slave_derived" and e i to_wire random cc
  assume g: "next_key_space d e \<and> equipped d"
  then obtain rs where e: "e = KeySpaceChanged rs (sd_generation d + 1)" by (auto simp: next_key_space_def)
  from g have "sd_threads d \<noteq> []" "get_all_endpoints (sd_masters d) \<noteq> []" by (simp_all add: equipped_def)
  from this(2) production_tablets_ok [OF this(1), of random cc "sd_slaves d" "map convert_range rs" "sd_tablets d"]
  show "is_ok (apply_entry (slave_callbacks to_wire (production_provider random cc)) i e d)"
    by (auto simp: is_ok_iff e apply_entry_slave on_key_space_changed_Inr)
qed

lemma production_threads:
  "tp_key_space_change (production_provider random cc sc) rs (tps, threads) = Inr (tps', threads') \<Longrightarrow>
     threads \<noteq> [] \<Longrightarrow> threads' \<noteq> []"
  using production_tablets_ok [of threads random cc sc rs tps] by auto

lemma equipped_apply:
  "apply_entry (slave_callbacks to_wire (production_provider random cc)) i e d = Inr d' \<Longrightarrow>
     equipped d \<Longrightarrow> equipped d'"
  by (cases e) (auto simp: apply_entry_slave on_key_space_changed_Inr equipped_def rbind_eq_Inr
      dest: production_threads simp del: broadcast.simps)

lemma equipped_replay:
  "equipped init \<Longrightarrow> replay (slave_callbacks to_wire (production_provider random cc)) m n init = Inr d \<Longrightarrow>
     equipped d"
  unfolding replay_def apply_range_def
  by (erule rfold_invariant) (auto intro: equipped_apply)

end
