(* ===== verification/Slave.thy ===== *)
theory Slave
  imports SlaveKeySpaceManager ConnectionHandler
begin

text \<open>
  A slave server: \<open>uni::slave::LocalTransactionManager\<close> (src/src/slave/LocalTransactionManager.cc),
  its \<open>SlaveIncomingMessageHandler\<close>, and its tablets, which run on threads of their own but share
  the connections to the other slaves and to the clients. The lemmas show that a slave, whatever
  arrives in whatever order, serves the key space of its log, and that each of its tablets holds
  what the tablet's log says.
\<close>

section \<open>State\<close>

record ('w, 'r) slave =
  sl_scheduler :: "'w incoming_message async_scheduler"
  sl_async_queue :: "('w, 'r) slave_state async_queue"
  sl_heartbeats :: heartbeat_count
  sl_config :: slave_config
  sl_state :: "('w, 'r) slave_state"

text \<open>
  The constructor, called by \<open>ProductionContext\<close> with a provider that draws on the
  \<open>hardware_concurrency\<close> threads. A new tablet takes its first configuration from the connections
  to the slaves at the moment it is built.
\<close>

definition LocalTransactionManager ::
  "(message_wrapper \<Rightarrow> 'w) \<Rightarrow> ('w, 'r) slave_provider \<Rightarrow> 32 word list \<Rightarrow> 'r
   \<Rightarrow> 'w connections \<Rightarrow> 'w connections \<Rightarrow> 'w connections \<Rightarrow> endpoint_id list \<Rightarrow> string \<Rightarrow> ('w, 'r) slave" where
  "LocalTransactionManager to_wire provider threads random clients masters slaves config_slave_endpoints ip =
     \<lparr>sl_scheduler = AsyncSchedulerImpl, sl_async_queue = AsyncQueue, sl_heartbeats = [],
      sl_config = SlaveConfigManager (EndpointId ip 0),
      sl_state =
        \<lparr>rs_random = random,
         rs_node =
           \<lparr>node_paxos = MultiPaxosHandler, node_connections = slaves, node_log = slave_log to_wire provider,
            node_derived =
              \<lparr>sd_timeline = PaxosConfigManager 0 config_slave_endpoints, sd_ranges = [], sd_generation = 0,
               sd_tablets = [], sd_threads = threads, sd_masters = masters, sd_slaves = slaves\<rparr>\<rparr>,
         rs_clients = clients, rs_retry_counts = []\<rparr>\<rparr>"

definition ProductionContext ::
  "(message_wrapper \<Rightarrow> 'w) \<Rightarrow> (tablet_id \<Rightarrow> 'r) \<Rightarrow> 32 word \<Rightarrow> 'r
   \<Rightarrow> 'w connections \<Rightarrow> 'w connections \<Rightarrow> 'w connections \<Rightarrow> endpoint_id list \<Rightarrow> string \<Rightarrow> ('w, 'r) slave" where
  "ProductionContext to_wire tablet_random hardware_concurrency random clients masters slaves config_slave_endpoints ip =
     LocalTransactionManager to_wire (production_provider tablet_random clients)
       (initial_threads hardware_concurrency) random clients masters slaves config_slave_endpoints ip"

section \<open>Messages\<close>

definition slave_with_node :: "('w, ('w, 'r) slave_derived) paxos_node \<Rightarrow> ('w, 'r) slave \<Rightarrow> ('w, 'r) slave" where
  "slave_with_node nd sl = sl\<lparr>sl_state := (sl_state sl)\<lparr>rs_node := nd\<rparr>\<rparr>"

text \<open>A message for the tablets reaches their map and the client connections.\<close>

definition to_tablets ::
  "(message_wrapper \<Rightarrow> 'w) \<Rightarrow> ('w \<Rightarrow> message_wrapper) \<Rightarrow> 'w incoming_message \<Rightarrow> ('w, 'r) slave \<Rightarrow> ('w, 'r) slave" where
  "to_tablets to_wire parse m sl =
     (let s = sl_state sl; nd = rs_node s; d = node_derived nd;
          (tps, clients) = tp_handle to_wire parse m (sd_tablets d, rs_clients s)
      in sl\<lparr>sl_state := s\<lparr>rs_node := nd\<lparr>node_derived := d\<lparr>sd_tablets := tps\<rparr>\<rparr>, rs_clients := clients\<rparr>\<rparr>)"

text \<open>\<open>SlaveIncomingMessageHandler::handle\<close>\<close>

definition slave_handle ::
  "(message_wrapper \<Rightarrow> 'w) \<Rightarrow> ('w \<Rightarrow> message_wrapper) \<Rightarrow> ('r \<Rightarrow> 32 word \<times> 'r) \<Rightarrow> constants
   \<Rightarrow> 'w incoming_message \<Rightarrow> ('w, 'r) slave \<Rightarrow> ('w, 'r) slave result option" where
  "slave_handle to_wire parse rand cs m sl =
     (let endpoint = incoming_endpoint m; nd = rs_node (sl_state sl)
      in case parse (incoming_payload m) of
           ClientMessage client_message \<Rightarrow>
             (case client_message of
                ClientRequest request \<Rightarrow> Some (Inr (to_tablets to_wire parse m sl))
              | _ \<Rightarrow> Some (Inr sl))
         | TabletMessage tablet_message \<Rightarrow> Some (Inr (to_tablets to_wire parse m sl))
         | SlaveMessage slave_message \<Rightarrow>
             (case slave_message of
                Heartbeat \<Rightarrow> Some (Inr (sl\<lparr>sl_heartbeats := handle_heartbeat (sl_heartbeats sl) endpoint\<rparr>))
              | SlaveSync sync_message \<Rightarrow>
                  map_option (\<lambda>r. rbind r (\<lambda>nd'. Inr (slave_with_node nd' sl)))
                    (handle_sync_message (\<lambda>p. to_wire (slave_sync_wrapper p)) endpoint sync_message nd)
              | SlavePaxos paxos_message \<Rightarrow>
                  Some (rbind (handle_incoming_message (\<lambda>p. to_wire (slave_paxos_wrapper p)) cs
                      (config_provider sd_timeline) endpoint paxos_message nd)
                    (\<lambda>nd'. Inr (slave_with_node nd' sl)))
              | _ \<Rightarrow> Some (Inr sl))
         | MasterMessage master_message \<Rightarrow>
             (case master_message of
                NewKeySpaceSelected new_ranges generation \<Rightarrow>
                  Some (Inr (sl\<lparr>sl_async_queue :=
                    handle_key_space_change to_wire rand endpoint new_ranges generation (sl_async_queue sl)\<rparr>))
              | _ \<Rightarrow> Some (Inr sl))
         | _ \<Rightarrow> Some (Inr sl))"

section \<open>Steps\<close>

text \<open>A tablet runs with the slave's connections, and leaves them to the slave.\<close>

definition lend ::
  "'w connections \<Rightarrow> 'w connections \<Rightarrow> ('w, 'r) tablet_participant \<Rightarrow> ('w, 'r) tablet_participant" where
  "lend slaves clients tp =
     tp\<lparr>tp_state := (tp_state tp)\<lparr>rs_node := (rs_node (tp_state tp))\<lparr>node_connections := slaves\<rparr>,
        rs_clients := clients\<rparr>\<rparr>"

definition put_tablet :: "tablet_id \<Rightarrow> ('w, 'r) tablet_participant \<Rightarrow> ('w, 'r) tp_map \<Rightarrow> ('w, 'r) tp_map" where
  "put_tablet tid tp tps = map (\<lambda>(k, t). if k = tid then (k, tp) else (k, t)) tps"

definition give_back :: "tablet_id \<Rightarrow> ('w, 'r) tablet_participant \<Rightarrow> ('w, 'r) slave \<Rightarrow> ('w, 'r) slave" where
  "give_back tid tp sl =
     (let s = sl_state sl; nd = rs_node s; d = node_derived nd
      in sl\<lparr>sl_state := s\<lparr>
           rs_node := nd\<lparr>node_derived := d\<lparr>sd_tablets := put_tablet tid tp (sd_tablets d)\<rparr>,
                         node_connections := node_connections (rs_node (tp_state tp))\<rparr>,
           rs_clients := rs_clients (tp_state tp)\<rparr>\<rparr>)"

text \<open>
  What can happen to a slave: a channel queues a message, the posted closure handles the oldest
  one, timers run the front task, the synchroniser and the heartbeat, a tablet does something,
  connections to slaves, clients and masters come and go. A
  \<open>QueueMessage\<close> of a tablet comes from \<open>to_tablets\<close> alone; as an event of its own it is allowed too.
  Handlers run on the server thread, the slave's timers and its connections on the network thread,
  a tablet on the thread it was placed on. The slave's log, instances, queue and heartbeats have no
  lock: \<open>SlaveOverlap\<close>, a handler while the network thread is at work on them, is a data race. A run
  without it is one in which those two threads take turns.
\<close>

datatype 'w slave_event =
    SlaveQueueMessage "'w incoming_message"
  | SlaveHandleMessage
  | SlaveRunTask
  | SlaveSyncTimer
  | SlaveHeartbeatTimer
  | TabletEvent tablet_id "'w tablet_event"
  | SlaveConnection connection_event
  | ClientConnection connection_event
  | MasterConnection connection_event
  | SlaveOverlap

fun slave_step ::
  "(message_wrapper \<Rightarrow> 'w) \<Rightarrow> ('w \<Rightarrow> message_wrapper) \<Rightarrow> ('r \<Rightarrow> 32 word \<times> 'r) \<Rightarrow> constants
   \<Rightarrow> 'w slave_event \<Rightarrow> ('w, 'r) slave \<Rightarrow> ('w, 'r) slave result option" where
  "slave_step to_wire parse rand cs (SlaveQueueMessage m) sl =
     Some (Inr (sl\<lparr>sl_scheduler := queue_message m (sl_scheduler sl)\<rparr>))"
| "slave_step to_wire parse rand cs SlaveHandleMessage sl =
     (case posted (sl_scheduler sl) of
        [] \<Rightarrow> Some (Inr sl)
      | m # _ \<Rightarrow>
          map_option (\<lambda>r. rbind r (\<lambda>sl'. Inr (sl'\<lparr>sl_scheduler := message_handled (sl_scheduler sl')\<rparr>)))
            (slave_handle to_wire parse rand cs m sl))"
| "slave_step to_wire parse rand cs SlaveRunTask sl =
     Some (if scheduled_runs (sl_async_queue sl) = [] then Inr sl
           else rbind (fire_run (sl_async_queue sl, sl_state sl)) (\<lambda>(q, s).
             Inr (sl\<lparr>sl_async_queue := q, sl_state := s\<rparr>)))"
| "slave_step to_wire parse rand cs SlaveSyncTimer sl =
     Some (rbind (sync_timer (\<lambda>p. to_wire (slave_sync_wrapper p)) sd_timeline (rs_node (sl_state sl)))
       (\<lambda>nd. Inr (slave_with_node nd sl)))"
| "slave_step to_wire parse rand cs SlaveHeartbeatTimer sl =
     Some (rbind (latest_config (sd_timeline (node_derived (rs_node (sl_state sl))))) (\<lambda>endpoints.
       let nd = rs_node (sl_state sl); (hc, c) = heartbeat_callback to_wire endpoints (sl_heartbeats sl, node_connections nd)
       in Inr ((slave_with_node (nd\<lparr>node_connections := c\<rparr>) sl)\<lparr>sl_heartbeats := hc\<rparr>)))"
| "slave_step to_wire parse rand cs (TabletEvent tid ev) sl =
     (let s = sl_state sl
      in case map_of (sd_tablets (node_derived (rs_node s))) tid of
           None \<Rightarrow> Some (Inr sl)
         | Some tp \<Rightarrow>
             map_option (\<lambda>r. rbind r (\<lambda>tp'. Inr (give_back tid tp' sl)))
               (tablet_step to_wire parse rand cs ev (lend (node_connections (rs_node s)) (rs_clients s) tp)))"
| "slave_step to_wire parse rand cs (SlaveConnection ev) sl =
     (let nd = rs_node (sl_state sl)
      in Some (rbind (connection_step ev (node_connections nd)) (\<lambda>c.
           Inr (slave_with_node
             (nd\<lparr>node_connections := c, node_derived := (node_derived nd)\<lparr>sd_slaves := c\<rparr>\<rparr>) sl))))"
| "slave_step to_wire parse rand cs (ClientConnection ev) sl =
     Some (rbind (connection_step ev (rs_clients (sl_state sl))) (\<lambda>c.
       Inr (sl\<lparr>sl_state := (sl_state sl)\<lparr>rs_clients := c\<rparr>\<rparr>)))"
| "slave_step to_wire parse rand cs (MasterConnection ev) sl =
     (let nd = rs_node (sl_state sl)
      in Some (rbind (connection_step ev (sd_masters (node_derived nd))) (\<lambda>c.
           Inr (slave_with_node (nd\<lparr>node_derived := (node_derived nd)\<lparr>sd_masters := c\<rparr>\<rparr>) sl))))"
| "slave_step to_wire parse rand cs SlaveOverlap sl =
     Some (if posted (sl_scheduler sl) = [] then Inr sl else Inl UndefinedBehaviour)"

fun slave_run ::
  "(message_wrapper \<Rightarrow> 'w) \<Rightarrow> ('w \<Rightarrow> message_wrapper) \<Rightarrow> ('r \<Rightarrow> 32 word \<times> 'r) \<Rightarrow> constants
   \<Rightarrow> 'w slave_event list \<Rightarrow> ('w, 'r) slave \<Rightarrow> ('w, 'r) slave result option" where
  "slave_run to_wire parse rand cs [] sl = Some (Inr sl)"
| "slave_run to_wire parse rand cs (ev # evs) sl =
     (case slave_step to_wire parse rand cs ev sl of
        None \<Rightarrow> None
      | Some (Inl e) \<Rightarrow> Some (Inl e)
      | Some (Inr sl') \<Rightarrow> slave_run to_wire parse rand cs evs sl')"

section \<open>The state follows the log\<close>

text \<open>
  The slave's state against the replay of its log: tablets and connections change without the log,
  but which tablets there are, and that each is sound, does not. A tablet is sound with respect to
  the configuration it was built with. The replay is that of a slave which always has a master to
  tell, as a slave without one would not have got so far. \<open>es\<close> are the slaves it is connected to.
\<close>

definition tablet_sound ::
  "(message_wrapper \<Rightarrow> 'w) \<Rightarrow> ('r \<Rightarrow> 32 word \<times> 'r) \<Rightarrow> tablet_id \<Rightarrow> ('w, 'r) tablet_participant \<Rightarrow> bool" where
  "tablet_sound to_wire rand tid tp \<longleftrightarrow>
     tp_tablet_id tp = tid \<and> (\<exists>es. tablet_inv to_wire rand (tablet_initial es) tp)"

definition tablets_sound ::
  "(message_wrapper \<Rightarrow> 'w) \<Rightarrow> ('r \<Rightarrow> 32 word \<times> 'r) \<Rightarrow> ('w, 'r) tp_map \<Rightarrow> bool" where
  "tablets_sound to_wire rand tps \<longleftrightarrow> distinct (map fst tps) \<and> (\<forall>(tid, tp)\<in>set tps. tablet_sound to_wire rand tid tp)"

definition slave_follows ::
  "(message_wrapper \<Rightarrow> 'w) \<Rightarrow> ('r \<Rightarrow> 32 word \<times> 'r) \<Rightarrow> endpoint_id list
   \<Rightarrow> ('w, 'r) slave_derived \<Rightarrow> ('w, 'r) slave_derived \<Rightarrow> bool" where
  "slave_follows to_wire rand es d d0 \<longleftrightarrow>
     sd_timeline d = sd_timeline d0 \<and> sd_ranges d = sd_ranges d0 \<and> sd_generation d = sd_generation d0 \<and>
     sd_threads d = sd_threads d0 \<and> map fst (sd_tablets d) = map fst (sd_tablets d0) \<and>
     get_all_endpoints (sd_slaves d) = es \<and> get_all_endpoints (sd_masters d0) \<noteq> [] \<and> tablets_sound to_wire rand (sd_tablets d)"

lemma tablets_sound_change:
  assumes "tp_key_space_change (production_provider random clients slaves) ranges (tps, c) = Inr (tps', c')"
    and "tablets_sound to_wire rand tps"
  shows "tablets_sound to_wire rand tps'"
proof -
  let ?P = "\<lambda>(tid, tp). tablet_sound to_wire rand tid tp"
  have new: "?P (r, tp)" if "production_provider random clients slaves r c = Inr (tp, c')" for r c tp c'
  proof -
    from that have "tp = TabletParticipant (random r) slaves clients r"
      by (auto simp: production_provider_def rbind_eq_Inr)
    with TabletParticipant_inv [of to_wire rand slaves "random r" clients r] show ?thesis
      by (auto simp: tablet_sound_def) (simp add: TabletParticipant_def)
  qed
  have "\<forall>x\<in>set tps'. ?P x"
    using key_space_change_tablets [OF assms(1), of ?P] assms(2) new by (auto simp: tablets_sound_def)
  moreover have "distinct (map fst tps')"
    using key_space_change_keys [OF assms(1)] assms(2) by (simp add: tablets_sound_def)
  ultimately show ?thesis by (simp add: tablets_sound_def)
qed

lemma slave_follows_apply:
  assumes "apply_entry (slave_callbacks to_wire (production_provider random clients)) i e d = Inr d'"
    and "slave_follows to_wire rand es d d0"
  shows "\<exists>d0'. apply_entry (slave_callbacks to_wire (production_provider random clients)) i e d0 = Inr d0' \<and>
    slave_follows to_wire rand es d' d0'"
proof (cases e)
  case (KeySpaceChanged rs g)
  with assms(1) obtain tps threads where g: "g = sd_generation d + 1" "get_all_endpoints (sd_masters d) \<noteq> []"
    and tps: "tp_key_space_change (production_provider random clients (sd_slaves d)) (map convert_range rs)
      (sd_tablets d, sd_threads d) = Inr (tps, threads)"
    and d': "d' = d\<lparr>sd_ranges := map convert_range rs, sd_generation := g, sd_tablets := tps, sd_threads := threads,
       sd_masters := broadcast [get_all_endpoints (sd_masters d) ! 0] (to_wire (key_space_changed_message g)) (sd_masters d)\<rparr>"
    by (auto simp: apply_entry_slave on_key_space_changed_Inr simp del: broadcast.simps)
  from production_same_keys [OF tps, of "sd_tablets d0" "sd_slaves d0"] assms(2)
  obtain tps0 where
    "tp_key_space_change (production_provider random clients (sd_slaves d0)) (map convert_range rs)
      (sd_tablets d0, sd_threads d) = Inr (tps0, threads)" "map fst tps0 = map fst tps"
    by (auto simp: slave_follows_def)
  with assms(2) g d' tablets_sound_change [OF tps, of to_wire rand] show ?thesis
    by (simp add: KeySpaceChanged apply_entry_slave on_key_space_changed_Inr slave_follows_def del: broadcast.simps)
next
  case (ReconfigStarted ss)
  with assms show ?thesis by (auto simp: apply_entry_slave slave_follows_def rbind_eq_Inr)
qed (use assms in \<open>simp_all add: apply_entry_slave\<close>)

interpretation slave: log_follower "slave_callbacks to_wire (production_provider random clients)"
  "slave_follows to_wire rand es" for to_wire random clients rand es
  by unfold_locales (rule slave_follows_apply)

section \<open>The invariant of a slave\<close>

definition key_space_tasks ::
  "(message_wrapper \<Rightarrow> 'w) \<Rightarrow> ('r \<Rightarrow> 32 word \<times> 'r)
   \<Rightarrow> (endpoint_id \<times> pb_key_space_range list \<times> 32 word) list \<Rightarrow> ('w, 'r) slave_state async_task list" where
  "key_space_tasks to_wire rand ts =
     map (\<lambda>(endpoint, new_ranges, generation). key_space_task to_wire rand endpoint new_ranges generation) ts"

definition slave_inv ::
  "(message_wrapper \<Rightarrow> 'w) \<Rightarrow> (tablet_id \<Rightarrow> 'r) \<Rightarrow> ('r \<Rightarrow> 32 word \<times> 'r) \<Rightarrow> 'w connections
   \<Rightarrow> ('w, 'r) slave_derived \<Rightarrow> ('w, 'r) slave \<Rightarrow> bool" where
  "slave_inv to_wire random rand clients init sl \<longleftrightarrow>
     log_follower.server_inv (slave_callbacks to_wire (production_provider random clients))
       (slave_follows to_wire rand (get_all_endpoints (node_connections (rs_node (sl_state sl))))) init
       (rs_node (sl_state sl)) \<and>
     tracker_inv (sl_heartbeats sl) \<and>
     async_queue_inv (sl_async_queue sl) \<and>
     (\<exists>ts. queue_callbacks (sl_async_queue sl) = key_space_tasks to_wire rand ts)"

text \<open>Changes of the tablets and of the connections keep it.\<close>

lemma server_inv_tablets:
  assumes "log_follower.server_inv cbs (slave_follows to_wire rand es) init nd"
    and "log_follower cbs (slave_follows to_wire rand es)"
    and "map fst tps = map fst (sd_tablets (node_derived nd))"
    and "tablets_sound to_wire rand (sd_tablets (node_derived nd)) \<Longrightarrow> tablets_sound to_wire rand tps"
  shows "log_follower.server_inv cbs (slave_follows to_wire rand es) init
    (nd\<lparr>node_derived := (node_derived nd)\<lparr>sd_tablets := tps\<rparr>\<rparr>)"
  by (rule log_follower.derived_server [OF assms(2,1)]) (use assms(3,4) in \<open>auto simp: slave_follows_def\<close>)

lemma tp_handle_tablets:
  "(tid, tp) \<in> set (fst (tp_handle to_wire parse m (tps, clients))) \<Longrightarrow>
     \<exists>tp0. (tid, tp0) \<in> set tps \<and> (tp = tp0 \<or> tp = queue_tablet_message m tp0)"
proof -
  assume a: "(tid, tp) \<in> set (fst (tp_handle to_wire parse m (tps, clients)))"
  have "fst (tp_handle to_wire parse m (tps, clients)) = tps \<or>
    (\<exists>matches. route matches m tps = Some (fst (tp_handle to_wire parse m (tps, clients))))"
    by (auto simp: tp_handle_def handle_client_request_def handle_tablet_message_def Let_def
        split: message_wrapper.splits client_message.splits option.splits)
  with a show ?thesis by (auto dest!: route_Some)
qed

lemma queue_tablet_message_inv:
  "tablet_inv to_wire rand init tp \<Longrightarrow> tablet_inv to_wire rand init (queue_tablet_message m tp)"
  using tablet_step_inv [of to_wire undefined rand undefined "QueueMessage m" tp]
  by (simp add: queue_tablet_message_def)

lemma queue_tablet_message_sound:
  "tablet_sound to_wire rand tid tp \<Longrightarrow> tablet_sound to_wire rand tid (queue_tablet_message m tp)"
  using queue_tablet_message_inv by (fastforce simp: tablet_sound_def queue_tablet_message_def)

lemma to_tablets_inv:
  assumes "slave_inv to_wire random rand clients init sl"
  shows "slave_inv to_wire random rand clients init (to_tablets to_wire parse m sl)"
proof -
  let ?d = "node_derived (rs_node (sl_state sl))"
  let ?tps = "fst (tp_handle to_wire parse m (sd_tablets ?d, rs_clients (sl_state sl)))"
  have keys: "map fst ?tps = map fst (sd_tablets ?d)" using tp_handle_keys by (metis fst_conv)
  have sound: "tablets_sound to_wire rand ?tps" if s: "tablets_sound to_wire rand (sd_tablets ?d)"
  proof -
    have "tablet_sound to_wire rand tid tp" if tp: "(tid, tp) \<in> set ?tps" for tid tp
    proof -
      from tp_handle_tablets [OF tp] obtain tp0 where
        "(tid, tp0) \<in> set (sd_tablets ?d)" "tp = tp0 \<or> tp = queue_tablet_message m tp0" by blast
      moreover from this s have "tablet_sound to_wire rand tid tp0" by (auto simp: tablets_sound_def)
      ultimately show ?thesis by (auto simp: queue_tablet_message_sound)
    qed
    with s keys show ?thesis by (auto simp: tablets_sound_def)
  qed
  from assms server_inv_tablets [OF _ slave.log_follower_axioms keys sound] show ?thesis
    by (auto simp: slave_inv_def to_tablets_def Let_def split: prod.splits)
qed

lemma slave_with_node_inv:
  "slave_inv to_wire random rand clients init sl \<Longrightarrow>
   log_follower.server_inv (slave_callbacks to_wire (production_provider random clients))
     (slave_follows to_wire rand (get_all_endpoints (node_connections nd))) init nd \<Longrightarrow>
   slave_inv to_wire random rand clients init (slave_with_node nd sl)"
  by (simp add: slave_inv_def slave_with_node_def)

lemma handle_key_space_change_inv:
  assumes "slave_inv to_wire random rand clients init sl"
  shows "slave_inv to_wire random rand clients init
    (sl\<lparr>sl_async_queue := handle_key_space_change to_wire rand endpoint rs g (sl_async_queue sl)\<rparr>)"
proof -
  from assms obtain ts where "queue_callbacks (sl_async_queue sl) = key_space_tasks to_wire rand ts"
    by (auto simp: slave_inv_def)
  then have "queue_callbacks (handle_key_space_change to_wire rand endpoint rs g (sl_async_queue sl)) =
      key_space_tasks to_wire rand (ts @ [(endpoint, rs, g)])"
    by (simp add: handle_key_space_change_def add_task_def schedule_run_def Let_def key_space_tasks_def)
  with assms show ?thesis
    by (auto simp: slave_inv_def handle_key_space_change_def intro: async_queue_inv_add_task)
qed

text \<open>A task that waits has proposed the next key space.\<close>

lemma key_space_task_waits:
  "key_space_task to_wire rand endpoint rs g s = Inr (SlaveKeySpaceManager.WAIT_FOR_PAXOS, s') \<Longrightarrow>
     g = sd_generation (node_derived (rs_node s)) + 1 \<and>
     request_propose (\<lambda>p. to_wire (slave_paxos_wrapper p)) (config_provider sd_timeline) rand (KeySpaceChanged rs g) s = Inr s'"
  by (auto simp: key_space_task_def Let_def rbind_eq_Inr SlaveKeySpaceManager.WAIT_FOR_PAXOS_def TERMINATE_def
      map_idI [of rs copy_range] simp del: broadcast.simps split: if_splits)

lemma key_space_task_server:
  assumes "key_space_task to_wire rand endpoint rs g s = Inr (w, s')"
    and "log_follower.server_inv (slave_callbacks to_wire (production_provider random clients))
      (slave_follows to_wire rand es) init (rs_node s)"
  shows "log_follower.server_inv (slave_callbacks to_wire (production_provider random clients))
      (slave_follows to_wire rand es) init (rs_node s') \<and>
    get_all_endpoints (node_connections (rs_node s')) = get_all_endpoints (node_connections (rs_node s))"
proof -
  let ?d = "node_derived (rs_node s)"
  let ?entry = "KeySpaceChanged (map copy_range rs) g"
  note task = assms(1) [unfolded key_space_task_def Let_def]
  consider "s' = s"
    | "request_propose (\<lambda>p. to_wire (slave_paxos_wrapper p)) (config_provider sd_timeline) rand ?entry s = Inr s'"
    | "rs_node s' = (rs_node s)\<lparr>node_derived := ?d\<lparr>sd_masters :=
        broadcast [endpoint] (to_wire (key_space_changed_message g)) (sd_masters ?d)\<rparr>\<rparr>"
  proof (cases "sd_generation ?d + 1 < g")
    case True
    with task show ?thesis by (intro that(1)) simp
  next
    case behind: False
    show ?thesis
    proof (cases "sd_generation ?d + 1 = g")
      case True
      with behind task show ?thesis
        by (intro that(2)) (auto simp: rbind_eq_Inr)
    next
      case False
      with behind task show ?thesis
        by (cases "sd_generation ?d = g") (auto intro: that(1) that(3))
    qed
  qed
  then show ?thesis
  proof cases
    case 2
    from request_propose_node [OF this] obtain draw where
      "multi_propose (\<lambda>p. to_wire (slave_paxos_wrapper p)) (config_provider sd_timeline) draw ?entry (rs_node s) = Inr (rs_node s')"
      by blast
    from slave.propose_server [OF this assms(2)] propose_endpoints [OF this] show ?thesis by simp
  next
    case 3
    have "log_follower.server_inv (slave_callbacks to_wire (production_provider random clients))
      (slave_follows to_wire rand es) init ((rs_node s)\<lparr>node_derived := ?d\<lparr>sd_masters :=
        broadcast [endpoint] (to_wire (key_space_changed_message g)) (sd_masters ?d)\<rparr>\<rparr>)"
      by (rule slave.derived_server [OF assms(2)]) (simp add: slave_follows_def del: broadcast.simps)
    with 3 show ?thesis by simp
  qed (use assms(2) in simp)
qed

lemma slave_handle_inv:
  assumes "slave_handle to_wire parse rand cs m sl = Some (Inr sl')"
    and "slave_inv to_wire random rand clients init sl"
  shows "slave_inv to_wire random rand clients init sl'"
proof -
  let ?es = "get_all_endpoints (node_connections (rs_node (sl_state sl)))"
  have srv: "log_follower.server_inv (slave_callbacks to_wire (production_provider random clients))
      (slave_follows to_wire rand ?es) init (rs_node (sl_state sl))"
    using assms(2) by (simp add: slave_inv_def)
  show ?thesis
  proof (cases "parse (incoming_payload m)")
    case (ClientMessage cm)
    with assms to_tablets_inv [OF assms(2)] show ?thesis
      by (cases cm) (auto simp: slave_handle_def Let_def)
  next
    case (TabletMessage tm)
    with assms to_tablets_inv [OF assms(2)] show ?thesis by (auto simp: slave_handle_def Let_def)
  next
    case (SlaveMessage sm)
    show ?thesis
    proof (cases sm)
      case Heartbeat
      with assms SlaveMessage show ?thesis
        by (auto simp: slave_handle_def Let_def slave_inv_def intro: tracker_inv_heartbeat)
    next
      case (SlavePaxos pm)
      with assms(1) SlaveMessage obtain nd where nd: "sl' = slave_with_node nd sl"
        "handle_incoming_message (\<lambda>p. to_wire (slave_paxos_wrapper p)) cs (config_provider sd_timeline)
          (incoming_endpoint m) pm (rs_node (sl_state sl)) = Inr nd"
        by (auto simp: slave_handle_def Let_def rbind_eq_Inr)
      with slave_with_node_inv [OF assms(2)] slave.paxos_message_server [OF nd(2) srv] paxos_message_endpoints [OF nd(2)]
      show ?thesis by simp
    next
      case (SlaveSync ym)
      with assms(1) SlaveMessage obtain nd where nd: "sl' = slave_with_node nd sl"
        "handle_sync_message (\<lambda>p. to_wire (slave_sync_wrapper p)) (incoming_endpoint m) ym
          (rs_node (sl_state sl)) = Some (Inr nd)"
        by (auto simp: slave_handle_def Let_def rbind_eq_Inr)
      with slave_with_node_inv [OF assms(2)] slave.sync_message_server [OF nd(2) srv] sync_message_endpoints [OF nd(2)]
      show ?thesis by simp
    qed (use assms SlaveMessage in \<open>auto simp: slave_handle_def Let_def\<close>)
  next
    case (MasterMessage mm)
    with assms handle_key_space_change_inv [OF assms(2)] show ?thesis
      by (cases mm) (auto simp: slave_handle_def Let_def)
  qed (use assms in \<open>auto simp: slave_handle_def Let_def\<close>)
qed

lemma slave_task_inv:
  assumes "fire_run (sl_async_queue sl, sl_state sl) = Inr (q, s)" "scheduled_runs (sl_async_queue sl) \<noteq> []"
    and "slave_inv to_wire random rand clients init sl"
  shows "slave_inv to_wire random rand clients init (sl\<lparr>sl_async_queue := q, sl_state := s\<rparr>)"
proof -
  from assms(3) obtain ts where ts: "queue_callbacks (sl_async_queue sl) = key_space_tasks to_wire rand ts"
    and inv: "async_queue_inv (sl_async_queue sl)"
    and srv: "log_follower.server_inv (slave_callbacks to_wire (production_provider random clients))
      (slave_follows to_wire rand (get_all_endpoints (node_connections (rs_node (sl_state sl))))) init (rs_node (sl_state sl))"
    by (auto simp: slave_inv_def)
  from fire_run_tasks [OF assms(1) ts [unfolded key_space_tasks_def]] obtain t ts' w where
    run: "(case t of (endpoint, rs, g) \<Rightarrow> key_space_task to_wire rand endpoint rs g) (sl_state sl) = Inr (w, s)"
    and q: "queue_callbacks q = key_space_tasks to_wire rand (if w = TERMINATE then ts' else ts)" "async_queue_inv q"
    using inv assms(2) unfolding key_space_tasks_def by metis
  obtain endpoint rs g where t: "t = (endpoint, rs, g)" by (cases t)
  from assms(3) q key_space_task_server [OF run [unfolded t, simplified] srv] show ?thesis
    by (auto simp: slave_inv_def)
qed

text \<open>A step of a tablet is one of the slave's.\<close>

lemma tablet_step_id:
  "tablet_step to_wire parse rand cs ev tp = Some (Inr tp') \<Longrightarrow> tablet_inv to_wire rand init tp \<Longrightarrow>
     tp_tablet_id tp' = tp_tablet_id tp"
  by (cases ev) (auto simp: rbind_eq_Inr with_node_def split: list.splits if_splits dest!: tablet_handle_inv)

lemma lend_inv: "tablet_inv to_wire rand init (lend slaves clients tp) = tablet_inv to_wire rand init tp"
  by (simp add: tablet_inv_def lend_def)

lemma put_tablet_keys [simp]: "map fst (put_tablet tid tp tps) = map fst tps"
  by (induction tps) (auto simp: put_tablet_def)

lemma tablet_step_endpoints:
  assumes "tablet_step to_wire parse rand cs ev tp = Some (Inr tp')" "tablet_inv to_wire rand init tp"
  shows "get_all_endpoints (node_connections (rs_node (tp_state tp'))) =
    get_all_endpoints (node_connections (rs_node (tp_state tp)))"
proof -
  let ?n = "\<lambda>tp. get_all_endpoints (node_connections (rs_node (tp_state tp)))"
  have handle: "?n tp1 = ?n tp" if "tablet_handle to_wire parse rand cs m tp = Some (Inr tp1)" for m tp1
    using that by (auto simp: tablet_handle_def handle_request_def with_node_def Let_def rbind_eq_Inr
        split: message_wrapper.splits client_message.splits tablet_payload.splits
        dest!: paxos_message_endpoints sync_message_endpoints)
  have task: "?n (tp\<lparr>tp_async_queue := q, tp_state := s\<rparr>) = ?n tp"
    if run: "fire_run (tp_async_queue tp, tp_state tp) = Inr (q, s)" and r: "scheduled_runs (tp_async_queue tp) \<noteq> []" for q s
  proof -
    from assms(2) obtain ts where ts: "queue_callbacks (tp_async_queue tp) = request_tasks to_wire rand (tp_tablet_id tp) ts"
      "async_queue_inv (tp_async_queue tp)" by (auto simp: tablet_inv_def)
    from fire_run_tasks [OF run ts(1) [unfolded request_tasks_def]] obtain t w where
      t: "(case t of (rc, message, endpoint) \<Rightarrow> request_task to_wire (\<lambda>p. to_wire (tablet_paxos_wrapper (tp_tablet_id tp) p))
        (config_provider owner) rand rc message endpoint) (tp_state tp) = Inr (w, s)"
      using ts(2) r unfolding request_tasks_def by metis
    obtain rc message endpoint where "t = (rc, message, endpoint)" by (cases t)
    with t request_task_endpoints show ?thesis by simp
  qed
  show ?thesis
    using assms(1) handle task
    by (cases ev) (auto simp: rbind_eq_Inr with_node_def split: list.splits if_splits dest!: sync_timer_endpoints)
qed

lemma put_tablet_sound:
  assumes "tablets_sound to_wire rand tps" "tablet_sound to_wire rand tid tp"
  shows "tablets_sound to_wire rand (put_tablet tid tp tps)"
proof -
  have "tablet_sound to_wire rand x y" if "(x, y) \<in> set (put_tablet tid tp tps)" for x y
    using that assms by (auto simp: put_tablet_def tablets_sound_def split: if_splits)
  with assms(1) show ?thesis by (auto simp: tablets_sound_def)
qed

lemma give_back_inv:
  assumes "map_of (sd_tablets (node_derived (rs_node (sl_state sl)))) tid = Some tp"
    and step: "tablet_step to_wire parse rand cs ev
      (lend (node_connections (rs_node (sl_state sl))) c' tp) = Some (Inr tp')"
    and inv: "slave_inv to_wire random rand clients init sl"
  shows "slave_inv to_wire random rand clients init (give_back tid tp' sl)"
proof -
  let ?nd = "rs_node (sl_state sl)" let ?d = "node_derived ?nd"
  let ?es = "get_all_endpoints (node_connections ?nd)"
  have tid: "(tid, tp) \<in> set (sd_tablets ?d)" using assms(1) by (rule map_of_SomeD)
  have sound: "tablets_sound to_wire rand (put_tablet tid tp' (sd_tablets ?d))"
    if s: "tablets_sound to_wire rand (sd_tablets ?d)"
  proof -
    from s tid obtain es where tp: "tp_tablet_id tp = tid" "tablet_inv to_wire rand (tablet_initial es) tp"
      by (auto simp: tablets_sound_def tablet_sound_def)
    then have l: "tablet_inv to_wire rand (tablet_initial es) (lend (node_connections ?nd) c' tp)" by (simp add: lend_inv)
    have "tp_tablet_id tp' = tid" using tablet_step_id [OF step l] tp by (simp add: lend_def)
    with tablet_step_inv [OF step l] have "tablet_sound to_wire rand tid tp'" by (auto simp: tablet_sound_def)
    then show ?thesis by (rule put_tablet_sound [OF s])
  qed
  have srv: "log_follower.server_inv (slave_callbacks to_wire (production_provider random clients))
      (slave_follows to_wire rand ?es) init ?nd"
    using inv by (simp add: slave_inv_def)
  have ends: "get_all_endpoints (node_connections (rs_node (tp_state tp'))) = ?es"
  proof -
    from srv obtain d0 where "slave_follows to_wire rand ?es ?d d0" using slave.server_replay by metis
    with tid obtain es where "tablet_inv to_wire rand (tablet_initial es) tp"
      by (auto simp: slave_follows_def tablets_sound_def tablet_sound_def)
    then have "tablet_inv to_wire rand (tablet_initial es) (lend (node_connections ?nd) c' tp)" by (simp add: lend_inv)
    from tablet_step_endpoints [OF step this] show ?thesis by (simp add: lend_def)
  qed
  note srv' = server_inv_tablets [OF srv slave.log_follower_axioms put_tablet_keys sound]
  have "log_follower.server_inv (slave_callbacks to_wire (production_provider random clients))
      (slave_follows to_wire rand ?es) init
      ((?nd\<lparr>node_derived := ?d\<lparr>sd_tablets := put_tablet tid tp' (sd_tablets ?d)\<rparr>\<rparr>)
       \<lparr>node_connections := node_connections (rs_node (tp_state tp'))\<rparr>)"
    unfolding slave.connections_server by (rule srv')
  with inv ends show ?thesis by (simp add: slave_inv_def give_back_def Let_def del: slave.connections_server)
qed

lemma slave_step_inv:
  assumes "slave_step to_wire parse rand cs ev sl = Some (Inr sl')"
    and "slave_inv to_wire random rand clients init sl"
  shows "slave_inv to_wire random rand clients init sl'"
proof (cases ev)
  case (SlaveQueueMessage m)
  with assms show ?thesis by (auto simp: slave_inv_def)
next
  case SlaveHandleMessage
  show ?thesis
  proof (cases "posted (sl_scheduler sl)")
    case (Cons m ms)
    with assms(1) SlaveHandleMessage obtain sl1 where
      "slave_handle to_wire parse rand cs m sl = Some (Inr sl1)"
      "sl' = sl1\<lparr>sl_scheduler := message_handled (sl_scheduler sl1)\<rparr>"
      by (auto simp: rbind_eq_Inr)
    with slave_handle_inv [OF _ assms(2)] show ?thesis by (auto simp: slave_inv_def)
  qed (use assms SlaveHandleMessage in simp)
next
  case SlaveRunTask
  with assms slave_task_inv [OF _ _ assms(2)] show ?thesis by (auto simp: rbind_eq_Inr split: if_splits)
next
  case SlaveSyncTimer
  with assms(1) obtain nd where nd: "sl' = slave_with_node nd sl"
    "sync_timer (\<lambda>p. to_wire (slave_sync_wrapper p)) sd_timeline (rs_node (sl_state sl)) = Inr nd"
    by (auto simp: rbind_eq_Inr)
  with slave_with_node_inv [OF assms(2)] slave.sync_timer_server [OF nd(2)] sync_timer_endpoints [OF nd(2)] assms(2)
  show ?thesis by (simp add: slave_inv_def)
next
  case SlaveHeartbeatTimer
  with assms show ?thesis
    by (auto simp: rbind_eq_Inr slave_inv_def slave_with_node_def heartbeat_callback_def Let_def
        intro: tracker_inv_increment)
next
  case (TabletEvent tid tev)
  with assms(1) give_back_inv [OF _ _ assms(2)] assms(2) show ?thesis
    by (auto simp: Let_def rbind_eq_Inr split: option.splits)
next
  case (SlaveConnection cev)
  let ?nd = "rs_node (sl_state sl)"
  from SlaveConnection assms(1) obtain c where
    sl': "sl' = slave_with_node (?nd\<lparr>node_connections := c, node_derived := (node_derived ?nd)\<lparr>sd_slaves := c\<rparr>\<rparr>) sl"
    by (auto simp: Let_def rbind_eq_Inr)
  have "log_follower.server_inv (slave_callbacks to_wire (production_provider random clients))
      (slave_follows to_wire rand (get_all_endpoints (node_connections ?nd))) init ?nd"
    using assms(2) by (simp add: slave_inv_def)
  then have "log_follower.server_inv (slave_callbacks to_wire (production_provider random clients))
      (slave_follows to_wire rand (get_all_endpoints c)) init (?nd\<lparr>node_derived := (node_derived ?nd)\<lparr>sd_slaves := c\<rparr>\<rparr>)"
    by (auto simp: slave.server_inv_def slave.log_followed_def slave_follows_def)
  then have "log_follower.server_inv (slave_callbacks to_wire (production_provider random clients))
      (slave_follows to_wire rand (get_all_endpoints c)) init
      (?nd\<lparr>node_connections := c, node_derived := (node_derived ?nd)\<lparr>sd_slaves := c\<rparr>\<rparr>)"
    by (simp add: slave.server_inv_def)
  with slave_with_node_inv [OF assms(2)] show ?thesis by (simp add: sl')
next
  case (ClientConnection cev)
  with assms show ?thesis by (auto simp: rbind_eq_Inr slave_inv_def)
next
  case (MasterConnection cev)
  let ?nd = "rs_node (sl_state sl)"
  from MasterConnection assms(1) obtain c where
    sl': "sl' = slave_with_node (?nd\<lparr>node_derived := (node_derived ?nd)\<lparr>sd_masters := c\<rparr>\<rparr>) sl"
    by (auto simp: Let_def rbind_eq_Inr)
  have "log_follower.server_inv (slave_callbacks to_wire (production_provider random clients))
      (slave_follows to_wire rand (get_all_endpoints (node_connections ?nd))) init ?nd"
    using assms(2) by (simp add: slave_inv_def)
  from slave.derived_server [OF this, of "(node_derived ?nd)\<lparr>sd_masters := c\<rparr>"]
  have "log_follower.server_inv (slave_callbacks to_wire (production_provider random clients))
      (slave_follows to_wire rand (get_all_endpoints (node_connections ?nd))) init
      (?nd\<lparr>node_derived := (node_derived ?nd)\<lparr>sd_masters := c\<rparr>\<rparr>)" by (simp add: slave_follows_def)
  with slave_with_node_inv [OF assms(2)] show ?thesis by (simp add: sl')
next
  case SlaveOverlap
  with assms show ?thesis by simp
qed

lemma slave_run_inv:
  "slave_run to_wire parse rand cs evs sl = Some (Inr sl') \<Longrightarrow>
     slave_inv to_wire random rand clients init sl \<Longrightarrow>
     slave_inv to_wire random rand clients init sl'"
  by (induction evs arbitrary: sl) (auto split: option.splits sum.splits dest: slave_step_inv)

definition initial_slave ::
  "'w connections \<Rightarrow> 'w connections \<Rightarrow> endpoint_id list \<Rightarrow> 32 word list \<Rightarrow> ('w, 'r) slave_derived" where
  "initial_slave masters slaves es threads =
     \<lparr>sd_timeline = PaxosConfigManager 0 es, sd_ranges = [], sd_generation = 0, sd_tablets = [],
      sd_threads = threads, sd_masters = masters, sd_slaves = slaves\<rparr>"

text \<open>The slave starts, often before any master; the replay is that of a slave with a master.\<close>

abbreviation some_master :: "'w connections" where
  "some_master \<equiv> \<lparr>channels = [(EndpointId [] 0, ChannelImpl [])]\<rparr>"

lemma ProductionContext_inv:
  "slave_inv to_wire random rand clients (initial_slave some_master slaves es (initial_threads hw))
     (ProductionContext to_wire random hw seed clients masters slaves es ip)"
proof -
  let ?d = "initial_slave masters slaves es (initial_threads hw)"
  let ?ghost = "initial_slave some_master slaves es (initial_threads hw)"
  have "slave_follows to_wire rand (get_all_endpoints slaves) ?d ?ghost"
    by (simp add: slave_follows_def tablets_sound_def initial_slave_def get_all_endpoints_def)
  then have "log_follower.server_inv (slave_callbacks to_wire (production_provider random clients))
      (slave_follows to_wire rand (get_all_endpoints slaves)) ?ghost
      \<lparr>node_paxos = MultiPaxosHandler, node_connections = slaves,
       node_log = slave_log to_wire (production_provider random clients), node_derived = ?d\<rparr>"
    by (intro slave.initial_server slave_log_inv) (simp_all add: slave_log_eq)
  then show ?thesis
    by (auto simp: slave_inv_def ProductionContext_def LocalTransactionManager_def initial_slave_def AsyncQueue_def
        async_queue_inv_def tracker_inv_def key_space_tasks_def)
qed

section \<open>An example run\<close>

definition lone_slave :: "(message_wrapper, unit) slave" where
  "lone_slave = ProductionContext (\<lambda>w. w) (\<lambda>_. ()) 3 () \<lparr>channels = []\<rparr>
     \<lparr>channels = [(EndpointId ''m'' 0, ChannelImpl [])]\<rparr> \<lparr>channels = []\<rparr> [EndpointId ''a'' 0] ''a''"

text \<open>A key space arrives with a sync response; then a client's request for its tablet.\<close>

definition slave_events :: "message_wrapper slave_event list" where
  "slave_events =
     [SlaveQueueMessage \<lparr>incoming_endpoint = EndpointId ''b'' 0, incoming_payload =
        SlaveMessage (SlaveSync (SyncResponse
          \<lparr>missing_entries = [(0, KeySpaceChanged [convert_range_object whole_table] 1)]\<rparr>))\<rparr>,
      SlaveQueueMessage \<lparr>incoming_endpoint = EndpointId ''c'' 0, incoming_payload =
        ClientMessage (ClientRequest (read_request ''r1'' ''k'' 5))\<rparr>,
      SlaveHandleMessage, SlaveHandleMessage, SlaveHeartbeatTimer,
      TabletEvent whole_table HandleMessage]"

abbreviation lone_slave_run :: "message_wrapper slave_event list \<Rightarrow> (message_wrapper, unit) slave result option" where
  "lone_slave_run evs \<equiv> slave_run (\<lambda>w. w) (\<lambda>w. w) (\<lambda>r. (7, r)) initialize_constants evs lone_slave"

lemma lone_slave_runs:
  "\<exists>sl. lone_slave_run slave_events = Some (Inr sl) \<and>
     log (node_log (rs_node (sl_state sl))) = [0 \<mapsto> KeySpaceChanged [convert_range_object whole_table] 1] \<and>
     available_indices (node_log (rs_node (sl_state sl))) = [1] \<and>
     map fst (sd_tablets (node_derived (rs_node (sl_state sl)))) = [whole_table]"
  by (simp add: slave_events_def lone_slave_def ProductionContext_def LocalTransactionManager_def
      initial_threads_def num_supported_threads_def queue_message_def schedule_async_def
      message_handled_def AsyncSchedulerImpl_def AsyncQueue_def slave_handle_def slave_with_node_def
      handle_sync_message_def handle_sync_response_def slave_log_eq set_entry_def
      next_available_index_def take_index_def log_insert_def word_upt_Cons invoke_callbacks_def log_at_def
      slave_callbacks_simps on_key_space_changed_def tp_key_space_change_def add_tablet_def production_provider_def
      place_participant_def get_all_endpoints_def key_space_changed_message_def send_def has_channel_def
      update_channel_def MAX_MESSAGES_QUEUE_SIZE_def to_tablets_def tp_handle_def handle_client_request_def
      read_request_def convert_range_object_def whole_table_def within_range_def latest_config_def
      PaxosConfigManager_def heartbeat_callback_def increment_counts_def queue_tablet_message_def
      TabletParticipant_def lend_def give_back_def put_tablet_def tablet_handle_def handle_request_def
      add_task_def schedule_run_def)

section \<open>Properties\<close>

text \<open>
  C34: a slave is what its logs say. After any messages, timers, steps of its tablets, new and
  closed connections, in any order, the slave's generation counts the key spaces in the contiguous prefix of its log, it
  serves the ranges of the last of them, it has exactly one tablet for every range that was ever
  assigned to its group, and the store of each tablet holds the writes in the prefix of the
  tablet's own log. What the callbacks see of the connections to the slaves is up to date.
\<close>

theorem slave_follows_logs:
  assumes "slave_run to_wire parse rand cs evs
      (ProductionContext to_wire tablet_random hw seed clients masters slaves es ip) = Some (Inr sl)"
    and "nd = rs_node (sl_state sl)" and "d = node_derived nd"
    and "ks = logged_key_spaces (log (node_log nd)) (first_free (node_log nd))"
  shows "sd_generation d = of_nat (length ks) \<and>
    sd_ranges d = (if ks = [] then [] else fst (last ks)) \<and>
    distinct (map fst (sd_tablets d)) \<and> set (map fst (sd_tablets d)) = (\<Union>k\<in>set ks. set (fst k)) \<and>
    (\<forall>(tid, tp)\<in>set (sd_tablets d). tp_tablet_id tp = tid \<and>
       (let tl = node_log (rs_node (tp_state tp))
        in \<forall>k. stored_versions (kvs (node_derived (rs_node (tp_state tp)))) k = logged_writes (log tl) (first_free tl) k)) \<and>
    get_all_endpoints (sd_slaves d) = get_all_endpoints (node_connections nd)"
proof -
  let ?init = "initial_slave some_master slaves es (initial_threads hw)"
  have "slave_inv to_wire tablet_random rand clients ?init sl"
    by (rule slave_run_inv [OF assms(1)]) (rule ProductionContext_inv)
  then obtain d0 where d0: "replay (slave_callbacks to_wire (production_provider tablet_random clients))
      (log (node_log nd)) (first_free (node_log nd)) ?init = Inr d0" "slave_follows to_wire rand (get_all_endpoints (node_connections nd)) d d0"
    using slave.server_replay by (metis assms(2,3) slave_inv_def)
  have "holds_key_spaces [] ?init" by (simp add: holds_key_spaces_def initial_slave_def)
  from replay_key_spaces [OF this d0(1)] have h: "holds_key_spaces ks d0" by (simp add: assms(4))
  have "stored_versions (kvs (node_derived (rs_node (tp_state tp)))) k =
      logged_writes (log (node_log (rs_node (tp_state tp)))) (first_free (node_log (rs_node (tp_state tp)))) k"
    if "(tid, tp) \<in> set (sd_tablets d)" for tid tp k
  proof -
    from d0(2) that obtain es where "tablet_inv to_wire rand (tablet_initial es) tp"
      by (auto simp: slave_follows_def tablets_sound_def tablet_sound_def)
    from tablet_inv_log [OF this] show ?thesis by (auto simp: Let_def)
  qed
  with h d0(2) show ?thesis
    by (auto simp: holds_key_spaces_def slave_follows_def tablets_sound_def tablet_sound_def Let_def simp flip: set_map)
qed

theorem slave_follows_logs_witness:
  "\<exists>sl. lone_slave_run slave_events = Some (Inr sl) \<and>
     sd_generation (node_derived (rs_node (sl_state sl))) = 1 \<and>
     sd_ranges (node_derived (rs_node (sl_state sl))) = [whole_table]"
proof -
  obtain sl where sl: "lone_slave_run slave_events = Some (Inr sl)"
    "log (node_log (rs_node (sl_state sl))) = [0 \<mapsto> KeySpaceChanged [convert_range_object whole_table] 1]"
    "available_indices (node_log (rs_node (sl_state sl))) = [1]"
    using lone_slave_runs by blast
  from slave_follows_logs [OF sl(1) [unfolded lone_slave_def] refl refl refl] sl show ?thesis
    by (simp add: first_free_def logged_key_spaces_def word_upt_Cons convert_range_object_def)
qed

text \<open>
  Key spaces the slaves propose can be applied. If every entry of a slave group's log was
  proposed by the task of a \<open>NewKeySpaceSelected\<close> message, on a slave whose generation was that of
  the log below the entry, then a slave with a thread and a master that learns entries of this
  log, in any order, installs them all without throwing.
\<close>

theorem proposed_key_spaces_apply:
  fixes init :: "('w, 'r) slave_derived"
  assumes "\<forall>i<n. \<exists>endpoint rs g (s :: ('w, 'r) slave_state) s'.
      key_space_task to_wire rand endpoint rs g s = Inr (SlaveKeySpaceManager.WAIT_FOR_PAXOS, s') \<and>
      the (m i) = KeySpaceChanged rs g \<and>
      (\<forall>d. replay (slave_callbacks to_wire (production_provider random clients)) m i init = Inr d \<longrightarrow>
        sd_generation (node_derived (rs_node s)) = sd_generation d)"
    and "sd_threads init \<noteq> []" and "get_all_endpoints (sd_masters init) \<noteq> []"
    and "- 1 \<notin> fst ` set es" and "\<forall>i e. map_of es i = Some e \<longrightarrow> m i = Some e"
    and "first_free (fold store_entry es (slave_log to_wire (production_provider random clients))) \<le> n"
  shows "is_ok (set_entries es (slave_log to_wire (production_provider random clients), init))"
proof -
  let ?cbs = "slave_callbacks to_wire (production_provider random clients)"
  have eq: "equipped init" using assms(2,3) by (simp add: equipped_def)
  have "guarded_client.guarded ?cbs (\<lambda>d e. next_key_space d e \<and> equipped d) m n init"
    unfolding guarded_client.guarded_def [OF key_spaces.guarded_client_axioms]
  proof (intro allI impI)
    fix i d assume i: "i < n" and d: "replay ?cbs m i init = Inr d"
    from assms(1) i d obtain endpoint rs g and s s' :: "('w, 'r) slave_state" where
      t: "key_space_task to_wire rand endpoint rs g s = Inr (SlaveKeySpaceManager.WAIT_FOR_PAXOS, s')"
      and e: "the (m i) = KeySpaceChanged rs g" "sd_generation (node_derived (rs_node s)) = sd_generation d"
      by blast
    from key_space_task_waits [OF t] have "g = sd_generation d + 1" by (simp add: e(2))
    with e(1) equipped_replay [OF eq d] show "next_key_space d (the (m i)) \<and> equipped d"
      by (simp add: next_key_space_def)
  qed
  then have g: "key_spaces.guarded to_wire random clients m n init" .
  have pl: "slave_log to_wire (production_provider random clients) = PaxosLog\<lparr>callbacks := ?cbs\<rparr>"
    by (simp add: slave_log_eq PaxosLog_def)
  show ?thesis
    unfolding pl by (rule key_spaces.guarded_learning [OF assms(4,5) g assms(6) [unfolded pl]])
qed

theorem proposed_key_spaces_apply_witness:
  "is_ok (set_entries [(0, KeySpaceChanged [] 1)]
     (slave_log (\<lambda>w. w) (production_provider (\<lambda>_. ()) \<lparr>channels = []\<rparr>),
      initial_slave \<lparr>channels = [(EndpointId ''m'' 0, ChannelImpl [])]\<rparr> \<lparr>channels = []\<rparr> [] [0]))"
proof (rule proposed_key_spaces_apply [where n = 1 and m = "[0 \<mapsto> KeySpaceChanged [] 1]" and rand = "\<lambda>r::unit. (7, r)"])
  let ?init = "initial_slave \<lparr>channels = [(EndpointId ''m'' 0, ChannelImpl [])]\<rparr> \<lparr>channels = []\<rparr> [] [0] ::
    (message_wrapper, unit) slave_derived"
  let ?nd = "\<lparr>node_paxos = MultiPaxosHandler, node_connections = \<lparr>channels = []\<rparr>,
    node_log = slave_log (\<lambda>w. w) (production_provider (\<lambda>_. ()) \<lparr>channels = []\<rparr>),
    node_derived = ?init\<rparr>"
  let ?s = "\<lparr>rs_random = (), rs_node = ?nd, rs_clients = \<lparr>channels = []\<rparr>, rs_retry_counts = []\<rparr>"
  obtain s' where "key_space_task (\<lambda>w. w) (\<lambda>r::unit. (7, r)) (EndpointId ''m'' 0) [] 1 ?s =
      Inr (SlaveKeySpaceManager.WAIT_FOR_PAXOS, s')"
    by (simp add: key_space_task_def request_propose_def multi_propose_def slave_log_eq next_available_index_def
        get_instance_def MultiPaxosHandler_def config_provider_def PaxosConfigManager_def config_def
        single_propose_react Let_def initial_slave_def)
  moreover have "i = 0" if "i < 1" for i :: index_t
    using that by (simp add: word_less_nat_alt unat_eq_0)
  ultimately show "\<forall>i<1. \<exists>endpoint rs g (s :: (message_wrapper, unit) slave_state) s'.
      key_space_task (\<lambda>w. w) (\<lambda>r::unit. (7, r)) endpoint rs g s = Inr (SlaveKeySpaceManager.WAIT_FOR_PAXOS, s') \<and>
      the ([0 \<mapsto> KeySpaceChanged [] 1] i) = KeySpaceChanged rs g \<and>
      (\<forall>d. replay (slave_callbacks (\<lambda>w. w) (production_provider (\<lambda>_. ()) \<lparr>channels = []\<rparr>))
          [0 \<mapsto> KeySpaceChanged [] 1] i ?init = Inr d \<longrightarrow>
        sd_generation (node_derived (rs_node s)) = sd_generation d)"
    by (intro allI impI exI [of _ "EndpointId ''m'' 0"] exI [of _ "[]"] exI [of _ 1] exI [of _ ?s] exI [of _ s']) auto
  show "first_free (fold store_entry [(0, KeySpaceChanged [] 1)]
      (slave_log (\<lambda>w. w) (production_provider (\<lambda>_. ()) \<lparr>channels = []\<rparr>))) \<le> 1"
    by (simp add: store_entry_def fill_index_def first_free_def slave_log_eq take_index_def)
qed (simp_all add: initial_slave_def get_all_endpoints_def)

end
