(* ===== verification/LogGrowth.thy ===== *)
theory LogGrowth
  imports PaxosServer GuardedLog
begin

text \<open>
  How the messages, timers and tasks of a server move its log and the state its callbacks change:
  entries are added, none is lost, and the state advances by the callbacks of exactly the entries
  that the contiguous prefix gains. Each operation of a Paxos node is shown to \<open>advance\<close> it.
\<close>

definition advances :: "'s paxos_log \<Rightarrow> 's \<Rightarrow> 's paxos_log \<Rightarrow> 's \<Rightarrow> bool" where
  "advances pl d pl' d' \<longleftrightarrow> log_inv pl' \<and> callbacks pl' = callbacks pl \<and> log pl \<subseteq>\<^sub>m log pl' \<and>
     first_free pl \<le> first_free pl' \<and>
     apply_range (callbacks pl) (log pl') (first_free pl) (first_free pl') d = Inr d'"

definition node_advances :: "('w, 's) paxos_node \<Rightarrow> ('w, 's) paxos_node \<Rightarrow> bool" where
  "node_advances nd nd' \<longleftrightarrow> advances (node_log nd) (node_derived nd) (node_log nd') (node_derived nd')"

lemma advances_refl [simp]: "advances pl d pl d \<longleftrightarrow> log_inv pl"
  by (simp add: advances_def)

lemma node_advances_refl [simp]: "node_advances nd nd \<longleftrightarrow> log_inv (node_log nd)"
  by (simp add: node_advances_def)

lemma advances_trans:
  assumes "log_inv pl" "advances pl d pl1 d1" "advances pl1 d1 pl2 d2"
  shows "advances pl d pl2 d2"
proof -
  have "apply_range (callbacks pl) (log pl2) (first_free pl) (first_free pl1) d =
      apply_range (callbacks pl) (log pl1) (first_free pl) (first_free pl1) d"
  proof (rule apply_range_cong)
    fix i assume "first_free pl \<le> i" "i < first_free pl1"
    with assms(2) below_first_free [of pl1 i] obtain e where "log pl1 i = Some e" by (auto simp: advances_def)
    with assms(3) show "log pl2 i = log pl1 i" by (auto simp: advances_def map_le_def dom_def)
  qed
  with assms(2,3) show ?thesis
    by (auto simp: advances_def apply_range_append [of "first_free pl" "first_free pl1" "first_free pl2"]
        intro: map_le_trans)
qed

lemma set_entry_advances:
  assumes "set_entry i e (pl, d) = Inr (pl', d')" "log_inv pl" "i \<noteq> - 1"
  shows "advances pl d pl' d'"
proof -
  from assms(1) have pl': "pl' = store_entry (i, e) pl"
    and app: "apply_range (callbacks pl) (log pl') (first_free pl) (first_free pl') d = Inr d'"
    unfolding set_entry_store [OF assms(2,3)] by (auto simp: rbind_eq_Inr)
  have "log pl \<subseteq>\<^sub>m log pl'" by (auto simp: pl' map_le_def)
  with app assms(2,3) show ?thesis
    by (simp add: advances_def pl' store_entry_inv store_entry_first_free)
qed

lemma sync_response_advances:
  assumes "handle_sync_response response (pl, d) = Inr (pl', d')" "log_inv pl"
  shows "advances pl d pl' d'"
proof -
  have "advances pl d (fst (pl', d')) (snd (pl', d'))"
  proof (rule rfold_invariant [OF assms(1) [unfolded handle_sync_response_def]])
    fix ie :: "32 word \<times> paxos_log_entry" and x x'
    assume x: "advances pl d (fst x) (snd x)" and step: "(case ie of (i, e) \<Rightarrow> set_entry (ucast i) e) x = Inr x'"
    obtain i e where ie: "ie = (i, e)" by (cases ie)
    have "log_inv (fst x)" using x by (simp add: advances_def)
    with step have "advances (fst x) (snd x) (fst x') (snd x')"
      by (intro set_entry_advances [of "ucast i" e]) (simp_all add: ie)
    with x assms(2) show "advances pl d (fst x') (snd x')" by (blast intro: advances_trans)
  qed (use assms(2) in simp)
  then show ?thesis by simp
qed

section \<open>The operations of a node\<close>

lemma apply_reaction_advances:
  assumes "apply_reaction to_wire i h x nd = Inr nd'" "log_inv (node_log nd)"
    and "decided x = None \<or> paxos_log_index h \<noteq> - 1"
  shows "node_advances nd nd'"
proof -
  from assms(1) obtain pl d where
    set: "(case decided x of None \<Rightarrow> Inr (node_log nd, node_derived nd)
           | Some v \<Rightarrow> set_entry (paxos_log_index h) v (node_log nd, node_derived nd)) = Inr (pl, d)"
    and nd': "nd' = put_instance i (new_state x) (nd\<lparr>node_connections :=
        emit to_wire h (outgoing x) (node_connections nd), node_log := pl, node_derived := d\<rparr>)"
    unfolding apply_reaction_def by (auto simp: rbind_eq_Inr)
  have "advances (node_log nd) (node_derived nd) pl d"
  proof (cases "decided x")
    case (Some v)
    with set assms(2,3) show ?thesis by (auto intro: set_entry_advances)
  qed (use set assms(2) in simp)
  then show ?thesis by (simp add: nd' node_advances_def)
qed

lemma propose_advances:
  assumes "multi_propose to_wire provider draw e nd = Inr nd'" "log_inv (node_log nd)"
  shows "node_advances nd nd'"
proof -
  from assms(1) obtain i h where h: "apply_reaction to_wire i h (react_propose draw e h) nd = Inr nd'"
    by (auto simp: multi_propose_react rbind_eq_Inr)
  show ?thesis
    by (rule apply_reaction_advances [OF h assms(2)]) (simp add: react_propose_def Let_def)
qed

text \<open>An instance is filed under its index.\<close>

lemma paxos_message_advances:
  assumes "handle_incoming_message to_wire cs (config_provider get) endpoint m nd = Inr nd'" "log_inv (node_log nd)"
    and "\<And>i h. paxos_instances (node_paxos nd) i = Some h \<Longrightarrow> paxos_log_index h = i"
  shows "node_advances nd nd'"
proof -
  let ?i = "ucast (paxos_index m) :: index_t"
  from assms(1) obtain h x where h: "instance_of (config_provider get) ?i nd = Inr h"
    "apply_reaction to_wire ?i h x nd = Inr nd'"
    by (auto simp: handle_incoming_message_react rbind_eq_Inr)
  have "paxos_log_index h = ?i"
    using h(1) assms(3) indexed_config_provider [of get]
    by (auto simp: instance_of_def indexed_provider_def split: option.splits)
  with apply_reaction_advances [OF h(2) assms(2)] show ?thesis by simp
qed

lemma sync_message_advances:
  "handle_sync_message to_wire endpoint m nd = Some (Inr nd') \<Longrightarrow> log_inv (node_log nd) \<Longrightarrow> node_advances nd nd'"
  by (cases m)
    (auto simp: handle_sync_message_def handle_sync_request_def rbind_eq_Inr node_advances_def
      dest: sync_response_advances)

lemma sync_timer_keeps:
  "sync_timer to_wire get nd = Inr nd' \<Longrightarrow> node_log nd' = node_log nd \<and> node_derived nd' = node_derived nd"
  by (auto simp: sync_timer_def rbind_eq_Inr)

section \<open>Along the entries that are applied\<close>

lemma apply_range_invariant:
  assumes "apply_range cbs m a b s = Inr s'" "a \<le> b" "P a s"
    and step: "\<And>i s s'. i < b \<Longrightarrow> P i s \<Longrightarrow> apply_entry cbs i (the (m i)) s = Inr s' \<Longrightarrow> P (i + 1) s'"
  shows "P b s'"
proof -
  have "a \<le> b \<longrightarrow> (\<forall>s'. apply_range cbs m a b s = Inr s' \<longrightarrow> P b s')"
  proof (rule word_induct_below [where j = b])
    show "a \<le> 0 \<longrightarrow> (\<forall>s'. apply_range cbs m a 0 s = Inr s' \<longrightarrow> P 0 s')" using assms(3) by auto
  next
    fix i
    assume i: "i < b" and IH: "a \<le> i \<longrightarrow> (\<forall>s'. apply_range cbs m a i s = Inr s' \<longrightarrow> P i s')"
    have max: "i \<noteq> - 1" using i by (metis word_order.extremum_strict)
    show "a \<le> i + 1 \<longrightarrow> (\<forall>s'. apply_range cbs m a (i + 1) s = Inr s' \<longrightarrow> P (i + 1) s')"
    proof (intro impI allI)
      fix s1 assume le: "a \<le> i + 1" and s1: "apply_range cbs m a (i + 1) s = Inr s1"
      show "P (i + 1) s1"
      proof (cases "a = i + 1")
        case True
        with s1 assms(3) show ?thesis by simp
      next
        case False
        with le have a: "a \<le> i" using word_le_succ_iff [OF max, of a] by simp
        have le1: "i \<le> i + 1" using word_le_succ_iff [OF max, of i] by simp
        have "apply_range cbs m i (i + 1) s0 = apply_entry cbs i (the (m i)) s0" for s0
          using word_upt_snoc [of i i] max
          by (cases "apply_entry cbs i (the (m i)) s0") (simp_all add: apply_range_def)
        with s1 obtain s0 where "apply_range cbs m a i s = Inr s0" "apply_entry cbs i (the (m i)) s0 = Inr s1"
          unfolding apply_range_append [OF a le1] by (auto simp: rbind_eq_Inr)
        with IH a i step show ?thesis by blast
      qed
    qed
  qed
  with assms(1,2) show ?thesis by blast
qed

end
