(* ===== verification/SlaveSteps.thy ===== *)
theory SlaveSteps
  imports Slave GroupMember LogGrowth
begin

text \<open>
  What a step of a slave does to what others see of it: its log, its channels to the other slaves
  and to the masters, its queue of messages and its tasks. The groups of slaves (SlaveGroup,
  TabletGroup) and the whole system (WholeSystem) rest on these facts.
\<close>

section \<open>The rules of a slave\<close>

definition slave_connections :: "('w, 'r) slave \<Rightarrow> 'w connections" where
  "slave_connections sl = node_connections (rs_node (sl_state sl))"

definition slave_rules ::
  "(message_wrapper \<Rightarrow> 'w) \<Rightarrow> ('r \<Rightarrow> 32 word \<times> 'r) \<Rightarrow> endpoint_id list \<Rightarrow> ('w, 'r) slave \<Rightarrow> bool" where
  "slave_rules to_wire rand es sl \<longleftrightarrow>
     (\<exists>random clients slaves threads. slave_inv to_wire random rand clients (initial_slave some_master slaves es threads) sl)"

lemma slave_rules_step:
  "slave_step to_wire parse rand cs ev sl = Some (Inr sl') \<Longrightarrow> slave_rules to_wire rand es sl \<Longrightarrow> slave_rules to_wire rand es sl'"
  unfolding slave_rules_def by (elim exE) (intro exI, rule slave_step_inv)

lemma slave_timeline:
  assumes "replay (slave_callbacks to_wire provider) m n init = Inr d" "\<And>i. i < n \<Longrightarrow> not_reconfig (the (m i))"
  shows "sd_timeline d = sd_timeline init"
proof (rule replay_invariant [OF assms(1)])
  fix i and x x' :: "('a, 'b) slave_derived"
  assume i: "i < n" and x: "sd_timeline x = sd_timeline init"
    and step: "apply_entry (slave_callbacks to_wire provider) i (the (m i)) x = Inr x'"
  from assms(2) [OF i] x step show "sd_timeline x' = sd_timeline init"
    by (cases "the (m i)") (auto simp: not_reconfig_def apply_entry_slave on_key_space_changed_Inr simp del: broadcast.simps)
qed simp

text \<open>The generation counts the key spaces of the log; the timeline is that of the file.\<close>

lemma slave_facts:
  assumes "slave_rules to_wire rand es sl" and "nd = rs_node (sl_state sl)"
    and ks: "ks = logged_key_spaces (log (node_log nd)) (first_free (node_log nd))"
  shows "holds_key_spaces ks (node_derived nd)"
    and "tablets_sound to_wire rand (sd_tablets (node_derived nd))"
    and "get_all_endpoints (sd_slaves (node_derived nd)) = get_all_endpoints (node_connections nd)"
    and "log_inv (node_log nd)"
    and "(\<And>i. i < first_free (node_log nd) \<Longrightarrow> not_reconfig (the (log (node_log nd) i))) \<Longrightarrow>
      sd_timeline (node_derived nd) = [(0, es)]"
proof -
  from assms(1) obtain random clients slaves threads where
    "slave_inv to_wire random rand clients (initial_slave some_master slaves es threads) sl"
    by (auto simp: slave_rules_def)
  then have srv: "log_follower.server_inv (slave_callbacks to_wire (production_provider random clients))
      (slave_follows to_wire rand (get_all_endpoints (node_connections nd))) (initial_slave some_master slaves es threads) nd"
    by (simp add: slave_inv_def assms(2))
  then show "log_inv (node_log nd)" by (simp add: slave.server_inv_def slave.log_followed_def)
  from slave.server_replay [OF srv] obtain d0 where
    d0: "replay (slave_callbacks to_wire (production_provider random clients)) (log (node_log nd)) (first_free (node_log nd))
      (initial_slave some_master slaves es threads) = Inr d0"
      "slave_follows to_wire rand (get_all_endpoints (node_connections nd)) (node_derived nd) d0" by blast
  have "holds_key_spaces [] (initial_slave some_master slaves es threads)"
    by (simp add: holds_key_spaces_def initial_slave_def)
  from replay_key_spaces [OF this d0(1)] have h: "holds_key_spaces ks d0" by (simp add: ks)
  have "fst ` set (sd_tablets (node_derived nd)) = fst ` set (sd_tablets d0)"
    using d0(2) by (simp add: slave_follows_def flip: set_map)
  with h d0(2) show "holds_key_spaces ks (node_derived nd)"
    by (simp add: holds_key_spaces_def slave_follows_def)
  from d0(2) show "tablets_sound to_wire rand (sd_tablets (node_derived nd))"
    "get_all_endpoints (sd_slaves (node_derived nd)) = get_all_endpoints (node_connections nd)"
    by (simp_all add: slave_follows_def)
  show "sd_timeline (node_derived nd) = [(0, es)]"
    if "\<And>i. i < first_free (node_log nd) \<Longrightarrow> not_reconfig (the (log (node_log nd) i))"
    using slave_timeline [OF d0(1) that] d0(2)
    by (simp add: slave_follows_def) (simp add: initial_slave_def PaxosConfigManager_def)
qed

text \<open>What the task of a key space does to the node.\<close>

lemma key_space_task_node:
  assumes "key_space_task to_wire rand endpoint rs g s = Inr (w, s')"
  shows "(\<exists>c. rs_node s' = (rs_node s)\<lparr>node_derived := (node_derived (rs_node s))\<lparr>sd_masters := c\<rparr>\<rparr>) \<or>
    (\<exists>draw. g = sd_generation (node_derived (rs_node s)) + 1 \<and>
       multi_propose (\<lambda>p. to_wire (slave_paxos_wrapper p)) (config_provider sd_timeline) draw (KeySpaceChanged rs g)
         (rs_node s) = Inr (rs_node s'))"
proof (cases "g = sd_generation (node_derived (rs_node s)) + 1")
  case True
  with assms have "request_propose (\<lambda>p. to_wire (slave_paxos_wrapper p)) (config_provider sd_timeline) rand
      (KeySpaceChanged rs g) s = Inr s'"
    by (auto simp: key_space_task_def Let_def rbind_eq_Inr map_idI [of rs copy_range] simp del: broadcast.simps)
  with True request_propose_node show ?thesis by blast
next
  case False
  with assms have "rs_node s' = (rs_node s)\<lparr>node_derived := (node_derived (rs_node s))\<lparr>sd_masters :=
      sd_masters (node_derived (rs_node s'))\<rparr>\<rparr>"
    by (auto simp: key_space_task_def Let_def simp del: broadcast.simps split: if_splits)
  then show ?thesis by blast
qed

text \<open>What a tablet sends says which tablet it is for.\<close>

definition tablet_wires :: "(message_wrapper \<Rightarrow> 'w) \<Rightarrow> tablet_id \<Rightarrow> 'w set" where
  "tablet_wires to_wire tid =
     range (\<lambda>pl. to_wire (TabletMessage \<lparr>tablet_range = convert_range_object tid, tablet_payload = pl\<rparr>))"

lemma tablet_wires_range:
  "range (\<lambda>p. to_wire (tablet_paxos_wrapper tid p)) \<subseteq> tablet_wires to_wire tid"
  "range (\<lambda>p. to_wire (tablet_sync_wrapper tid p)) \<subseteq> tablet_wires to_wire tid"
  "range (\<lambda>r. to_wire (tablet_sync_wrapper tid (SyncRequest r))) \<subseteq> tablet_wires to_wire tid"
  by (auto simp: tablet_wires_def tablet_paxos_wrapper_def tablet_sync_wrapper_def)

lemma request_task_node:
  assumes "request_task to_wire pw provider rand rc message endpoint s = Inr (w, s')"
  shows "(\<exists>d. rs_node s' = (rs_node s)\<lparr>node_derived := d\<rparr>) \<or>
    (\<exists>draw e. request_entry message = Inr e \<and> multi_propose pw provider draw e (rs_node s) = Inr (rs_node s'))"
proof (cases "w = TERMINATE")
  case True
  have "ClientRequestHandler.WAIT_FOR_PAXOS \<noteq> TERMINATE"
    by (simp add: ClientRequestHandler.WAIT_FOR_PAXOS_def TERMINATE_def)
  with True assms have "\<exists>r s1. s' = respond to_wire endpoint r s1 \<and> (s1 = s \<or> (\<exists>index. fulfilled message index s = Inr (r, s1)))"
    by (auto simp: request_task_def rbind_eq_Inr split: option.splits if_splits)
  then obtain r s1 where s1: "s' = respond to_wire endpoint r s1"
    "s1 = s \<or> (\<exists>index. fulfilled message index s = Inr (r, s1))" by blast
  from s1(2) have "\<exists>d. rs_node s1 = (rs_node s)\<lparr>node_derived := d\<rparr>"
  proof (elim disjE exE)
    assume s1: "s1 = s"
    have "rs_node s = (rs_node s)\<lparr>node_derived := node_derived (rs_node s)\<rparr>" by simp
    then show ?thesis unfolding s1 ..
  next
    fix index assume "fulfilled message index s = Inr (r, s1)"
    from fulfilled_state [OF this] obtain kv where
      "s1 = s\<lparr>rs_node := (rs_node s)\<lparr>node_derived := (node_derived (rs_node s))\<lparr>kvs := kv\<rparr>\<rparr>\<rparr>" by blast
    then have "rs_node s1 = (rs_node s)\<lparr>node_derived := (node_derived (rs_node s))\<lparr>kvs := kv\<rparr>\<rparr>" by simp
    then show ?thesis ..
  qed
  with s1(1) show ?thesis by simp
next
  case False
  from task_proposes [OF assms False] request_propose_node show ?thesis
    by (metis request_state.select_convs(2) request_state.surjective request_state.update_convs(4))
qed

lemma tablet_step_channels:
  assumes step: "tablet_step to_wire parse rand cs ev tp = Some (Inr tp')" and inv: "tablet_inv to_wire rand init tp"
  shows "channels_change (tablet_wires to_wire (tp_tablet_id tp))
    (node_connections (rs_node (tp_state tp))) (node_connections (rs_node (tp_state tp')))"
proof -
  let ?W = "tablet_wires to_wire (tp_tablet_id tp)" and ?c = "\<lambda>tp. node_connections (rs_node (tp_state tp))"
  note wires = tablet_wires_range [where to_wire = to_wire and tid = "tp_tablet_id tp"]
  have handle: "channels_change ?W (?c tp) (?c tp1)" if "tablet_handle to_wire parse rand cs m tp = Some (Inr tp1)" for m tp1
    using that
    by (auto simp: tablet_handle_def handle_request_def with_node_def Let_def rbind_eq_Inr
        split: message_wrapper.splits client_message.splits tablet_payload.splits
        dest!: channels_change_mono [OF paxos_message_channels wires(1)] channels_change_mono [OF sync_message_channels wires(2)])
  show ?thesis
  proof (cases ev)
    case (QueueMessage m)
    with step show ?thesis by auto
  next
    case HandleMessage
    with step handle show ?thesis by (auto simp: rbind_eq_Inr split: list.splits)
  next
    case RunTask
    show ?thesis
    proof (cases "scheduled_runs (tp_async_queue tp) = []")
      case False
      with step RunTask obtain q s where run: "fire_run (tp_async_queue tp, tp_state tp) = Inr (q, s)"
        and tp': "tp' = tp\<lparr>tp_async_queue := q, tp_state := s\<rparr>" by (auto simp: rbind_eq_Inr)
      from inv obtain ts where "queue_callbacks (tp_async_queue tp) = request_tasks to_wire rand (tp_tablet_id tp) ts"
        by (auto simp: tablet_inv_def)
      from fire_run_tasks [OF run this [unfolded request_tasks_def]] obtain t w where
        t: "(case t of (rc, message, endpoint) \<Rightarrow> request_task to_wire (\<lambda>p. to_wire (tablet_paxos_wrapper (tp_tablet_id tp) p))
          (config_provider owner) rand rc message endpoint) (tp_state tp) = Inr (w, s)"
        by metis
      obtain rc message endpoint where "t = (rc, message, endpoint)" by (cases t)
      with t have task: "request_task to_wire (\<lambda>p. to_wire (tablet_paxos_wrapper (tp_tablet_id tp) p))
          (config_provider owner) rand rc message endpoint (tp_state tp) = Inr (w, s)" by simp
      from request_task_node [OF task] show ?thesis
        by (auto simp: tp' dest!: channels_change_mono [OF propose_channels wires(1)])
    qed (use step RunTask in simp)
  next
    case SyncTimer
    with step obtain nd where "tp' = with_node nd tp"
      "sync_timer (\<lambda>p. to_wire (tablet_sync_wrapper (tp_tablet_id tp) p)) owner (rs_node (tp_state tp)) = Inr nd"
      by (auto simp: rbind_eq_Inr)
    with sync_timer_channels channels_change_mono [OF _ wires(3)] show ?thesis by (simp add: with_node_def) blast
  qed
qed

section \<open>Channels and log\<close>

text \<open>What a slave sends to the slaves, and what it tells masters.\<close>

definition slave_wires :: "(message_wrapper \<Rightarrow> 'w) \<Rightarrow> 'w set" where
  "slave_wires to_wire =
     range (\<lambda>p. to_wire (slave_paxos_wrapper p)) \<union> range (\<lambda>y. to_wire (slave_sync_wrapper y)) \<union>
     {to_wire (SlaveMessage Heartbeat)} \<union> (\<Union>tid. tablet_wires to_wire tid)"

definition tells_masters ::
  "(message_wrapper \<Rightarrow> 'w) \<Rightarrow> ('w, 'r) slave_derived \<Rightarrow> ('w, 'r) slave_derived \<Rightarrow> bool" where
  "tells_masters to_wire d d' \<longleftrightarrow> sd_generation d' = sd_generation d \<and>
     channels_change {to_wire (key_space_changed_message (sd_generation d))} (sd_masters d) (sd_masters d')"

text \<open>The log grows, or it stays and so does the generation.\<close>

definition slave_moves :: "(message_wrapper \<Rightarrow> 'w) \<Rightarrow> ('w, 'r) slave \<Rightarrow> ('w, 'r) slave \<Rightarrow> bool" where
  "slave_moves to_wire sl sl' \<longleftrightarrow>
     channels_change (slave_wires to_wire) (slave_connections sl) (slave_connections sl') \<and>
     (node_advances (rs_node (sl_state sl)) (rs_node (sl_state sl')) \<or>
      node_log (rs_node (sl_state sl')) = node_log (rs_node (sl_state sl)) \<and>
      tells_masters to_wire (node_derived (rs_node (sl_state sl))) (node_derived (rs_node (sl_state sl'))))"

lemma tells_masters_refl:
  "sd_generation d' = sd_generation d \<Longrightarrow> sd_masters d' = sd_masters d \<Longrightarrow> tells_masters to_wire d d'"
  by (simp add: tells_masters_def)

lemma slave_wires_parts:
  "range (\<lambda>p. to_wire (slave_paxos_wrapper p)) \<subseteq> slave_wires to_wire"
  "range (\<lambda>y. to_wire (slave_sync_wrapper y)) \<subseteq> slave_wires to_wire"
  "range (\<lambda>r. to_wire (slave_sync_wrapper (SyncRequest r))) \<subseteq> slave_wires to_wire"
  "to_wire (SlaveMessage Heartbeat) \<in> slave_wires to_wire"
  "tablet_wires to_wire tid \<subseteq> slave_wires to_wire"
  by (auto simp: slave_wires_def)

lemma slave_movesI:
  assumes "node_log (rs_node (sl_state sl')) = node_log (rs_node (sl_state sl))"
    and "channels_change (slave_wires to_wire) (slave_connections sl) (slave_connections sl')"
    and "tells_masters to_wire (node_derived (rs_node (sl_state sl))) (node_derived (rs_node (sl_state sl')))"
  shows "slave_moves to_wire sl sl'"
  using assms by (simp add: slave_moves_def)

lemma slave_moves_same:
  "rs_node (sl_state sl') = rs_node (sl_state sl) \<Longrightarrow> slave_moves to_wire sl sl'"
  by (simp add: slave_moves_def slave_connections_def tells_masters_def)

lemma slave_rules_node:
  assumes "slave_rules to_wire rand es sl"
  shows "log_inv (node_log (rs_node (sl_state sl)))"
    and "paxos_instances (node_paxos (rs_node (sl_state sl))) i = Some h \<Longrightarrow> paxos_log_index h = i"
    and "\<exists>ts. queue_callbacks (sl_async_queue sl) = key_space_tasks to_wire rand ts"
    and "\<exists>random clients. callbacks (node_log (rs_node (sl_state sl))) = slave_callbacks to_wire (production_provider random clients)"
  using assms by (auto simp: slave_rules_def slave_inv_def slave.server_inv_def slave.log_followed_def)

lemma to_tablets_moves: "slave_moves to_wire sl (to_tablets to_wire parse m sl)"
proof -
  obtain tps c where tp: "tp_handle to_wire parse m (sd_tablets (node_derived (rs_node (sl_state sl))), rs_clients (sl_state sl)) = (tps, c)"
    by fastforce
  show ?thesis
    by (rule slave_movesI)
      (simp_all add: to_tablets_def Let_def tp slave_connections_def tells_masters_def)
qed

lemma slave_handle_moves:
  assumes run: "slave_handle to_wire parse rand cs m sl = Some (Inr sl')" and rules: "slave_rules to_wire rand es sl"
  shows "slave_moves to_wire sl sl'"
proof (cases "parse (incoming_payload m)")
  case (ClientMessage cm)
  with run have "sl' = to_tablets to_wire parse m sl \<or> sl' = sl" by (cases cm) (auto simp: slave_handle_def Let_def)
  with to_tablets_moves slave_moves_same show ?thesis by blast
next
  case (TabletMessage tm)
  with run have "sl' = to_tablets to_wire parse m sl" by (simp add: slave_handle_def Let_def)
  with to_tablets_moves show ?thesis by simp
next
  case (MasterMessage mm)
  with run show ?thesis by (intro slave_moves_same; cases mm) (auto simp: slave_handle_def Let_def)
next
  case (SlaveMessage sm)
  note node = slave_rules_node [OF rules]
  show ?thesis
  proof (cases sm)
    case (SlavePaxos pm)
    with run SlaveMessage obtain nd where nd: "sl' = slave_with_node nd sl"
      "handle_incoming_message (\<lambda>p. to_wire (slave_paxos_wrapper p)) cs (config_provider sd_timeline)
        (incoming_endpoint m) pm (rs_node (sl_state sl)) = Inr nd"
      by (auto simp: slave_handle_def Let_def rbind_eq_Inr)
    from paxos_message_advances [OF nd(2) node(1,2)] channels_change_mono [OF paxos_message_channels [OF nd(2)] slave_wires_parts(1)]
    show ?thesis by (simp add: nd(1) slave_with_node_def slave_moves_def slave_connections_def)
  next
    case (SlaveSync y)
    with run SlaveMessage obtain nd where nd: "sl' = slave_with_node nd sl"
      "handle_sync_message (\<lambda>p. to_wire (slave_sync_wrapper p)) (incoming_endpoint m) y (rs_node (sl_state sl)) = Some (Inr nd)"
      by (auto simp: slave_handle_def Let_def rbind_eq_Inr)
    from sync_message_advances [OF nd(2) node(1)] channels_change_mono [OF sync_message_channels [OF nd(2)] slave_wires_parts(2)]
    show ?thesis by (simp add: nd(1) slave_with_node_def slave_moves_def slave_connections_def)
  qed (use run SlaveMessage in \<open>intro slave_moves_same; auto simp: slave_handle_def Let_def\<close>)+
qed (use run in \<open>intro slave_moves_same; auto simp: slave_handle_def Let_def\<close>)+

lemma key_space_task_moves:
  assumes run: "key_space_task to_wire rand endpoint rs g (sl_state sl) = Inr (w, s)"
    and rules: "slave_rules to_wire rand es sl" and sl': "sl_state sl' = s"
  shows "slave_moves to_wire sl sl'"
proof -
  let ?nd = "rs_node (sl_state sl)" let ?d = "node_derived ?nd"
  note task = run [unfolded key_space_task_def Let_def]
  consider "s = sl_state sl"
    | "request_propose (\<lambda>p. to_wire (slave_paxos_wrapper p)) (config_provider sd_timeline) rand
        (KeySpaceChanged (map copy_range rs) g) (sl_state sl) = Inr s"
    | "sd_generation ?d = g" "rs_node s = ?nd\<lparr>node_derived := ?d\<lparr>sd_masters :=
        broadcast [endpoint] (to_wire (key_space_changed_message g)) (sd_masters ?d)\<rparr>\<rparr>"
  proof (cases "sd_generation ?d + 1 < g")
    case True
    with task show ?thesis by (intro that(1)) simp
  next
    case behind: False
    show ?thesis
    proof (cases "sd_generation ?d + 1 = g")
      case True
      with behind task show ?thesis by (intro that(2)) (auto simp: rbind_eq_Inr)
    next
      case False
      with behind task show ?thesis by (cases "sd_generation ?d = g") (auto intro: that(1) that(3))
    qed
  qed
  then show ?thesis
  proof cases
    case 1
    with sl' show ?thesis by (intro slave_moves_same) simp
  next
    case 2
    from request_propose_node [OF 2] obtain draw where
      p: "multi_propose (\<lambda>p. to_wire (slave_paxos_wrapper p)) (config_provider sd_timeline) draw
        (KeySpaceChanged (map copy_range rs) g) ?nd = Inr (rs_node s)" by blast
    from propose_advances [OF p slave_rules_node(1) [OF rules]] channels_change_mono [OF propose_channels [OF p] slave_wires_parts(1)]
    show ?thesis by (simp add: slave_moves_def slave_connections_def sl')
  next
    case 3
    show ?thesis
      by (rule slave_movesI)
        (use 3 sl' in \<open>simp_all add: slave_connections_def tells_masters_def channels_change_broadcast del: broadcast.simps\<close>)
  qed
qed

lemma tablet_event_channels:
  assumes step: "tablet_step to_wire parse rand cs tev (lend (slave_connections sl) clients tp) = Some (Inr tp')"
    and tp: "map_of (sd_tablets (node_derived (rs_node (sl_state sl)))) tid = Some tp"
    and mem: "slave_rules to_wire rand es sl"
  shows "channels_change (tablet_wires to_wire tid) (slave_connections sl) (node_connections (rs_node (tp_state tp')))"
proof -
  from map_of_SomeD [OF tp] slave_facts(2) [OF mem refl refl] obtain es' where
    "tp_tablet_id tp = tid" "tablet_inv to_wire rand (tablet_initial es') tp"
    by (auto simp: tablets_sound_def tablet_sound_def)
  with tablet_step_channels [OF step, of "tablet_initial es'"] show ?thesis by (simp add: lend_inv) (simp add: lend_def)
qed

lemma slave_step_moves:
  assumes run: "slave_step to_wire parse rand cs ev sl = Some (Inr sl')" and rules: "slave_rules to_wire rand es sl"
  shows "slave_moves to_wire sl sl'"
proof -
  let ?nd = "rs_node (sl_state sl)" let ?d = "node_derived ?nd"
  show ?thesis
  proof (cases ev)
    case (SlaveQueueMessage m)
    with run show ?thesis by (intro slave_moves_same) auto
  next
    case SlaveHandleMessage
    show ?thesis
    proof (cases "posted (sl_scheduler sl)")
      case (Cons m ms)
      with run SlaveHandleMessage obtain sl1 where
        h: "slave_handle to_wire parse rand cs m sl = Some (Inr sl1)"
          "sl' = sl1\<lparr>sl_scheduler := message_handled (sl_scheduler sl1)\<rparr>"
        by (auto simp: rbind_eq_Inr)
      from slave_handle_moves [OF h(1) rules] show ?thesis by (simp add: h(2) slave_moves_def slave_connections_def)
    qed (use run SlaveHandleMessage in \<open>intro slave_moves_same, simp\<close>)
  next
    case SlaveRunTask
    show ?thesis
    proof (cases "scheduled_runs (sl_async_queue sl) = []")
      case False
      with run SlaveRunTask obtain q s where r: "fire_run (sl_async_queue sl, sl_state sl) = Inr (q, s)"
        and sl': "sl' = sl\<lparr>sl_async_queue := q, sl_state := s\<rparr>" by (auto simp: rbind_eq_Inr)
      from slave_rules_node(3) [OF rules] obtain ts where "queue_callbacks (sl_async_queue sl) = key_space_tasks to_wire rand ts" by blast
      from fire_run_tasks [OF r this [unfolded key_space_tasks_def]] obtain t w where
        t: "(case t of (endpoint, rs, g) \<Rightarrow> key_space_task to_wire rand endpoint rs g) (sl_state sl) = Inr (w, s)" by metis
      obtain endpoint rs g where "t = (endpoint, rs, g)" by (cases t)
      with t have "key_space_task to_wire rand endpoint rs g (sl_state sl) = Inr (w, s)" by simp
      from key_space_task_moves [OF this rules] show ?thesis by (simp add: sl')
    qed (use run SlaveRunTask in \<open>intro slave_moves_same, simp\<close>)
  next
    case SlaveSyncTimer
    with run obtain nd where nd: "sl' = slave_with_node nd sl"
      "sync_timer (\<lambda>p. to_wire (slave_sync_wrapper p)) sd_timeline ?nd = Inr nd"
      by (auto simp: rbind_eq_Inr)
    have "channels_change (slave_wires to_wire) (slave_connections sl) (node_connections nd)"
      using sync_timer_channels [OF nd(2)] channels_change_mono [OF _ slave_wires_parts(3)]
      by (auto simp: slave_connections_def)
    with sync_timer_keeps [OF nd(2)] show ?thesis
      by (intro slave_movesI) (simp_all add: nd(1) slave_with_node_def slave_connections_def tells_masters_refl)
  next
    case SlaveHeartbeatTimer
    with run obtain endpoints where
      sl': "sl' = (slave_with_node (?nd\<lparr>node_connections := broadcast endpoints (to_wire (SlaveMessage Heartbeat)) (node_connections ?nd)\<rparr>) sl)
        \<lparr>sl_heartbeats := increment_counts (sl_heartbeats sl)\<rparr>"
      by (auto simp: rbind_eq_Inr heartbeat_callback_def Let_def simp del: broadcast.simps)
    show ?thesis
      by (rule slave_movesI)
        (simp_all add: sl' slave_with_node_def slave_connections_def tells_masters_refl channels_change_broadcast
          slave_wires_parts(4) del: broadcast.simps)
  next
    case (TabletEvent tid tev)
    show ?thesis
    proof (cases "map_of (sd_tablets ?d) tid")
      case (Some tp)
      with run TabletEvent obtain tp' where
        t: "tablet_step to_wire parse rand cs tev (lend (slave_connections sl) (rs_clients (sl_state sl)) tp) = Some (Inr tp')"
        and sl': "sl' = give_back tid tp' sl" by (auto simp: Let_def rbind_eq_Inr slave_connections_def)
      show ?thesis
        by (rule slave_movesI)
          (use channels_change_mono [OF tablet_event_channels [OF t Some rules] slave_wires_parts(5)] in
            \<open>simp_all add: sl' give_back_def Let_def tells_masters_refl slave_connections_def\<close>)
    qed (use run TabletEvent in \<open>intro slave_moves_same, simp add: Let_def\<close>)
  next
    case (SlaveConnection cev)
    with run obtain c where c: "connection_step cev (node_connections ?nd) = Inr c"
      and sl': "sl' = slave_with_node (?nd\<lparr>node_connections := c, node_derived := ?d\<lparr>sd_slaves := c\<rparr>\<rparr>) sl"
      by (auto simp: Let_def rbind_eq_Inr)
    show ?thesis
      by (rule slave_movesI)
        (use connection_step_change [OF c] in \<open>simp_all add: sl' slave_with_node_def slave_connections_def tells_masters_refl\<close>)
  next
    case (ClientConnection cev)
    with run show ?thesis by (intro slave_moves_same) (auto simp: rbind_eq_Inr)
  next
    case (MasterConnection cev)
    with run obtain c where c: "connection_step cev (sd_masters ?d) = Inr c"
      and sl': "sl' = slave_with_node (?nd\<lparr>node_derived := ?d\<lparr>sd_masters := c\<rparr>\<rparr>) sl"
      by (auto simp: Let_def rbind_eq_Inr)
    show ?thesis
      by (rule slave_movesI)
        (use connection_step_change [OF c] in \<open>simp_all add: sl' slave_with_node_def slave_connections_def tells_masters_def\<close>)
  next
    case SlaveOverlap
    with run show ?thesis by (intro slave_moves_same) simp_all
  qed
qed

section \<open>Queue and tasks\<close>

lemma slave_handle_scheduler:
  "slave_handle to_wire parse rand cs m sl = Some (Inr sl') \<Longrightarrow> sl_scheduler sl' = sl_scheduler sl"
  by (auto simp: slave_handle_def to_tablets_def slave_with_node_def Let_def rbind_eq_Inr
      split: message_wrapper.splits client_message.splits slave_message.splits master_message.splits prod.splits)

lemma slave_step_queue:
  assumes run: "slave_step to_wire parse rand cs ev sl = Some (Inr sl')" and ok: "scheduler_ok (sl_scheduler sl)"
  shows "changes {m. ev = SlaveQueueMessage m} (message_queue (sl_scheduler sl)) (message_queue (sl_scheduler sl'))"
proof -
  have same: ?thesis if "sl_scheduler sl' = sl_scheduler sl" using that by simp
  show ?thesis
  proof (cases ev)
    case (SlaveQueueMessage m)
    with run show ?thesis by (auto simp: scheduler_queues changes_append)
  next
    case SlaveHandleMessage
    show ?thesis
    proof (cases "posted (sl_scheduler sl)")
      case (Cons m ms)
      with run SlaveHandleMessage obtain sl1 where
        h: "slave_handle to_wire parse rand cs m sl = Some (Inr sl1)"
          "sl' = sl1\<lparr>sl_scheduler := message_handled (sl_scheduler sl1)\<rparr>"
        by (auto simp: rbind_eq_Inr)
      have "subseq (tl ms) ms" for ms :: "'a incoming_message list" by (cases ms) auto
      then show ?thesis by (simp add: h(2) slave_handle_scheduler [OF h(1)] scheduler_queues changes_subseq)
    qed (use run SlaveHandleMessage same in simp)
  qed (use run in \<open>auto intro!: same simp: rbind_eq_Inr Let_def slave_with_node_def give_back_def
      heartbeat_callback_def simp del: broadcast.simps split: if_splits option.splits prod.splits\<close>)
qed

text \<open>
  The tasks of a slave, and what a message must be for the task it becomes: \<open>E\<close> is a property of
  entries.
\<close>

definition slave_tasks ::
  "(message_wrapper \<Rightarrow> 'w) \<Rightarrow> ('r \<Rightarrow> 32 word \<times> 'r) \<Rightarrow> (paxos_log_entry \<Rightarrow> bool) \<Rightarrow> ('w, 'r) slave_state async_queue \<Rightarrow> bool" where
  "slave_tasks to_wire rand E q \<longleftrightarrow>
     (\<exists>ts. queue_callbacks q = key_space_tasks to_wire rand ts \<and> (\<forall>(endpoint, rs, g)\<in>set ts. E (KeySpaceChanged rs g)))"

definition slave_welcome :: "('w \<Rightarrow> message_wrapper) \<Rightarrow> (paxos_log_entry \<Rightarrow> bool) \<Rightarrow> 'w \<Rightarrow> bool" where
  "slave_welcome parse E w \<longleftrightarrow>
     (case parse w of MasterMessage (NewKeySpaceSelected rs g) \<Rightarrow> E (KeySpaceChanged rs g) | _ \<Rightarrow> True)"

lemma slave_handle_tasks:
  assumes "slave_handle to_wire parse rand cs m sl = Some (Inr sl')" "slave_tasks to_wire rand E (sl_async_queue sl)"
    and "slave_welcome parse E (incoming_payload m)"
  shows "slave_tasks to_wire rand E (sl_async_queue sl')"
proof -
  consider "sl_async_queue sl' = sl_async_queue sl"
    | rs g where "parse (incoming_payload m) = MasterMessage (NewKeySpaceSelected rs g)"
      "sl_async_queue sl' = handle_key_space_change to_wire rand (incoming_endpoint m) rs g (sl_async_queue sl)"
    using assms(1)
    by (auto simp: slave_handle_def to_tablets_def slave_with_node_def Let_def rbind_eq_Inr
        split: message_wrapper.splits client_message.splits slave_message.splits master_message.splits prod.splits)
  then show ?thesis
  proof cases
    case (2 rs g)
    with assms(3) have new: "E (KeySpaceChanged rs g)" by (simp add: slave_welcome_def)
    from assms(2) obtain ts where ts: "queue_callbacks (sl_async_queue sl) = key_space_tasks to_wire rand ts"
      "\<forall>(endpoint, rs, g)\<in>set ts. E (KeySpaceChanged rs g)" by (auto simp: slave_tasks_def)
    have "queue_callbacks (sl_async_queue sl') = key_space_tasks to_wire rand (ts @ [(incoming_endpoint m, rs, g)])"
      by (simp add: 2(2) ts(1) handle_key_space_change_def add_task_def schedule_run_def Let_def key_space_tasks_def)
    with ts(2) new show ?thesis unfolding slave_tasks_def by (intro exI [of _ "ts @ [(incoming_endpoint m, rs, g)]"]) simp
  qed (use assms(2) in simp)
qed

lemma slave_step_tasks:
  assumes run: "slave_step to_wire parse rand cs ev sl = Some (Inr sl')" and tasks: "slave_tasks to_wire rand E (sl_async_queue sl)"
    and ok: "scheduler_ok (sl_scheduler sl)"
    and queue: "\<forall>m\<in>set (message_queue (sl_scheduler sl)). slave_welcome parse E (incoming_payload m)"
  shows "slave_tasks to_wire rand E (sl_async_queue sl')"
proof -
  have same: ?thesis if "sl_async_queue sl' = sl_async_queue sl" using that tasks by simp
  show ?thesis
  proof (cases ev)
    case SlaveHandleMessage
    show ?thesis
    proof (cases "posted (sl_scheduler sl)")
      case (Cons m ms)
      with run SlaveHandleMessage obtain sl1 where
        h: "slave_handle to_wire parse rand cs m sl = Some (Inr sl1)"
          "sl' = sl1\<lparr>sl_scheduler := message_handled (sl_scheduler sl1)\<rparr>"
        by (auto simp: rbind_eq_Inr)
      have "m \<in> set (message_queue (sl_scheduler sl))" using scheduler_posted [OF ok Cons] by (metis list.set_intros(1))
      with slave_handle_tasks [OF h(1) tasks] queue show ?thesis by (simp add: h(2))
    qed (use run SlaveHandleMessage same in simp)
  next
    case SlaveRunTask
    show ?thesis
    proof (cases "scheduled_runs (sl_async_queue sl) = []")
      case False
      with run SlaveRunTask obtain q s where r: "fire_run (sl_async_queue sl, sl_state sl) = Inr (q, s)"
        and sl': "sl' = sl\<lparr>sl_async_queue := q, sl_state := s\<rparr>" by (auto simp: rbind_eq_Inr)
      from tasks obtain ts where ts: "queue_callbacks (sl_async_queue sl) = key_space_tasks to_wire rand ts"
        "\<forall>(endpoint, rs, g)\<in>set ts. E (KeySpaceChanged rs g)" by (auto simp: slave_tasks_def)
      from fire_run_tasks [OF r ts(1) [unfolded key_space_tasks_def]] obtain t ts' w where
        "ts = t # ts'" "queue_callbacks q = key_space_tasks to_wire rand (if w = TERMINATE then ts' else ts)"
        unfolding key_space_tasks_def by metis
      with ts(2) show ?thesis unfolding slave_tasks_def
        by (intro exI [of _ "if w = TERMINATE then ts' else ts"]) (simp add: sl')
    qed (use run SlaveRunTask same in simp)
  qed (use run tasks in \<open>auto intro!: same simp: rbind_eq_Inr Let_def slave_with_node_def give_back_def
      heartbeat_callback_def simp del: broadcast.simps split: if_splits option.splits prod.splits\<close>)
qed

lemma slave_wires_welcome:
  assumes "\<And>m. parse (to_wire m) = m" "w \<in> slave_wires to_wire"
  shows "slave_welcome parse E w"
  using assms
  by (auto simp: slave_wires_def slave_welcome_def slave_paxos_wrapper_def slave_sync_wrapper_def tablet_wires_def)

end
