(* ===== verification/SlaveGroup.thy ===== *)
theory SlaveGroup
  imports SlaveSteps
begin

text \<open>
  The slaves of a group: whole slaves (Slave.thy) connected to each other, each taking the steps of
  its own model, with messages moving from the channels to the schedulers. Their own log, the one
  with the key spaces, refines the group of PaxosGroup.thy, with the proposals of the task of
  \<open>NewKeySpaceSelected\<close> as the justified ones. Hence the slaves agree on the key spaces: on which
  ranges the group serves, on their numbers, and on which tablets exist.
\<close>

section \<open>The slaves' messages on the wire\<close>

definition slave_paxos_in :: "('w \<Rightarrow> message_wrapper) \<Rightarrow> 'w \<Rightarrow> paxos_message list" where
  "slave_paxos_in parse w = (case parse w of SlaveMessage (SlavePaxos m) \<Rightarrow> [m] | _ \<Rightarrow> [])"

definition slave_sync_in :: "('w \<Rightarrow> message_wrapper) \<Rightarrow> 'w \<Rightarrow> (32 word \<times> paxos_log_entry) set" where
  "slave_sync_in parse w =
     (case parse w of SlaveMessage (SlaveSync (SyncResponse r)) \<Rightarrow> set (missing_entries r) | _ \<Rightarrow> {})"

text \<open>Clients and masters do not send the messages slaves and their tablets send each other.\<close>

definition from_a_slave :: "('w \<Rightarrow> message_wrapper) \<Rightarrow> 'w \<Rightarrow> bool" where
  "from_a_slave parse w \<longleftrightarrow>
     (case parse w of SlaveMessage (SlavePaxos m) \<Rightarrow> True | SlaveMessage (SlaveSync y) \<Rightarrow> True
      | TabletMessage tm \<Rightarrow> True | _ \<Rightarrow> False)"

section \<open>Runs of the group\<close>

text \<open>
  A slave acts as in \<open>slave_step\<close>; what arrives from outside is from no slave, and a tablet gets its
  messages from its slave; and the logs of the slave and its tablets have room, so that indices fit
  the wire. A slave that throws is gone.
\<close>

definition has_room :: "('w, 'r) slave \<Rightarrow> bool" where
  "has_room sl \<longleftrightarrow> fits_index (first_free (node_log (rs_node (sl_state sl)))) \<and>
     list_all (\<lambda>(tid, tp). fits_index (first_free (node_log (rs_node (tp_state tp)))))
       (sd_tablets (node_derived (rs_node (sl_state sl))))"

definition from_outside :: "('w \<Rightarrow> message_wrapper) \<Rightarrow> 'w slave_event \<Rightarrow> bool" where
  "from_outside parse ev \<longleftrightarrow>
     (case ev of
        SlaveQueueMessage m \<Rightarrow> \<not> from_a_slave parse (incoming_payload m)
      | TabletEvent tid (QueueMessage m) \<Rightarrow> False
      | _ \<Rightarrow> True)"

definition slave_act ::
  "(message_wrapper \<Rightarrow> 'w) \<Rightarrow> ('w \<Rightarrow> message_wrapper) \<Rightarrow> ('r \<Rightarrow> 32 word \<times> 'r) \<Rightarrow> constants
   \<Rightarrow> 'w slave_event \<Rightarrow> ('w, 'r) slave \<Rightarrow> ('w, 'r) slave option" where
  "slave_act to_wire parse rand cs ev sl =
     (if has_room sl \<and> from_outside parse ev
      then case slave_step to_wire parse rand cs ev sl of Some (Inr sl') \<Rightarrow> Some sl' | _ \<Rightarrow> None
      else None)"

definition slave_sent :: "endpoint_id \<Rightarrow> ('w, 'r) slave \<Rightarrow> ('w, 'r) slave" where
  "slave_sent q sl = (let nd = rs_node (sl_state sl)
     in slave_with_node (nd\<lparr>node_connections := deliver_from q (node_connections nd)\<rparr>) sl)"

definition slave_received :: "'w incoming_message \<Rightarrow> ('w, 'r) slave \<Rightarrow> ('w, 'r) slave" where
  "slave_received m sl = sl\<lparr>sl_scheduler := queue_message m (sl_scheduler sl)\<rparr>"

definition slaves_run ::
  "(message_wrapper \<Rightarrow> 'w) \<Rightarrow> ('w \<Rightarrow> message_wrapper) \<Rightarrow> ('r \<Rightarrow> 32 word \<times> 'r) \<Rightarrow> constants \<Rightarrow> endpoint_id list
   \<Rightarrow> 'w slave_event cluster_event list \<Rightarrow> (endpoint_id \<Rightarrow> ('w, 'r) slave)
   \<Rightarrow> (endpoint_id \<Rightarrow> ('w, 'r) slave) option" where
  "slaves_run to_wire parse rand cs ns evs sls =
     cluster_run (slave_act to_wire parse rand cs) slave_connections slave_sent slave_received ns evs sls"

text \<open>
  The same when what masters say has a property: \<open>E\<close> holds of the entry a message asks for.
\<close>

definition slave_acts ::
  "(paxos_log_entry \<Rightarrow> bool) \<Rightarrow> (message_wrapper \<Rightarrow> 'w) \<Rightarrow> ('w \<Rightarrow> message_wrapper) \<Rightarrow> ('r \<Rightarrow> 32 word \<times> 'r)
   \<Rightarrow> constants \<Rightarrow> 'w slave_event \<Rightarrow> ('w, 'r) slave \<Rightarrow> ('w, 'r) slave option" where
  "slave_acts E to_wire parse rand cs ev sl =
     (if (case ev of SlaveQueueMessage m \<Rightarrow> slave_welcome parse E (incoming_payload m) | _ \<Rightarrow> True)
      then slave_act to_wire parse rand cs ev sl else None)"

definition told_slaves_run ::
  "(paxos_log_entry \<Rightarrow> bool) \<Rightarrow> (message_wrapper \<Rightarrow> 'w) \<Rightarrow> ('w \<Rightarrow> message_wrapper) \<Rightarrow> ('r \<Rightarrow> 32 word \<times> 'r)
   \<Rightarrow> constants \<Rightarrow> endpoint_id list \<Rightarrow> 'w slave_event cluster_event list \<Rightarrow> (endpoint_id \<Rightarrow> ('w, 'r) slave)
   \<Rightarrow> (endpoint_id \<Rightarrow> ('w, 'r) slave) option" where
  "told_slaves_run E to_wire parse rand cs ns evs sls =
     cluster_run (slave_acts E to_wire parse rand cs) slave_connections slave_sent slave_received ns evs sls"

lemma slave_acts_any: "slave_acts (\<lambda>_. True) = slave_act"
  by (intro ext)
    (simp add: slave_acts_def slave_welcome_def split: slave_event.split message_wrapper.split master_message.split)

lemma told_slaves_any: "told_slaves_run (\<lambda>_. True) = slaves_run"
  by (intro ext) (simp add: told_slaves_run_def slaves_run_def slave_acts_any)

lemma slaves_run_Nil: "slaves_run to_wire parse rand cs ns [] sls = Some sls"
  by (simp add: slaves_run_def)

lemma slaves_run_append:
  "slaves_run to_wire parse rand cs ns evs sls = Some sls1 \<Longrightarrow> slaves_run to_wire parse rand cs ns evs' sls1 = Some sls2 \<Longrightarrow>
     slaves_run to_wire parse rand cs ns (evs @ evs') sls = Some sls2"
  unfolding slaves_run_def by (rule cluster_run_append)

text \<open>All start from the same file of addresses; everything else may differ from slave to slave.\<close>

definition start_slaves ::
  "(message_wrapper \<Rightarrow> 'w) \<Rightarrow> (endpoint_id \<Rightarrow> tablet_id \<Rightarrow> 'r) \<Rightarrow> (endpoint_id \<Rightarrow> 32 word) \<Rightarrow> (endpoint_id \<Rightarrow> 'r)
   \<Rightarrow> (endpoint_id \<Rightarrow> 'w connections) \<Rightarrow> (endpoint_id \<Rightarrow> 'w connections) \<Rightarrow> (endpoint_id \<Rightarrow> 'w connections)
   \<Rightarrow> endpoint_id list \<Rightarrow> (endpoint_id \<Rightarrow> string) \<Rightarrow> endpoint_id \<Rightarrow> ('w, 'r) slave" where
  "start_slaves to_wire tablet_seeds cores seeds clients masters slaves es ips p =
     ProductionContext to_wire (tablet_seeds p) (cores p) (seeds p) (clients p) (masters p) (slaves p) es (ips p)"

section \<open>What justifies an entry\<close>

text \<open>It is the next key space after those in the log below it, and what masters say.\<close>

definition slave_justified :: "(paxos_log_entry \<Rightarrow> bool) \<Rightarrow> justification" where
  "slave_justified E L i e \<longleftrightarrow> E e \<and> (\<exists>rs. e = KeySpaceChanged rs (of_nat (length (logged_key_spaces L i)) + 1))"

lemma key_spaces_cong: "(\<And>k. k < i \<Longrightarrow> L k = L' k) \<Longrightarrow> logged_key_spaces L i = logged_key_spaces L' i"
  unfolding logged_key_spaces_def by (intro arg_cong [where f = concat] map_cong refl) simp

interpretation slave_proposals: local_justification "slave_justified E" for E
proof
  fix i e E and L L' :: "index_t \<rightharpoonup> paxos_log_entry"
  assume same: "\<And>k. k < i \<Longrightarrow> L k = L' k" and "slave_justified E L i e"
  moreover have "logged_key_spaces L i = logged_key_spaces L' i" by (rule key_spaces_cong) (rule same)
  ultimately show "slave_justified E L' i e" by (simp add: slave_justified_def)
qed

lemma slave_justified_kind: "slave_justified E L i e \<Longrightarrow> not_reconfig e"
  by (auto simp: slave_justified_def not_reconfig_def)

section \<open>The steps of a slave in the group\<close>

definition slave_member ::
  "(message_wrapper \<Rightarrow> 'w) \<Rightarrow> ('w \<Rightarrow> message_wrapper) \<Rightarrow> ('r \<Rightarrow> 32 word \<times> 'r) \<Rightarrow> (paxos_log_entry \<Rightarrow> bool)
   \<Rightarrow> endpoint_id list \<Rightarrow> ('w, 'r) slave \<Rightarrow> bool" where
  "slave_member to_wire parse rand E es sl \<longleftrightarrow>
     slave_rules to_wire rand es sl \<and> node_ok (rs_node (sl_state sl)) \<and> scheduler_ok (sl_scheduler sl) \<and>
     slave_tasks to_wire rand E (sl_async_queue sl) \<and>
     admits (slave_welcome parse E) (message_queue (sl_scheduler sl)) (slave_connections sl)"

definition slave_view :: "('w \<Rightarrow> message_wrapper) \<Rightarrow> ('w, 'r) slave \<Rightarrow> host_view" where
  "slave_view parse sl =
     node_view (slave_paxos_in parse) (slave_sync_in parse) (message_queue (sl_scheduler sl)) (rs_node (sl_state sl))"

sublocale wire_format \<subseteq> slave_wire: group_wire "slave_paxos_in parse" "slave_sync_in parse"
  "\<lambda>p. to_wire (slave_paxos_wrapper p)" "\<lambda>y. to_wire (slave_sync_wrapper y)"
  by unfold_locales
    (simp_all add: slave_paxos_in_def slave_sync_in_def slave_paxos_wrapper_def slave_sync_wrapper_def)

lemma start_slaves_rules:
  "slave_rules to_wire rand es (start_slaves to_wire tablet_seeds cores seeds clients masters slaves es ips p)"
  unfolding slave_rules_def start_slaves_def by (intro exI) (rule ProductionContext_inv)

context wire_format
begin

lemma slave_wire_plain:
  "w \<in> tablet_wires to_wire tid \<Longrightarrow> slave_wire.plain w"
  "slave_wire.plain (to_wire (SlaveMessage Heartbeat))"
  by (auto simp: slave_wire.plain_def tablet_wires_def slave_paxos_in_def slave_sync_in_def)

lemma slave_instances:
  assumes "slave_rules to_wire rand es sl" "entries_sound (rs_node (sl_state sl))" "distinct es"
  shows "makes_instances (config_provider sd_timeline) (node_derived (rs_node (sl_state sl)))"
proof -
  note facts = slave_facts [OF assms(1) refl refl]
  have "sd_timeline (node_derived (rs_node (sl_state sl))) = [(0, es)]"
    by (rule facts(5)) (rule entries_sound_below [OF assms(2) facts(4)])
  with assms(3) show ?thesis by (intro makes_instances_config) (simp add: timeline_distinct_def)
qed

lemma slave_handle_view:
  assumes run: "slave_handle to_wire parse rand cs m sl = Some (Inr sl')"
    and mem: "slave_rules to_wire rand es sl" and ok: "node_ok (rs_node (sl_state sl))"
    and entries: "entries_sound (rs_node (sl_state sl))" and es: "distinct es"
  shows "host_step cs (slave_justified E)
      (slave_wire.member_view (m # queue) (rs_node (sl_state sl))) (slave_wire.member_view queue (rs_node (sl_state sl'))) \<and>
    node_ok (rs_node (sl_state sl')) \<and> sl_scheduler sl' = sl_scheduler sl"
proof -
  note insts = slave_instances [OF mem entries es]
  have drop: "changes M (m # queue) queue" for M by (rule changes_subseq) (simp add: list_emb_Cons)
  have derived: ?thesis if "rs_node (sl_state sl') = (rs_node (sl_state sl))\<lparr>node_derived := d\<rparr>" "sl_scheduler sl' = sl_scheduler sl" for d
    using that ok drop by (auto simp: node_ok_def intro: slave_wire.queue_view_step)
  have same: ?thesis if "rs_node (sl_state sl') = rs_node (sl_state sl)" "sl_scheduler sl' = sl_scheduler sl"
    using that by (intro derived [of "node_derived (rs_node (sl_state sl))"]) simp_all
  have tablets: ?thesis if "sl' = to_tablets to_wire parse m sl"
    using that by (intro derived [of "node_derived (rs_node (sl_state sl'))"])
      (simp_all add: to_tablets_def Let_def split: prod.splits)
  show ?thesis
  proof (cases "parse (incoming_payload m)")
    case (ClientMessage cm)
    with run have "sl' = to_tablets to_wire parse m sl \<or> sl' = sl" by (cases cm) (auto simp: slave_handle_def Let_def)
    with tablets same show ?thesis by blast
  next
    case (TabletMessage tm)
    with run show ?thesis by (intro tablets) (simp add: slave_handle_def Let_def)
  next
    case (MasterMessage mm)
    with run show ?thesis by (intro same; cases mm) (auto simp: slave_handle_def Let_def)
  next
    case (SlaveMessage sm)
    show ?thesis
    proof (cases sm)
      case (SlavePaxos pm)
      with run SlaveMessage obtain nd where nd: "sl' = slave_with_node nd sl"
        "handle_incoming_message (\<lambda>p. to_wire (slave_paxos_wrapper p)) cs (config_provider sd_timeline)
          (incoming_endpoint m) pm (rs_node (sl_state sl)) = Inr nd"
        by (auto simp: slave_handle_def Let_def rbind_eq_Inr)
      from SlaveMessage SlavePaxos have "slave_paxos_in parse (incoming_payload m) = [pm]"
        "slave_sync_in parse (incoming_payload m) = {}" by (simp_all add: slave_paxos_in_def slave_sync_in_def)
      from slave_wire.receive_view [OF nd(2) ok insts refl this] show ?thesis by (simp add: nd(1) slave_with_node_def)
    next
      case (SlaveSync y)
      with run SlaveMessage obtain nd where nd: "sl' = slave_with_node nd sl"
        "handle_sync_message (\<lambda>p. to_wire (slave_sync_wrapper p)) (incoming_endpoint m) y (rs_node (sl_state sl)) = Some (Inr nd)"
        by (auto simp: slave_handle_def Let_def rbind_eq_Inr)
      from SlaveMessage SlaveSync have "set (missing_entries r) \<subseteq> slave_sync_in parse (incoming_payload m)"
        if "y = SyncResponse r" for r using that by (simp add: slave_sync_in_def)
      from slave_wire.sync_message_view [OF nd(2) ok entries_sound_fits [OF entries] this] show ?thesis
        by (simp add: nd(1) slave_with_node_def)
    qed (use run SlaveMessage in \<open>intro same; auto simp: slave_handle_def Let_def\<close>)+
  qed (use run in \<open>intro same; auto simp: slave_handle_def Let_def\<close>)+
qed

lemma slave_task_view:
  assumes run: "fire_run (sl_async_queue sl, sl_state sl) = Inr (q, s)"
    and mem: "slave_rules to_wire rand es sl" and ok: "node_ok (rs_node (sl_state sl))"
    and tasks: "slave_tasks to_wire rand E (sl_async_queue sl)"
    and entries: "entries_sound (rs_node (sl_state sl))" and es: "distinct es"
    and fit: "fits_index (first_free (node_log (rs_node (sl_state sl))))"
  shows "host_step cs (slave_justified E)
      (slave_wire.member_view queue (rs_node (sl_state sl))) (slave_wire.member_view queue (rs_node s)) \<and> node_ok (rs_node s)"
proof (rule slave_wire.task_view [OF ok slave_instances [OF mem entries es] fit])
  let ?nd = "rs_node (sl_state sl)"
  from tasks obtain ts where ts: "queue_callbacks (sl_async_queue sl) = key_space_tasks to_wire rand ts"
    "\<forall>(endpoint, rs, g)\<in>set ts. E (KeySpaceChanged rs g)" by (auto simp: slave_tasks_def)
  from fire_run_tasks [OF run ts(1) [unfolded key_space_tasks_def]] obtain t ts' w where
    t: "ts = t # ts'" "(case t of (endpoint, rs, g) \<Rightarrow> key_space_task to_wire rand endpoint rs g) (sl_state sl) = Inr (w, s)"
    by metis
  obtain endpoint rs g where "t = (endpoint, rs, g)" by (cases t)
  with t ts(2) have task: "key_space_task to_wire rand endpoint rs g (sl_state sl) = Inr (w, s)"
    and E: "E (KeySpaceChanged rs g)" by simp_all
  have "slave_justified E (log (node_log ?nd)) (first_free (node_log ?nd)) (KeySpaceChanged rs g)"
    if "g = sd_generation (node_derived ?nd) + 1"
    using slave_facts(1) [OF mem refl refl] E that by (simp add: slave_justified_def holds_key_spaces_def)
  with key_space_task_node [OF task] show "(\<exists>d. rs_node s = ?nd\<lparr>node_derived := d\<rparr>) \<or>
    (\<exists>draw e. slave_justified E (log (node_log ?nd)) (first_free (node_log ?nd)) e \<and>
      multi_propose (\<lambda>p. to_wire (slave_paxos_wrapper p)) (config_provider sd_timeline) draw e ?nd = Inr (rs_node s))"
    by blast
qed

lemma slave_act_member:
  assumes acts: "slave_acts E to_wire parse rand cs ev sl = Some sl'" and mem: "slave_member to_wire parse rand E es sl"
    and entries: "entries_sound (rs_node (sl_state sl))" and es: "distinct es"
  shows "host_step cs (slave_justified E) (slave_view parse sl) (slave_view parse sl') \<and> slave_member to_wire parse rand E es sl'"
proof -
  let ?J = "slave_justified E" and ?nd = "rs_node (sl_state sl)" and ?q = "message_queue (sl_scheduler sl)"
  from acts have act: "slave_act to_wire parse rand cs ev sl = Some sl'"
    and expected: "\<And>m. ev = SlaveQueueMessage m \<Longrightarrow> slave_welcome parse E (incoming_payload m)"
    by (auto simp: slave_acts_def split: if_splits)
  from act have run: "slave_step to_wire parse rand cs ev sl = Some (Inr sl')"
    and fit: "fits_index (first_free (node_log ?nd))" and outside: "from_outside parse ev"
    by (auto simp: slave_act_def has_room_def split: if_splits option.splits sum.splits)
  from mem have rules: "slave_rules to_wire rand es sl" and ok: "node_ok ?nd" and sched: "scheduler_ok (sl_scheduler sl)"
    and tasks: "slave_tasks to_wire rand E (sl_async_queue sl)"
    and admit: "admits (slave_welcome parse E) ?q (slave_connections sl)"
    by (simp_all add: slave_member_def)
  have channels: "host_step cs ?J (slave_view parse sl) (slave_view parse sl1) \<and> node_ok (rs_node (sl_state sl1)) \<and>
      scheduler_ok (sl_scheduler sl1)"
    if "rs_node (sl_state sl1) = ?nd\<lparr>node_connections := c, node_derived := d\<rparr>" "sl_scheduler sl1 = sl_scheduler sl"
      "channels_change W (slave_connections sl) c" "\<And>w. w \<in> W \<Longrightarrow> slave_wire.plain w" for sl1 c d W
  proof -
    have "host_step cs ?J (slave_wire.member_view ?q ?nd) (slave_wire.member_view ?q (?nd\<lparr>node_connections := c\<rparr>))"
      by (rule slave_wire.channels_view [where W = W]) (use that in \<open>simp_all add: slave_connections_def\<close>)
    with that ok sched show ?thesis by (simp add: slave_view_def node_ok_def node_view_def)
  qed
  have "host_step cs ?J (slave_view parse sl) (slave_view parse sl') \<and> node_ok (rs_node (sl_state sl')) \<and>
    scheduler_ok (sl_scheduler sl')"
  proof (cases ev)
    case (SlaveQueueMessage m)
    with run have sl': "sl' = sl\<lparr>sl_scheduler := queue_message m (sl_scheduler sl)\<rparr>" by simp
    have "slave_wire.plain (incoming_payload m)"
      using outside SlaveQueueMessage
      by (auto simp: from_outside_def from_a_slave_def slave_wire.plain_def slave_paxos_in_def slave_sync_in_def
          split: message_wrapper.splits slave_message.splits)
    then have "changes {m. slave_wire.plain (incoming_payload m)} ?q (?q @ [m])" by (intro changes_append) simp
    with ok sched show ?thesis
      by (simp add: sl' slave_view_def scheduler_queues scheduler_ok_queue slave_wire.queue_view_step)
  next
    case SlaveHandleMessage
    show ?thesis
    proof (cases "posted (sl_scheduler sl)")
      case Nil
      with run SlaveHandleMessage ok sched show ?thesis by (simp add: slave_view_def slave_wire.queue_view_step)
    next
      case (Cons m ms)
      with run SlaveHandleMessage obtain sl1 where
        h: "slave_handle to_wire parse rand cs m sl = Some (Inr sl1)"
          "sl' = sl1\<lparr>sl_scheduler := message_handled (sl_scheduler sl1)\<rparr>"
        by (auto simp: rbind_eq_Inr)
      from slave_handle_view [OF h(1) rules ok entries es, where queue = "tl ?q" and E = E] scheduler_posted [OF sched Cons]
        scheduler_ok_handled [OF sched Cons]
      show ?thesis by (simp add: h(2) slave_view_def scheduler_queues)
    qed
  next
    case SlaveRunTask
    show ?thesis
    proof (cases "scheduled_runs (sl_async_queue sl) = []")
      case False
      with run SlaveRunTask obtain q s where r: "fire_run (sl_async_queue sl, sl_state sl) = Inr (q, s)"
        and sl': "sl' = sl\<lparr>sl_async_queue := q, sl_state := s\<rparr>" by (auto simp: rbind_eq_Inr)
      from slave_task_view [OF r rules ok tasks entries es fit, where cs = cs and queue = ?q] sched show ?thesis by (simp add: sl' slave_view_def)
    qed (use run SlaveRunTask ok sched in \<open>simp add: slave_view_def slave_wire.queue_view_step\<close>)
  next
    case SlaveSyncTimer
    with run obtain nd where nd: "sl' = slave_with_node nd sl"
      "sync_timer (\<lambda>p. to_wire (slave_sync_wrapper p)) sd_timeline ?nd = Inr nd"
      by (auto simp: rbind_eq_Inr)
    from slave_wire.sync_timer_view [OF nd(2) ok] sched show ?thesis
      by (simp add: nd(1) slave_view_def slave_with_node_def)
  next
    case SlaveHeartbeatTimer
    with run obtain endpoints where
      sl': "sl' = (slave_with_node (?nd\<lparr>node_connections := broadcast endpoints (to_wire (SlaveMessage Heartbeat)) (node_connections ?nd)\<rparr>) sl)
        \<lparr>sl_heartbeats := increment_counts (sl_heartbeats sl)\<rparr>"
      by (auto simp: rbind_eq_Inr heartbeat_callback_def Let_def simp del: broadcast.simps)
    show ?thesis
      by (rule channels [of _ "node_derived ?nd", OF _ _ channels_change_broadcast [OF singletonI]])
        (use slave_wire_plain(2) in \<open>auto simp: sl' slave_with_node_def slave_connections_def simp del: broadcast.simps\<close>)
  next
    case (TabletEvent tid tev)
    show ?thesis
    proof (cases "map_of (sd_tablets (node_derived ?nd)) tid")
      case (Some tp)
      with run TabletEvent obtain tp' where
        t: "tablet_step to_wire parse rand cs tev (lend (slave_connections sl) (rs_clients (sl_state sl)) tp) = Some (Inr tp')"
        and sl': "sl' = give_back tid tp' sl" by (auto simp: Let_def rbind_eq_Inr slave_connections_def)
      show ?thesis
        by (rule channels [of _ "(node_derived ?nd)\<lparr>sd_tablets := put_tablet tid tp' (sd_tablets (node_derived ?nd))\<rparr>",
              OF _ _ tablet_event_channels [OF t Some rules] slave_wire_plain(1)])
          (simp_all add: sl' give_back_def Let_def)
    qed (use run TabletEvent ok sched in \<open>simp add: Let_def slave_view_def slave_wire.queue_view_step\<close>)
  next
    case (SlaveConnection cev)
    with run obtain c where c: "connection_step cev (node_connections ?nd) = Inr c"
      and sl': "sl' = slave_with_node (?nd\<lparr>node_connections := c, node_derived := (node_derived ?nd)\<lparr>sd_slaves := c\<rparr>\<rparr>) sl"
      by (auto simp: Let_def rbind_eq_Inr)
    show ?thesis
      by (rule channels [of _ "(node_derived ?nd)\<lparr>sd_slaves := c\<rparr>" c "{}"])
        (use connection_step_change [OF c] in \<open>simp_all add: sl' slave_with_node_def slave_connections_def\<close>)
  next
    case (ClientConnection cev)
    with run ok sched show ?thesis
      by (auto simp: rbind_eq_Inr slave_view_def intro: slave_wire.queue_view_step [OF changes_refl])
  next
    case (MasterConnection cev)
    with run ok sched show ?thesis
      by (auto simp: rbind_eq_Inr slave_view_def slave_with_node_def Let_def node_ok_def intro: slave_wire.queue_view_step [OF changes_refl])
  next
    case SlaveOverlap
    with run ok sched show ?thesis by (simp add: slave_view_def slave_wire.queue_view_step)
  qed
  moreover have "slave_tasks to_wire rand E (sl_async_queue sl')"
    by (rule slave_step_tasks [OF run tasks sched]) (use admit in \<open>simp add: admits_def\<close>)
  moreover have "admits (slave_welcome parse E) (message_queue (sl_scheduler sl')) (slave_connections sl')"
    by (rule admits_change [OF admit slave_step_queue [OF run sched], where W = "slave_wires to_wire"])
      (use slave_step_moves [OF run rules] expected slave_wires_welcome [of parse to_wire] parse_to_wire in \<open>auto simp: slave_moves_def\<close>)
  ultimately show ?thesis using slave_rules_step [OF run rules] by (simp add: slave_member_def)
qed

lemma slave_sent_rules: "slave_rules to_wire rand es sl \<Longrightarrow> slave_rules to_wire rand es (slave_sent q sl)"
proof -
  let ?nd = "rs_node (sl_state sl)" and ?c = "deliver_from q (node_connections (rs_node (sl_state sl)))"
  assume "slave_rules to_wire rand es sl"
  then obtain random clients slaves threads where
    inv: "slave_inv to_wire random rand clients (initial_slave some_master slaves es threads) sl" by (auto simp: slave_rules_def)
  have "get_all_endpoints ?c = get_all_endpoints (node_connections ?nd)"
    by (simp add: get_all_endpoints_def deliver_from_def)
  moreover from inv have "log_follower.server_inv (slave_callbacks to_wire (production_provider random clients))
      (slave_follows to_wire rand (get_all_endpoints (node_connections ?nd))) (initial_slave some_master slaves es threads)
      (?nd\<lparr>node_connections := ?c\<rparr>)" by (simp add: slave_inv_def)
  ultimately have "slave_inv to_wire random rand clients (initial_slave some_master slaves es threads) (slave_sent q sl)"
    by (simp add: slave_sent_def Let_def slave_with_node_inv [OF inv] del: slave.connections_server)
  then show ?thesis by (auto simp: slave_rules_def)
qed

lemma slave_received_rules: "slave_rules to_wire rand es sl \<Longrightarrow> slave_rules to_wire rand es (slave_received m sl)"
  by (simp add: slave_rules_def slave_received_def slave_inv_def)

lemma slaves_server_group:
  fixes rand :: "'r \<Rightarrow> 32 word \<times> 'r"
  assumes es: "distinct es"
  shows "server_group (slave_justified E) cs not_reconfig (slave_member to_wire parse rand E es) (slave_view parse)
    (slave_acts E to_wire parse rand cs) slave_connections slave_sent slave_received
    (slave_paxos_in parse) (slave_sync_in parse)"
proof (intro server_group.intro server_group_axioms.intro)
  show "local_justification (slave_justified E)" by (rule slave_proposals.local_justification_axioms)
  show "not_reconfig e" if "slave_justified E L i e" for L i e using that by (rule slave_justified_kind)
  fix sl sl' :: "('w, 'r) slave" and ev
  assume mem: "slave_member to_wire parse rand E es sl"
  {
    assume "\<And>k e. view_entries (slave_view parse sl) k = Some e \<Longrightarrow> fits_index k \<and> not_reconfig e"
      and act: "slave_acts E to_wire parse rand cs ev sl = Some sl'"
    then have "entries_sound (rs_node (sl_state sl))" by (auto simp: entries_sound_def slave_view_def node_view_def)
    from slave_act_member [OF act mem this es]
    show "slave_member to_wire parse rand E es sl'" "host_step cs (slave_justified E) (slave_view parse sl) (slave_view parse sl')"
      by simp_all
  }
  show "slave_member to_wire parse rand E es (slave_sent q sl)" for q
    using mem slave_sent_rules admits_deliver
    by (auto simp: slave_member_def) (simp_all add: slave_sent_def Let_def node_ok_def slave_with_node_def slave_connections_def)
  show "slave_member to_wire parse rand E es (slave_received m sl)"
    if "slave_member to_wire parse rand E es sl0" "in_flight (slave_connections sl0) q = incoming_payload m # ws" for m sl0 q ws
  proof -
    have "admits (slave_welcome parse E) (message_queue (sl_scheduler sl) @ [m]) (slave_connections sl)"
      by (rule admits_queue) (use mem that in \<open>auto simp: slave_member_def\<close>)
    with mem slave_received_rules show ?thesis
      by (auto simp: slave_member_def)
        (simp_all add: slave_received_def scheduler_ok_queue scheduler_queues slave_connections_def)
  qed
next
  fix sl :: "('w, 'r) slave" and q b w ws
  assume w: "in_flight (slave_connections sl) q = w # ws"
  from slave_wire.deliver_view [OF w [unfolded slave_connections_def]]
  show "view_instances (slave_view parse (slave_sent q sl)) = view_instances (slave_view parse sl) \<and>
      view_entries (slave_view parse (slave_sent q sl)) = view_entries (slave_view parse sl) \<and>
      view_inbox (slave_view parse (slave_sent q sl)) = view_inbox (slave_view parse sl) \<and>
      view_flight (slave_view parse sl) b = (if b = q then slave_paxos_in parse w else []) @
        view_flight (slave_view parse (slave_sent q sl)) b \<and>
      view_offers (slave_view parse (slave_sent q sl)) \<union> slave_sync_in parse w \<subseteq> view_offers (slave_view parse sl)"
    by (simp add: slave_view_def node_view_def slave_sent_def Let_def slave_with_node_def)
next
  show "slave_view parse (slave_received \<lparr>incoming_endpoint = p, incoming_payload = w\<rparr> sl) =
      (slave_view parse sl)\<lparr>view_inbox := (view_inbox (slave_view parse sl))(p :=
          view_inbox (slave_view parse sl) p @ slave_paxos_in parse w),
        view_offers := view_offers (slave_view parse sl) \<union> slave_sync_in parse w\<rparr>" for p w and sl :: "('w, 'r) slave"
    by (simp add: slave_view_def node_view_def slave_received_def scheduler_queues slave_wire.enqueue_view)
qed

lemma start_slaves_member:
  assumes "silent slaves"
  shows "view_start (slave_view parse (start_slaves to_wire tablet_seeds cores seeds clients masters slaves es ips p))"
    "slave_member to_wire parse rand E es (start_slaves to_wire tablet_seeds cores seeds clients masters slaves es ips p)"
proof -
  show "view_start (slave_view parse (start_slaves to_wire tablet_seeds cores seeds clients masters slaves es ips p))"
    using assms
    by (simp add: view_start_def slave_view_def node_view_def start_slaves_def ProductionContext_def LocalTransactionManager_def
        MultiPaxosHandler_def slave_log_eq queue_view_def channel_view_def offered_def AsyncSchedulerImpl_def silent_def)
  show "slave_member to_wire parse rand E es (start_slaves to_wire tablet_seeds cores seeds clients masters slaves es ips p)"
    using assms
    by (simp add: slave_member_def start_slaves_rules silent_def admits_def slave_tasks_def)
      (simp add: slave_connections_def key_space_tasks_def AsyncQueue_def add: start_slaves_def ProductionContext_def LocalTransactionManager_def node_ok_def MultiPaxosHandler_def slave_log_inv
        scheduler_ok_def AsyncSchedulerImpl_def)
qed

lemma slaves_facts:
  fixes rand :: "'r \<Rightarrow> 32 word \<times> 'r"
  assumes N: "distinct ns" "length ns \<le> unat (num_slave_servers cs)" "majority_is_all cs ns"
    and files: "silent slaves" "distinct es"
    and run: "told_slaves_run E to_wire parse rand cs ns evs (start_slaves to_wire tablet_seeds cores seeds clients masters slaves es ips) = Some sls"
      "told_slaves_run E to_wire parse rand cs ns evs' sls = Some sls'"
  shows "log (node_log (rs_node (sl_state (sls p)))) i = Some e \<Longrightarrow> log (node_log (rs_node (sl_state (sls' q)))) i = Some e' \<Longrightarrow> e' = e"
    and "slave_rules to_wire rand es (sls p)"
    and "i < first_free (node_log (rs_node (sl_state (sls p)))) \<Longrightarrow>
      slave_justified E (log (node_log (rs_node (sl_state (sls p))))) i (the (log (node_log (rs_node (sl_state (sls p)))) i))"
    and "log (node_log (rs_node (sl_state (sls p)))) i = Some e \<Longrightarrow> fits_index i"
proof -
  note group = slaves_server_group [OF files(2), where E = E and cs = cs and rand = rand]
  note start = start_slaves_member(1) [OF files(1)] start_slaves_member(2) [OF files(1), where es = es and E = E]
  note runs = run [unfolded told_slaves_run_def]
  have entries: "view_entries (slave_view parse sl) = log (node_log (rs_node (sl_state sl)))" for sl :: "('w, 'r) slave"
    by (simp add: slave_view_def node_view_def)
  show "log (node_log (rs_node (sl_state (sls p)))) i = Some e \<Longrightarrow> log (node_log (rs_node (sl_state (sls' q)))) i = Some e' \<Longrightarrow> e' = e"
    by (rule server_group.cluster_agrees [OF group N start runs, of p i e q e', unfolded entries])
  obtain mem: "slave_member to_wire parse rand E es (sls p)"
    by (rule server_group.cluster_start_run [OF group N(1,2) start runs(1)]) (rule that)
  then show rules: "slave_rules to_wire rand es (sls p)" by (simp add: slave_member_def)
  show "log (node_log (rs_node (sl_state (sls p)))) i = Some e \<Longrightarrow> fits_index i"
    using server_group.cluster_entry_ok [OF group N(1,2) start runs(1), of p i e, unfolded entries] by simp
  let ?pl = "node_log (rs_node (sl_state (sls p)))"
  have li: "log_inv ?pl" by (rule slave_facts(4) [OF rules refl refl])
  assume i: "i < first_free ?pl"
  from below_first_free [OF li i] obtain e where e: "log ?pl i = Some e" by blast
  have "log ?pl k \<noteq> None" if "k < i" for k
    using below_first_free [OF li order.strict_trans [OF that i]] by simp
  from server_group.cluster_justifies [OF group N start runs(1), of p i e, unfolded entries, OF e this] e
  show "slave_justified E (log ?pl) i (the (log ?pl i))" by simp
qed

end

text \<open>Slaves that read the addresses of a file once each, with messages as they are.\<close>

interpretation plain_slaves: server_group "slave_justified E" cs not_reconfig
    "slave_member (\<lambda>w. w) (\<lambda>w. w) rand E (remdups es)"
    "slave_view (\<lambda>w. w)" "slave_acts E (\<lambda>w. w) (\<lambda>w. w) rand cs" slave_connections slave_sent slave_received
    "slave_paxos_in (\<lambda>w. w)" "slave_sync_in (\<lambda>w. w)"
    for E and es :: "endpoint_id list" and cs and rand :: "'r \<Rightarrow> 32 word \<times> 'r"
  by (rule plain_messages.slaves_server_group) simp

section \<open>The key spaces of a justified log\<close>

text \<open>Every entry is a key space, and they are numbered from 1 on.\<close>

lemma justified_numbers:
  assumes "\<And>i. i < n \<Longrightarrow> slave_justified E L i (the (L i))"
  shows "length (logged_key_spaces L n) = unat n"
proof (rule word_induct_below [where j = n])
  fix i assume i: "i < n" "length (logged_key_spaces L i) = unat i"
  from assms [OF i(1)] obtain rs g where "the (L i) = KeySpaceChanged rs g" by (auto simp: slave_justified_def)
  with i show "length (logged_key_spaces L (i + 1)) = unat (i + 1)"
    by (simp add: logged_key_spaces_succ [OF i(1)] unat_succ [OF i(1)])
qed simp

text \<open>A slave with a thread and a master can learn them all.\<close>

lemma justified_applies:
  assumes "\<And>i. i < n \<Longrightarrow> slave_justified E L i (the (L i))" and "k \<le> n"
    and "holds_key_spaces (logged_key_spaces L k) d" "equipped d"
  shows "\<exists>d'. apply_range (slave_callbacks to_wire (production_provider random cc)) L k n d = Inr d' \<and>
    holds_key_spaces (logged_key_spaces L n) d'"
proof -
  let ?cbs = "slave_callbacks to_wire (production_provider random cc)"
  have "\<exists>d'. apply_range ?cbs L k n d = Inr d' \<and> holds_key_spaces (logged_key_spaces L n) d' \<and> equipped d'"
  proof (rule apply_range_steps [OF assms(2)])
    show "holds_key_spaces (logged_key_spaces L k) d \<and> equipped d" using assms(3,4) by simp
    fix i and x :: "('a, 'b) slave_derived"
    assume i: "i < n" and x: "holds_key_spaces (logged_key_spaces L i) x \<and> equipped x"
    from assms(1) [OF i] x have "next_key_space x (the (L i))"
      by (auto simp: slave_justified_def next_key_space_def holds_key_spaces_def)
    with x key_spaces.guard_applies obtain x' where x': "apply_entry ?cbs i (the (L i)) x = Inr x'"
      by (metis is_ok_iff)
    from holds_key_spaces_apply [OF x'] equipped_apply [OF x'] x show "\<exists>x'. apply_entry ?cbs i (the (L i)) x = Inr x' \<and>
        holds_key_spaces (logged_key_spaces L (i + 1)) x' \<and> equipped x'"
      by (auto simp: x' logged_key_spaces_succ [OF i])
  qed
  then show ?thesis by blast
qed

section \<open>Two slaves\<close>

text \<open>
  A master tells one of two slaves that their group gets its first key space. The slave proposes it;
  both slaves handle the messages of the round until both serve it.
\<close>

definition slave_a :: endpoint_id where "slave_a = EndpointId ''a'' 0"
definition slave_b :: endpoint_id where "slave_b = EndpointId ''b'' 0"

lemma slaves_distinct [simp]: "slave_a \<noteq> slave_b" "slave_b \<noteq> slave_a"
  by (simp_all add: slave_a_def slave_b_def)

definition slave_channels :: "endpoint_id \<Rightarrow> message_wrapper connections" where
  "slave_channels p = \<lparr>channels = [(slave_a, ChannelImpl []), (slave_b, ChannelImpl [])]\<rparr>"

definition first_key_space :: paxos_log_entry where
  "first_key_space = KeySpaceChanged [convert_range_object whole_table] 1"

definition two_slaves_events :: "message_wrapper slave_event cluster_event list" where
  "two_slaves_events = (let a = slave_a; b = slave_b in
     [Acts a (SlaveQueueMessage \<lparr>incoming_endpoint = EndpointId ''m'' 0, incoming_payload =
        MasterMessage (NewKeySpaceSelected [convert_range_object whole_table] 1)\<rparr>),
      Acts a SlaveHandleMessage, Acts a SlaveRunTask,
      Moves a a, Moves a b, Acts a SlaveHandleMessage, Acts b SlaveHandleMessage,
      Moves a a, Moves b a, Acts a SlaveHandleMessage, Acts a SlaveHandleMessage,
      Moves a a, Moves a b, Acts a SlaveHandleMessage, Acts b SlaveHandleMessage,
      Moves a a, Moves b a, Acts a SlaveHandleMessage, Acts a SlaveHandleMessage])"

definition later_slaves_events :: "message_wrapper slave_event cluster_event list" where
  "later_slaves_events = (let a = slave_a; b = slave_b in
     [Moves a b, Moves b b, Acts b SlaveHandleMessage, Acts b SlaveHandleMessage])"

abbreviation two_slaves_run ::
  "message_wrapper slave_event cluster_event list \<Rightarrow> (endpoint_id \<Rightarrow> (message_wrapper, unit) slave)
   \<Rightarrow> (endpoint_id \<Rightarrow> (message_wrapper, unit) slave) option" where
  "two_slaves_run evs sls \<equiv> slaves_run (\<lambda>w. w) (\<lambda>w. w) (\<lambda>r. (7, r)) initialize_constants [slave_a, slave_b] evs sls"

abbreviation two_slaves :: "endpoint_id \<Rightarrow> (message_wrapper, unit) slave" where
  "two_slaves \<equiv> start_slaves (\<lambda>w. w) (\<lambda>_ _. ()) (\<lambda>_. 3) (\<lambda>_. ()) (\<lambda>_. \<lparr>channels = []\<rparr>)
     (\<lambda>_. \<lparr>channels = [(EndpointId ''m'' 0, ChannelImpl [])]\<rparr>) slave_channels [slave_a, slave_b] (\<lambda>_. ''a'')"

lemma slave_channels_silent: "silent slave_channels"
  by (simp add: silent_def slave_channels_def in_flight_def get_channel_def split: option.split)

lemmas two_slaves_simps =
  slaves_run_def slave_act_def has_room_def from_outside_def start_slaves_def slave_channels_def slave_connections_def
  slave_sent_def slave_received_def from_a_slave_def fits_index_def first_free_def ProductionContext_def
  LocalTransactionManager_def initial_threads_def num_supported_threads_def queue_message_def schedule_async_def
  message_handled_def AsyncSchedulerImpl_def AsyncQueue_def slave_handle_def slave_with_node_def slave_log_eq
  set_entry_def next_available_index_def take_index_def log_insert_def word_upt_Cons invoke_callbacks_def log_at_def
  slave_callbacks_simps on_key_space_changed_def tp_key_space_change_def add_tablet_def production_provider_def
  place_participant_def get_all_endpoints_def key_space_changed_message_def send_def has_channel_def update_channel_def
  MAX_MESSAGES_QUEUE_SIZE_def Let_def handle_key_space_change_def add_task_def schedule_run_def fire_run_def run_task_def
  key_space_task_def get_channel_def in_flight_def deliver_from_def task_returned_def request_propose_def
  config_provider_def config_def PaxosConfigManager_def multi_propose_react handle_incoming_message_react instance_of_def
  apply_reaction_def put_instance_def MultiPaxosHandler_def emit_def make_paxos_message_def react_propose_def
  react_promise_def react_learn_def next_proposal_number_def says_def quiet_def SinglePaxosHandler_def
  PaxosProposerState_def PaxosAcceptorState_def PaxosLearnerState_def acceptor_defs promises_of_def
  proposal_of_def votes_of_def with_acceptor_def with_promises_def with_learned_def map_insert_def
  fun_upd_twist [OF slaves_distinct(1)] slave_paxos_wrapper_def SlaveKeySpaceManager.WAIT_FOR_PAXOS_def TERMINATE_def
  TabletParticipant_def tablet_log_eq convert_range_object_def first_key_space_def

lemma two_slaves_runs:
  "\<exists>sls sls'. two_slaves_run two_slaves_events two_slaves = Some sls \<and> two_slaves_run later_slaves_events sls = Some sls' \<and>
     log (node_log (rs_node (sl_state (sls slave_a)))) = [0 \<mapsto> first_key_space] \<and>
     log (node_log (rs_node (sl_state (sls' slave_b)))) 0 \<noteq> None \<and>
     first_free (node_log (rs_node (sl_state (sls slave_a)))) = 1 \<and>
     first_free (node_log (rs_node (sl_state (sls slave_b)))) = 0 \<and>
     first_free (node_log (rs_node (sl_state (sls' slave_b)))) = 1 \<and>
     equipped (node_derived (rs_node (sl_state (sls slave_b))))"
  by (simp add: two_slaves_events_def later_slaves_events_def equipped_def two_slaves_simps del: reaction_simps(7,8))

section \<open>Properties\<close>

text \<open>
  C10: the slaves of a group agree on their key spaces. Take whole slaves that start from the same
  address file over silent connections, at most \<open>num_slave_servers\<close> of them and with the whole group
  as their majority, and let them and their tablets act, and messages move and get lost, in any
  order, for any time; later, let them go on. No handler overlaps work of its slave's network
  thread: a run in which one does, or in which a callback throws, has no value. An entry that one slave's log had at the earlier moment is never another in a slave's log
  at the later moment; entry \<open>i\<close> is the key space number \<open>i + 1\<close>, and the generation of a slave is
  the number of entries it has; and the callbacks of the entries a slave was behind, if it has a
  thread for tablets and a connected master, run without throwing, and give it the ranges, the generation and the
  tablets of the slave that is ahead.
\<close>

theorem slaves_agree:
  assumes "\<forall>m. parse (to_wire m) = m"
    and "distinct ns" and "length ns \<le> unat (num_slave_servers cs)" and "majority_is_all cs ns"
    and "silent slaves" and "distinct es"
    and "slaves_run to_wire parse rand cs ns evs (start_slaves to_wire tablet_seeds cores seeds clients masters slaves es ips) = Some sls"
    and "slaves_run to_wire parse rand cs ns evs' sls = Some sls'"
    and "p = rs_node (sl_state (sls a))" and "q = rs_node (sl_state (sls' b))"
  shows "(log (node_log p) i = Some e \<longrightarrow> log (node_log q) i = Some e' \<longrightarrow> e' = e) \<and>
    (i < first_free (node_log p) \<longrightarrow> (\<exists>rs. log (node_log p) i = Some (KeySpaceChanged rs (of_nat (unat i) + 1)))) \<and>
    sd_generation (node_derived p) = of_nat (unat (first_free (node_log p))) \<and>
    (first_free (node_log p) \<le> first_free (node_log q) \<longrightarrow> equipped (node_derived p) \<longrightarrow>
      (\<exists>d. apply_range (slave_callbacks to_wire (production_provider random cc)) (log (node_log q))
          (first_free (node_log p)) (first_free (node_log q)) (node_derived p) = Inr d \<and>
        sd_ranges d = sd_ranges (node_derived q) \<and> sd_generation d = sd_generation (node_derived q) \<and>
        fst ` set (sd_tablets d) = fst ` set (sd_tablets (node_derived q))))"
proof -
  have "wire_format to_wire parse" using assms(1) by unfold_locales simp
  note facts = wire_format.slaves_facts [OF this assms(2-6), where E = "\<lambda>_. True", unfolded told_slaves_any]
  note both = facts [OF assms(7,8)] and last = facts [OF slaves_run_append [OF assms(7,8)] slaves_run_Nil]
  let ?p = "node_log p" and ?q = "node_log q"
  note of_p = slave_facts [OF both(2) [of a] assms(9) refl] and of_q = slave_facts [OF last(2) [of b] assms(10) refl]
  have same: "log ?p i = Some e \<Longrightarrow> log ?q i = Some e' \<Longrightarrow> e' = e" for i e e'
    unfolding assms(9,10) by (rule both(1))
  have just_p: "slave_justified (\<lambda>_. True) (log ?p) i (the (log ?p i))" if "i < first_free ?p" for i
    using both(3) [of i a] that by (simp add: assms(9))
  have just_q: "slave_justified (\<lambda>_. True) (log ?q) i (the (log ?q i))" if "i < first_free ?q" for i
    using last(3) [of i b] that by (simp add: assms(10))
  have number: "\<exists>rs. log ?p i = Some (KeySpaceChanged rs (of_nat (unat i) + 1))" if i: "i < first_free ?p"
  proof -
    have "length (logged_key_spaces (log ?p) i) = unat i" by (rule justified_numbers [where E = "\<lambda>_. True"]) (use i just_p in auto)
    with just_p [OF i] below_first_free [OF of_p(4) i] show ?thesis by (auto simp: slave_justified_def)
  qed
  have generation: "sd_generation (node_derived p) = of_nat (unat (first_free ?p))"
    using of_p(1) justified_numbers [of "first_free ?p" "\<lambda>_. True" "log ?p"] just_p by (simp add: holds_key_spaces_def)
  have "\<exists>d. apply_range (slave_callbacks to_wire (production_provider random cc)) (log ?q)
          (first_free ?p) (first_free ?q) (node_derived p) = Inr d \<and>
        sd_ranges d = sd_ranges (node_derived q) \<and> sd_generation d = sd_generation (node_derived q) \<and>
        fst ` set (sd_tablets d) = fst ` set (sd_tablets (node_derived q))"
    if le: "first_free ?p \<le> first_free ?q" and eq: "equipped (node_derived p)"
  proof -
    have "logged_key_spaces (log ?q) (first_free ?p) = logged_key_spaces (log ?p) (first_free ?p)"
      by (rule key_spaces_cong) (rule agree_below [OF of_p(4) of_q(4) le same])
    with of_p(1) have "holds_key_spaces (logged_key_spaces (log ?q) (first_free ?p)) (node_derived p)" by simp
    from justified_applies [OF just_q le this eq] obtain d where
      d: "apply_range (slave_callbacks to_wire (production_provider random cc)) (log ?q) (first_free ?p) (first_free ?q)
          (node_derived p) = Inr d" "holds_key_spaces (logged_key_spaces (log ?q) (first_free ?q)) d" by blast
    from d(2) of_q(1) have "sd_ranges d = sd_ranges (node_derived q) \<and> sd_generation d = sd_generation (node_derived q) \<and>
        fst ` set (sd_tablets d) = fst ` set (sd_tablets (node_derived q))"
      unfolding holds_key_spaces_def by presburger
    with d(1) show ?thesis by blast
  qed
  with same [of i e e'] number generation show ?thesis by blast
qed

theorem slaves_agree_witness:
  "\<exists>sls sls'. two_slaves_run two_slaves_events two_slaves = Some sls \<and> two_slaves_run later_slaves_events sls = Some sls' \<and>
     log (node_log (rs_node (sl_state (sls' slave_b)))) 0 = Some first_key_space \<and>
     sd_generation (node_derived (rs_node (sl_state (sls slave_b)))) = 0 \<and>
     (\<exists>d. apply_range (slave_callbacks (\<lambda>w. w) (production_provider (\<lambda>_. ()) \<lparr>channels = []\<rparr>))
         (log (node_log (rs_node (sl_state (sls' slave_b))))) 0 1 (node_derived (rs_node (sl_state (sls slave_b)))) = Inr d \<and>
       sd_ranges d = sd_ranges (node_derived (rs_node (sl_state (sls' slave_b)))))"
proof -
  obtain sls sls' e where runs: "two_slaves_run two_slaves_events two_slaves = Some sls"
      "two_slaves_run later_slaves_events sls = Some sls'"
    and a: "log (node_log (rs_node (sl_state (sls slave_a)))) = [0 \<mapsto> first_key_space]"
    and e: "log (node_log (rs_node (sl_state (sls' slave_b)))) 0 = Some e"
    and free: "first_free (node_log (rs_node (sl_state (sls slave_b)))) = 0"
      "first_free (node_log (rs_node (sl_state (sls' slave_b)))) = 1"
    and eq: "equipped (node_derived (rs_node (sl_state (sls slave_b))))"
    using two_slaves_runs by (elim exE conjE) auto
  have files: "\<forall>m::message_wrapper. m = m" "distinct [slave_a, slave_b]"
      "length [slave_a, slave_b] \<le> unat (num_slave_servers initialize_constants)"
      "majority_is_all initialize_constants [slave_a, slave_b]"
    by (simp_all add: majority_is_all_def)
  note agree = slaves_agree [OF files slave_channels_silent files(2) runs refl refl, where random = "\<lambda>_. ()" and cc = "\<lparr>channels = []\<rparr>"]
  have "e = first_key_space" using conjunct1 [OF agree [of slave_a 0 first_key_space slave_b e]] a e by simp
  moreover note rest = conjunct2 [OF conjunct2 [OF agree [of slave_b 0 e slave_b e]], unfolded free]
  have "sd_generation (node_derived (rs_node (sl_state (sls slave_b)))) = 0" using conjunct1 [OF rest] by simp
  moreover from conjunct2 [OF rest] eq have
    "\<exists>d. apply_range (slave_callbacks (\<lambda>w. w) (production_provider (\<lambda>_. ()) \<lparr>channels = []\<rparr>))
         (log (node_log (rs_node (sl_state (sls' slave_b))))) 0 1 (node_derived (rs_node (sl_state (sls slave_b)))) = Inr d \<and>
       sd_ranges d = sd_ranges (node_derived (rs_node (sl_state (sls' slave_b))))" by auto
  ultimately show ?thesis using runs e by blast
qed

end
