(* ===== verification/TabletGroup.thy ===== *)
theory TabletGroup
  imports SlaveGroup
begin

text \<open>
  The tablets of one range, one on each slave of a group. They live inside the slaves of
  SlaveGroup.thy: their messages wait in the slave's scheduler before they reach their own, they
  share the slave's connections, and a slave has none until the key space says so. The tablets of a
  range refine the group of PaxosGroup.thy, with the requests of clients as the justified proposals.
  Hence the replicas of a range agree: what one of them stores is a part of what any of them stores
  later.
\<close>

section \<open>The tablets' messages on the wire\<close>

definition tablet_paxos_in :: "('w \<Rightarrow> message_wrapper) \<Rightarrow> tablet_id \<Rightarrow> 'w \<Rightarrow> paxos_message list" where
  "tablet_paxos_in parse tid w =
     (case parse w of
        TabletMessage tm \<Rightarrow>
          if convert_range (tablet_range tm) = tid
          then (case tablet_payload tm of TabletPaxos m \<Rightarrow> [m] | _ \<Rightarrow> [])
          else []
      | _ \<Rightarrow> [])"

definition tablet_sync_in ::
  "('w \<Rightarrow> message_wrapper) \<Rightarrow> tablet_id \<Rightarrow> 'w \<Rightarrow> (32 word \<times> paxos_log_entry) set" where
  "tablet_sync_in parse tid w =
     (case parse w of
        TabletMessage tm \<Rightarrow>
          if convert_range (tablet_range tm) = tid
          then (case tablet_payload tm of TabletSync (SyncResponse r) \<Rightarrow> set (missing_entries r) | _ \<Rightarrow> {})
          else {}
      | _ \<Rightarrow> {})"

lemma convert_back [simp]: "convert_range (convert_range_object tid) = tid"
  by (simp add: convert_range_object_def)

sublocale wire_format \<subseteq> tablet_wire: group_wire "tablet_paxos_in parse tid" "tablet_sync_in parse tid"
  "\<lambda>p. to_wire (tablet_paxos_wrapper tid p)" "\<lambda>y. to_wire (tablet_sync_wrapper tid y)" for tid
  by unfold_locales
    (simp_all add: tablet_paxos_in_def tablet_sync_in_def tablet_paxos_wrapper_def tablet_sync_wrapper_def)

section \<open>A tablet seen from its group\<close>

abbreviation tablets_of :: "('w, 'r) slave \<Rightarrow> ('w, 'r) tp_map" where
  "tablets_of sl \<equiv> sd_tablets (node_derived (rs_node (sl_state sl)))"

text \<open>The node of the tablet with the slave's connections; a tablet not built yet is a new one.\<close>

definition tablet_node :: "tablet_id \<Rightarrow> ('w, 'r) slave \<Rightarrow> ('w, tablet_derived) paxos_node" where
  "tablet_node tid sl =
     (case map_of (tablets_of sl) tid of
        None \<Rightarrow> \<lparr>node_paxos = MultiPaxosHandler, node_connections = slave_connections sl, node_log = tablet_log,
                 node_derived = tablet_initial []\<rparr>
      | Some tp \<Rightarrow> (rs_node (tp_state tp))\<lparr>node_connections := slave_connections sl\<rparr>)"

lemma tablet_node_connections [simp]: "node_connections (tablet_node tid sl) = slave_connections sl"
  by (simp add: tablet_node_def split: option.split)

definition tablet_queue :: "tablet_id \<Rightarrow> ('w, 'r) slave \<Rightarrow> 'w incoming_message list" where
  "tablet_queue tid sl =
     (case map_of (tablets_of sl) tid of None \<Rightarrow> [] | Some tp \<Rightarrow> message_queue (tp_scheduler tp))"

definition tablet_view :: "('w \<Rightarrow> message_wrapper) \<Rightarrow> tablet_id \<Rightarrow> ('w, 'r) slave \<Rightarrow> host_view" where
  "tablet_view parse tid sl =
     node_view (tablet_paxos_in parse tid) (tablet_sync_in parse tid)
       (tablet_queue tid sl @ message_queue (sl_scheduler sl)) (tablet_node tid sl)"

text \<open>The messages in the queue of a tablet are for it.\<close>

definition for_tablet :: "('w \<Rightarrow> message_wrapper) \<Rightarrow> tablet_id \<Rightarrow> 'w incoming_message \<Rightarrow> bool" where
  "for_tablet parse tid m \<longleftrightarrow>
     (\<forall>tm. parse (incoming_payload m) = TabletMessage tm \<longrightarrow> convert_range (tablet_range tm) = tid)"

definition tablet_fit ::
  "(message_wrapper \<Rightarrow> 'w) \<Rightarrow> ('w \<Rightarrow> message_wrapper) \<Rightarrow> ('r \<Rightarrow> 32 word \<times> 'r) \<Rightarrow> tablet_id
   \<Rightarrow> ('w, 'r) tablet_participant \<Rightarrow> bool" where
  "tablet_fit to_wire parse rand tid tp \<longleftrightarrow>
     tp_tablet_id tp = tid \<and> (\<exists>es. distinct es \<and> tablet_inv to_wire rand (tablet_initial es) tp) \<and>
     node_ok (rs_node (tp_state tp)) \<and> list_all (for_tablet parse tid) (message_queue (tp_scheduler tp))"

definition tablet_member ::
  "(message_wrapper \<Rightarrow> 'w) \<Rightarrow> ('w \<Rightarrow> message_wrapper) \<Rightarrow> ('r \<Rightarrow> 32 word \<times> 'r) \<Rightarrow> endpoint_id list \<Rightarrow> tablet_id
   \<Rightarrow> ('w, 'r) slave \<Rightarrow> bool" where
  "tablet_member to_wire parse rand es tid sl \<longleftrightarrow>
     slave_rules to_wire rand es sl \<and> scheduler_ok (sl_scheduler sl) \<and>
     distinct (get_all_endpoints (slave_connections sl)) \<and>
     (\<forall>tp. map_of (tablets_of sl) tid = Some tp \<longrightarrow> tablet_fit to_wire parse rand tid tp)"

text \<open>A client asked for it.\<close>

definition tablet_justified :: justification where
  "tablet_justified L i e \<longleftrightarrow> (\<exists>message. request_entry message = Inr e)"

interpretation tablet_proposals: local_justification tablet_justified
  by unfold_locales (simp add: tablet_justified_def)

lemma tablet_justified_kind: "tablet_justified L i e \<Longrightarrow> not_reconfig e"
  by (auto simp: tablet_justified_def not_reconfig_def request_entry_def split: if_splits)

section \<open>What the slave does to its tablets\<close>

text \<open>The slave's own log leaves the tablets as they are, and builds new ones.\<close>

definition tablets_grow :: "endpoint_id list \<Rightarrow> tablet_id \<Rightarrow> ('w, 'r) tp_map \<Rightarrow> ('w, 'r) tp_map \<Rightarrow> bool" where
  "tablets_grow es tid tps tps' \<longleftrightarrow>
     map_of tps' tid = map_of tps tid \<or>
     map_of tps tid = None \<and>
       (\<exists>seed sc cc. map_of tps' tid = Some (TabletParticipant seed sc cc tid) \<and> get_all_endpoints sc = es)"

lemma tablets_grow_refl [simp]: "tablets_grow es tid tps tps"
  by (simp add: tablets_grow_def)

lemma tablets_grow_trans: "tablets_grow es tid a b \<Longrightarrow> tablets_grow es tid b c \<Longrightarrow> tablets_grow es tid a c"
  unfolding tablets_grow_def by (metis option.distinct(1))

lemma key_space_grow:
  "tp_key_space_change (production_provider random cc sc) ranges (tps, c) = Inr (tps', c') \<Longrightarrow>
     tablets_grow (get_all_endpoints sc) tid tps tps'"
  unfolding tp_key_space_change_def
proof (induction ranges arbitrary: tps c)
  case (Cons r ranges)
  then obtain tps1 c1 where step: "add_tablet (production_provider random cc sc) r (tps, c) = Inr (tps1, c1)"
    "rfold (add_tablet (production_provider random cc sc)) ranges (tps1, c1) = Inr (tps', c')" by (auto simp: rbind_eq_Inr)
  have none: "map_of tps r = None" if "r \<notin> fst ` set tps" using that by (simp add: map_of_eq_None_iff)
  have "tablets_grow (get_all_endpoints sc) tid tps tps1"
  proof (cases "r \<in> fst ` set tps")
    case False
    with step(1) have "tps1 = tps @ [(r, TabletParticipant (random r) sc cc r)]"
      by (auto simp: add_tablet_def production_provider_def rbind_eq_Inr)
    with none [OF False] show ?thesis
      by (cases "tid = r") (auto simp: tablets_grow_def map_add_def split: option.split)
  qed (use step(1) in \<open>simp add: add_tablet_def\<close>)
  from tablets_grow_trans [OF this Cons.IH [OF step(2)]] show ?case .
qed simp

definition grown ::
  "(message_wrapper \<Rightarrow> 'w) \<Rightarrow> ('r \<Rightarrow> 32 word \<times> 'r) \<Rightarrow> endpoint_id list \<Rightarrow> tablet_id \<Rightarrow> ('w, 'r) tp_map
   \<Rightarrow> ('w, 'r) slave_derived \<Rightarrow> ('w, 'r) slave_derived \<Rightarrow> bool" where
  "grown to_wire rand es tid tps d d0 \<longleftrightarrow> slave_follows to_wire rand es d d0 \<and> tablets_grow es tid tps (sd_tablets d)"

interpretation growing: log_follower "slave_callbacks to_wire (production_provider random clients)"
  "grown to_wire rand es tid tps" for to_wire random clients rand es tid tps
proof
  fix i e and d d' d0 :: "('a, 'b) slave_derived" and to_wire random clients rand es tid tps
  assume step: "apply_entry (slave_callbacks to_wire (production_provider random clients)) i e d = Inr d'"
    and R: "grown to_wire rand es tid tps d d0"
  have "tablets_grow es tid (sd_tablets d) (sd_tablets d')"
  proof (cases e)
    case (KeySpaceChanged rs g)
    with step obtain threads threads' where
      "tp_key_space_change (production_provider random clients (sd_slaves d)) (map convert_range rs) (sd_tablets d, threads) =
        Inr (sd_tablets d', threads')"
      by (auto simp: apply_entry_slave on_key_space_changed_Inr simp del: broadcast.simps)
    from key_space_grow [OF this] R show ?thesis by (simp add: grown_def slave_follows_def)
  qed (use step in \<open>auto simp: apply_entry_slave rbind_eq_Inr\<close>)
  with slave_follows_apply [OF step, of rand es d0] R tablets_grow_trans
  show "\<exists>d0'. apply_entry (slave_callbacks to_wire (production_provider random clients)) i e d0 = Inr d0' \<and>
      grown to_wire rand es tid tps d' d0'" unfolding grown_def by blast
qed

text \<open>So do the operations of the slave's node.\<close>

lemma slave_growing:
  assumes "slave_rules to_wire rand es sl"
  obtains random clients slaves threads where
    "log_follower.server_inv (slave_callbacks to_wire (production_provider random clients))
       (grown to_wire rand (get_all_endpoints (slave_connections sl)) tid (tablets_of sl))
       (initial_slave some_master slaves es threads) (rs_node (sl_state sl))"
proof -
  from assms obtain random clients slaves threads where
    "slave_inv to_wire random rand clients (initial_slave some_master slaves es threads) sl" by (auto simp: slave_rules_def)
  then have "log_follower.server_inv (slave_callbacks to_wire (production_provider random clients))
      (slave_follows to_wire rand (get_all_endpoints (slave_connections sl))) (initial_slave some_master slaves es threads)
      (rs_node (sl_state sl))" by (simp add: slave_inv_def slave_connections_def)
  then show thesis
    by (intro that [of random clients slaves threads])
      (auto simp: slave.server_inv_def slave.log_followed_def growing.server_inv_def growing.log_followed_def grown_def)
qed

lemma grown_node:
  "log_follower.server_inv (slave_callbacks to_wire (production_provider random clients)) (grown to_wire rand es tid tps) init nd \<Longrightarrow>
     tablets_grow es tid tps (sd_tablets (node_derived nd))"
  using growing.server_replay by (fastforce simp: grown_def)

lemma slave_node_grows:
  assumes "slave_rules to_wire rand es sl" and "nd = rs_node (sl_state sl)"
    and "multi_propose pw provider draw e nd = Inr nd' \<and> indexed_provider provider \<or>
      handle_incoming_message pw cs provider endpoint m nd = Inr nd' \<and> indexed_provider provider \<or>
      handle_sync_message sw endpoint y nd = Some (Inr nd')"
  shows "tablets_grow (get_all_endpoints (slave_connections sl)) tid (tablets_of sl) (sd_tablets (node_derived nd'))"
proof -
  obtain random clients slaves threads where srv:
    "log_follower.server_inv (slave_callbacks to_wire (production_provider random clients))
       (grown to_wire rand (get_all_endpoints (slave_connections sl)) tid (tablets_of sl))
       (initial_slave some_master slaves es threads) nd"
    unfolding assms(2) by (rule slave_growing [OF assms(1)])
  note keeps = growing.propose_server [OF _ srv] growing.paxos_message_server [OF _ srv] growing.sync_message_server [OF _ srv]
  show ?thesis by (rule grown_node) (use assms(3) keeps in blast)
qed

lemmas slave_propose_grows = slave_node_grows [OF _ _ disjI1 [OF conjI [OF _ indexed_config_provider]]]
lemmas slave_paxos_grows = slave_node_grows [OF _ _ disjI2 [OF disjI1 [OF conjI [OF _ indexed_config_provider]]]]
lemmas slave_sync_grows = slave_node_grows [OF _ _ disjI2 [OF disjI2]]

lemma changes_after: "changes M q q' \<Longrightarrow> changes M (ms @ q) (ms @ q')"
proof -
  assume "changes M q q'"
  then obtain us ws where "subseq us q" "q' = us @ ws" "set ws \<subseteq> M" by (auto simp: changes_def)
  then show ?thesis unfolding changes_def by (intro exI [of _ "ms @ us"] exI [of _ ws] conjI list_emb_append_mono) auto
qed

lemma new_tablet_fit:
  assumes "distinct (get_all_endpoints sc)"
  shows "tablet_fit to_wire parse rand tid (TabletParticipant seed sc cc tid)"
proof -
  note TabletParticipant_inv [of to_wire rand sc seed cc tid]
  with assms have "\<exists>es. distinct es \<and> tablet_inv to_wire rand (tablet_initial es) (TabletParticipant seed sc cc tid)" by blast
  then show ?thesis
    by (simp add: tablet_fit_def) (simp add: TabletParticipant_def node_ok_def tablet_log_inv MultiPaxosHandler_def AsyncSchedulerImpl_def)
qed

lemma map_of_put_tablet:
  "map_of (put_tablet tid tp tps) t = (if t = tid then map_option (\<lambda>_. tp) (map_of tps tid) else map_of tps t)"
  by (induction tps) (auto simp: put_tablet_def)

lemma connection_step_distinct:
  "connection_step ev c = Inr c' \<Longrightarrow> distinct (get_all_endpoints c) \<Longrightarrow> distinct (get_all_endpoints c')"
  by (cases ev)
    (auto simp: accepted_def add_channel_def has_channel_def on_close_Inr get_all_endpoints_def deliver_from_def
      distinct_map_filter split: if_splits)

lemma tp_handle_lookup:
  assumes "distinct (map fst tps)"
  shows "map_of (fst (tp_handle to_wire parse m (tps, clients))) tid = map_of tps tid \<or>
    (\<exists>tp. map_of tps tid = Some tp \<and> map_of (fst (tp_handle to_wire parse m (tps, clients))) tid = Some (queue_tablet_message m tp) \<and>
      for_tablet parse tid m)"
proof -
  have routed: "map_of tps' tid = map_of tps tid \<or>
      (\<exists>tp. map_of tps tid = Some tp \<and> map_of tps' tid = Some (queue_tablet_message m tp) \<and> matches tid)"
    if route: "route matches m tps = Some tps'" for matches tps'
  proof -
    from route_Some [OF route] obtain us t tp vs where
      *: "tps = us @ (t, tp) # vs" "tps' = us @ (t, queue_tablet_message m tp) # vs" "matches t" by blast
    with assms have "map_of us t = None" by (auto simp: map_of_eq_None_iff)
    with * show ?thesis by (cases "t = tid") (auto simp: map_add_def split: option.splits)
  qed
  show ?thesis
  proof (cases "parse (incoming_payload m)")
    case (ClientMessage cm)
    then have "for_tablet parse tid m" by (simp add: for_tablet_def)
    with ClientMessage routed show ?thesis
      by (cases cm) (auto simp: tp_handle_def handle_client_request_def Let_def split: option.splits)
  next
    case (TabletMessage tm)
    show ?thesis
    proof (cases "route (\<lambda>tid. range_eq tid (convert_range (tablet_range tm))) m tps")
      case (Some tps')
      from routed [OF this] Some TabletMessage show ?thesis
        by (auto simp: tp_handle_def handle_tablet_message_def for_tablet_def)
    qed (use TabletMessage in \<open>simp add: tp_handle_def handle_tablet_message_def\<close>)
  qed (simp_all add: tp_handle_def)
qed

context wire_format
begin

text \<open>Steps in which the tablet itself does nothing.\<close>

lemma tablet_quiet:
  assumes fit: "\<And>tp. map_of (tablets_of sl) tid = Some tp \<Longrightarrow> tablet_fit to_wire parse rand tid tp"
    and grow: "tablets_grow ends tid (tablets_of sl) (tablets_of sl')" "distinct ends"
    and conns: "channels_change W (slave_connections sl) (slave_connections sl')" "\<And>w. w \<in> W \<Longrightarrow> tablet_wire.plain tid w"
    and queue: "changes {m. tablet_wire.plain tid (incoming_payload m)} (message_queue (sl_scheduler sl)) (message_queue (sl_scheduler sl'))"
  shows "host_step cs J (tablet_view parse tid sl) (tablet_view parse tid sl') \<and>
    (\<forall>tp. map_of (tablets_of sl') tid = Some tp \<longrightarrow> tablet_fit to_wire parse rand tid tp)"
proof -
  have same: "paxos_instances (node_paxos (tablet_node tid sl')) = paxos_instances (node_paxos (tablet_node tid sl)) \<and>
      log (node_log (tablet_node tid sl')) = log (node_log (tablet_node tid sl)) \<and> tablet_queue tid sl' = tablet_queue tid sl"
    using grow(1)
    by (auto simp: tablets_grow_def tablet_node_def tablet_queue_def TabletParticipant_def AsyncSchedulerImpl_def split: option.splits)
  have "host_step cs J (tablet_view parse tid sl) (tablet_view parse tid sl')"
    unfolding tablet_view_def
    by (rule tablet_wire.quiet_view [where W = W])
      (use same conns changes_after [OF queue] in \<open>auto simp: tablet_wire.plain_def\<close>)
  moreover have "tablet_fit to_wire parse rand tid tp" if "map_of (tablets_of sl') tid = Some tp" for tp
    using that grow fit new_tablet_fit by (auto simp: tablets_grow_def)
  ultimately show ?thesis by blast
qed

lemma tablet_wire_plain:
  "t \<noteq> tid \<Longrightarrow> w \<in> tablet_wires to_wire t \<Longrightarrow> tablet_wire.plain tid w"
  "tablet_wire.plain tid (to_wire (SlaveMessage m))"
  by (auto simp: tablet_wire.plain_def tablet_wires_def tablet_paxos_in_def tablet_sync_in_def)

section \<open>The steps of the tablet\<close>

text \<open>The configuration of a tablet never changes: it is that of the connections it was built with.\<close>

lemma tablet_timeline:
  assumes "replay tablet_callbacks m n init = Inr d" "\<And>i. i < n \<Longrightarrow> not_reconfig (the (m i))"
  shows "owner d = owner init"
proof (rule replay_invariant [OF assms(1)])
  fix i and x x' :: tablet_derived
  assume i: "i < n" and x: "owner x = owner init" and step: "apply_entry tablet_callbacks i (the (m i)) x = Inr x'"
  from assms(2) [OF i] x step show "owner x' = owner init"
    by (cases "the (m i)") (auto simp: not_reconfig_def apply_entry_def on_read_def on_write_def Let_def rbind_eq_Inr split: option.splits)
qed simp

lemma tablet_instances:
  assumes "tablet_fit to_wire parse rand tid tp" "entries_sound (rs_node (tp_state tp))"
  shows "makes_instances (config_provider owner) (node_derived (rs_node (tp_state tp)))"
proof -
  let ?nd = "rs_node (tp_state tp)"
  from assms(1) obtain es where es: "distinct es" "tablet_inv to_wire rand (tablet_initial es) tp" and li: "log_inv (node_log ?nd)"
    by (auto simp: tablet_fit_def node_ok_def)
  from tablet_inv_log [OF es(2)] obtain d where
    "replay tablet_callbacks (log (node_log ?nd)) (first_free (node_log ?nd)) (tablet_initial es) = Inr d"
    "owner (node_derived ?nd) = owner d" by (auto simp: Let_def)
  with tablet_timeline [OF this(1) entries_sound_below [OF assms(2) li]] es(1) show ?thesis
    by (intro makes_instances_config) (simp add: tablet_initial_def timeline_distinct_def PaxosConfigManager_def)
qed

lemma tablet_handle_view:
  assumes run: "tablet_handle to_wire parse rand cs m tp = Some (Inr tp')"
    and fit: "tablet_fit to_wire parse rand tid tp" and m: "for_tablet parse tid m"
    and entries: "entries_sound (rs_node (tp_state tp))"
  shows "host_step cs tablet_justified
      (tablet_wire.member_view tid (m # queue) (rs_node (tp_state tp))) (tablet_wire.member_view tid queue (rs_node (tp_state tp'))) \<and>
    node_ok (rs_node (tp_state tp'))"
proof -
  have tid: "tp_tablet_id tp = tid" and ok: "node_ok (rs_node (tp_state tp))" using fit by (simp_all add: tablet_fit_def)
  note insts = tablet_instances [OF fit entries]
  have drop: "changes M (m # queue) queue" for M by (rule changes_subseq) (simp add: list_emb_Cons)
  have same: ?thesis if "rs_node (tp_state tp') = rs_node (tp_state tp)"
    using that ok drop by (auto intro: tablet_wire.queue_view_step)
  show ?thesis
  proof (cases "parse (incoming_payload m)")
    case (ClientMessage cm)
    with run show ?thesis
      by (intro same; cases cm) (auto simp: tablet_handle_def handle_request_def Let_def)
  next
    case (TabletMessage tm)
    with m have range: "convert_range (tablet_range tm) = tid" by (simp add: for_tablet_def)
    show ?thesis
    proof (cases "tablet_payload tm")
      case (TabletPaxos pm)
      with run TabletMessage obtain nd where nd: "tp' = with_node nd tp"
        "handle_incoming_message (\<lambda>p. to_wire (tablet_paxos_wrapper tid p)) cs (config_provider owner)
          (incoming_endpoint m) pm (rs_node (tp_state tp)) = Inr nd"
        by (auto simp: tablet_handle_def Let_def rbind_eq_Inr tid)
      from TabletMessage TabletPaxos range have "tablet_paxos_in parse tid (incoming_payload m) = [pm]"
        "tablet_sync_in parse tid (incoming_payload m) = {}" by (simp_all add: tablet_paxos_in_def tablet_sync_in_def)
      from tablet_wire.receive_view [OF nd(2) ok insts refl this] show ?thesis by (simp add: nd(1) with_node_def)
    next
      case (TabletSync y)
      with run TabletMessage obtain nd where nd: "tp' = with_node nd tp"
        "handle_sync_message (\<lambda>p. to_wire (tablet_sync_wrapper tid p)) (incoming_endpoint m) y (rs_node (tp_state tp)) = Some (Inr nd)"
        by (auto simp: tablet_handle_def Let_def rbind_eq_Inr tid)
      from TabletMessage TabletSync range have "set (missing_entries r) \<subseteq> tablet_sync_in parse tid (incoming_payload m)"
        if "y = SyncResponse r" for r using that by (simp add: tablet_sync_in_def)
      from tablet_wire.sync_message_view [OF nd(2) ok entries_sound_fits [OF entries] this] show ?thesis
        by (simp add: nd(1) with_node_def)
    qed (use run TabletMessage in \<open>intro same; auto simp: tablet_handle_def Let_def\<close>)
  qed (use run in \<open>intro same; auto simp: tablet_handle_def Let_def\<close>)+
qed

lemma tablet_task_view:
  assumes run: "fire_run (tp_async_queue tp, tp_state tp) = Inr (q, s)"
    and fit: "tablet_fit to_wire parse rand tid tp" and entries: "entries_sound (rs_node (tp_state tp))"
    and room: "fits_index (first_free (node_log (rs_node (tp_state tp))))"
  shows "host_step cs tablet_justified
      (tablet_wire.member_view tid queue (rs_node (tp_state tp))) (tablet_wire.member_view tid queue (rs_node s)) \<and> node_ok (rs_node s)"
proof -
  have tid: "tp_tablet_id tp = tid" and ok: "node_ok (rs_node (tp_state tp))" using fit by (simp_all add: tablet_fit_def)
  from fit obtain es ts where "queue_callbacks (tp_async_queue tp) = request_tasks to_wire rand tid ts"
    by (auto simp: tablet_fit_def tablet_inv_def)
  from fire_run_tasks [OF run this [unfolded request_tasks_def]] obtain t w where
    t: "(case t of (rc, message, endpoint) \<Rightarrow> request_task to_wire (\<lambda>p. to_wire (tablet_paxos_wrapper tid p))
      (config_provider owner) rand rc message endpoint) (tp_state tp) = Inr (w, s)"
    by metis
  obtain rc message endpoint where "t = (rc, message, endpoint)" by (cases t)
  with t have "request_task to_wire (\<lambda>p. to_wire (tablet_paxos_wrapper tid p))
      (config_provider owner) rand rc message endpoint (tp_state tp) = Inr (w, s)" by simp
  from request_task_node [OF this] have "(\<exists>d. rs_node s = (rs_node (tp_state tp))\<lparr>node_derived := d\<rparr>) \<or>
    (\<exists>draw e. tablet_justified (log (node_log (rs_node (tp_state tp)))) (first_free (node_log (rs_node (tp_state tp)))) e \<and>
      multi_propose (\<lambda>p. to_wire (tablet_paxos_wrapper tid p)) (config_provider owner) draw e (rs_node (tp_state tp)) = Inr (rs_node s))"
    unfolding tablet_justified_def by blast
  then show ?thesis by (rule tablet_wire.task_view [OF ok tablet_instances [OF fit entries] room])
qed

text \<open>Messages of the slave's queue, \<open>rest\<close>, come after those of the tablet's.\<close>

lemma tablet_own_step:
  assumes run: "tablet_step to_wire parse rand cs ev tp = Some (Inr tp')" and ev: "\<And>m. ev \<noteq> QueueMessage m"
    and fit: "tablet_fit to_wire parse rand tid tp" and entries: "entries_sound (rs_node (tp_state tp))"
    and room: "fits_index (first_free (node_log (rs_node (tp_state tp))))"
  shows "host_step cs tablet_justified
      (tablet_wire.member_view tid (message_queue (tp_scheduler tp) @ rest) (rs_node (tp_state tp)))
      (tablet_wire.member_view tid (message_queue (tp_scheduler tp') @ rest) (rs_node (tp_state tp'))) \<and>
    tablet_fit to_wire parse rand tid tp'"
proof -
  from fit obtain es where tid: "tp_tablet_id tp = tid" and es: "distinct es" "tablet_inv to_wire rand (tablet_initial es) tp"
    and ok: "node_ok (rs_node (tp_state tp))" and for_tid: "list_all (for_tablet parse tid) (message_queue (tp_scheduler tp))"
    by (auto simp: tablet_fit_def)
  have sched: "scheduler_ok (tp_scheduler tp)" using es(2) by (simp add: tablet_inv_def scheduler_ok_def)
  have "host_step cs tablet_justified
      (tablet_wire.member_view tid (message_queue (tp_scheduler tp) @ rest) (rs_node (tp_state tp)))
      (tablet_wire.member_view tid (message_queue (tp_scheduler tp') @ rest) (rs_node (tp_state tp'))) \<and>
    node_ok (rs_node (tp_state tp')) \<and> list_all (for_tablet parse tid) (message_queue (tp_scheduler tp'))"
  proof (cases ev)
    case HandleMessage
    show ?thesis
    proof (cases "posted (tp_scheduler tp)")
      case Nil
      with run HandleMessage ok for_tid show ?thesis by (simp add: tablet_wire.queue_view_step)
    next
      case (Cons m ms)
      with run HandleMessage obtain tp1 where
        h: "tablet_handle to_wire parse rand cs m tp = Some (Inr tp1)"
          "tp' = tp1\<lparr>tp_scheduler := message_handled (tp_scheduler tp1)\<rparr>"
        by (auto simp: rbind_eq_Inr)
      note q = scheduler_posted [OF sched Cons]
      with for_tid have m: "for_tablet parse tid m" "list_all (for_tablet parse tid) (tl (message_queue (tp_scheduler tp)))"
        by (metis list.pred_inject(2))+
      have "tp_scheduler tp1 = tp_scheduler tp" using tablet_handle_inv [OF h(1) es(2)] by simp
      then have tp': "message_queue (tp_scheduler tp') = tl (message_queue (tp_scheduler tp))"
        "rs_node (tp_state tp') = rs_node (tp_state tp1)" by (simp_all add: h(2) scheduler_queues)
      have front: "message_queue (tp_scheduler tp) @ rest = m # (tl (message_queue (tp_scheduler tp)) @ rest)" by (subst q) simp
      from tablet_handle_view [OF h(1) fit m(1) entries, of "tl (message_queue (tp_scheduler tp)) @ rest"] m(2)
      show ?thesis unfolding tp' front by simp
    qed
  next
    case RunTask
    show ?thesis
    proof (cases "scheduled_runs (tp_async_queue tp) = []")
      case False
      with run RunTask obtain q s where r: "fire_run (tp_async_queue tp, tp_state tp) = Inr (q, s)"
        and tp': "tp' = tp\<lparr>tp_async_queue := q, tp_state := s\<rparr>" by (auto simp: rbind_eq_Inr)
      from tablet_task_view [OF r fit entries room] for_tid show ?thesis by (simp add: tp')
    qed (use run RunTask ok for_tid in \<open>simp add: tablet_wire.queue_view_step\<close>)
  next
    case SyncTimer
    with run obtain nd where nd: "tp' = with_node nd tp"
      "sync_timer (\<lambda>p. to_wire (tablet_sync_wrapper tid p)) owner (rs_node (tp_state tp)) = Inr nd"
      by (auto simp: rbind_eq_Inr tid)
    from tablet_wire.sync_timer_view [OF nd(2) ok] for_tid show ?thesis by (simp add: nd(1) with_node_def)
  qed (use ev in simp)
  moreover have "tp_tablet_id tp' = tid" using tablet_step_id [OF run es(2)] tid by simp
  ultimately show ?thesis using es(1) tablet_step_inv [OF run es(2)] by (auto simp: tablet_fit_def)
qed

text \<open>A message that the slave passes on stays in line.\<close>

lemma to_tablets_view:
  assumes fit: "\<And>tp. map_of (tablets_of sl) tid = Some tp \<Longrightarrow> tablet_fit to_wire parse rand tid tp"
    and rules: "slave_rules to_wire rand es sl"
    and queue: "message_queue (sl_scheduler sl) = m # rest" "message_queue (sl_scheduler sl') = rest"
    and sl': "rs_node (sl_state sl') = rs_node (sl_state (to_tablets to_wire parse m sl))"
  shows "host_step cs J (tablet_view parse tid sl) (tablet_view parse tid sl') \<and>
    (\<forall>tp. map_of (tablets_of sl') tid = Some tp \<longrightarrow> tablet_fit to_wire parse rand tid tp) \<and>
    slave_connections sl' = slave_connections sl"
proof -
  let ?tps = "fst (tp_handle to_wire parse m (tablets_of sl, rs_clients (sl_state sl)))"
  have tps: "tablets_of sl' = ?tps" and conns: "slave_connections sl' = slave_connections sl"
    by (simp_all add: slave_connections_def sl' to_tablets_def Let_def split: prod.splits)
  have "distinct (map fst (tablets_of sl))" using slave_facts(2) [OF rules refl refl] by (simp add: tablets_sound_def)
  from tp_handle_lookup [OF this] consider "map_of ?tps tid = map_of (tablets_of sl) tid"
    | tp where "map_of (tablets_of sl) tid = Some tp" "map_of ?tps tid = Some (queue_tablet_message m tp)" "for_tablet parse tid m"
    by blast
  then show ?thesis
  proof cases
    case 1
    then have "tablet_node tid sl' = tablet_node tid sl" "tablet_queue tid sl' = tablet_queue tid sl"
      by (simp_all add: tablet_node_def tablet_queue_def tps conns split: option.split)
    moreover have "changes M (tablet_queue tid sl @ m # rest) (tablet_queue tid sl @ rest)" for M
      by (rule changes_after [OF changes_subseq]) (simp add: list_emb_Cons)
    ultimately show ?thesis using 1 fit by (simp add: tablet_view_def queue conns tps tablet_wire.queue_view_step)
  next
    case 2
    then have "tablet_node tid sl' = tablet_node tid sl" "tablet_queue tid sl' = tablet_queue tid sl @ [m]"
      by (simp_all add: tablet_node_def tablet_queue_def tps conns queue_tablet_message_def scheduler_queues split: option.split)
    moreover have "tablet_fit to_wire parse rand tid (queue_tablet_message m tp)"
    proof -
      from fit [OF 2(1)] obtain es' where es': "distinct es'" "tablet_inv to_wire rand (tablet_initial es') tp"
        by (auto simp: tablet_fit_def)
      from es'(1) queue_tablet_message_inv [OF es'(2)]
      have "\<exists>es. distinct es \<and> tablet_inv to_wire rand (tablet_initial es) (queue_tablet_message m tp)" by blast
      with fit [OF 2(1)] 2(3) show ?thesis
        by (simp add: tablet_fit_def) (simp add: queue_tablet_message_def scheduler_queues)
    qed
    ultimately show ?thesis using 2 by (simp add: tablet_view_def queue conns tps tablet_wire.queue_view_step)
  qed
qed

lemma slave_handle_tablet:
  assumes run: "slave_handle to_wire parse rand cs m sl = Some (Inr sl')" and rules: "slave_rules to_wire rand es sl"
  shows "sl_scheduler sl' = sl_scheduler sl \<and>
    (sl' = to_tablets to_wire parse m sl \<or>
      tablets_grow (get_all_endpoints (slave_connections sl)) tid (tablets_of sl) (tablets_of sl') \<and>
      channels_change (range (\<lambda>x. to_wire (SlaveMessage x))) (slave_connections sl) (slave_connections sl') \<and>
      get_all_endpoints (slave_connections sl') = get_all_endpoints (slave_connections sl))"
proof -
  have passed: "sl_scheduler (to_tablets to_wire parse m sl) = sl_scheduler sl"
    by (simp add: to_tablets_def Let_def split: prod.splits)
  have same: ?thesis if "sl_state sl' = sl_state sl" "sl_scheduler sl' = sl_scheduler sl"
    using that by (simp add: slave_connections_def)
  show ?thesis
  proof (cases "parse (incoming_payload m)")
    case (ClientMessage cm)
    with run have "sl' = to_tablets to_wire parse m sl \<or> sl' = sl" by (cases cm) (auto simp: slave_handle_def Let_def)
    with passed same show ?thesis by blast
  next
    case (TabletMessage tm)
    with run have "sl' = to_tablets to_wire parse m sl" by (simp add: slave_handle_def Let_def)
    with passed show ?thesis by blast
  next
    case (MasterMessage mm)
    with run show ?thesis by (intro same; cases mm) (auto simp: slave_handle_def Let_def)
  next
    case (SlaveMessage sm)
    show ?thesis
    proof (cases sm)
      case (SlavePaxos pm)
      with run SlaveMessage obtain nd where nd: "sl' = slave_with_node nd sl"
        "handle_incoming_message (\<lambda>p. to_wire (slave_paxos_wrapper p)) cs (config_provider sd_timeline)
          (incoming_endpoint m) pm (rs_node (sl_state sl)) = Inr nd"
        by (auto simp: slave_handle_def Let_def rbind_eq_Inr)
      have "range (\<lambda>p. to_wire (slave_paxos_wrapper p)) \<subseteq> range (\<lambda>x. to_wire (SlaveMessage x))"
        by (auto simp: slave_paxos_wrapper_def)
      from slave_paxos_grows [OF rules refl nd(2)] channels_change_mono [OF paxos_message_channels [OF nd(2)] this]
        paxos_message_endpoints [OF nd(2)]
      show ?thesis by (simp add: nd(1) slave_with_node_def slave_connections_def)
    next
      case (SlaveSync y)
      with run SlaveMessage obtain nd where nd: "sl' = slave_with_node nd sl"
        "handle_sync_message (\<lambda>p. to_wire (slave_sync_wrapper p)) (incoming_endpoint m) y (rs_node (sl_state sl)) = Some (Inr nd)"
        by (auto simp: slave_handle_def Let_def rbind_eq_Inr)
      have "range (\<lambda>p. to_wire (slave_sync_wrapper p)) \<subseteq> range (\<lambda>x. to_wire (SlaveMessage x))"
        by (auto simp: slave_sync_wrapper_def)
      from slave_sync_grows [OF rules refl nd(2)] channels_change_mono [OF sync_message_channels [OF nd(2)] this]
        sync_message_endpoints [OF nd(2)]
      show ?thesis by (simp add: nd(1) slave_with_node_def slave_connections_def)
    qed (use run SlaveMessage in \<open>intro same; auto simp: slave_handle_def Let_def\<close>)+
  qed (use run in \<open>intro same; auto simp: slave_handle_def Let_def\<close>)+
qed

lemma slave_task_tablet:
  assumes run: "fire_run (sl_async_queue sl, sl_state sl) = Inr (q, s)" and rules: "slave_rules to_wire rand es sl"
  shows "tablets_grow (get_all_endpoints (slave_connections sl)) tid (tablets_of sl) (sd_tablets (node_derived (rs_node s))) \<and>
    channels_change (range (\<lambda>x. to_wire (SlaveMessage x))) (slave_connections sl) (node_connections (rs_node s)) \<and>
    get_all_endpoints (node_connections (rs_node s)) = get_all_endpoints (slave_connections sl)"
proof -
  from rules obtain ts where "queue_callbacks (sl_async_queue sl) = key_space_tasks to_wire rand ts"
    by (auto simp: slave_rules_def slave_inv_def)
  from fire_run_tasks [OF run this [unfolded key_space_tasks_def]] obtain t w where
    t: "(case t of (endpoint, rs, g) \<Rightarrow> key_space_task to_wire rand endpoint rs g) (sl_state sl) = Inr (w, s)"
    by metis
  obtain endpoint rs g where "t = (endpoint, rs, g)" by (cases t)
  with t have "key_space_task to_wire rand endpoint rs g (sl_state sl) = Inr (w, s)" by simp
  from key_space_task_node [OF this] show ?thesis
  proof (elim disjE exE conjE)
    fix c assume "rs_node s = (rs_node (sl_state sl))\<lparr>node_derived := (node_derived (rs_node (sl_state sl)))\<lparr>sd_masters := c\<rparr>\<rparr>"
    then show ?thesis by (simp add: slave_connections_def)
  next
    fix draw assume p: "multi_propose (\<lambda>p. to_wire (slave_paxos_wrapper p)) (config_provider sd_timeline) draw (KeySpaceChanged rs g)
         (rs_node (sl_state sl)) = Inr (rs_node s)"
    have "range (\<lambda>p. to_wire (slave_paxos_wrapper p)) \<subseteq> range (\<lambda>x. to_wire (SlaveMessage x))"
      by (auto simp: slave_paxos_wrapper_def)
    from slave_propose_grows [OF rules refl p] channels_change_mono [OF propose_channels [OF p] this] propose_endpoints [OF p]
    show ?thesis by (simp add: slave_connections_def)
  qed
qed

text \<open>A step of a tablet of the slave, the one of the group or another.\<close>

lemma tablet_event_tablet:
  assumes run: "slave_act to_wire parse rand cs (TabletEvent t tev) sl = Some sl'"
    and mem: "tablet_member to_wire parse rand es tid sl" and entries: "entries_sound (tablet_node tid sl)"
  shows "host_step cs tablet_justified (tablet_view parse tid sl) (tablet_view parse tid sl') \<and>
    (\<forall>tp. map_of (tablets_of sl') tid = Some tp \<longrightarrow> tablet_fit to_wire parse rand tid tp) \<and>
    sl_scheduler sl' = sl_scheduler sl \<and>
    get_all_endpoints (slave_connections sl') = get_all_endpoints (slave_connections sl)"
proof -
  from run have step: "slave_step to_wire parse rand cs (TabletEvent t tev) sl = Some (Inr sl')"
    and tev: "\<And>m. tev \<noteq> QueueMessage m"
    and room: "\<And>tp. map_of (tablets_of sl) t = Some tp \<Longrightarrow> fits_index (first_free (node_log (rs_node (tp_state tp))))"
    by (auto simp: slave_act_def from_outside_def has_room_def list_all_iff dest!: map_of_SomeD
        split: if_splits option.splits sum.splits)
  have rules: "slave_rules to_wire rand es sl"
    and fit: "\<And>tp. map_of (tablets_of sl) tid = Some tp \<Longrightarrow> tablet_fit to_wire parse rand tid tp"
    using mem by (auto simp: tablet_member_def)
  show ?thesis
  proof (cases "map_of (tablets_of sl) t")
    case None
    with step have "sl' = sl" by (simp add: Let_def)
    with fit show ?thesis by (auto simp: tablet_view_def intro: tablet_wire.queue_view_step)
  next
    case (Some tp)
    let ?lent = "lend (slave_connections sl) (rs_clients (sl_state sl)) tp"
    from step Some obtain tp' where t: "tablet_step to_wire parse rand cs tev ?lent = Some (Inr tp')"
      and sl': "sl' = give_back t tp' sl" by (auto simp: Let_def rbind_eq_Inr slave_connections_def)
    have tps: "tablets_of sl' = put_tablet t tp' (tablets_of sl)"
      and conns: "slave_connections sl' = node_connections (rs_node (tp_state tp'))" and sched: "sl_scheduler sl' = sl_scheduler sl"
      by (simp_all add: sl' give_back_def Let_def slave_connections_def)
    from map_of_SomeD [OF Some] slave_facts(2) [OF rules refl refl] obtain es' where
      "tablet_inv to_wire rand (tablet_initial es') ?lent"
      by (auto simp: tablets_sound_def tablet_sound_def lend_inv)
    from tablet_step_endpoints [OF t this] have ends: "get_all_endpoints (slave_connections sl') = get_all_endpoints (slave_connections sl)"
      by (simp add: conns) (simp add: lend_def)
    show ?thesis
    proof (cases "t = tid")
      case False
      have "tablets_grow [] tid (tablets_of sl) (tablets_of sl')"
        using False by (simp add: tps map_of_put_tablet tablets_grow_def)
      from tablet_quiet [OF fit this _ tablet_event_channels [OF t Some rules, folded conns] tablet_wire_plain(1) [OF False]]
      show ?thesis by (simp add: sched ends)
    next
      case True
      have lent: "rs_node (tp_state ?lent) = tablet_node tid sl" "tp_scheduler ?lent = tp_scheduler tp"
        using Some True by (simp_all add: lend_def tablet_node_def)
      have "tablet_fit to_wire parse rand tid ?lent"
        using fit [of tp] Some True by (simp add: tablet_fit_def lend_inv) (simp add: lend_def node_ok_def)
      from tablet_own_step [OF t tev this, unfolded lent, OF entries, of "message_queue (sl_scheduler sl)"] room [OF Some] Some True
      have own: "host_step cs tablet_justified (tablet_view parse tid sl)
          (tablet_wire.member_view tid (message_queue (tp_scheduler tp') @ message_queue (sl_scheduler sl)) (rs_node (tp_state tp')))"
        "tablet_fit to_wire parse rand tid tp'"
        by (simp_all add: tablet_view_def tablet_queue_def tablet_node_def)
      have "map_of (tablets_of sl') tid = Some tp'" using Some True by (simp add: tps map_of_put_tablet)
      with own sched ends show ?thesis by (simp add: tablet_view_def tablet_node_def tablet_queue_def conns)
    qed
  qed
qed

lemma tablet_act_member:
  assumes act: "slave_act to_wire parse rand cs ev sl = Some sl'" and mem: "tablet_member to_wire parse rand es tid sl"
    and entries: "entries_sound (tablet_node tid sl)"
  shows "host_step cs tablet_justified (tablet_view parse tid sl) (tablet_view parse tid sl') \<and>
    tablet_member to_wire parse rand es tid sl'"
proof -
  let ?J = tablet_justified and ?nd = "rs_node (sl_state sl)" and ?q = "message_queue (sl_scheduler sl)"
  from act have run: "slave_step to_wire parse rand cs ev sl = Some (Inr sl')" and outside: "from_outside parse ev"
    by (auto simp: slave_act_def split: if_splits option.splits sum.splits)
  from mem have rules: "slave_rules to_wire rand es sl" and sched: "scheduler_ok (sl_scheduler sl)"
    and ends: "distinct (get_all_endpoints (slave_connections sl))"
    and fit: "\<And>tp. map_of (tablets_of sl) tid = Some tp \<Longrightarrow> tablet_fit to_wire parse rand tid tp"
    by (auto simp: tablet_member_def)
  let ?goal = "host_step cs ?J (tablet_view parse tid sl) (tablet_view parse tid sl') \<and>
    (\<forall>tp. map_of (tablets_of sl') tid = Some tp \<longrightarrow> tablet_fit to_wire parse rand tid tp) \<and>
    scheduler_ok (sl_scheduler sl') \<and> distinct (get_all_endpoints (slave_connections sl'))"
  note quiet = tablet_quiet [OF fit _ ends]
  have sent: ?goal if
      "tablets_grow (get_all_endpoints (slave_connections sl)) tid (tablets_of sl) (tablets_of sl')"
      "channels_change (range (\<lambda>x. to_wire (SlaveMessage x))) (slave_connections sl) (slave_connections sl')"
      "get_all_endpoints (slave_connections sl') = get_all_endpoints (slave_connections sl)"
      "changes {m. tablet_wire.plain tid (incoming_payload m)} ?q (message_queue (sl_scheduler sl'))"
      "scheduler_ok (sl_scheduler sl')"
    using quiet [OF _ that(1,2) _ that(4)] tablet_wire_plain(2) that(3,5) ends by auto
  have still: ?goal if "tablets_of sl' = tablets_of sl" "slave_connections sl' = slave_connections sl" "sl_scheduler sl' = sl_scheduler sl"
    using that sched by (intro sent) simp_all
  have "?goal"
  proof (cases ev)
    case (SlaveQueueMessage m)
    with run have sl': "sl' = sl\<lparr>sl_scheduler := queue_message m (sl_scheduler sl)\<rparr>" by simp
    have "tablet_wire.plain tid (incoming_payload m)"
      using outside SlaveQueueMessage
      by (auto simp: from_outside_def from_a_slave_def tablet_wire.plain_def tablet_paxos_in_def tablet_sync_in_def
          split: message_wrapper.splits)
    with sched show ?thesis
      by (intro sent) (auto simp: sl' slave_connections_def scheduler_queues scheduler_ok_queue intro!: changes_append)
  next
    case SlaveHandleMessage
    show ?thesis
    proof (cases "posted (sl_scheduler sl)")
      case Nil
      with run SlaveHandleMessage show ?thesis by (intro still) simp_all
    next
      case (Cons m ms)
      with run SlaveHandleMessage obtain sl1 where
        h: "slave_handle to_wire parse rand cs m sl = Some (Inr sl1)"
        and sl': "sl' = sl1\<lparr>sl_scheduler := message_handled (sl_scheduler sl1)\<rparr>"
        by (auto simp: rbind_eq_Inr)
      note eff = slave_handle_tablet [OF h rules, of tid]
      have same: "sl_state sl' = sl_state sl1" "message_queue (sl_scheduler sl') = tl ?q"
        "sl_scheduler sl' = message_handled (sl_scheduler sl)" using eff by (simp_all add: sl' scheduler_queues)
      have ok': "scheduler_ok (sl_scheduler sl')" unfolding same(3) by (rule scheduler_ok_handled [OF sched Cons])
      note front = scheduler_posted [OF sched Cons]
      from eff consider (passed) "sl1 = to_tablets to_wire parse m sl"
        | (own) "tablets_grow (get_all_endpoints (slave_connections sl)) tid (tablets_of sl) (tablets_of sl1) \<and>
            channels_change (range (\<lambda>x. to_wire (SlaveMessage x))) (slave_connections sl) (slave_connections sl1) \<and>
            get_all_endpoints (slave_connections sl1) = get_all_endpoints (slave_connections sl)" by blast
      then show ?thesis
      proof cases
        case passed
        with same(1) have "rs_node (sl_state sl') = rs_node (sl_state (to_tablets to_wire parse m sl))" by simp
        from to_tablets_view [OF fit rules front same(2) this] ok' ends show ?thesis by simp
      next
        case own
        have "changes M ?q (tl ?q)" for M by (rule changes_subseq) (subst front, simp add: list_emb_Cons)
        with own ok' show ?thesis by (intro sent) (simp_all add: same scheduler_queues slave_connections_def)
      qed
    qed
  next
    case SlaveRunTask
    show ?thesis
    proof (cases "scheduled_runs (sl_async_queue sl) = []")
      case False
      with run SlaveRunTask obtain q s where r: "fire_run (sl_async_queue sl, sl_state sl) = Inr (q, s)"
        and sl': "sl' = sl\<lparr>sl_async_queue := q, sl_state := s\<rparr>" by (auto simp: rbind_eq_Inr)
      from slave_task_tablet [OF r rules, of tid] sched show ?thesis by (intro sent) (simp_all add: sl' slave_connections_def)
    qed (use run SlaveRunTask in \<open>intro still; simp\<close>)
  next
    case SlaveSyncTimer
    with run obtain nd where sl': "sl' = slave_with_node nd sl"
      and nd: "sync_timer (\<lambda>p. to_wire (slave_sync_wrapper p)) sd_timeline ?nd = Inr nd"
      by (auto simp: rbind_eq_Inr)
    have range: "range (\<lambda>request. to_wire (slave_sync_wrapper (SyncRequest request))) \<subseteq> range (\<lambda>x. to_wire (SlaveMessage x))"
      by (auto simp: slave_sync_wrapper_def)
    note changed = sync_timer_channels [OF nd]
    have "node_derived nd = node_derived ?nd" by (subst conjunct1 [OF changed]) simp
    with changed channels_change_mono [OF _ range] sync_timer_endpoints [OF nd] sched show ?thesis
      by (intro sent) (simp_all add: sl' slave_with_node_def slave_connections_def)
  next
    case SlaveHeartbeatTimer
    with run obtain endpoints where
      sl': "sl' = (slave_with_node (?nd\<lparr>node_connections := broadcast endpoints (to_wire (SlaveMessage Heartbeat)) (node_connections ?nd)\<rparr>) sl)
        \<lparr>sl_heartbeats := increment_counts (sl_heartbeats sl)\<rparr>"
      by (auto simp: rbind_eq_Inr heartbeat_callback_def Let_def simp del: broadcast.simps)
    from sched show ?thesis
      by (intro sent) (simp_all add: sl' slave_with_node_def slave_connections_def channels_change_broadcast del: broadcast.simps)
  next
    case (TabletEvent t tev)
    from tablet_event_tablet [OF act [unfolded TabletEvent] mem entries] sched ends show ?thesis by simp
  next
    case (SlaveConnection cev)
    with run obtain c where c: "connection_step cev (node_connections ?nd) = Inr c"
      and sl': "sl' = slave_with_node (?nd\<lparr>node_connections := c, node_derived := (node_derived ?nd)\<lparr>sd_slaves := c\<rparr>\<rparr>) sl"
      by (auto simp: Let_def rbind_eq_Inr)
    have same: "slave_connections sl' = c" "tablets_of sl' = tablets_of sl" "sl_scheduler sl' = sl_scheduler sl"
      by (simp_all add: sl' slave_with_node_def slave_connections_def)
    have "channels_change {} (slave_connections sl) (slave_connections sl')"
      using connection_step_change [OF c] by (simp add: same) (simp add: slave_connections_def)
    from quiet [OF _ _ this] connection_step_distinct [OF c] ends sched show ?thesis
      by (simp add: same) (simp add: slave_connections_def)
  next
    case (ClientConnection cev)
    with run show ?thesis by (intro still) (auto simp: rbind_eq_Inr slave_connections_def)
  next
    case (MasterConnection cev)
    with run show ?thesis by (intro still) (auto simp: rbind_eq_Inr slave_with_node_def Let_def slave_connections_def)
  next
    case SlaveOverlap
    with run show ?thesis by (intro still) simp_all
  qed
  with slave_rules_step [OF run rules] show ?thesis by (simp add: tablet_member_def)
qed

lemma tablets_server_group:
  fixes rand :: "'r \<Rightarrow> 32 word \<times> 'r"
  shows "server_group tablet_justified cs not_reconfig (tablet_member to_wire parse rand es tid) (tablet_view parse tid)
    (slave_act to_wire parse rand cs) slave_connections slave_sent slave_received
    (tablet_paxos_in parse tid) (tablet_sync_in parse tid)"
proof (intro server_group.intro server_group_axioms.intro)
  show "local_justification tablet_justified" by (rule tablet_proposals.local_justification_axioms)
  show "not_reconfig e" if "tablet_justified L i e" for L i e using that by (rule tablet_justified_kind)
  fix sl sl' :: "('w, 'r) slave" and ev
  assume mem: "tablet_member to_wire parse rand es tid sl"
  {
    assume "\<And>k e. view_entries (tablet_view parse tid sl) k = Some e \<Longrightarrow> fits_index k \<and> not_reconfig e"
      and act: "slave_act to_wire parse rand cs ev sl = Some sl'"
    then have "entries_sound (tablet_node tid sl)" by (auto simp: entries_sound_def tablet_view_def node_view_def)
    from tablet_act_member [OF act mem this]
    show "tablet_member to_wire parse rand es tid sl'"
      "host_step cs tablet_justified (tablet_view parse tid sl) (tablet_view parse tid sl')" by simp_all
  }
  show "tablet_member to_wire parse rand es tid (slave_sent q sl)" for q
    using mem slave_sent_rules
    by (auto simp: tablet_member_def)
      (simp_all add: slave_sent_def slave_connections_def Let_def slave_with_node_def get_all_endpoints_def deliver_from_def)
  show "tablet_member to_wire parse rand es tid (slave_received m sl)" for m
    using mem slave_received_rules
    by (auto simp: tablet_member_def) (simp_all add: slave_received_def slave_connections_def scheduler_ok_queue)
next
  fix sl :: "('w, 'r) slave" and q b w ws
  assume w: "in_flight (slave_connections sl) q = w # ws"
  have node: "tablet_node tid (slave_sent q sl) = (tablet_node tid sl)\<lparr>node_connections := deliver_from q (slave_connections sl)\<rparr>"
    and queue: "tablet_queue tid (slave_sent q sl) = tablet_queue tid sl" "sl_scheduler (slave_sent q sl) = sl_scheduler sl"
    by (simp_all add: tablet_node_def tablet_queue_def slave_sent_def Let_def slave_with_node_def slave_connections_def split: option.split)
  from w have "in_flight (node_connections (tablet_node tid sl)) q = w # ws" by simp
  from tablet_wire.deliver_view [OF this]
  show "view_instances (tablet_view parse tid (slave_sent q sl)) = view_instances (tablet_view parse tid sl) \<and>
      view_entries (tablet_view parse tid (slave_sent q sl)) = view_entries (tablet_view parse tid sl) \<and>
      view_inbox (tablet_view parse tid (slave_sent q sl)) = view_inbox (tablet_view parse tid sl) \<and>
      view_flight (tablet_view parse tid sl) b = (if b = q then tablet_paxos_in parse tid w else []) @
        view_flight (tablet_view parse tid (slave_sent q sl)) b \<and>
      view_offers (tablet_view parse tid (slave_sent q sl)) \<union> tablet_sync_in parse tid w \<subseteq> view_offers (tablet_view parse tid sl)"
    by (simp add: tablet_view_def node_view_def node queue)
next
  fix p and w :: 'w and sl :: "('w, 'r) slave"
  let ?m = "\<lparr>incoming_endpoint = p, incoming_payload = w\<rparr>"
  have same: "tablet_node tid (slave_received ?m sl) = tablet_node tid sl" "tablet_queue tid (slave_received ?m sl) = tablet_queue tid sl"
    "message_queue (sl_scheduler (slave_received ?m sl)) = message_queue (sl_scheduler sl) @ [?m]"
    by (simp_all add: slave_received_def tablet_node_def tablet_queue_def slave_connections_def scheduler_queues split: option.split)
  show "tablet_view parse tid (slave_received ?m sl) =
      (tablet_view parse tid sl)\<lparr>view_inbox := (view_inbox (tablet_view parse tid sl))(p :=
          view_inbox (tablet_view parse tid sl) p @ tablet_paxos_in parse tid w),
        view_offers := view_offers (tablet_view parse tid sl) \<union> tablet_sync_in parse tid w\<rparr>"
    using tablet_wire.enqueue_view [where queue = "tablet_queue tid sl @ message_queue (sl_scheduler sl)"]
    by (simp add: tablet_view_def node_view_def same)
qed

lemma start_tablets_member:
  assumes "silent slaves" "\<And>p. distinct (get_all_endpoints (slaves p))"
  shows "view_start (tablet_view parse tid (start_slaves to_wire tablet_seeds cores seeds clients masters slaves es ips p))"
    "tablet_member to_wire parse rand es tid (start_slaves to_wire tablet_seeds cores seeds clients masters slaves es ips p)"
proof -
  let ?sl = "start_slaves to_wire tablet_seeds cores seeds clients masters slaves es ips p"
  have fresh: "tablets_of ?sl = []" "slave_connections ?sl = slaves p" "sl_scheduler ?sl = AsyncSchedulerImpl"
    by (simp_all add: start_slaves_def ProductionContext_def LocalTransactionManager_def slave_connections_def)
  from assms(1) show "view_start (tablet_view parse tid ?sl)"
    by (simp add: view_start_def tablet_view_def node_view_def tablet_node_def tablet_queue_def fresh MultiPaxosHandler_def
        tablet_log_eq queue_view_def channel_view_def offered_def AsyncSchedulerImpl_def silent_def)
  from assms(2) show "tablet_member to_wire parse rand es tid ?sl"
    by (simp add: tablet_member_def start_slaves_rules fresh scheduler_ok_def AsyncSchedulerImpl_def)
qed

lemma tablets_facts:
  fixes rand :: "'r \<Rightarrow> 32 word \<times> 'r"
  assumes N: "distinct ns" "length ns \<le> unat (num_slave_servers cs)" "majority_is_all cs ns"
    and files: "silent slaves" "\<And>p. distinct (get_all_endpoints (slaves p))"
    and run: "slaves_run to_wire parse rand cs ns evs (start_slaves to_wire tablet_seeds cores seeds clients masters slaves es ips) = Some sls"
      "slaves_run to_wire parse rand cs ns evs' sls = Some sls'"
    and tp: "map_of (tablets_of (sls p)) tid = Some tp"
  shows "map_of (tablets_of (sls' q)) tid = Some tq \<Longrightarrow>
      log (node_log (rs_node (tp_state tp))) i = Some e \<Longrightarrow> log (node_log (rs_node (tp_state tq))) i = Some e' \<Longrightarrow> e' = e"
    and "tablet_fit to_wire parse rand tid tp"
    and "i < first_free (node_log (rs_node (tp_state tp))) \<Longrightarrow>
      \<exists>message. request_entry message = Inr (the (log (node_log (rs_node (tp_state tp))) i))"
proof -
  note group = tablets_server_group [of cs rand es tid]
  note start = start_tablets_member [OF files, where es = es and tid = tid]
  note runs = run [unfolded slaves_run_def]
  have entries: "view_entries (tablet_view parse tid sl) = log (node_log (rs_node (tp_state t)))"
    if "map_of (tablets_of sl) tid = Some t" for sl :: "('w, 'r) slave" and t
    using that by (simp add: tablet_view_def node_view_def tablet_node_def)
  show "log (node_log (rs_node (tp_state tp))) i = Some e \<Longrightarrow> log (node_log (rs_node (tp_state tq))) i = Some e' \<Longrightarrow> e' = e"
    if tq: "map_of (tablets_of (sls' q)) tid = Some tq"
    by (rule server_group.cluster_agrees [OF group N start runs, of p i e q e', unfolded entries [OF tp] entries [OF tq]])
  obtain mem: "tablet_member to_wire parse rand es tid (sls p)"
    by (rule server_group.cluster_start_run [OF group N(1,2) start runs(1)]) (rule that)
  with tp show fit: "tablet_fit to_wire parse rand tid tp" by (simp add: tablet_member_def)
  let ?pl = "node_log (rs_node (tp_state tp))"
  have li: "log_inv ?pl" using fit by (simp add: tablet_fit_def node_ok_def)
  assume i: "i < first_free ?pl"
  from below_first_free [OF li i] obtain e where e: "log ?pl i = Some e" by blast
  have "log ?pl k \<noteq> None" if "k < i" for k
    using below_first_free [OF li order.strict_trans [OF that i]] by simp
  from server_group.cluster_justifies [OF group N start runs(1), of p i e, unfolded entries [OF tp], OF e this] e
  show "\<exists>message. request_entry message = Inr (the (log ?pl i))" by (simp add: tablet_justified_def)
qed

end

text \<open>Tablets of slaves whose messages are as they are.\<close>

interpretation plain_tablets: server_group tablet_justified cs not_reconfig
    "tablet_member (\<lambda>w. w) (\<lambda>w. w) rand es tid" "tablet_view (\<lambda>w. w) tid" "slave_act (\<lambda>w. w) (\<lambda>w. w) rand cs"
    slave_connections slave_sent slave_received "tablet_paxos_in (\<lambda>w. w) tid" "tablet_sync_in (\<lambda>w. w) tid"
    for es :: "endpoint_id list" and cs and tid and rand :: "'r \<Rightarrow> 32 word \<times> 'r"
  by (rule plain_messages.tablets_server_group)

section \<open>Prefixes of a log\<close>

lemma logged_writes_prefix: "i \<le> n \<Longrightarrow> prefix (logged_writes m i k) (logged_writes m n k)"
  by (simp add: logged_writes_def word_upt_append [of 0 i n])

lemma logged_request_prefix: "i \<le> n \<Longrightarrow> logged_request m i r = Some j \<Longrightarrow> logged_request m n r = Some j"
  by (simp add: logged_request_def word_upt_append [of 0 i n] find_append)

lemma logged_cong:
  assumes "\<And>j. j < i \<Longrightarrow> m j = m' j"
  shows "logged_writes m i k = logged_writes m' i k" "logged_request m i r = logged_request m' i r"
proof -
  show "logged_writes m i k = logged_writes m' i k"
    unfolding logged_writes_def by (intro arg_cong [where f = concat] map_cong refl) (simp add: assms)
  show "logged_request m i r = logged_request m' i r"
    unfolding logged_request_def by (intro find_cong refl) (simp add: assms)
qed

text \<open>Versions are written in the order of their times: later ones do not change the past.\<close>

lemma newest_prefix:
  assumes "sorted_wrt (\<lambda>a b. ve_timestamp a < ve_timestamp b) ws" "prefix vs ws" "v \<in> set vs" "t \<le> ve_timestamp v"
  shows "newest ws t = newest vs t"
proof -
  from assms(2) obtain us where ws: "ws = vs @ us" by (auto simp: prefix_def)
  with assms(1,3) have "ve_timestamp v < ve_timestamp u" if "u \<in> set us" for u
    using that by (auto simp: sorted_wrt_append)
  with assms(4) have "filter (\<lambda>v. ve_timestamp v \<le> t) us = []" by (force simp: filter_empty_conv)
  then show ?thesis by (simp add: newest_def ws)
qed

lemma stored_versions_sorted:
  "kv_inv kv \<Longrightarrow> sorted_wrt (\<lambda>a b. ve_timestamp a < ve_timestamp b) (stored_versions kv k)"
  by (auto simp: stored_versions_def kv_inv_def entry_inv_def split: option.split)

text \<open>What a tablet stores is in its log.\<close>

lemma tablet_fit_stores:
  assumes "tablet_fit to_wire parse rand tid tp"
  shows "log_inv (node_log (rs_node (tp_state tp)))"
    and "kv_inv (kvs (node_derived (rs_node (tp_state tp))))"
    and "stored_versions (kvs (node_derived (rs_node (tp_state tp)))) k =
      logged_writes (log (node_log (rs_node (tp_state tp)))) (first_free (node_log (rs_node (tp_state tp)))) k"
    and "request_id_map (node_derived (rs_node (tp_state tp))) r =
      logged_request (log (node_log (rs_node (tp_state tp)))) (first_free (node_log (rs_node (tp_state tp)))) r"
proof -
  from assms obtain es where inv: "tablet_inv to_wire rand (tablet_initial es) tp"
    and ok: "node_ok (rs_node (tp_state tp))" by (auto simp: tablet_fit_def)
  from ok show "log_inv (node_log (rs_node (tp_state tp)))" by (simp add: node_ok_def)
  from inv show "kv_inv (kvs (node_derived (rs_node (tp_state tp))))"
    by (auto simp: tablet_inv_def tablet.server_inv_def tablet.log_followed_def follows_def)
  from tablet_inv_log [OF inv] show "stored_versions (kvs (node_derived (rs_node (tp_state tp)))) k =
      logged_writes (log (node_log (rs_node (tp_state tp)))) (first_free (node_log (rs_node (tp_state tp)))) k"
    "request_id_map (node_derived (rs_node (tp_state tp))) r =
      logged_request (log (node_log (rs_node (tp_state tp)))) (first_free (node_log (rs_node (tp_state tp)))) r"
    by (auto simp: Let_def)
qed

section \<open>Two replicas\<close>

text \<open>
  The two slaves of SlaveGroup.thy, once both have their tablet: a client writes a key at one of
  them, and both tablets handle the messages of the round.
\<close>

definition hand_over :: "endpoint_id \<Rightarrow> message_wrapper slave_event cluster_event list" where
  "hand_over p = [Acts p SlaveHandleMessage, Acts p (TabletEvent whole_table HandleMessage)]"

definition replica_events :: "message_wrapper slave_event cluster_event list" where
  "replica_events = (let a = slave_a; b = slave_b in
     [Acts a (SlaveQueueMessage \<lparr>incoming_endpoint = EndpointId ''c'' 0, incoming_payload =
        ClientMessage (ClientRequest (write_request ''w1'' ''k'' ''v'' 3))\<rparr>)] @ hand_over a @
     [Acts a (TabletEvent whole_table RunTask)] @
     [Moves a a, Moves a b] @ hand_over a @ hand_over b @
     [Moves a a, Moves b a] @ hand_over a @ hand_over a @
     [Moves a a, Moves a b] @ hand_over a @ hand_over b @
     [Moves a a, Moves b a] @ hand_over a @ hand_over a)"

definition later_replica_events :: "message_wrapper slave_event cluster_event list" where
  "later_replica_events = (let a = slave_a; b = slave_b in [Moves a b, Moves b b] @ hand_over b @ hand_over b)"

lemmas replica_simps =
  hand_over_def tablet_handle_def handle_request_def with_node_def lend_def give_back_def put_tablet_def to_tablets_def
  tp_handle_def handle_client_request_def handle_tablet_message_def queue_tablet_message_def write_request_def
  within_range_def whole_table_def request_task_def request_entry_def pb_string_def pb_uint64_def in_the_past_def
  read_lat_def RETRY_LIMIT_def ClientRequestHandler.WAIT_FOR_PAXOS_def tablet_initial_def tablet_paxos_wrapper_def
  on_write_def kv_write_def stored_versions_def write_of_def convert_range_def default_pb_key_space_range_def build_range_def

lemma two_replicas_run:
  "\<exists>sls sls' tp tp'. two_slaves_run (two_slaves_events @ later_slaves_events @ replica_events) two_slaves = Some sls \<and>
     two_slaves_run later_replica_events sls = Some sls' \<and>
     map_of (tablets_of (sls slave_a)) whole_table = Some tp \<and> map_of (tablets_of (sls' slave_b)) whole_table = Some tp' \<and>
     log (node_log (rs_node (tp_state tp))) = [0 \<mapsto> write_of ''w1'' ''k'' ''v'' 3] \<and>
     stored_versions (kvs (node_derived (rs_node (tp_state tp)))) ''k'' = [\<lparr>ve_timestamp = 3, ve_value = ''v''\<rparr>] \<and>
     first_free (node_log (rs_node (tp_state tp))) = 1 \<and> first_free (node_log (rs_node (tp_state tp'))) = 1"
  by (simp add: two_slaves_events_def later_slaves_events_def replica_events_def later_replica_events_def
      replica_simps two_slaves_simps del: reaction_simps(7,8))

section \<open>Properties\<close>

text \<open>
  C17: the replicas of a range agree. Take whole slaves with their tablets, as in SlaveGroup.thy:
  at most \<open>num_slave_servers\<close> of them, with the whole group as the majority. (A slave connected beyond
  these is outside the theorem, and C11 shows that a third can disagree.) Take a range, and let all
  act, and messages move and get lost, in any order, for any time; later, let them go on. No handler
  overlaps work of its slave's network thread, and no exception ends a slave. Every entry of the contiguous log of a tablet of the range was asked for by a
  client. What one such tablet's log had at the earlier moment is never something else in a tablet's
  log at the later moment; if that one has as much of the log, every key's versions at the first
  tablet are the oldest of those at the second, and requests the first knows as done the second
  knows as done at the same index; and reads of the past at the two tablets give the same answer.
\<close>

theorem tablets_agree:
  assumes "\<forall>m. parse (to_wire m) = m"
    and "distinct ns" and "length ns \<le> unat (num_slave_servers cs)" and "majority_is_all cs ns"
    and "silent slaves" and "\<forall>s. distinct (get_all_endpoints (slaves s))"
    and "slaves_run to_wire parse rand cs ns evs (start_slaves to_wire tablet_seeds cores seeds clients masters slaves es ips) = Some sls"
    and "slaves_run to_wire parse rand cs ns evs' sls = Some sls'"
    and "map_of (tablets_of (sls a)) tid = Some tp" and "map_of (tablets_of (sls' b)) tid = Some tp'"
    and "p = rs_node (tp_state tp)" and "q = rs_node (tp_state tp')"
  shows "(log (node_log p) i = Some e \<longrightarrow> log (node_log q) i = Some e' \<longrightarrow> e' = e) \<and>
    (i < first_free (node_log p) \<longrightarrow> (\<exists>message. request_entry message = Inr (the (log (node_log p) i)))) \<and>
    (first_free (node_log p) \<le> first_free (node_log q) \<longrightarrow>
      prefix (stored_versions (kvs (node_derived p)) k) (stored_versions (kvs (node_derived q)) k) \<and>
      (request_id_map (node_derived p) r = Some j \<longrightarrow> request_id_map (node_derived q) r = Some j) \<and>
      (v \<in> set (stored_versions (kvs (node_derived p)) k) \<longrightarrow> t \<le> ve_timestamp v \<longrightarrow>
        fst (kv_read k t (kvs (node_derived q))) = fst (kv_read k t (kvs (node_derived p)))))"
proof -
  have wire: "wire_format to_wire parse" using assms(1) by unfold_locales simp
  have ends: "\<And>s. distinct (get_all_endpoints (slaves s))" using assms(6) by blast
  note facts = wire_format.tablets_facts [OF wire assms(2-5) ends]
  note both = facts [OF assms(7,8,9)] and last = facts [OF slaves_run_append [OF assms(7,8)] slaves_run_Nil assms(10)]
  let ?p = "node_log p" and ?q = "node_log q"
  note of_p = tablet_fit_stores [OF both(2), folded assms(11)] and of_q = tablet_fit_stores [OF last(2), folded assms(12)]
  have same: "log ?p i = Some e \<Longrightarrow> log ?q i = Some e' \<Longrightarrow> e' = e" for i e e'
    unfolding assms(11,12) by (rule both(1) [OF assms(10)])
  have asked: "i < first_free ?p \<Longrightarrow> \<exists>message. request_entry message = Inr (the (log ?p i))"
    unfolding assms(11) by (rule both(3))
  have grow: "prefix (stored_versions (kvs (node_derived p)) k) (stored_versions (kvs (node_derived q)) k) \<and>
      (request_id_map (node_derived p) r = Some j \<longrightarrow> request_id_map (node_derived q) r = Some j)"
    if le: "first_free ?p \<le> first_free ?q"
  proof -
    have below: "log ?p k = log ?q k" if "k < first_free ?p" for k
      by (rule agree_below [OF of_p(1) of_q(1) le same that, symmetric])
    have "logged_writes (log ?p) (first_free ?p) k = logged_writes (log ?q) (first_free ?p) k"
      "logged_request (log ?p) (first_free ?p) r = logged_request (log ?q) (first_free ?p) r"
      by (rule logged_cong, erule below)+
    with logged_writes_prefix [OF le] logged_request_prefix [OF le] show ?thesis
      by (simp add: of_p(3,4) of_q(3,4))
  qed
  have past: "fst (kv_read k t (kvs (node_derived q))) = fst (kv_read k t (kvs (node_derived p)))"
    if le: "first_free ?p \<le> first_free ?q" and v: "v \<in> set (stored_versions (kvs (node_derived p)) k)" "t \<le> ve_timestamp v"
    using newest_prefix [OF stored_versions_sorted [OF of_q(2)] conjunct1 [OF grow [OF le]] v]
    by (simp add: read_eq [OF of_p(2)] read_eq [OF of_q(2)] snapshot_stored)
  from same [of i e e'] asked grow past show ?thesis by blast
qed

theorem tablets_agree_witness:
  "\<exists>sls sls' tp'. two_slaves_run (two_slaves_events @ later_slaves_events @ replica_events) two_slaves = Some sls \<and>
     two_slaves_run later_replica_events sls = Some sls' \<and> map_of (tablets_of (sls' slave_b)) whole_table = Some tp' \<and>
     \<lparr>ve_timestamp = 3, ve_value = ''v''\<rparr> \<in> set (stored_versions (kvs (node_derived (rs_node (tp_state tp')))) ''k'')"
proof -
  obtain sls sls' tp tp' where runs: "two_slaves_run (two_slaves_events @ later_slaves_events @ replica_events) two_slaves = Some sls"
      "two_slaves_run later_replica_events sls = Some sls'"
    and tps: "map_of (tablets_of (sls slave_a)) whole_table = Some tp" "map_of (tablets_of (sls' slave_b)) whole_table = Some tp'"
    and v: "stored_versions (kvs (node_derived (rs_node (tp_state tp)))) ''k'' = [\<lparr>ve_timestamp = 3, ve_value = ''v''\<rparr>]"
    and free: "first_free (node_log (rs_node (tp_state tp))) = 1" "first_free (node_log (rs_node (tp_state tp'))) = 1"
    using two_replicas_run by (elim exE conjE) rule
  have files: "\<forall>m::message_wrapper. m = m" "distinct [slave_a, slave_b]"
      "length [slave_a, slave_b] \<le> unat (num_slave_servers initialize_constants)"
      "majority_is_all initialize_constants [slave_a, slave_b]" "\<forall>s. distinct (get_all_endpoints (slave_channels s))"
    by (simp_all add: majority_is_all_def slave_channels_def get_all_endpoints_def)
  note agree = tablets_agree [OF files(1-4) slave_channels_silent files(5) runs tps refl refl]
  have "prefix (stored_versions (kvs (node_derived (rs_node (tp_state tp)))) ''k'')
      (stored_versions (kvs (node_derived (rs_node (tp_state tp')))) ''k'')"
    using conjunct2 [OF conjunct2 [OF agree]] free by simp
  with v have "\<lparr>ve_timestamp = 3, ve_value = ''v''\<rparr> \<in> set (stored_versions (kvs (node_derived (rs_node (tp_state tp')))) ''k'')"
    by (auto simp: prefix_def)
  with runs tps(2) show ?thesis by blast
qed

end
