(* ===== verification/KeySpaceManager.thy ===== *)
theory KeySpaceManager
  imports KeySpaceRange GuardedLog ClientRequestHandler PaxosServer
begin

text \<open>
  The masters' side of the key space: \<open>uni::master::GroupConfigManager\<close> and
  \<open>uni::master::KeySpaceManager\<close> (src/src/master), and the functors of src/src/master/functors.h.
  The masters' log assigns ranges of keys to slave groups in two steps, \<open>KeySpaceSelected\<close> and
  \<open>KeySpaceCommit\<close>; a client asks which group has a key, a slave reports the key space it installed.
  Both unordered maps are association lists with distinct keys in their iteration order.
\<close>

section \<open>GroupConfigManager\<close>

datatype group_config =
    Config "endpoint_id list" "32 word"
  | NewConfig "endpoint_id list" "endpoint_id list" "32 word"

type_synonym group_configs = "(slave_group_id \<times> group_config) list"

fun config_slave_endpoints :: "group_config \<Rightarrow> endpoint_id list" where
  "config_slave_endpoints (Config slaves generation) = slaves"
| "config_slave_endpoints (NewConfig slaves new_slaves generation) = slaves"

definition set_first_group_config :: "slave_group_id \<Rightarrow> endpoint_id list \<Rightarrow> group_configs \<Rightarrow> group_configs" where
  "set_first_group_config group_id slave_endpoints configs =
     (if group_id \<in> fst ` set configs then configs else configs @ [(group_id, Config slave_endpoints 0)])"

text \<open>\<open>operator[]\<close> inserts a default value when the key is missing: an empty \<open>Config\<close>.\<close>

definition group_endpoints :: "slave_group_id \<Rightarrow> group_configs \<Rightarrow> endpoint_id list \<times> group_configs" where
  "group_endpoints group_id configs =
     (case map_of configs group_id of
        Some c \<Rightarrow> (config_slave_endpoints c, configs)
      | None \<Rightarrow> ([], configs @ [(group_id, Config [] 0)]))"

fun get_group_id :: "endpoint_id \<Rightarrow> group_configs \<Rightarrow> slave_group_id option" where
  "get_group_id endpoint [] = None"
| "get_group_id endpoint ((group_id, c) # configs) =
     (if endpoint \<in> set (config_slave_endpoints c) then Some group_id else get_group_id endpoint configs)"

section \<open>State of the key space\<close>

datatype key_space =
    KeySpace "key_space_range list" "32 word"
  | NewKeySpace "key_space_range list" "key_space_range list" "32 word"

type_synonym slave_group_ranges = "(slave_group_id \<times> key_space) list"

text \<open>What the callbacks of the masters' log reach; the connections to the slaves are among it.\<close>

record 'w master_derived =
  md_timeline :: config_timeline
  md_configs :: group_configs
  md_groups :: slave_group_ranges
  md_slaves :: "'w connections"

type_synonym ('w, 'r) master_state = "('w, 'r, 'w master_derived) request_state"

definition RETRY_LIMIT :: int where "RETRY_LIMIT = 3"
definition WAIT_FOR_COMMIT_INSERTED :: int where "WAIT_FOR_COMMIT_INSERTED = 100"
definition WAIT_FOR_COMMIT :: int where "WAIT_FOR_COMMIT = 100"
definition WAIT_FOR_FREE :: int where "WAIT_FOR_FREE = 100"
definition WAIT_FOR_NEW_KEY_SPACE :: int where "WAIT_FOR_NEW_KEY_SPACE = 100"

definition set_first_key_space :: "slave_group_id \<Rightarrow> slave_group_ranges \<Rightarrow> slave_group_ranges" where
  "set_first_key_space group_id groups =
     (if group_id \<in> fst ` set groups then groups else groups @ [(group_id, KeySpace [] 0)])"

definition put_group :: "slave_group_id \<Rightarrow> key_space \<Rightarrow> slave_group_ranges \<Rightarrow> slave_group_ranges" where
  "put_group group_id ks groups = map (\<lambda>(g, k). if g = group_id then (g, ks) else (g, k)) groups"

section \<open>Messages\<close>

text \<open>The functors, and the message and the entry that announce a key space.\<close>

definition master_paxos_wrapper :: "paxos_message \<Rightarrow> message_wrapper" where
  "master_paxos_wrapper m = MasterMessage (MasterPaxos m)"

definition master_sync_wrapper :: "sync_message \<Rightarrow> message_wrapper" where
  "master_sync_wrapper m = MasterMessage (MasterSync m)"

definition find_key_respond ::
  "(message_wrapper \<Rightarrow> 'w) \<Rightarrow> endpoint_id \<Rightarrow> find_key_range_response \<Rightarrow> 'w connections \<Rightarrow> 'w connections" where
  "find_key_respond to_wire endpoint response c =
     (case get_channel endpoint c of
        Some ch \<Rightarrow>
          c\<lparr>channels := update_channel endpoint
             (queue_send (to_wire (ClientMessage (FindKeyRangeResponse response)))) (channels c)\<rparr>
      | None \<Rightarrow> c)"

definition build_new_key_space_selected_message :: "key_space_range list \<Rightarrow> 32 word \<Rightarrow> message_wrapper" where
  "build_new_key_space_selected_message new_ranges generation =
     MasterMessage (NewKeySpaceSelected (map (build_range default_pb_key_space_range) new_ranges) generation)"

definition build_new_key_space_selected_paxos ::
  "slave_group_id \<Rightarrow> key_space_range list \<Rightarrow> 32 word \<Rightarrow> paxos_log_entry" where
  "build_new_key_space_selected_paxos group_id new_ranges generation =
     KeySpaceSelected (group_string group_id) (map (build_range default_pb_key_space_range) new_ranges) generation"

text \<open>To the first slave of the group; there may be none.\<close>

definition announce ::
  "(message_wrapper \<Rightarrow> 'w) \<Rightarrow> slave_group_id \<Rightarrow> key_space_range list \<Rightarrow> 32 word
   \<Rightarrow> 'w master_derived \<Rightarrow> 'w master_derived result" where
  "announce to_wire group_id new_ranges generation d =
     (let (endpoints, configs) = group_endpoints group_id (md_configs d)
      in if endpoints = [] then Inl UndefinedBehaviour
         else Inr (d\<lparr>md_configs := configs, md_slaves :=
           broadcast [endpoints ! 0] (to_wire (build_new_key_space_selected_message new_ranges generation))
             (md_slaves d)\<rparr>))"

section \<open>The callbacks\<close>

fun key_space_selected :: "paxos_log_entry \<Rightarrow> string \<times> pb_key_space_range list \<times> 32 word" where
  "key_space_selected (KeySpaceSelected g rs n) = (g, rs, n)"
| "key_space_selected _ = ('''', [], 0)"

fun key_space_commit :: "paxos_log_entry \<Rightarrow> string \<times> 32 word" where
  "key_space_commit (KeySpaceCommit g n) = (g, n)"
| "key_space_commit _ = ('''', 0)"

definition on_key_space_selected ::
  "(message_wrapper \<Rightarrow> 'w) \<Rightarrow> index_t \<Rightarrow> paxos_log_entry \<Rightarrow> 'w master_derived \<Rightarrow> 'w master_derived result" where
  "on_key_space_selected to_wire index entry d =
     (let (group, pb_ranges, generation) = key_space_selected entry; group_id = SlaveGroupId group
      in case map_of (md_groups d) group_id of
           None \<Rightarrow> Inl (UniversalException
             ''There should already be a slave group before a NewKeySpaceSelected message is inserted for that group'')
         | Some (NewKeySpace _ _ _) \<Rightarrow> Inl (UniversalException
             ''When a NewKeySpaceSelected paxos message is inserted, the key space state should be KeySpace, not NewKeySpace'')
         | Some (KeySpace ranges old) \<Rightarrow>
             rbind (universal_assert (old + 1 = generation)
               ''The generation of the NewKeySpaceSelected should be one greater than the old'') (\<lambda>_.
             let new_ranges = map convert_range pb_ranges
             in announce to_wire group_id new_ranges generation
                  (d\<lparr>md_groups := put_group group_id (NewKeySpace ranges new_ranges generation) (md_groups d)\<rparr>)))"

definition on_key_space_commit ::
  "index_t \<Rightarrow> paxos_log_entry \<Rightarrow> 'w master_derived \<Rightarrow> 'w master_derived result" where
  "on_key_space_commit index entry d =
     (let (group, generation) = key_space_commit entry; group_id = SlaveGroupId group
      in case map_of (md_groups d) group_id of
           None \<Rightarrow> Inl (UniversalException
             ''There should already be a slave group before a KeySpaceCommit message is inserted for that group'')
         | Some (KeySpace _ _) \<Rightarrow> Inl (UniversalException
             ''When a KeySpaceCommit paxos message is inserted, the key space state should be NewKeySpace, not KeySpace'')
         | Some (NewKeySpace ranges new_ranges new) \<Rightarrow>
             rbind (universal_assert (new = generation)
               ''The generation of the KeySpaceCommit should be equals to that of the current new key space'') (\<lambda>_.
             Inr (d\<lparr>md_groups := put_group group_id (KeySpace new_ranges new) (md_groups d)\<rparr>)))"

text \<open>The registrations of the configuration manager and of the constructor.\<close>

definition master_log :: "(message_wrapper \<Rightarrow> 'w) \<Rightarrow> 'w master_derived paxos_log" where
  "master_log to_wire =
     add_callback KKeySpaceCommit on_key_space_commit
       (add_callback KKeySpaceSelected (on_key_space_selected to_wire)
         (register_config_manager md_timeline (\<lambda>t d. d\<lparr>md_timeline := t\<rparr>) PaxosLog))"

section \<open>Finding a key\<close>

text \<open>The first group that has the key, or is about to get it.\<close>

datatype found = Assigned slave_group_id | InProgress slave_group_id "key_space_range list" "32 word"

fun search_groups :: "find_key_range_request \<Rightarrow> slave_group_ranges \<Rightarrow> found option" where
  "search_groups message [] = None"
| "search_groups message ((group_id, KeySpace ranges generation) # groups) =
     (if list_ex (\<lambda>r. within_range r (fk_database_id message) (fk_table_id message) (fk_key message)) ranges
      then Some (Assigned group_id) else search_groups message groups)"
| "search_groups message ((group_id, NewKeySpace ranges new_ranges generation) # groups) =
     (if list_ex (\<lambda>r. within_range r (fk_database_id message) (fk_table_id message) (fk_key message)) new_ranges
      then Some (InProgress group_id new_ranges generation) else search_groups message groups)"

text \<open>The first group whose key space is not changing.\<close>

fun free_group :: "slave_group_ranges \<Rightarrow> (slave_group_id \<times> key_space_range list \<times> 32 word) option" where
  "free_group [] = None"
| "free_group ((group_id, NewKeySpace ranges new_ranges generation) # groups) = free_group groups"
| "free_group ((group_id, KeySpace ranges generation) # groups) = Some (group_id, ranges, generation)"

text \<open>The entry proposed for a key nobody has: the whole table goes to the free group.\<close>

definition requested_table :: "find_key_range_request \<Rightarrow> key_space_range" where
  "requested_table message =
     \<lparr>database_id = fk_database_id message, table_id = fk_table_id message, start_key = None, end_key = None\<rparr>"

definition assignment :: "find_key_range_request \<Rightarrow> slave_group_ranges \<Rightarrow> paxos_log_entry option" where
  "assignment message groups =
     (case free_group groups of
        None \<Rightarrow> None
      | Some (group_id, ranges, generation) \<Rightarrow>
          let new_ranges = ranges @ [requested_table message]
          in Some (build_new_key_space_selected_paxos group_id new_ranges (generation + 1)))"

text \<open>The error code of a success is never set.\<close>

definition found_response :: "slave_group_id \<Rightarrow> find_key_range_response" where
  "found_response group_id = \<lparr>found_slave_group_id = group_string group_id, found_code = CodeUnset\<rparr>"

definition not_found_response :: find_key_range_response where
  "not_found_response = \<lparr>found_slave_group_id = '''', found_code = ERROR\<rparr>"

definition find_key_answer ::
  "(message_wrapper \<Rightarrow> 'w) \<Rightarrow> endpoint_id \<Rightarrow> find_key_range_response \<Rightarrow> ('w, 'r) master_state \<Rightarrow> ('w, 'r) master_state" where
  "find_key_answer to_wire endpoint response s = s\<lparr>rs_clients := find_key_respond to_wire endpoint response (rs_clients s)\<rparr>"

definition find_key_task ::
  "(message_wrapper \<Rightarrow> 'w) \<Rightarrow> ('r \<Rightarrow> 32 word \<times> 'r) \<Rightarrow> nat \<Rightarrow> find_key_range_request \<Rightarrow> endpoint_id
   \<Rightarrow> ('w, 'r) master_state async_task" where
  "find_key_task to_wire rand retry_count message endpoint s =
     (let nd = rs_node s; d = node_derived nd
      in case search_groups message (md_groups d) of
           Some (Assigned group_id) \<Rightarrow>
             Inr (TERMINATE, find_key_answer to_wire endpoint (found_response group_id) s)
         | Some (InProgress group_id new_ranges generation) \<Rightarrow>
             rbind (announce to_wire group_id new_ranges generation d) (\<lambda>d'.
             Inr (WAIT_FOR_COMMIT_INSERTED, s\<lparr>rs_node := nd\<lparr>node_derived := d'\<rparr>\<rparr>))
         | None \<Rightarrow>
             if rs_retry_counts s ! retry_count = KeySpaceManager.RETRY_LIMIT then
               Inr (TERMINATE, find_key_answer to_wire endpoint not_found_response s)
             else
               (case assignment message (md_groups d) of
                  None \<Rightarrow> Inr (WAIT_FOR_FREE, s)
                | Some entry \<Rightarrow>
                    rbind (request_propose (\<lambda>p. to_wire (master_paxos_wrapper p)) (config_provider md_timeline) rand entry s)
                    (\<lambda>s'. Inr (WAIT_FOR_NEW_KEY_SPACE,
                      s'\<lparr>rs_retry_counts := (rs_retry_counts s')[retry_count := rs_retry_counts s' ! retry_count + 1]\<rparr>))))"

definition handle_find_key ::
  "(message_wrapper \<Rightarrow> 'w) \<Rightarrow> ('r \<Rightarrow> 32 word \<times> 'r) \<Rightarrow> endpoint_id \<Rightarrow> find_key_range_request
   \<Rightarrow> ('w, 'r) master_state async_queue \<times> ('w, 'r) master_state
   \<Rightarrow> ('w, 'r) master_state async_queue \<times> ('w, 'r) master_state" where
  "handle_find_key to_wire rand endpoint message x =
     (let (q, s) = x; retry_count = length (rs_retry_counts s)
      in (add_task (find_key_task to_wire rand retry_count message endpoint) q,
          s\<lparr>rs_retry_counts := rs_retry_counts s @ [0]\<rparr>))"

section \<open>A slave has changed its key space\<close>

text \<open>\<open>_slave_group_ranges[group_id]\<close> inserts an empty \<open>KeySpace\<close> when the group is missing.\<close>

definition group_key_space :: "slave_group_id \<Rightarrow> slave_group_ranges \<Rightarrow> key_space \<times> slave_group_ranges" where
  "group_key_space group_id groups =
     (case map_of groups group_id of
        Some ks \<Rightarrow> (ks, groups)
      | None \<Rightarrow> (KeySpace [] 0, groups @ [(group_id, KeySpace [] 0)]))"

definition commit_task ::
  "(message_wrapper \<Rightarrow> 'w) \<Rightarrow> ('r \<Rightarrow> 32 word \<times> 'r) \<Rightarrow> endpoint_id \<Rightarrow> 32 word \<Rightarrow> ('w, 'r) master_state async_task" where
  "commit_task to_wire rand endpoint generation s =
     (let nd = rs_node s; d = node_derived nd
      in case get_group_id endpoint (md_configs d) of
           None \<Rightarrow> Inr (TERMINATE, s)
         | Some group_id \<Rightarrow>
             let (ks, groups) = group_key_space group_id (md_groups d);
                 s' = s\<lparr>rs_node := nd\<lparr>node_derived := d\<lparr>md_groups := groups\<rparr>\<rparr>\<rparr>
             in (case ks of
                   KeySpace _ _ \<Rightarrow> Inr (TERMINATE, s')
                 | NewKeySpace ranges new_ranges new \<Rightarrow>
                     if new = generation then
                       rbind (request_propose (\<lambda>p. to_wire (master_paxos_wrapper p)) (config_provider md_timeline) rand
                         (KeySpaceCommit (group_string group_id) generation) s') (\<lambda>s''.
                       Inr (WAIT_FOR_COMMIT, s''))
                     else Inr (TERMINATE, s')))"

definition handle_key_space_changed ::
  "(message_wrapper \<Rightarrow> 'w) \<Rightarrow> ('r \<Rightarrow> 32 word \<times> 'r) \<Rightarrow> endpoint_id \<Rightarrow> 32 word
   \<Rightarrow> ('w, 'r) master_state async_queue \<Rightarrow> ('w, 'r) master_state async_queue" where
  "handle_key_space_changed to_wire rand endpoint generation q =
     add_task (commit_task to_wire rand endpoint generation) q"

section \<open>The callbacks of the masters' log\<close>

definition master_callbacks :: "(message_wrapper \<Rightarrow> 'w) \<Rightarrow> content_case \<Rightarrow> 'w master_derived log_callback list" where
  "master_callbacks to_wire = callbacks (master_log to_wire)"

lemma master_log_eq:
  "master_log to_wire = \<lparr>log = Map.empty, available_indices = [0], callbacks = master_callbacks to_wire\<rparr>"
  by (simp add: master_callbacks_def master_log_def register_config_manager_def add_callback_def PaxosLog_def)

lemma master_log_inv: "log_inv (master_log to_wire)"
  by (simp add: master_log_def register_config_manager_def log_inv_add_callback log_inv_PaxosLog)

lemma master_callbacks_simps:
  "master_callbacks to_wire KKeySpaceSelected = [on_key_space_selected to_wire]"
  "master_callbacks to_wire KKeySpaceCommit = [on_key_space_commit]"
  "master_callbacks to_wire KReconfigStarted =
     [\<lambda>i e d. rbind (on_reconfig_started i e (md_timeline d)) (\<lambda>t. Inr (d\<lparr>md_timeline := t\<rparr>))]"
  "cc \<notin> {KKeySpaceSelected, KKeySpaceCommit, KReconfigStarted} \<Longrightarrow> master_callbacks to_wire cc = []"
  by (simp_all add: master_callbacks_def master_log_def register_config_manager_def add_callback_def PaxosLog_def)

lemma apply_entry_master:
  "apply_entry (master_callbacks to_wire) i e d =
     (case e of
        KeySpaceSelected g rs n \<Rightarrow> on_key_space_selected to_wire i e d
      | KeySpaceCommit g n \<Rightarrow> on_key_space_commit i e d
      | ReconfigStarted ss \<Rightarrow> rbind (on_reconfig_started i e (md_timeline d)) (\<lambda>t. Inr (d\<lparr>md_timeline := t\<rparr>))
      | _ \<Rightarrow> Inr d)"
proof -
  have bind_Inr: "rbind r (rfold f []) = r" for r :: "'x result" and f :: "'y \<Rightarrow> 'x \<Rightarrow> 'x result"
    by (cases r) simp_all
  show ?thesis by (cases e) (simp_all add: apply_entry_def master_callbacks_simps bind_Inr)
qed

section \<open>The state follows the log\<close>

text \<open>Every group has a configuration, so no access inserts a default.\<close>

definition configured :: "'w master_derived \<Rightarrow> bool" where
  "configured d \<longleftrightarrow> fst ` set (md_configs d) = fst ` set (md_groups d)"

lemma map_of_Some_key: "k \<in> fst ` set xs \<longleftrightarrow> (\<exists>v. map_of xs k = Some v)"
  by (metis map_of_eq_None_iff option.exhaust option.distinct(1))

lemma put_group_keys [simp]: "map fst (put_group g ks groups) = map fst groups"
  by (induction groups) (auto simp: put_group_def)

lemma put_group_dom [simp]: "fst ` set (put_group g ks groups) = fst ` set groups"
  by (metis put_group_keys set_map)

lemma announce_Inr:
  assumes "group_id \<in> fst ` set (md_configs d)"
  shows "announce to_wire group_id rs n d = Inr d' \<longleftrightarrow>
    fst (group_endpoints group_id (md_configs d)) \<noteq> [] \<and>
    d' = d\<lparr>md_slaves := broadcast [fst (group_endpoints group_id (md_configs d)) ! 0]
      (to_wire (build_new_key_space_selected_message rs n)) (md_slaves d)\<rparr>"
proof -
  from assms obtain c where "map_of (md_configs d) group_id = Some c" by (auto simp: map_of_Some_key)
  then show ?thesis by (auto simp: announce_def group_endpoints_def simp del: broadcast.simps)
qed

lemma announce_ok:
  "group_id \<in> fst ` set (md_configs d) \<Longrightarrow> fst (group_endpoints group_id (md_configs d)) \<noteq> [] \<Longrightarrow>
     announce to_wire group_id rs n d = Inr (d\<lparr>md_slaves :=
       broadcast [fst (group_endpoints group_id (md_configs d)) ! 0]
         (to_wire (build_new_key_space_selected_message rs n)) (md_slaves d)\<rparr>)"
  by (simp only: announce_Inr) simp

lemma selected_Inr:
  assumes "configured d"
  shows "on_key_space_selected to_wire i (KeySpaceSelected g rs n) d = Inr d' \<longleftrightarrow>
    (\<exists>ranges old. map_of (md_groups d) (SlaveGroupId g) = Some (KeySpace ranges old) \<and> n = old + 1 \<and>
       fst (group_endpoints (SlaveGroupId g) (md_configs d)) \<noteq> [] \<and>
       d' = d\<lparr>md_groups := put_group (SlaveGroupId g) (NewKeySpace ranges (map convert_range rs) n) (md_groups d),
              md_slaves := broadcast [fst (group_endpoints (SlaveGroupId g) (md_configs d)) ! 0]
                (to_wire (build_new_key_space_selected_message (map convert_range rs) n)) (md_slaves d)\<rparr>)"
proof (cases "map_of (md_groups d) (SlaveGroupId g)")
  case (Some ks)
  then have "SlaveGroupId g \<in> fst ` set (md_configs d)" using assms by (auto simp: configured_def map_of_Some_key)
  with Some show ?thesis
    by (cases ks) (auto simp: on_key_space_selected_def Let_def rbind_eq_Inr announce_Inr simp del: broadcast.simps)
qed (simp add: on_key_space_selected_def)

lemma commit_Inr:
  "on_key_space_commit i (KeySpaceCommit g n) d = Inr d' \<longleftrightarrow>
    (\<exists>ranges new_ranges. map_of (md_groups d) (SlaveGroupId g) = Some (NewKeySpace ranges new_ranges n) \<and>
       d' = d\<lparr>md_groups := put_group (SlaveGroupId g) (KeySpace new_ranges n) (md_groups d)\<rparr>)"
  by (auto simp: on_key_space_commit_def Let_def rbind_eq_Inr split: option.splits key_space.splits)

definition master_follows :: "'w master_derived \<Rightarrow> 'w master_derived \<Rightarrow> bool" where
  "master_follows d d0 \<longleftrightarrow> configured d \<and>
     md_timeline d = md_timeline d0 \<and> md_configs d = md_configs d0 \<and> md_groups d = md_groups d0"

lemma configured_updates [simp]:
  "configured (d\<lparr>md_slaves := c\<rparr>) = configured d" "configured (d\<lparr>md_timeline := t\<rparr>) = configured d"
  "md_groups d = groups \<Longrightarrow> configured (d\<lparr>md_groups := put_group g ks groups\<rparr>) = configured d"
  by (simp_all add: configured_def)

lemma master_follows_configured: "master_follows d d0 \<Longrightarrow> configured d \<and> configured d0"
  unfolding master_follows_def configured_def by (elim conjE) simp

lemma master_follows_apply:
  assumes "apply_entry (master_callbacks to_wire) i e d = Inr d'" "master_follows d d0"
  shows "\<exists>d0'. apply_entry (master_callbacks to_wire) i e d0 = Inr d0' \<and> master_follows d' d0'"
proof (cases e)
  case (KeySpaceSelected g rs n)
  with assms master_follows_configured [OF assms(2)] show ?thesis
    by (auto simp: apply_entry_master selected_Inr master_follows_def simp del: broadcast.simps)
next
  case (KeySpaceCommit g n)
  with assms show ?thesis by (auto simp: apply_entry_master commit_Inr master_follows_def)
next
  case (ReconfigStarted ss)
  with assms show ?thesis by (auto simp: apply_entry_master master_follows_def rbind_eq_Inr)
qed (use assms in \<open>simp_all add: apply_entry_master\<close>)

interpretation master: log_follower "master_callbacks to_wire" master_follows for to_wire
  by unfold_locales (rule master_follows_apply)

section \<open>Who owns a key\<close>

text \<open>
  The ranges a group has or is about to have. Only whole tables are assigned, and a table is given
  to one group.
\<close>

fun latest_ranges :: "key_space \<Rightarrow> key_space_range list" where
  "latest_ranges (KeySpace ranges n) = ranges"
| "latest_ranges (NewKeySpace ranges new_ranges n) = new_ranges"

definition owned :: "slave_group_ranges \<Rightarrow> key_space_range list" where
  "owned groups = concat (map (\<lambda>(g, ks). latest_ranges ks) groups)"

definition whole :: "key_space_range \<Rightarrow> bool" where
  "whole r \<longleftrightarrow> start_key r = None \<and> end_key r = None"

fun growing :: "key_space \<Rightarrow> bool" where
  "growing (KeySpace ranges n) \<longleftrightarrow> True"
| "growing (NewKeySpace ranges new_ranges n) \<longleftrightarrow> set ranges \<subseteq> set new_ranges"

definition groups_inv :: "slave_group_ranges \<Rightarrow> bool" where
  "groups_inv groups \<longleftrightarrow> distinct (map fst groups) \<and> distinct (owned groups) \<and>
     (\<forall>r\<in>set (owned groups). whole r) \<and> (\<forall>(g, ks)\<in>set groups. growing ks)"

text \<open>What a task of a master with the state \<open>d\<close> would propose.\<close>

definition master_proposal :: "'w master_derived \<Rightarrow> paxos_log_entry \<Rightarrow> bool" where
  "master_proposal d e \<longleftrightarrow>
     (\<exists>message. search_groups message (md_groups d) = None \<and> assignment message (md_groups d) = Some e) \<or>
     (\<exists>g ranges new_ranges n. map_of (md_groups d) g = Some (NewKeySpace ranges new_ranges n) \<and>
        e = KeySpaceCommit (group_string g) n)"

text \<open>Every group has a slave to talk to.\<close>

definition staffed :: "'w master_derived \<Rightarrow> bool" where
  "staffed d \<longleftrightarrow> configured d \<and> (\<forall>g\<in>fst ` set (md_groups d). fst (group_endpoints g (md_configs d)) \<noteq> [])"

definition master_guard :: "'w master_derived \<Rightarrow> paxos_log_entry \<Rightarrow> bool" where
  "master_guard d e \<longleftrightarrow> master_proposal d e \<and> staffed d \<and> groups_inv (md_groups d)"

lemma free_group_Some: "free_group groups = Some (g, ranges, n) \<Longrightarrow> (g, KeySpace ranges n) \<in> set groups"
  by (induction groups rule: free_group.induct) auto

lemma owned_simps [simp]:
  "owned [] = []" "owned ((g, ks) # groups) = latest_ranges ks @ owned groups"
  "owned (us @ vs) = owned us @ owned vs"
  by (simp_all add: owned_def)

lemma search_groups_None:
  "search_groups message groups = None \<longleftrightarrow>
     (\<forall>r\<in>set (owned groups). \<not> within_range r (fk_database_id message) (fk_table_id message) (fk_key message))"
  by (induction message groups rule: search_groups.induct) (auto simp: list_ex_iff)

lemma whole_within: "whole r \<Longrightarrow> within_range r db t k \<longleftrightarrow> database_id r = db \<and> table_id r = t"
  by (simp add: whole_def within_range_iff)

lemma whole_unique:
  "whole r \<Longrightarrow> whole r' \<Longrightarrow> within_range r db t k \<Longrightarrow> within_range r' db t k \<Longrightarrow> r = r'"
  by (auto simp: whole_def within_range_iff intro: key_space_range.equality)

lemma convert_build_ranges [simp]: "map (convert_range \<circ> build_range default_pb_key_space_range) rs = rs"
  by (simp add: map_idI)

lemma put_group_split:
  assumes "distinct (map fst groups)" "map_of groups g = Some old"
  obtains us vs where "groups = us @ (g, old) # vs" "\<And>ks. put_group g ks groups = us @ (g, ks) # vs"
proof -
  from map_of_SomeD [OF assms(2)] obtain us vs where s: "groups = us @ (g, old) # vs" by (auto dest: split_list)
  with assms(1) have "g \<notin> fst ` set us" "g \<notin> fst ` set vs" by auto
  then have "put_group g ks us = us" "put_group g ks vs = vs" for ks
    by (force simp: put_group_def intro!: map_idI)+
  with s that show ?thesis by (simp add: put_group_def)
qed

lemma requested_table [simp]:
  "whole (requested_table message)"
  "within_range (requested_table message) (fk_database_id message) (fk_table_id message) (fk_key message)"
  by (simp_all add: requested_table_def whole_def within_range_iff)

lemma assignment_applies:
  assumes "assignment message (md_groups d) = Some e" "staffed d" "distinct (map fst (md_groups d))"
  shows "\<exists>g ranges n c. map_of (md_groups d) g = Some (KeySpace ranges n) \<and>
    apply_entry (master_callbacks to_wire) i e d = Inr (d\<lparr>md_groups :=
      put_group g (NewKeySpace ranges (ranges @ [requested_table message]) (n + 1)) (md_groups d), md_slaves := c\<rparr>)"
proof -
  from assms(1) obtain g ranges n where free: "free_group (md_groups d) = Some (g, ranges, n)"
    and e: "e = build_new_key_space_selected_paxos g (ranges @ [requested_table message]) (n + 1)"
    by (auto simp: assignment_def Let_def split: option.splits)
  from free_group_Some [OF free] assms(3) have m: "map_of (md_groups d) g = Some (KeySpace ranges n)" by simp
  then have "g \<in> fst ` set (md_groups d)" using map_of_Some_key by metis
  then have "fst (group_endpoints g (md_configs d)) \<noteq> []" "configured d"
    using assms(2) unfolding staffed_def by blast+
  with m have "apply_entry (master_callbacks to_wire) i e d = Inr (d\<lparr>md_groups :=
      put_group g (NewKeySpace ranges (ranges @ [requested_table message]) (n + 1)) (md_groups d),
      md_slaves := broadcast [fst (group_endpoints g (md_configs d)) ! 0]
        (to_wire (build_new_key_space_selected_message (ranges @ [requested_table message]) (n + 1))) (md_slaves d)\<rparr>)"
    unfolding e by (simp add: apply_entry_master selected_Inr build_new_key_space_selected_paxos_def del: broadcast.simps)
  with m show ?thesis by blast
qed

lemma master_guard_effect:
  assumes "master_guard d e"
  shows "\<exists>g old ks c. apply_entry (master_callbacks to_wire) i e d = Inr (d\<lparr>md_groups := put_group g ks (md_groups d), md_slaves := c\<rparr>) \<and>
    map_of (md_groups d) g = Some old \<and> growing ks \<and>
    (latest_ranges ks = latest_ranges old \<or>
     (\<exists>r. latest_ranges ks = latest_ranges old @ [r] \<and> whole r \<and> r \<notin> set (owned (md_groups d))))"
proof -
  from assms have st: "staffed d" "distinct (map fst (md_groups d))" by (auto simp: master_guard_def groups_inv_def)
  from assms consider
    (assign) message where "search_groups message (md_groups d) = None" "assignment message (md_groups d) = Some e"
  | (commit) g ranges new_ranges n where "map_of (md_groups d) g = Some (NewKeySpace ranges new_ranges n)"
      "e = KeySpaceCommit (group_string g) n"
    by (auto simp: master_guard_def master_proposal_def)
  then show ?thesis
  proof cases
    case assign
    from assignment_applies [OF assign(2) st, of to_wire i] obtain g ranges n where
      m: "map_of (md_groups d) g = Some (KeySpace ranges n)"
      and eff: "\<exists>c. apply_entry (master_callbacks to_wire) i e d = Inr (d\<lparr>md_groups :=
        put_group g (NewKeySpace ranges (ranges @ [requested_table message]) (n + 1)) (md_groups d), md_slaves := c\<rparr>)"
      by blast
    from assign(1) have "requested_table message \<notin> set (owned (md_groups d))"
      using requested_table(2) [of message] by (auto simp: search_groups_None)
    with eff m show ?thesis
      by (intro exI [of _ g]) (rule exI [of _ "KeySpace ranges n"],
        rule exI [of _ "NewKeySpace ranges (ranges @ [requested_table message]) (n + 1)"], auto)
  next
    case commit
    then have "apply_entry (master_callbacks to_wire) i e d =
        Inr (d\<lparr>md_groups := put_group g (KeySpace new_ranges n) (md_groups d), md_slaves := md_slaves d\<rparr>)"
      by (simp add: apply_entry_master commit_Inr)
    then have eff: "\<exists>c. apply_entry (master_callbacks to_wire) i e d =
        Inr (d\<lparr>md_groups := put_group g (KeySpace new_ranges n) (md_groups d), md_slaves := c\<rparr>)" by blast
    show ?thesis
      by (rule exI [of _ g], rule exI [of _ "NewKeySpace ranges new_ranges n"], rule exI [of _ "KeySpace new_ranges n"])
        (use eff commit(1) in auto)
  qed
qed

interpretation assignments: guarded_client "master_callbacks to_wire" master_guard for to_wire
  by unfold_locales (metis master_guard_effect is_ok_simps(1))

text \<open>The invariant, and that keys stay with their owner.\<close>

lemma owned_put:
  assumes "distinct (map fst groups)" "map_of groups g = Some old"
    and "latest_ranges ks = latest_ranges old \<or>
      (\<exists>r. latest_ranges ks = latest_ranges old @ [r] \<and> whole r \<and> r \<notin> set (owned groups))"
    and "groups_inv groups" "growing ks"
  shows "groups_inv (put_group g ks groups)"
proof -
  from put_group_split [OF assms(1,2)] obtain us vs where
    s: "groups = us @ (g, old) # vs" "put_group g ks groups = us @ (g, ks) # vs" by metis
  have "distinct (owned (put_group g ks groups)) \<and> (\<forall>r\<in>set (owned (put_group g ks groups)). whole r)"
    using assms(3,4) unfolding s(2) by (auto simp: s(1) groups_inv_def)
  moreover have "\<forall>(g, ks)\<in>set (put_group g ks groups). growing ks"
    using assms(4,5) unfolding s(2) by (auto simp: s(1) groups_inv_def)
  ultimately show ?thesis using assms(4) by (simp add: groups_inv_def)
qed

text \<open>The groups a key belongs to, or is about to.\<close>

definition owners :: "slave_group_ranges \<Rightarrow> string \<Rightarrow> string \<Rightarrow> string \<Rightarrow> slave_group_id set" where
  "owners groups db t k =
     fst ` set (filter (\<lambda>(g, ks). list_ex (\<lambda>r. within_range r db t k) (latest_ranges ks)) groups)"

lemma owners_iff:
  "g \<in> owners groups db t k \<longleftrightarrow> (\<exists>ks r. (g, ks) \<in> set groups \<and> r \<in> set (latest_ranges ks) \<and> within_range r db t k)"
  by (force simp: owners_def list_ex_iff)

lemma owners_empty: "owners groups (fk_database_id message) (fk_table_id message) (fk_key message) = {} \<longleftrightarrow>
    search_groups message groups = None"
  unfolding search_groups_None by (fastforce simp: owners_def owned_def list_ex_iff)

lemma owners_put:
  assumes "distinct (map fst groups)" "map_of groups g = Some old" "set (latest_ranges old) \<subseteq> set (latest_ranges ks)"
  shows "owners groups db t k \<subseteq> owners (put_group g ks groups) db t k"
proof -
  from put_group_split [OF assms(1,2)] obtain us vs where
    "groups = us @ (g, old) # vs" "put_group g ks groups = us @ (g, ks) # vs" by metis
  with assms(3) show ?thesis by (auto simp: owners_def list_ex_iff)
qed

lemma distinct_concat_unique:
  "distinct (concat (map f xs)) \<Longrightarrow> x \<in> set xs \<Longrightarrow> y \<in> set xs \<Longrightarrow> r \<in> set (f x) \<Longrightarrow> r \<in> set (f y) \<Longrightarrow> x = y"
  by (induction xs) auto

lemma owners_unique:
  assumes "groups_inv groups" "g \<in> owners groups db t k" "g' \<in> owners groups db t k"
  shows "g = g'"
proof -
  from assms(2,3) obtain ks r ks' r' where
    a: "(g, ks) \<in> set groups" "r \<in> set (latest_ranges ks)" "within_range r db t k"
    and b: "(g', ks') \<in> set groups" "r' \<in> set (latest_ranges ks')" "within_range r' db t k"
    by (auto simp: owners_iff)
  from a(1,2) b(1,2) have "r \<in> set (owned groups)" "r' \<in> set (owned groups)" by (auto simp: owned_def)
  with assms(1) a(3) b(3) have "r = r'" by (auto simp: groups_inv_def intro: whole_unique)
  with a b assms(1) distinct_concat_unique [of "\<lambda>(g, ks). latest_ranges ks" groups "(g, ks)" "(g', ks')" r]
  show ?thesis by (auto simp: groups_inv_def owned_def)
qed

text \<open>With one owner, the order of the search does not matter.\<close>

lemma search_groups_Some:
  "search_groups message groups = Some (InProgress g rs n) \<Longrightarrow> \<exists>ranges. (g, NewKeySpace ranges rs n) \<in> set groups \<and>
     list_ex (\<lambda>r. within_range r (fk_database_id message) (fk_table_id message) (fk_key message)) rs"
  "search_groups message groups = Some (Assigned g) \<Longrightarrow> \<exists>ranges n. (g, KeySpace ranges n) \<in> set groups \<and>
     list_ex (\<lambda>r. within_range r (fk_database_id message) (fk_table_id message) (fk_key message)) ranges"
  by (induction message groups rule: search_groups.induct) (auto split: if_splits)

fun found_in :: "slave_group_id \<Rightarrow> key_space \<Rightarrow> found" where
  "found_in g (KeySpace ranges n) = Assigned g"
| "found_in g (NewKeySpace ranges new_ranges n) = InProgress g new_ranges n"

lemma search_groups_owner:
  assumes "groups_inv groups" "(g, ks) \<in> set groups" "r \<in> set (latest_ranges ks)"
    and "within_range r (fk_database_id message) (fk_table_id message) (fk_key message)"
  shows "search_groups message groups = Some (found_in g ks)"
proof -
  let ?o = "owners groups (fk_database_id message) (fk_table_id message) (fk_key message)"
  from assms have g: "g \<in> ?o" by (auto simp: owners_iff)
  then obtain x where x: "search_groups message groups = Some x" by (metis owners_empty empty_iff option.exhaust)
  have "\<exists>g' ks'. (g', ks') \<in> set groups \<and> g' \<in> ?o \<and> x = found_in g' ks'"
  proof (cases x)
    case (Assigned g')
    with x search_groups_Some(2) obtain ranges n where "(g', KeySpace ranges n) \<in> set groups"
      "list_ex (\<lambda>r. within_range r (fk_database_id message) (fk_table_id message) (fk_key message)) ranges" by blast
    with Assigned show ?thesis
      by (intro exI [of _ g'] exI [of _ "KeySpace ranges n"]) (auto simp: owners_iff list_ex_iff intro!: exI [of _ "KeySpace ranges n"])
  next
    case (InProgress g' rs n)
    with x search_groups_Some(1) obtain ranges where "(g', NewKeySpace ranges rs n) \<in> set groups"
      "list_ex (\<lambda>r. within_range r (fk_database_id message) (fk_table_id message) (fk_key message)) rs" by blast
    with InProgress show ?thesis
      by (intro exI [of _ g'] exI [of _ "NewKeySpace ranges rs n"])
        (auto simp: owners_iff list_ex_iff intro!: exI [of _ "NewKeySpace ranges rs n"])
  qed
  then obtain g' ks' where f: "(g', ks') \<in> set groups" "g' \<in> ?o" "x = found_in g' ks'" by blast
  from owners_unique [OF assms(1) g f(2)] f(1) assms(1,2) have "g' = g" "ks' = ks"
    by (auto simp: groups_inv_def dest: eq_key_imp_eq_value)
  with x f(3) show ?thesis by simp
qed

lemma put_group_mem: "map_of groups g = Some old \<Longrightarrow> (g, ks) \<in> set (put_group g ks groups)"
  by (force simp: put_group_def dest: map_of_SomeD)

lemma master_guard_keeps:
  assumes "master_guard d e" "apply_entry (master_callbacks to_wire) i e d = Inr d'"
  shows "staffed d' \<and> groups_inv (md_groups d') \<and> owners (md_groups d) db t k \<subseteq> owners (md_groups d') db t k"
proof -
  from master_guard_effect [OF assms(1), of to_wire i] assms(2) obtain g old ks c where
    d': "d' = d\<lparr>md_groups := put_group g ks (md_groups d), md_slaves := c\<rparr>"
    and h: "map_of (md_groups d) g = Some old" "growing ks"
      "latest_ranges ks = latest_ranges old \<or>
       (\<exists>r. latest_ranges ks = latest_ranges old @ [r] \<and> whole r \<and> r \<notin> set (owned (md_groups d)))" by auto
  have "groups_inv (md_groups d)" "staffed d" using assms(1) by (auto simp: master_guard_def)
  moreover from this(1) have dist: "distinct (map fst (md_groups d))" by (simp add: groups_inv_def)
  moreover from h(3) have "set (latest_ranges old) \<subseteq> set (latest_ranges ks)" by auto
  ultimately show ?thesis
    using owned_put [OF dist h(1,3) _ h(2)] owners_put [OF dist h(1)] by (simp add: d' staffed_def configured_def)
qed

text \<open>An assignment gives the key to one group.\<close>

lemma assignment_None:
  assumes "assignment message groups = None"
  shows "\<forall>(g, ks)\<in>set groups. \<exists>rs rs' n. ks = NewKeySpace rs rs' n"
proof -
  from assms have "free_group groups = None" by (auto simp: assignment_def Let_def split: option.splits)
  then show ?thesis by (induction groups rule: free_group.induct) auto
qed

lemma assignment_owner:
  assumes "search_groups message (md_groups d) = None" "assignment message (md_groups d) = Some e"
    and "staffed d" "groups_inv (md_groups d)"
  shows "\<exists>d' g. apply_entry (master_callbacks to_wire) i e d = Inr d' \<and>
    owners (md_groups d') (fk_database_id message) (fk_table_id message) (fk_key message) = {g}"
proof -
  have "distinct (map fst (md_groups d))" using assms(4) by (simp add: groups_inv_def)
  from assignment_applies [OF assms(2,3) this, of to_wire i] obtain g ranges n c where
    m: "map_of (md_groups d) g = Some (KeySpace ranges n)"
    and eff: "apply_entry (master_callbacks to_wire) i e d = Inr (d\<lparr>md_groups :=
      put_group g (NewKeySpace ranges (ranges @ [requested_table message]) (n + 1)) (md_groups d), md_slaves := c\<rparr>)"
    (is "_ = Inr ?d'") by blast
  have "master_guard d e" using assms by (auto simp: master_guard_def master_proposal_def)
  from master_guard_keeps [OF this eff] have "groups_inv (md_groups ?d')" by blast
  moreover have "g \<in> owners (md_groups ?d') (fk_database_id message) (fk_table_id message) (fk_key message)"
    using put_group_mem [OF m] requested_table(2) [of message] by (fastforce simp: owners_iff)
  ultimately show ?thesis using eff owners_unique by blast
qed

section \<open>A log of proposals\<close>

text \<open>Every entry below \<open>n\<close> was proposed on a master whose state was the replay below the entry.\<close>

definition proposed_log ::
  "(message_wrapper \<Rightarrow> 'w) \<Rightarrow> (index_t \<rightharpoonup> paxos_log_entry) \<Rightarrow> index_t \<Rightarrow> 'w master_derived \<Rightarrow> bool" where
  "proposed_log to_wire m n init \<longleftrightarrow>
     (\<forall>i d. i < n \<longrightarrow> replay (master_callbacks to_wire) m i init = Inr d \<longrightarrow> master_proposal d (the (m i)))"

lemma proposed_log_below: "proposed_log to_wire m n init \<Longrightarrow> k \<le> n \<Longrightarrow> proposed_log to_wire m k init"
  by (auto simp: proposed_log_def)

lemma proposed_log_replay:
  assumes "proposed_log to_wire m n init" "staffed init" "groups_inv (md_groups init)"
  shows "\<exists>d. replay (master_callbacks to_wire) m n init = Inr d \<and> staffed d \<and> groups_inv (md_groups d)"
proof (rule word_induct_below [where j = n])
  fix i
  assume i: "i < n" "\<exists>d. replay (master_callbacks to_wire) m i init = Inr d \<and> staffed d \<and> groups_inv (md_groups d)"
  then obtain d where d: "replay (master_callbacks to_wire) m i init = Inr d" "staffed d" "groups_inv (md_groups d)"
    by blast
  with assms(1) i(1) have g: "master_guard d (the (m i))" by (auto simp: master_guard_def proposed_log_def)
  from assignments.guard_applies [OF g] obtain d' where
    d': "apply_entry (master_callbacks to_wire) i (the (m i)) d = Inr d'" by (auto simp: is_ok_iff)
  from master_guard_keeps [OF g d'] d(1) d' show
    "\<exists>d. replay (master_callbacks to_wire) m (i + 1) init = Inr d \<and> staffed d \<and> groups_inv (md_groups d)"
    by (simp add: replay_step [OF i(1)])
qed (use assms in simp)

lemma proposed_log_guarded:
  assumes "proposed_log to_wire m n init" "staffed init" "groups_inv (md_groups init)"
  shows "assignments.guarded to_wire m n init"
  unfolding assignments.guarded_def
proof (intro allI impI)
  fix i d assume i: "i < n" "replay (master_callbacks to_wire) m i init = Inr d"
  with assms(1) have "master_proposal d (the (m i))" by (simp add: proposed_log_def)
  moreover from proposed_log_replay [OF proposed_log_below [OF assms(1)] assms(2,3), of i] i
  have "staffed d" "groups_inv (md_groups d)" by auto
  ultimately show "master_guard d (the (m i))" by (simp add: master_guard_def)
qed

lemma owners_grow:
  assumes "proposed_log to_wire m n init" "staffed init" "groups_inv (md_groups init)"
    and "replay (master_callbacks to_wire) m i init = Inr di"
  shows "i \<le> n \<longrightarrow> (\<forall>d. replay (master_callbacks to_wire) m n init = Inr d \<longrightarrow>
    owners (md_groups di) db t k \<subseteq> owners (md_groups d) db t k)"
proof (rule word_induct_below [where j = n])
  show "i \<le> 0 \<longrightarrow> (\<forall>d. replay (master_callbacks to_wire) m 0 init = Inr d \<longrightarrow>
      owners (md_groups di) db t k \<subseteq> owners (md_groups d) db t k)"
    using assms(4) by auto
next
  fix j
  assume j: "j < n" and IH: "i \<le> j \<longrightarrow> (\<forall>d. replay (master_callbacks to_wire) m j init = Inr d \<longrightarrow>
      owners (md_groups di) db t k \<subseteq> owners (md_groups d) db t k)"
  show "i \<le> j + 1 \<longrightarrow> (\<forall>d. replay (master_callbacks to_wire) m (j + 1) init = Inr d \<longrightarrow>
      owners (md_groups di) db t k \<subseteq> owners (md_groups d) db t k)"
  proof (intro impI allI)
    fix d assume i: "i \<le> j + 1" and d: "replay (master_callbacks to_wire) m (j + 1) init = Inr d"
    show "owners (md_groups di) db t k \<subseteq> owners (md_groups d) db t k"
    proof (cases "i = j + 1")
      case True
      with assms(4) d show ?thesis by simp
    next
      case False
      with i have "i \<le> j" using word_le_succ_iff [OF not_max_below [OF j], of i] by simp
      from d obtain dj where dj: "replay (master_callbacks to_wire) m j init = Inr dj"
        "apply_entry (master_callbacks to_wire) j (the (m j)) dj = Inr d"
        by (auto simp: replay_step [OF j] rbind_eq_Inr)
      have "master_guard dj (the (m j))"
        using proposed_log_guarded [OF assms(1-3)] j dj(1) by (auto simp: assignments.guarded_def)
      from master_guard_keeps [OF this dj(2), of db t k] IH \<open>i \<le> j\<close> dj(1) show ?thesis by blast
    qed
  qed
qed

end
