(* ===== verification/DataMaster.thy ===== *)
theory DataMaster
  imports KeySpaceManager ConnectionHandler
begin

text \<open>
  A master server: \<open>uni::master::DataMaster\<close> (src/src/master/DataMaster.cc) and its
  \<open>MasterIncomingMessageHandler\<close>. Two task queues run side by side: the one of client questions and
  the local one of the slaves' reports. The lemmas show that every state a master can reach is the
  replay of its log, that what its tasks propose is what \<open>master_proposal\<close> says, and what a log of
  such proposals means for the keys.
\<close>

section \<open>State\<close>

record ('w, 'r) data_master =
  dm_scheduler :: "'w incoming_message async_scheduler"
  dm_async_queue :: "('w, 'r) master_state async_queue"
  dm_local_queue :: "('w, 'r) master_state async_queue"
  dm_state :: "('w, 'r) master_state"

definition first_group :: slave_group_id where
  "first_group = SlaveGroupId ''slave_group_0''"

definition initial_master :: "endpoint_id list \<Rightarrow> endpoint_id list \<Rightarrow> 'w connections \<Rightarrow> 'w master_derived" where
  "initial_master slave_endpoints master_endpoints slaves =
     \<lparr>md_timeline = PaxosConfigManager 0 master_endpoints,
      md_configs = set_first_group_config first_group slave_endpoints [],
      md_groups = set_first_key_space first_group [], md_slaves = slaves\<rparr>"

definition DataMaster ::
  "(message_wrapper \<Rightarrow> 'w) \<Rightarrow> 'r \<Rightarrow> 'w connections \<Rightarrow> 'w connections \<Rightarrow> 'w connections
   \<Rightarrow> endpoint_id list \<Rightarrow> endpoint_id list \<Rightarrow> ('w, 'r) data_master" where
  "DataMaster to_wire random clients slaves masters slave_endpoints master_endpoints =
     \<lparr>dm_scheduler = AsyncSchedulerImpl, dm_async_queue = AsyncQueue, dm_local_queue = AsyncQueue,
      dm_state =
        \<lparr>rs_random = random,
         rs_node =
           \<lparr>node_paxos = MultiPaxosHandler, node_connections = masters, node_log = master_log to_wire,
            node_derived = initial_master slave_endpoints master_endpoints slaves\<rparr>,
         rs_clients = clients, rs_retry_counts = []\<rparr>\<rparr>"

section \<open>Messages\<close>

definition master_with_node :: "('w, 'w master_derived) paxos_node \<Rightarrow> ('w, 'r) data_master \<Rightarrow> ('w, 'r) data_master" where
  "master_with_node nd dm = dm\<lparr>dm_state := (dm_state dm)\<lparr>rs_node := nd\<rparr>\<rparr>"

text \<open>\<open>MasterIncomingMessageHandler::handle\<close>\<close>

definition master_handle ::
  "(message_wrapper \<Rightarrow> 'w) \<Rightarrow> ('w \<Rightarrow> message_wrapper) \<Rightarrow> ('r \<Rightarrow> 32 word \<times> 'r) \<Rightarrow> constants
   \<Rightarrow> 'w incoming_message \<Rightarrow> ('w, 'r) data_master \<Rightarrow> ('w, 'r) data_master result option" where
  "master_handle to_wire parse rand cs m dm =
     (let endpoint = incoming_endpoint m; nd = rs_node (dm_state dm)
      in case parse (incoming_payload m) of
           ClientMessage client_message \<Rightarrow>
             (case client_message of
                FindKeyRangeRequest request \<Rightarrow>
                  (let (q, s) = handle_find_key to_wire rand endpoint request (dm_async_queue dm, dm_state dm)
                   in Some (Inr (dm\<lparr>dm_async_queue := q, dm_state := s\<rparr>)))
              | _ \<Rightarrow> Some (Inr dm))
         | SlaveMessage slave_message \<Rightarrow>
             (case slave_message of
                SlaveKeySpaceChanged generation \<Rightarrow>
                  Some (Inr (dm\<lparr>dm_local_queue :=
                    handle_key_space_changed to_wire rand endpoint generation (dm_local_queue dm)\<rparr>))
              | _ \<Rightarrow> Some (Inr dm))
         | MasterMessage master_message \<Rightarrow>
             (case master_message of
                MasterPaxos paxos_message \<Rightarrow>
                  Some (rbind (handle_incoming_message (\<lambda>p. to_wire (master_paxos_wrapper p)) cs
                      (config_provider md_timeline) endpoint paxos_message nd)
                    (\<lambda>nd'. Inr (master_with_node nd' dm)))
              | MasterSync sync_message \<Rightarrow>
                  map_option (\<lambda>r. rbind r (\<lambda>nd'. Inr (master_with_node nd' dm)))
                    (handle_sync_message (\<lambda>p. to_wire (master_sync_wrapper p)) endpoint sync_message nd)
              | _ \<Rightarrow> Some (Inr dm))
         | _ \<Rightarrow> Some (Inr dm))"

section \<open>Steps\<close>

text \<open>
  The server thread runs the handler of the oldest message. The network thread runs the timers (the
  front task of each queue, the synchroniser) and lets connections to other masters, to clients and
  to slaves come and go. The log, the instances and the queues, which both threads use, have no lock:
  \<open>MasterOverlap\<close>, a handler while the network thread is at work on them, is a data race. A run
  without it is one in which one thread is at work at a time, as the single thread of a simulated
  master always is.
\<close>

datatype 'w master_event =
    MasterQueueMessage "'w incoming_message"
  | MasterHandleMessage
  | MasterRunTask
  | MasterRunLocalTask
  | MasterSyncTimer
  | MasterToMaster connection_event
  | MasterToClient connection_event
  | MasterToSlave connection_event
  | MasterOverlap

definition run_front ::
  "('w, 'r) master_state async_queue \<Rightarrow> ('w, 'r) master_state
   \<Rightarrow> (('w, 'r) master_state async_queue \<times> ('w, 'r) master_state) result" where
  "run_front q s = (if scheduled_runs q = [] then Inr (q, s) else fire_run (q, s))"

fun master_step ::
  "(message_wrapper \<Rightarrow> 'w) \<Rightarrow> ('w \<Rightarrow> message_wrapper) \<Rightarrow> ('r \<Rightarrow> 32 word \<times> 'r) \<Rightarrow> constants
   \<Rightarrow> 'w master_event \<Rightarrow> ('w, 'r) data_master \<Rightarrow> ('w, 'r) data_master result option" where
  "master_step to_wire parse rand cs (MasterQueueMessage m) dm =
     Some (Inr (dm\<lparr>dm_scheduler := queue_message m (dm_scheduler dm)\<rparr>))"
| "master_step to_wire parse rand cs MasterHandleMessage dm =
     (case posted (dm_scheduler dm) of
        [] \<Rightarrow> Some (Inr dm)
      | m # _ \<Rightarrow>
          map_option (\<lambda>r. rbind r (\<lambda>dm'. Inr (dm'\<lparr>dm_scheduler := message_handled (dm_scheduler dm')\<rparr>)))
            (master_handle to_wire parse rand cs m dm))"
| "master_step to_wire parse rand cs MasterRunTask dm =
     Some (rbind (run_front (dm_async_queue dm) (dm_state dm)) (\<lambda>(q, s).
       Inr (dm\<lparr>dm_async_queue := q, dm_state := s\<rparr>)))"
| "master_step to_wire parse rand cs MasterRunLocalTask dm =
     Some (rbind (run_front (dm_local_queue dm) (dm_state dm)) (\<lambda>(q, s).
       Inr (dm\<lparr>dm_local_queue := q, dm_state := s\<rparr>)))"
| "master_step to_wire parse rand cs MasterSyncTimer dm =
     Some (rbind (sync_timer (\<lambda>p. to_wire (master_sync_wrapper p)) md_timeline (rs_node (dm_state dm)))
       (\<lambda>nd. Inr (master_with_node nd dm)))"
| "master_step to_wire parse rand cs (MasterToMaster ev) dm =
     (let nd = rs_node (dm_state dm)
      in Some (rbind (connection_step ev (node_connections nd)) (\<lambda>c.
           Inr (master_with_node (nd\<lparr>node_connections := c\<rparr>) dm))))"
| "master_step to_wire parse rand cs (MasterToClient ev) dm =
     Some (rbind (connection_step ev (rs_clients (dm_state dm))) (\<lambda>c.
       Inr (dm\<lparr>dm_state := (dm_state dm)\<lparr>rs_clients := c\<rparr>\<rparr>)))"
| "master_step to_wire parse rand cs (MasterToSlave ev) dm =
     (let nd = rs_node (dm_state dm)
      in Some (rbind (connection_step ev (md_slaves (node_derived nd))) (\<lambda>c.
           Inr (master_with_node (nd\<lparr>node_derived := (node_derived nd)\<lparr>md_slaves := c\<rparr>\<rparr>) dm))))"
| "master_step to_wire parse rand cs MasterOverlap dm =
     Some (if posted (dm_scheduler dm) = [] then Inr dm else Inl UndefinedBehaviour)"

fun master_run ::
  "(message_wrapper \<Rightarrow> 'w) \<Rightarrow> ('w \<Rightarrow> message_wrapper) \<Rightarrow> ('r \<Rightarrow> 32 word \<times> 'r) \<Rightarrow> constants
   \<Rightarrow> 'w master_event list \<Rightarrow> ('w, 'r) data_master \<Rightarrow> ('w, 'r) data_master result option" where
  "master_run to_wire parse rand cs [] dm = Some (Inr dm)"
| "master_run to_wire parse rand cs (ev # evs) dm =
     (case master_step to_wire parse rand cs ev dm of
        None \<Rightarrow> None
      | Some (Inl e) \<Rightarrow> Some (Inl e)
      | Some (Inr dm') \<Rightarrow> master_run to_wire parse rand cs evs dm')"

section \<open>What the tasks do\<close>

text \<open>
  Either nothing but the connections changes, or a proposal of the state is proposed: with
  \<open>master_proposal\<close> the log of the masters holds only such entries.
\<close>

lemma master_follows_known:
  "master_follows d d0 \<Longrightarrow> g \<in> fst ` set (md_configs d) \<longleftrightarrow> g \<in> fst ` set (md_groups d)"
  unfolding master_follows_def configured_def by blast

lemma announce_configured:
  assumes "master_follows d d0" "g \<in> fst ` set (md_groups d)" "announce to_wire g rs n d = Inr d'"
  shows "master_follows d' d0"
proof -
  from assms(2) have "g \<in> fst ` set (md_configs d)" by (simp only: master_follows_known [OF assms(1)])
  from assms(3) [unfolded announce_Inr [OF this]] assms(1) show ?thesis
    by (auto simp: master_follows_def simp del: broadcast.simps)
qed

lemma find_key_task_effect:
  assumes "find_key_task to_wire rand rc message endpoint s = Inr (w, s')"
    and "master_follows (node_derived (rs_node s)) d0"
  shows "(\<exists>d'. rs_node s' = (rs_node s)\<lparr>node_derived := d'\<rparr> \<and> rs_retry_counts s' = rs_retry_counts s \<and> master_follows d' d0) \<or>
    (\<exists>e s1. master_proposal (node_derived (rs_node s)) e \<and> (\<forall>g n. e \<noteq> KeySpaceCommit g n) \<and>
       request_propose (\<lambda>p. to_wire (master_paxos_wrapper p)) (config_provider md_timeline) rand e s = Inr s1 \<and>
       rs_retry_counts s ! rc \<noteq> KeySpaceManager.RETRY_LIMIT \<and>
       s' = s1\<lparr>rs_retry_counts := (rs_retry_counts s1)[rc := rs_retry_counts s1 ! rc + 1]\<rparr>)"
proof (cases "search_groups message (md_groups (node_derived (rs_node s)))")
  case None
  show ?thesis
  proof (cases "rs_retry_counts s ! rc = KeySpaceManager.RETRY_LIMIT")
    case True
    with None assms show ?thesis
      by (intro disjI1 exI [of _ "node_derived (rs_node s)"])
        (auto simp: find_key_task_def Let_def find_key_answer_def)
  next
    case limit: False
    show ?thesis
    proof (cases "assignment message (md_groups (node_derived (rs_node s)))")
      case None': None
      with None limit assms show ?thesis
        by (intro disjI1 exI [of _ "node_derived (rs_node s)"]) (auto simp: find_key_task_def Let_def)
    next
      case (Some e)
      with None have "master_proposal (node_derived (rs_node s)) e" by (auto simp: master_proposal_def)
      moreover from Some have "\<forall>g n. e \<noteq> KeySpaceCommit g n"
        by (auto simp: assignment_def build_new_key_space_selected_paxos_def Let_def split: option.splits)
      ultimately show ?thesis using None limit Some assms(1)
        by (intro disjI2 exI [of _ e]) (auto simp: find_key_task_def Let_def rbind_eq_Inr)
    qed
  qed
next
  case (Some x)
  show ?thesis
  proof (cases x)
    case (Assigned g)
    with Some assms show ?thesis
      by (intro disjI1 exI [of _ "node_derived (rs_node s)"])
        (auto simp: find_key_task_def Let_def find_key_answer_def)
  next
    case (InProgress g rs n)
    with Some search_groups_Some(1) have "g \<in> fst ` set (md_groups (node_derived (rs_node s)))" by force
    note known = announce_configured [OF assms(2) this]
    from Some InProgress assms(1) obtain d' where
      d': "announce to_wire g rs n (node_derived (rs_node s)) = Inr d'"
      "s' = s\<lparr>rs_node := (rs_node s)\<lparr>node_derived := d'\<rparr>\<rparr>"
      by (auto simp: find_key_task_def Let_def rbind_eq_Inr)
    with known [OF d'(1)] show ?thesis by (intro disjI1 exI [of _ d']) simp
  qed
qed

lemma get_group_id_Some: "get_group_id endpoint configs = Some g \<Longrightarrow> g \<in> fst ` set configs"
  by (induction configs rule: get_group_id.induct) (auto split: if_splits)

lemma commit_task_effect:
  assumes "commit_task to_wire rand endpoint generation s = Inr (w, s')"
    and "master_follows (node_derived (rs_node s)) d0"
  shows "s' = s \<or>
    (\<exists>g. master_proposal (node_derived (rs_node s)) (KeySpaceCommit g generation) \<and>
       request_propose (\<lambda>p. to_wire (master_paxos_wrapper p)) (config_provider md_timeline) rand (KeySpaceCommit g generation) s =
         Inr s')"
proof (cases "get_group_id endpoint (md_configs (node_derived (rs_node s)))")
  case (Some g)
  from get_group_id_Some [OF Some] have "g \<in> fst ` set (md_groups (node_derived (rs_node s)))"
    by (simp only: master_follows_known [OF assms(2)])
  then obtain ks where ks: "map_of (md_groups (node_derived (rs_node s))) g = Some ks" by (auto simp: map_of_Some_key)
  show ?thesis
  proof (cases ks)
    case (KeySpace rs n)
    with Some ks assms(1) show ?thesis by (simp add: commit_task_def group_key_space_def)
  next
    case (NewKeySpace rs rs' n)
    with ks have "master_proposal (node_derived (rs_node s)) (KeySpaceCommit (group_string g) n)"
      by (auto simp: master_proposal_def)
    with Some ks NewKeySpace assms(1) show ?thesis
      by (auto simp: commit_task_def group_key_space_def rbind_eq_Inr split: if_splits)
  qed
qed (use assms in \<open>simp add: commit_task_def\<close>)

section \<open>The invariant of a master\<close>

definition find_key_tasks ::
  "(message_wrapper \<Rightarrow> 'w) \<Rightarrow> ('r \<Rightarrow> 32 word \<times> 'r) \<Rightarrow> (nat \<times> find_key_range_request \<times> endpoint_id) list
   \<Rightarrow> ('w, 'r) master_state async_task list" where
  "find_key_tasks to_wire rand ts =
     map (\<lambda>(rc, message, endpoint). find_key_task to_wire rand rc message endpoint) ts"

definition commit_tasks ::
  "(message_wrapper \<Rightarrow> 'w) \<Rightarrow> ('r \<Rightarrow> 32 word \<times> 'r) \<Rightarrow> (endpoint_id \<times> 32 word) list
   \<Rightarrow> ('w, 'r) master_state async_task list" where
  "commit_tasks to_wire rand ts = map (\<lambda>(endpoint, generation). commit_task to_wire rand endpoint generation) ts"

definition tries_ok :: "int list \<Rightarrow> bool" where
  "tries_ok counts \<longleftrightarrow> (\<forall>c\<in>set counts. 0 \<le> c \<and> c \<le> KeySpaceManager.RETRY_LIMIT)"

definition state_ok :: "(message_wrapper \<Rightarrow> 'w) \<Rightarrow> 'w master_derived \<Rightarrow> ('w, 'r) master_state \<Rightarrow> bool" where
  "state_ok to_wire init s \<longleftrightarrow> master.server_inv to_wire init (rs_node s) \<and> tries_ok (rs_retry_counts s)"

definition master_inv ::
  "(message_wrapper \<Rightarrow> 'w) \<Rightarrow> ('r \<Rightarrow> 32 word \<times> 'r) \<Rightarrow> 'w master_derived \<Rightarrow> ('w, 'r) data_master \<Rightarrow> bool" where
  "master_inv to_wire rand init dm \<longleftrightarrow>
     state_ok to_wire init (dm_state dm) \<and>
     async_queue_inv (dm_async_queue dm) \<and> async_queue_inv (dm_local_queue dm) \<and>
     (\<exists>ts. queue_callbacks (dm_async_queue dm) = find_key_tasks to_wire rand ts \<and>
        (\<forall>t\<in>set ts. fst t < length (rs_retry_counts (dm_state dm)))) \<and>
     (\<exists>ts. queue_callbacks (dm_local_queue dm) = commit_tasks to_wire rand ts)"

lemma propose_state_ok:
  assumes "request_propose (\<lambda>p. to_wire (master_paxos_wrapper p)) (config_provider md_timeline) rand e s = Inr s'"
    and "state_ok to_wire init s"
  shows "state_ok to_wire init s'" "rs_retry_counts s' = rs_retry_counts s"
proof -
  from request_propose_node [OF assms(1)] obtain draw where
    p: "multi_propose (\<lambda>p. to_wire (master_paxos_wrapper p)) (config_provider md_timeline) draw e (rs_node s) = Inr (rs_node s')"
      "rs_retry_counts s' = rs_retry_counts s" by blast
  from master.propose_server [OF p(1)] assms(2) p(2)
  show "state_ok to_wire init s'" "rs_retry_counts s' = rs_retry_counts s" by (simp_all add: state_ok_def)
qed

lemma state_ok_follows:
  "state_ok to_wire init s \<Longrightarrow> \<exists>d0. master_follows (node_derived (rs_node s)) d0"
  unfolding state_ok_def using master.server_replay by metis

lemma derived_state_ok:
  assumes "state_ok to_wire init s" "rs_node s' = (rs_node s)\<lparr>node_derived := d\<rparr>" "rs_retry_counts s' = rs_retry_counts s"
    and "\<And>d0. master_follows (node_derived (rs_node s)) d0 \<Longrightarrow> master_follows d d0"
  shows "state_ok to_wire init s'"
proof -
  have "master.server_inv to_wire init (rs_node s)" using assms(1) by (simp add: state_ok_def)
  from master.derived_server [OF this, of d] assms show ?thesis by (simp add: state_ok_def)
qed

lemma find_key_task_ok:
  assumes "find_key_task to_wire rand rc message endpoint s = Inr (w, s')" "state_ok to_wire init s"
    and "rc < length (rs_retry_counts s)"
  shows "state_ok to_wire init s' \<and> length (rs_retry_counts s') = length (rs_retry_counts s)"
proof -
  obtain d0 where "master_follows (node_derived (rs_node s)) d0" using state_ok_follows [OF assms(2)] by blast
  from find_key_task_effect [OF assms(1) this] consider
    (same) d' where "rs_node s' = (rs_node s)\<lparr>node_derived := d'\<rparr>" "rs_retry_counts s' = rs_retry_counts s"
      "master_follows d' d0"
  | (propose) e s1 where
      "request_propose (\<lambda>p. to_wire (master_paxos_wrapper p)) (config_provider md_timeline) rand e s = Inr s1"
      "rs_retry_counts s ! rc \<noteq> KeySpaceManager.RETRY_LIMIT"
      "s' = s1\<lparr>rs_retry_counts := (rs_retry_counts s1)[rc := rs_retry_counts s1 ! rc + 1]\<rparr>"
    by blast
  then show ?thesis
  proof cases
    case same
    have "master_follows d' d1" if "master_follows (node_derived (rs_node s)) d1" for d1
      using same(3) that \<open>master_follows (node_derived (rs_node s)) d0\<close> by (simp add: master_follows_def)
    with derived_state_ok [OF assms(2) same(1,2)] same(2) show ?thesis by simp
  next
    case propose
    note p = propose_state_ok [OF propose(1) assms(2)]
    have "0 \<le> rs_retry_counts s ! rc" "rs_retry_counts s ! rc \<le> KeySpaceManager.RETRY_LIMIT"
      using assms(2,3) by (auto simp: state_ok_def tries_ok_def)
    with propose(2) have "tries_ok ((rs_retry_counts s)[rc := rs_retry_counts s ! rc + 1])"
      using assms(2) by (auto simp: state_ok_def tries_ok_def dest!: set_update_subset_insert [THEN subsetD])
    with p propose(3) show ?thesis by (simp add: state_ok_def)
  qed
qed

lemma commit_task_ok:
  assumes "commit_task to_wire rand endpoint generation s = Inr (w, s')" "state_ok to_wire init s"
  shows "state_ok to_wire init s' \<and> length (rs_retry_counts s') = length (rs_retry_counts s)"
proof -
  obtain d0 where "master_follows (node_derived (rs_node s)) d0" using state_ok_follows [OF assms(2)] by blast
  from commit_task_effect [OF assms(1) this] propose_state_ok [OF _ assms(2)] assms(2) show ?thesis by auto
qed

lemma master_with_node_inv:
  "master_inv to_wire rand init dm \<Longrightarrow> master.server_inv to_wire init nd \<Longrightarrow>
     master_inv to_wire rand init (master_with_node nd dm)"
  by (auto simp: master_inv_def master_with_node_def state_ok_def)

lemma handle_find_key_inv:
  assumes "handle_find_key to_wire rand endpoint request (dm_async_queue dm, dm_state dm) = (q, s)"
    and "master_inv to_wire rand init dm"
  shows "master_inv to_wire rand init (dm\<lparr>dm_async_queue := q, dm_state := s\<rparr>)"
proof -
  let ?n = "length (rs_retry_counts (dm_state dm))"
  from assms(2) obtain ts where ts: "queue_callbacks (dm_async_queue dm) = find_key_tasks to_wire rand ts"
    "\<forall>t\<in>set ts. fst t < ?n" by (auto simp: master_inv_def)
  from assms(1) have q: "q = add_task (find_key_task to_wire rand ?n request endpoint) (dm_async_queue dm)"
    and s: "s = (dm_state dm)\<lparr>rs_retry_counts := rs_retry_counts (dm_state dm) @ [0]\<rparr>"
    by (auto simp: handle_find_key_def Let_def)
  have "queue_callbacks q = find_key_tasks to_wire rand (ts @ [(?n, request, endpoint)])"
    by (simp add: q add_task_def schedule_run_def Let_def ts(1) find_key_tasks_def)
  moreover have "\<forall>t\<in>set (ts @ [(?n, request, endpoint)]). fst t < length (rs_retry_counts s)"
    using ts(2) by (auto simp: s)
  moreover have "state_ok to_wire init s"
    using assms(2) by (auto simp: s master_inv_def state_ok_def tries_ok_def KeySpaceManager.RETRY_LIMIT_def)
  moreover have "async_queue_inv q" using assms(2) by (simp add: q master_inv_def async_queue_inv_add_task)
  ultimately show ?thesis
    using assms(2) unfolding master_inv_def by (auto intro!: exI [of _ "ts @ [(?n, request, endpoint)]"])
qed

lemma handle_key_space_changed_inv:
  assumes "master_inv to_wire rand init dm"
  shows "master_inv to_wire rand init
    (dm\<lparr>dm_local_queue := handle_key_space_changed to_wire rand endpoint generation (dm_local_queue dm)\<rparr>)"
proof -
  from assms obtain ts where "queue_callbacks (dm_local_queue dm) = commit_tasks to_wire rand ts"
    by (auto simp: master_inv_def)
  then have "queue_callbacks (handle_key_space_changed to_wire rand endpoint generation (dm_local_queue dm)) =
      commit_tasks to_wire rand (ts @ [(endpoint, generation)])"
    by (simp add: handle_key_space_changed_def add_task_def schedule_run_def Let_def commit_tasks_def)
  with assms show ?thesis
    unfolding master_inv_def by (auto simp: handle_key_space_changed_def intro: async_queue_inv_add_task)
qed

lemma master_handle_inv:
  assumes "master_handle to_wire parse rand cs m dm = Some (Inr dm')" "master_inv to_wire rand init dm"
  shows "master_inv to_wire rand init dm'"
proof -
  have srv: "master.server_inv to_wire init (rs_node (dm_state dm))"
    using assms(2) by (simp add: master_inv_def state_ok_def)
  show ?thesis
  proof (cases "parse (incoming_payload m)")
    case (ClientMessage cm)
    with assms handle_find_key_inv [OF _ assms(2)] show ?thesis
      by (cases cm) (auto simp: master_handle_def Let_def split: prod.splits)
  next
    case (SlaveMessage sm)
    with assms handle_key_space_changed_inv [OF assms(2)] show ?thesis
      by (cases sm) (auto simp: master_handle_def Let_def)
  next
    case (MasterMessage mm)
    show ?thesis
    proof (cases mm)
      case (MasterPaxos pm)
      with assms(1) MasterMessage obtain nd where nd: "dm' = master_with_node nd dm"
        "handle_incoming_message (\<lambda>p. to_wire (master_paxos_wrapper p)) cs (config_provider md_timeline)
          (incoming_endpoint m) pm (rs_node (dm_state dm)) = Inr nd"
        by (auto simp: master_handle_def Let_def rbind_eq_Inr)
      with master_with_node_inv [OF assms(2) master.paxos_message_server [OF nd(2) srv]] show ?thesis by simp
    next
      case (MasterSync ym)
      with assms(1) MasterMessage obtain nd where nd: "dm' = master_with_node nd dm"
        "handle_sync_message (\<lambda>p. to_wire (master_sync_wrapper p)) (incoming_endpoint m) ym
          (rs_node (dm_state dm)) = Some (Inr nd)"
        by (auto simp: master_handle_def Let_def rbind_eq_Inr)
      with master_with_node_inv [OF assms(2) master.sync_message_server [OF nd(2) srv]] show ?thesis by simp
    qed (use assms MasterMessage in \<open>auto simp: master_handle_def Let_def\<close>)
  qed (use assms in \<open>auto simp: master_handle_def Let_def\<close>)
qed

lemma run_task_master:
  assumes "run_front (dm_async_queue dm) (dm_state dm) = Inr (q, s)" "master_inv to_wire rand init dm"
  shows "master_inv to_wire rand init (dm\<lparr>dm_async_queue := q, dm_state := s\<rparr>)"
proof (cases "scheduled_runs (dm_async_queue dm) = []")
  case True
  with assms show ?thesis by (auto simp: run_front_def)
next
  case False
  from assms(2) obtain ts where ts: "queue_callbacks (dm_async_queue dm) = find_key_tasks to_wire rand ts"
    "\<forall>t\<in>set ts. fst t < length (rs_retry_counts (dm_state dm))" by (auto simp: master_inv_def)
  from assms(1) False have "fire_run (dm_async_queue dm, dm_state dm) = Inr (q, s)" by (simp add: run_front_def)
  from fire_run_tasks [OF this ts(1) [unfolded find_key_tasks_def]] obtain t ts' w where
    tts: "ts = t # ts'" and run: "(case t of (rc, message, endpoint) \<Rightarrow>
      find_key_task to_wire rand rc message endpoint) (dm_state dm) = Inr (w, s)"
    and q: "queue_callbacks q = find_key_tasks to_wire rand (if w = TERMINATE then ts' else ts)" "async_queue_inv q"
    using assms(2) False unfolding find_key_tasks_def master_inv_def by metis
  obtain rc message endpoint where t: "t = (rc, message, endpoint)" by (cases t)
  have "state_ok to_wire init s \<and> length (rs_retry_counts s) = length (rs_retry_counts (dm_state dm))"
    by (rule find_key_task_ok [OF run [unfolded t, simplified]])
      (use assms(2) ts(2) in \<open>auto simp: master_inv_def tts t\<close>)
  with assms(2) q ts(2) show ?thesis
    unfolding master_inv_def by (auto simp: tts intro!: exI [of _ "if w = TERMINATE then ts' else ts"] split: if_splits)
qed

lemma run_local_task_master:
  assumes "run_front (dm_local_queue dm) (dm_state dm) = Inr (q, s)" "master_inv to_wire rand init dm"
  shows "master_inv to_wire rand init (dm\<lparr>dm_local_queue := q, dm_state := s\<rparr>)"
proof (cases "scheduled_runs (dm_local_queue dm) = []")
  case True
  with assms show ?thesis by (auto simp: run_front_def)
next
  case False
  from assms(2) obtain ts where ts: "queue_callbacks (dm_local_queue dm) = commit_tasks to_wire rand ts"
    by (auto simp: master_inv_def)
  from assms(1) False have "fire_run (dm_local_queue dm, dm_state dm) = Inr (q, s)" by (simp add: run_front_def)
  from fire_run_tasks [OF this ts [unfolded commit_tasks_def]] obtain t ts' w where
    run: "(case t of (endpoint, generation) \<Rightarrow> commit_task to_wire rand endpoint generation) (dm_state dm) = Inr (w, s)"
    and q: "queue_callbacks q = commit_tasks to_wire rand (if w = TERMINATE then ts' else ts)" "async_queue_inv q"
    using assms(2) False unfolding commit_tasks_def master_inv_def by metis
  obtain endpoint generation where t: "t = (endpoint, generation)" by (cases t)
  have "state_ok to_wire init s \<and> length (rs_retry_counts s) = length (rs_retry_counts (dm_state dm))"
    by (rule commit_task_ok [OF run [unfolded t, simplified]]) (use assms(2) in \<open>simp add: master_inv_def\<close>)
  with assms(2) q show ?thesis unfolding master_inv_def by auto
qed

lemma master_step_inv:
  assumes "master_step to_wire parse rand cs ev dm = Some (Inr dm')" "master_inv to_wire rand init dm"
  shows "master_inv to_wire rand init dm'"
proof (cases ev)
  case (MasterQueueMessage m)
  with assms show ?thesis by (auto simp: master_inv_def)
next
  case MasterHandleMessage
  show ?thesis
  proof (cases "posted (dm_scheduler dm)")
    case (Cons m ms)
    with assms(1) MasterHandleMessage obtain dm1 where
      "master_handle to_wire parse rand cs m dm = Some (Inr dm1)"
      "dm' = dm1\<lparr>dm_scheduler := message_handled (dm_scheduler dm1)\<rparr>"
      by (auto simp: rbind_eq_Inr)
    with master_handle_inv [OF _ assms(2)] show ?thesis by (auto simp: master_inv_def)
  qed (use assms MasterHandleMessage in simp)
next
  case MasterRunTask
  with assms run_task_master [OF _ assms(2)] show ?thesis by (auto simp: rbind_eq_Inr)
next
  case MasterRunLocalTask
  with assms run_local_task_master [OF _ assms(2)] show ?thesis by (auto simp: rbind_eq_Inr)
next
  case MasterSyncTimer
  with assms(1) obtain nd where nd: "dm' = master_with_node nd dm"
    "sync_timer (\<lambda>p. to_wire (master_sync_wrapper p)) md_timeline (rs_node (dm_state dm)) = Inr nd"
    by (auto simp: rbind_eq_Inr)
  with master_with_node_inv [OF assms(2) master.sync_timer_server [OF nd(2)]] assms(2) show ?thesis
    by (simp add: master_inv_def state_ok_def)
next
  case (MasterToMaster cev)
  let ?nd = "rs_node (dm_state dm)"
  from MasterToMaster assms(1) obtain c where "dm' = master_with_node (?nd\<lparr>node_connections := c\<rparr>) dm"
    by (auto simp: Let_def rbind_eq_Inr)
  with master_with_node_inv [OF assms(2)] assms(2) show ?thesis by (simp add: master_inv_def state_ok_def)
next
  case (MasterToClient cev)
  with assms show ?thesis by (auto simp: rbind_eq_Inr master_inv_def state_ok_def)
next
  case (MasterToSlave cev)
  let ?nd = "rs_node (dm_state dm)"
  from MasterToSlave assms(1) obtain c where
    dm': "dm' = master_with_node (?nd\<lparr>node_derived := (node_derived ?nd)\<lparr>md_slaves := c\<rparr>\<rparr>) dm"
    by (auto simp: Let_def rbind_eq_Inr)
  have "master.server_inv to_wire init ?nd" using assms(2) by (simp add: master_inv_def state_ok_def)
  from master.derived_server [OF this, of "(node_derived ?nd)\<lparr>md_slaves := c\<rparr>"]
  have "master.server_inv to_wire init (?nd\<lparr>node_derived := (node_derived ?nd)\<lparr>md_slaves := c\<rparr>\<rparr>)"
    by (simp add: master_follows_def)
  with master_with_node_inv [OF assms(2)] show ?thesis by (simp add: dm')
next
  case MasterOverlap
  with assms show ?thesis by simp
qed

lemma master_run_inv:
  "master_run to_wire parse rand cs evs dm = Some (Inr dm') \<Longrightarrow> master_inv to_wire rand init dm \<Longrightarrow>
     master_inv to_wire rand init dm'"
  by (induction evs arbitrary: dm) (auto split: option.splits sum.splits dest: master_step_inv)

lemma initial_master_simps [simp]:
  "md_groups (initial_master ses mes slaves) = [(first_group, KeySpace [] 0)]"
  "md_configs (initial_master ses mes slaves) = [(first_group, Config ses 0)]"
  by (simp_all add: initial_master_def set_first_group_config_def set_first_key_space_def)

text \<open>The replay may start from other connections to the slaves: they do not matter to it.\<close>

lemma DataMaster_inv:
  "master_inv to_wire rand (initial_master ses mes slaves') (DataMaster to_wire random clients slaves masters ses mes)"
proof -
  let ?d = "initial_master ses mes slaves" and ?d' = "initial_master ses mes slaves'"
  have "master_follows ?d ?d'" by (simp add: master_follows_def configured_def) (simp add: initial_master_def)
  then have "master.server_inv to_wire ?d'
      \<lparr>node_paxos = MultiPaxosHandler, node_connections = masters, node_log = master_log to_wire, node_derived = ?d\<rparr>"
    by (intro master.initial_server master_log_inv) (simp_all add: master_log_eq)
  then show ?thesis
    by (auto simp: master_inv_def state_ok_def tries_ok_def DataMaster_def AsyncQueue_def async_queue_inv_def
        find_key_tasks_def commit_tasks_def)
qed

section \<open>An example\<close>

definition example_request :: find_key_range_request where
  "example_request = \<lparr>fk_database_id = ''db'', fk_table_id = ''t'', fk_key = ''k''\<rparr>"

definition example_table :: key_space_range where
  "example_table = \<lparr>database_id = ''db'', table_id = ''t'', start_key = None, end_key = None\<rparr>"

text \<open>The entry the first master proposes for the request, and the commit.\<close>

definition first_assignment :: paxos_log_entry where
  "first_assignment = KeySpaceSelected ''slave_group_0'' [convert_range_object example_table] 1"

definition first_commit :: paxos_log_entry where
  "first_commit = KeySpaceCommit ''slave_group_0'' 1"

definition example_log :: "index_t \<rightharpoonup> paxos_log_entry" where
  "example_log = [0 \<mapsto> first_assignment, 1 \<mapsto> first_commit]"

abbreviation example_init :: "message_wrapper master_derived" where
  "example_init \<equiv> initial_master [EndpointId ''s'' 0] [EndpointId ''m'' 0] \<lparr>channels = []\<rparr>"

lemma example_assignment: "assignment example_request [(first_group, KeySpace [] 0)] = Some first_assignment"
  by (simp add: assignment_def example_request_def first_assignment_def build_new_key_space_selected_paxos_def
      first_group_def example_table_def convert_range_object_def requested_table_def)

lemma example_entries [simp]:
  "entry_content_case first_assignment = KKeySpaceSelected" "entry_content_case first_commit = KKeySpaceCommit"
  "on_key_space_selected to_wire i first_assignment (initial_master [e] mes \<lparr>channels = []\<rparr>) =
     Inr ((initial_master [e] mes \<lparr>channels = []\<rparr>)\<lparr>md_groups := [(first_group, NewKeySpace [] [example_table] 1)]\<rparr>)"
  "on_key_space_commit i first_commit
     ((initial_master [e] mes \<lparr>channels = []\<rparr>)\<lparr>md_groups := [(first_group, NewKeySpace [] [example_table] 1)]\<rparr>) =
     Inr ((initial_master [e] mes \<lparr>channels = []\<rparr>)\<lparr>md_groups := [(first_group, KeySpace [example_table] 1)]\<rparr>)"
  by (simp_all add: first_assignment_def first_commit_def on_key_space_selected_def
      on_key_space_commit_def first_group_def put_group_def announce_def group_endpoints_def
      convert_range_object_def initial_master_def set_first_key_space_def set_first_group_config_def send_def
      has_channel_def Let_def)

lemma example_search [simp]:
  "within_range example_table (fk_database_id example_request) (fk_table_id example_request) (fk_key example_request)"
  by (simp add: example_request_def example_table_def within_range_def)

lemma example_steps:
  "apply_entry (master_callbacks to_wire) i first_assignment (initial_master [e] mes \<lparr>channels = []\<rparr>) =
     Inr ((initial_master [e] mes \<lparr>channels = []\<rparr>)\<lparr>md_groups := [(first_group, NewKeySpace [] [example_table] 1)]\<rparr>)"
  "apply_entry (master_callbacks to_wire) i first_commit
     ((initial_master [e] mes \<lparr>channels = []\<rparr>)\<lparr>md_groups := [(first_group, NewKeySpace [] [example_table] 1)]\<rparr>) =
     Inr ((initial_master [e] mes \<lparr>channels = []\<rparr>)\<lparr>md_groups := [(first_group, KeySpace [example_table] 1)]\<rparr>)"
  by (simp_all add: apply_entry_def master_callbacks_simps)

lemma word_below_2: "(i::index_t) < 2 \<longleftrightarrow> i = 0 \<or> i = 1"
proof -
  have "i < 2 \<longleftrightarrow> unat i < 2" by (simp add: word_less_nat_alt)
  also have "\<dots> \<longleftrightarrow> unat i = 0 \<or> unat i = 1" by arith
  finally show ?thesis by (simp add: word_unat_eq_iff)
qed

lemma example_replays:
  "replay (master_callbacks to_wire) example_log 1 (initial_master [e] mes \<lparr>channels = []\<rparr>) =
     Inr ((initial_master [e] mes \<lparr>channels = []\<rparr>)\<lparr>md_groups := [(first_group, NewKeySpace [] [example_table] 1)]\<rparr>)"
  "replay (master_callbacks to_wire) example_log 2 (initial_master [e] mes \<lparr>channels = []\<rparr>) =
     Inr ((initial_master [e] mes \<lparr>channels = []\<rparr>)\<lparr>md_groups := [(first_group, KeySpace [example_table] 1)]\<rparr>)"
  by (simp_all add: replay_def apply_range_def word_upt_Cons example_log_def example_steps)

lemma example_proposed: "proposed_log to_wire example_log 2 (initial_master [e] mes \<lparr>channels = []\<rparr>)"
  unfolding proposed_log_def
proof (intro allI impI)
  fix i and d :: "'a master_derived"
  let ?init = "initial_master [e] mes \<lparr>channels = []\<rparr>"
  assume "i < 2" and d: "replay (master_callbacks to_wire) example_log i ?init = Inr d"
  then consider "i = 0" | "i = 1" by (auto simp: word_below_2)
  then show "master_proposal d (the (example_log i))"
  proof cases
    case 1
    with d have "d = ?init" by simp
    then show ?thesis
      unfolding master_proposal_def 1 using example_assignment
      by (intro disjI1 exI [of _ example_request]) (simp add: example_log_def)
  next
    case 2
    with d example_replays(1) [of to_wire e mes] have
      "md_groups d = [(first_group, NewKeySpace [] [example_table] 1)]" by auto
    then show ?thesis
      unfolding master_proposal_def 2
      by (intro disjI2) (simp add: example_log_def first_commit_def first_group_def)
  qed
qed

text \<open>The log arrives with a sync response; a client asks for a key; the task answers.\<close>

definition master_events :: "message_wrapper master_event list" where
  "master_events =
     [MasterQueueMessage \<lparr>incoming_endpoint = EndpointId ''n'' 0, incoming_payload =
        MasterMessage (MasterSync (SyncResponse \<lparr>missing_entries = [(0, first_assignment), (1, first_commit)]\<rparr>))\<rparr>,
      MasterQueueMessage \<lparr>incoming_endpoint = EndpointId ''c'' 0, incoming_payload =
        ClientMessage (FindKeyRangeRequest example_request)\<rparr>,
      MasterHandleMessage, MasterHandleMessage, MasterRunTask]"

abbreviation lone_master_run :: "message_wrapper master_event list \<Rightarrow> (message_wrapper, unit) data_master result option" where
  "lone_master_run evs \<equiv> master_run (\<lambda>w. w) (\<lambda>w. w) (\<lambda>r. (7, r)) initialize_constants evs
     (DataMaster (\<lambda>w. w) () \<lparr>channels = [(EndpointId ''c'' 0, ChannelImpl [])]\<rparr> \<lparr>channels = []\<rparr> \<lparr>channels = []\<rparr>
       [EndpointId ''s'' 0] [EndpointId ''m'' 0])"

lemma lone_master_runs:
  "\<exists>dm. lone_master_run master_events = Some (Inr dm) \<and>
     log (node_log (rs_node (dm_state dm))) = example_log \<and>
     available_indices (node_log (rs_node (dm_state dm))) = [2] \<and>
     in_flight (rs_clients (dm_state dm)) (EndpointId ''c'' 0) =
       [ClientMessage (FindKeyRangeResponse (found_response first_group))]"
  by (simp add: master_events_def DataMaster_def queue_message_def schedule_async_def
      message_handled_def AsyncSchedulerImpl_def AsyncQueue_def master_handle_def master_with_node_def
      handle_sync_message_def handle_sync_response_def master_log_eq set_entry_def
      next_available_index_def take_index_def log_insert_def word_upt_Cons invoke_callbacks_def log_at_def
      master_callbacks_simps Let_def handle_find_key_def add_task_def schedule_run_def run_front_def fire_run_def
      run_task_def find_key_task_def
      find_key_answer_def find_key_respond_def get_channel_def update_channel_def in_flight_def
      MAX_MESSAGES_QUEUE_SIZE_def task_returned_def example_log_def)

section \<open>Properties\<close>

text \<open>
  C36: every key has one owner, for good. If every entry of the masters' log was proposed by a task
  of a master whose state was the replay of the log below the entry, then a replica that learns
  entries of the log, in any order, never throws; after every prefix a key belongs to (or is being
  given to) at most one slave group; and a group keeps its keys in all longer prefixes.
\<close>

theorem keys_keep_their_owner:
  assumes "proposed_log to_wire m n init"
    and "init = initial_master slave_endpoints master_endpoints slaves" and "slave_endpoints \<noteq> []"
    and "- 1 \<notin> fst ` set es" and "\<forall>i e. map_of es i = Some e \<longrightarrow> m i = Some e"
    and "first_free (fold store_entry es (master_log to_wire)) \<le> n"
    and "i \<le> j" and "j \<le> n"
  shows "is_ok (set_entries es (master_log to_wire, init)) \<and>
    (\<exists>di dj. replay (master_callbacks to_wire) m i init = Inr di \<and> replay (master_callbacks to_wire) m j init = Inr dj \<and>
       owners (md_groups di) db t k \<subseteq> owners (md_groups dj) db t k \<and>
       (\<forall>g g'. g \<in> owners (md_groups dj) db t k \<longrightarrow> g' \<in> owners (md_groups dj) db t k \<longrightarrow> g = g'))"
proof -
  have init: "staffed init" "groups_inv (md_groups init)"
    using assms(3) by (simp_all add: assms(2) staffed_def configured_def group_endpoints_def groups_inv_def)
  have below: "proposed_log to_wire m i init" "proposed_log to_wire m j init"
    using proposed_log_below [OF assms(1)] assms(7,8) by auto
  from proposed_log_replay [OF below(1) init] proposed_log_replay [OF below(2) init] obtain di dj where
    d: "replay (master_callbacks to_wire) m i init = Inr di" "replay (master_callbacks to_wire) m j init = Inr dj"
      "groups_inv (md_groups dj)" by blast
  have pl: "master_log to_wire = PaxosLog\<lparr>callbacks := master_callbacks to_wire\<rparr>"
    by (simp add: master_log_eq PaxosLog_def)
  have "is_ok (set_entries es (master_log to_wire, init))"
    unfolding pl by (rule assignments.guarded_learning [OF assms(4,5) proposed_log_guarded [OF assms(1) init]
          assms(6) [unfolded pl]])
  moreover have "owners (md_groups di) db t k \<subseteq> owners (md_groups dj) db t k"
    using owners_grow [OF below(2) init d(1)] assms(7) d(2) by blast
  ultimately show ?thesis using d owners_unique [OF d(3)] by blast
qed

theorem keys_keep_their_owner_witness:
  "\<exists>d. replay (master_callbacks (\<lambda>w. w)) example_log 2 example_init = Inr d \<and>
     owners (md_groups d) ''db'' ''t'' ''k'' = {first_group} \<and>
     is_ok (set_entries [(1, first_commit), (0, first_assignment)] (master_log (\<lambda>w. w), example_init))"
proof -
  have bound: "first_free (fold store_entry [(1, first_commit), (0, first_assignment)] (master_log (\<lambda>w. w))) \<le> 2"
    by (simp add: store_entry_def fill_index_def first_free_def master_log_eq take_index_def word_upt_Cons)
  have sub: "\<forall>i e. map_of [(1, first_commit), (0, first_assignment)] i = Some e \<longrightarrow> example_log i = Some e"
    by (auto simp: example_log_def split: if_splits)
  have own: "owners [(first_group, KeySpace [example_table] 1)] ''db'' ''t'' ''k'' = {first_group}"
    by (simp add: owners_def example_table_def within_range_def)
  have "is_ok (set_entries [(1, first_commit), (0, first_assignment)] (master_log (\<lambda>w. w), example_init))"
    by (rule conjunct1 [OF keys_keep_their_owner [OF example_proposed refl _ _ sub bound order.refl order.refl]]) simp_all
  with own example_replays(2) [of "\<lambda>w. w" "EndpointId ''s'' 0" "[EndpointId ''m'' 0]"] show ?thesis by simp
qed

text \<open>
  C37: a master is what its log says. After any messages, timers, tasks, new and closed
  connections, in any order, that end without an exception or undefined behaviour, the key
  spaces of the groups and the configurations are those the contiguous prefix of its log leads to,
  and no request was tried more often than \<open>RETRY_LIMIT\<close> says. Each of the two queues has one timer
  pending exactly while tasks wait: the handlers, which add tasks, and the network thread, which runs
  them, take turns in these events (an overlap is a data race; C8 has what it does to a queue).
\<close>

theorem master_follows_its_log:
  assumes "master_run to_wire parse rand cs evs
      (DataMaster to_wire random clients slaves masters slave_endpoints master_endpoints) = Some (Inr dm)"
    and "nd = rs_node (dm_state dm)"
  shows "\<exists>d. replay (master_callbacks to_wire) (log (node_log nd)) (first_free (node_log nd))
        (initial_master slave_endpoints master_endpoints slaves) = Inr d \<and>
      md_groups (node_derived nd) = md_groups d \<and> md_configs (node_derived nd) = md_configs d \<and>
      md_timeline (node_derived nd) = md_timeline d \<and>
      length (scheduled_runs (dm_async_queue dm)) = (if queue_empty (dm_async_queue dm) then 0 else 1) \<and>
      length (scheduled_runs (dm_local_queue dm)) = (if queue_empty (dm_local_queue dm) then 0 else 1) \<and>
      (\<forall>c\<in>set (rs_retry_counts (dm_state dm)). 0 \<le> c \<and> c \<le> KeySpaceManager.RETRY_LIMIT)"
proof -
  have inv: "master_inv to_wire rand (initial_master slave_endpoints master_endpoints slaves) dm"
    by (rule master_run_inv [OF assms(1) DataMaster_inv])
  then have "master.server_inv to_wire (initial_master slave_endpoints master_endpoints slaves) nd"
    by (simp add: master_inv_def state_ok_def assms(2))
  from master.server_replay [OF this] inv show ?thesis
    by (auto simp: master_inv_def state_ok_def tries_ok_def async_queue_inv_def queue_empty_def master_follows_def)
qed

theorem master_follows_its_log_witness:
  "\<exists>dm. lone_master_run master_events = Some (Inr dm) \<and>
     md_groups (node_derived (rs_node (dm_state dm))) = [(first_group, KeySpace [example_table] 1)]"
proof -
  obtain dm where dm: "lone_master_run master_events = Some (Inr dm)"
    "log (node_log (rs_node (dm_state dm))) = example_log"
    "available_indices (node_log (rs_node (dm_state dm))) = [2]"
    using lone_master_runs by blast
  from master_follows_its_log [OF dm(1) refl] dm example_replays(2) [of "\<lambda>w. w" "EndpointId ''s'' 0" "[EndpointId ''m'' 0]"]
  show ?thesis by (auto simp: first_free_def)
qed

text \<open>
  C38: the answer to a client. On a master whose keys have one owner each, the task of a question
  answers with the group that has the key; while a group is being given the key it only reminds
  that group's first slave; when nobody has the key it gives up after \<open>RETRY_LIMIT\<close> proposals,
  waits when every group is changing, and else proposes an entry that gives the key to one group.
\<close>

theorem find_key_outcome:
  assumes "d = node_derived (rs_node s)" and "groups_inv (md_groups d)" and "staffed d"
    and "db = fk_database_id message" and "t = fk_table_id message" and "k = fk_key message"
  shows "((g, KeySpace ranges n) \<in> set (md_groups d) \<and> r \<in> set ranges \<and> within_range r db t k \<longrightarrow>
      find_key_task to_wire rand rc message endpoint s =
        Inr (TERMINATE, find_key_answer to_wire endpoint (found_response g) s)) \<and>
    ((g, NewKeySpace ranges new_ranges n) \<in> set (md_groups d) \<and> r \<in> set new_ranges \<and> within_range r db t k \<longrightarrow>
      find_key_task to_wire rand rc message endpoint s =
        Inr (WAIT_FOR_COMMIT_INSERTED, s\<lparr>rs_node := (rs_node s)\<lparr>node_derived := d\<lparr>md_slaves :=
          send (hd (fst (group_endpoints g (md_configs d))))
            (to_wire (build_new_key_space_selected_message new_ranges n)) (md_slaves d)\<rparr>\<rparr>\<rparr>)) \<and>
    (owners (md_groups d) db t k = {} \<longrightarrow>
      (rs_retry_counts s ! rc = KeySpaceManager.RETRY_LIMIT \<longrightarrow>
        find_key_task to_wire rand rc message endpoint s =
          Inr (TERMINATE, find_key_answer to_wire endpoint not_found_response s)) \<and>
      (rs_retry_counts s ! rc \<noteq> KeySpaceManager.RETRY_LIMIT \<longrightarrow>
        (case assignment message (md_groups d) of
           None \<Rightarrow> (\<forall>(g, ks)\<in>set (md_groups d). \<exists>rs rs' n. ks = NewKeySpace rs rs' n) \<and>
             find_key_task to_wire rand rc message endpoint s = Inr (WAIT_FOR_FREE, s)
         | Some e \<Rightarrow> find_key_task to_wire rand rc message endpoint s =
               rbind (request_propose (\<lambda>p. to_wire (master_paxos_wrapper p)) (config_provider md_timeline) rand e s)
                 (\<lambda>s'. Inr (WAIT_FOR_NEW_KEY_SPACE, s'\<lparr>rs_retry_counts :=
                   (rs_retry_counts s')[rc := rs_retry_counts s' ! rc + 1]\<rparr>)) \<and>
             (\<exists>d' g. apply_entry (master_callbacks to_wire) i e d = Inr d' \<and> owners (md_groups d') db t k = {g}))))"
proof (intro conjI impI)
  assume a: "(g, KeySpace ranges n) \<in> set (md_groups d) \<and> r \<in> set ranges \<and> within_range r db t k"
  with search_groups_owner [OF assms(2), of g "KeySpace ranges n" r message] assms(4-6)
  show "find_key_task to_wire rand rc message endpoint s =
      Inr (TERMINATE, find_key_answer to_wire endpoint (found_response g) s)"
    by (simp add: find_key_task_def assms(1))
next
  assume a: "(g, NewKeySpace ranges new_ranges n) \<in> set (md_groups d) \<and> r \<in> set new_ranges \<and> within_range r db t k"
  with search_groups_owner [OF assms(2), of g "NewKeySpace ranges new_ranges n" r message] assms(4-6)
  have f: "search_groups message (md_groups d) = Some (InProgress g new_ranges n)" by simp
  from a have "g \<in> fst ` set (md_groups d)" by force
  then have "g \<in> fst ` set (md_configs d)" "fst (group_endpoints g (md_configs d)) \<noteq> []"
    using assms(3) unfolding staffed_def configured_def by blast+
  with f show "find_key_task to_wire rand rc message endpoint s =
      Inr (WAIT_FOR_COMMIT_INSERTED, s\<lparr>rs_node := (rs_node s)\<lparr>node_derived := d\<lparr>md_slaves :=
        send (hd (fst (group_endpoints g (md_configs d))))
          (to_wire (build_new_key_space_selected_message new_ranges n)) (md_slaves d)\<rparr>\<rparr>\<rparr>)"
    by (simp add: find_key_task_def assms(1) announce_ok hd_conv_nth Let_def)
next
  assume "owners (md_groups d) db t k = {}" "rs_retry_counts s ! rc = KeySpaceManager.RETRY_LIMIT"
  then show "find_key_task to_wire rand rc message endpoint s =
      Inr (TERMINATE, find_key_answer to_wire endpoint not_found_response s)"
    by (simp add: find_key_task_def assms(1,4-6) owners_empty)
next
  assume none: "owners (md_groups d) db t k = {}" and limit: "rs_retry_counts s ! rc \<noteq> KeySpaceManager.RETRY_LIMIT"
  then have f: "search_groups message (md_groups d) = None" by (simp add: assms(4-6) owners_empty)
  show "case assignment message (md_groups d) of
      None \<Rightarrow> (\<forall>(g, ks)\<in>set (md_groups d). \<exists>rs rs' n. ks = NewKeySpace rs rs' n) \<and>
        find_key_task to_wire rand rc message endpoint s = Inr (WAIT_FOR_FREE, s)
    | Some e \<Rightarrow> find_key_task to_wire rand rc message endpoint s =
          rbind (request_propose (\<lambda>p. to_wire (master_paxos_wrapper p)) (config_provider md_timeline) rand e s)
            (\<lambda>s'. Inr (WAIT_FOR_NEW_KEY_SPACE, s'\<lparr>rs_retry_counts :=
              (rs_retry_counts s')[rc := rs_retry_counts s' ! rc + 1]\<rparr>)) \<and>
        (\<exists>d' g. apply_entry (master_callbacks to_wire) i e d = Inr d' \<and> owners (md_groups d') db t k = {g})"
  proof (cases "assignment message (md_groups d)")
    case None
    with f limit assignment_None [OF None] show ?thesis by (simp add: find_key_task_def assms(1))
  next
    case (Some e)
    from assignment_owner [OF f Some assms(3,2), of to_wire i] Some f limit show ?thesis
      by (simp add: find_key_task_def assms(1,4-6))
  qed
qed

theorem find_key_outcome_witness:
  "find_key_task (\<lambda>w. w) (\<lambda>r::unit. (7, r)) 0 example_request (EndpointId ''c'' 0)
     \<lparr>rs_random = (), rs_node = \<lparr>node_paxos = MultiPaxosHandler, node_connections = \<lparr>channels = []\<rparr>,
        node_log = master_log (\<lambda>w. w), node_derived = example_init\<lparr>md_groups := [(first_group, KeySpace [example_table] 1)]\<rparr>\<rparr>,
      rs_clients = \<lparr>channels = [(EndpointId ''c'' 0, ChannelImpl [])]\<rparr>, rs_retry_counts = [0]\<rparr> =
   Inr (TERMINATE,
     \<lparr>rs_random = (), rs_node = \<lparr>node_paxos = MultiPaxosHandler, node_connections = \<lparr>channels = []\<rparr>,
        node_log = master_log (\<lambda>w. w), node_derived = example_init\<lparr>md_groups := [(first_group, KeySpace [example_table] 1)]\<rparr>\<rparr>,
      rs_clients = \<lparr>channels = [(EndpointId ''c'' 0, ChannelImpl [ClientMessage (FindKeyRangeResponse (found_response first_group))])]\<rparr>,
      rs_retry_counts = [0]\<rparr>)"
proof -
  let ?d = "example_init\<lparr>md_groups := [(first_group, KeySpace [example_table] 1)]\<rparr>"
  have inv: "groups_inv (md_groups ?d)" "staffed ?d"
    by (simp_all add: groups_inv_def owned_def whole_def example_table_def staffed_def configured_def group_endpoints_def)
  let ?s = "\<lparr>rs_random = (), rs_node = \<lparr>node_paxos = MultiPaxosHandler, node_connections = \<lparr>channels = []\<rparr>,
        node_log = master_log (\<lambda>w. w), node_derived = ?d\<rparr>,
      rs_clients = \<lparr>channels = [(EndpointId ''c'' 0, ChannelImpl [])]\<rparr>, rs_retry_counts = [0]\<rparr>"
  have d: "?d = node_derived (rs_node ?s)" by simp
  note out = find_key_outcome [OF d inv refl refl refl, where message = example_request and to_wire = "\<lambda>w. w"
      and rand = "\<lambda>r::unit. (7, r)" and rc = 0 and endpoint = "EndpointId ''c'' 0" and g = first_group
      and r = example_table and ranges = "[example_table]" and n = 1]
  have "(first_group, KeySpace [example_table] 1) \<in> set (md_groups ?d) \<and> example_table \<in> set [example_table] \<and>
      within_range example_table (fk_database_id example_request) (fk_table_id example_request) (fk_key example_request)"
    by simp
  from mp [OF conjunct1 [OF out] this] show ?thesis
    by (simp add: find_key_answer_def find_key_respond_def get_channel_def update_channel_def MAX_MESSAGES_QUEUE_SIZE_def)
qed

end
