(* ===== verification/MasterSteps.thy ===== *)
theory MasterSteps
  imports DataMaster GroupMember LogGrowth
begin

text \<open>
  What a step of a master does to what others see of it: its log, its channels to the other masters
  and to the slaves, its queue of messages and the tasks that the reports of slaves become. The
  group of masters (MasterGroup) and the whole system (WholeSystem) rest on these facts.
\<close>

section \<open>Channels and log\<close>

definition master_connections :: "('w, 'r) data_master \<Rightarrow> 'w connections" where
  "master_connections dm = node_connections (rs_node (dm_state dm))"

lemma front_task:
  assumes "run_front q s = Inr (q', s')" "queue_callbacks q = map T ts"
  shows "q' = q \<and> s' = s \<or> (\<exists>t w. t \<in> set ts \<and> T t s = Inr (w, s'))"
proof (cases "scheduled_runs q = []")
  case False
  with assms(1) have run: "fire_run (q, s) = Inr (q', s')" by (simp add: run_front_def)
  show ?thesis by (rule fire_run_tasks [OF run assms(2)]) auto
qed (use assms in \<open>simp add: run_front_def\<close>)

text \<open>What a master sends to masters, and what it tells slaves.\<close>

definition master_wires :: "(message_wrapper \<Rightarrow> 'w) \<Rightarrow> 'w set" where
  "master_wires to_wire =
     range (\<lambda>p. to_wire (master_paxos_wrapper p)) \<union> range (\<lambda>y. to_wire (master_sync_wrapper y))"

definition in_progress :: "(message_wrapper \<Rightarrow> 'w) \<Rightarrow> 'w master_derived \<Rightarrow> 'w set" where
  "in_progress to_wire d = {to_wire (build_new_key_space_selected_message rs n) | g ranges rs n.
     (g, NewKeySpace ranges rs n) \<in> set (md_groups d)}"

definition tells_slaves :: "(message_wrapper \<Rightarrow> 'w) \<Rightarrow> 'w master_derived \<Rightarrow> 'w master_derived \<Rightarrow> bool" where
  "tells_slaves to_wire d d' \<longleftrightarrow>
     md_groups d' = md_groups d \<and> channels_change (in_progress to_wire d) (md_slaves d) (md_slaves d')"

text \<open>The log grows, or it stays and so do the key spaces.\<close>

definition master_moves :: "(message_wrapper \<Rightarrow> 'w) \<Rightarrow> ('w, 'r) data_master \<Rightarrow> ('w, 'r) data_master \<Rightarrow> bool" where
  "master_moves to_wire dm dm' \<longleftrightarrow>
     channels_change (master_wires to_wire) (master_connections dm) (master_connections dm') \<and>
     (node_advances (rs_node (dm_state dm)) (rs_node (dm_state dm')) \<or>
      node_log (rs_node (dm_state dm')) = node_log (rs_node (dm_state dm)) \<and>
      tells_slaves to_wire (node_derived (rs_node (dm_state dm))) (node_derived (rs_node (dm_state dm'))))"

lemma tells_slaves_refl [simp]: "tells_slaves to_wire d d"
  by (simp add: tells_slaves_def)

lemma master_wires_parts:
  "range (\<lambda>p. to_wire (master_paxos_wrapper p)) \<subseteq> master_wires to_wire"
  "range (\<lambda>y. to_wire (master_sync_wrapper y)) \<subseteq> master_wires to_wire"
  "range (\<lambda>r. to_wire (master_sync_wrapper (SyncRequest r))) \<subseteq> master_wires to_wire"
  by (auto simp: master_wires_def)

lemma master_movesI:
  assumes "node_log (rs_node (dm_state dm')) = node_log (rs_node (dm_state dm))"
    and "channels_change (master_wires to_wire) (master_connections dm) (master_connections dm')"
    and "tells_slaves to_wire (node_derived (rs_node (dm_state dm))) (node_derived (rs_node (dm_state dm')))"
  shows "master_moves to_wire dm dm'"
  using assms by (simp add: master_moves_def)

lemma master_moves_same:
  "rs_node (dm_state dm') = rs_node (dm_state dm) \<Longrightarrow> master_moves to_wire dm dm'"
  by (simp add: master_moves_def master_connections_def)

lemma master_inv_node:
  assumes "master_inv to_wire rand init dm"
  shows "log_inv (node_log (rs_node (dm_state dm)))"
    and "paxos_instances (node_paxos (rs_node (dm_state dm))) i = Some h \<Longrightarrow> paxos_log_index h = i"
    and "callbacks (node_log (rs_node (dm_state dm))) = master_callbacks to_wire"
  using assms by (auto simp: master_inv_def state_ok_def master.server_inv_def master.log_followed_def)

lemma master_handle_moves:
  assumes run: "master_handle to_wire parse rand cs m dm = Some (Inr dm')" and inv: "master_inv to_wire rand init dm"
  shows "master_moves to_wire dm dm'"
proof (cases "parse (incoming_payload m)")
  case (ClientMessage cm)
  with run show ?thesis
    by (intro master_moves_same; cases cm) (auto simp: master_handle_def handle_find_key_def Let_def split: prod.splits)
next
  case (SlaveMessage sm)
  with run show ?thesis by (intro master_moves_same; cases sm) (auto simp: master_handle_def Let_def)
next
  case (MasterMessage mm)
  note node = master_inv_node [OF inv]
  show ?thesis
  proof (cases mm)
    case (MasterPaxos pm)
    with run MasterMessage obtain nd where nd: "dm' = master_with_node nd dm"
      "handle_incoming_message (\<lambda>p. to_wire (master_paxos_wrapper p)) cs (config_provider md_timeline)
        (incoming_endpoint m) pm (rs_node (dm_state dm)) = Inr nd"
      by (auto simp: master_handle_def Let_def rbind_eq_Inr)
    from paxos_message_advances [OF nd(2) node(1,2)] channels_change_mono [OF paxos_message_channels [OF nd(2)] master_wires_parts(1)]
    show ?thesis by (simp add: nd(1) master_with_node_def master_moves_def master_connections_def)
  next
    case (MasterSync y)
    with run MasterMessage obtain nd where nd: "dm' = master_with_node nd dm"
      "handle_sync_message (\<lambda>p. to_wire (master_sync_wrapper p)) (incoming_endpoint m) y (rs_node (dm_state dm)) = Some (Inr nd)"
      by (auto simp: master_handle_def Let_def rbind_eq_Inr)
    from sync_message_advances [OF nd(2) node(1)] channels_change_mono [OF sync_message_channels [OF nd(2)] master_wires_parts(2)]
    show ?thesis by (simp add: nd(1) master_with_node_def master_moves_def master_connections_def)
  qed (use run MasterMessage in \<open>intro master_moves_same; auto simp: master_handle_def Let_def\<close>)+
qed (use run in \<open>intro master_moves_same; auto simp: master_handle_def Let_def\<close>)+

lemma announce_tells:
  assumes "announce to_wire g rs n d = Inr d'" "(g, NewKeySpace ranges rs n) \<in> set (md_groups d)"
  shows "tells_slaves to_wire d d'"
proof -
  from assms(1) obtain es configs where "d' = d\<lparr>md_configs := configs, md_slaves :=
      broadcast es (to_wire (build_new_key_space_selected_message rs n)) (md_slaves d)\<rparr>"
    by (auto simp: announce_def Let_def simp del: broadcast.simps split: prod.splits if_splits)
  moreover have "to_wire (build_new_key_space_selected_message rs n) \<in> in_progress to_wire d"
    using assms(2) by (auto simp: in_progress_def)
  ultimately show ?thesis by (simp add: tells_slaves_def channels_change_broadcast)
qed

lemma proposal_moves:
  assumes "request_propose (\<lambda>p. to_wire (master_paxos_wrapper p)) (config_provider md_timeline) rand e (dm_state dm) = Inr s"
    and "master_inv to_wire rand' init dm" "rs_node (dm_state dm') = rs_node s"
  shows "master_moves to_wire dm dm'"
proof -
  from request_propose_node [OF assms(1)] obtain draw where
    p: "multi_propose (\<lambda>p. to_wire (master_paxos_wrapper p)) (config_provider md_timeline) draw e (rs_node (dm_state dm)) =
      Inr (rs_node s)" by blast
  from propose_advances [OF p master_inv_node(1) [OF assms(2)]] channels_change_mono [OF propose_channels [OF p] master_wires_parts(1)]
  show ?thesis by (simp add: master_moves_def master_connections_def assms(3))
qed

lemma find_key_task_moves:
  assumes run: "find_key_task to_wire rand rc message endpoint (dm_state dm) = Inr (w, s)"
    and inv: "master_inv to_wire rand init dm" and dm': "dm_state dm' = s"
  shows "master_moves to_wire dm dm'"
proof -
  let ?d = "node_derived (rs_node (dm_state dm))"
  show ?thesis
  proof (cases "search_groups message (md_groups ?d)")
    case None
    from run None consider "rs_node s = rs_node (dm_state dm)"
      | e s1 where "request_propose (\<lambda>p. to_wire (master_paxos_wrapper p)) (config_provider md_timeline) rand e (dm_state dm) = Inr s1"
        "rs_node s = rs_node s1"
      by (auto simp: find_key_task_def Let_def find_key_answer_def rbind_eq_Inr split: if_splits option.splits)
    then show ?thesis
    proof cases
      case 1
      with dm' show ?thesis by (intro master_moves_same) simp
    next
      case 2
      with proposal_moves [OF 2(1) inv] dm' show ?thesis by simp
    qed
  next
    case (Some x)
    show ?thesis
    proof (cases x)
      case (Assigned g)
      with Some run have "rs_node s = rs_node (dm_state dm)" by (auto simp: find_key_task_def Let_def find_key_answer_def)
      with dm' show ?thesis by (intro master_moves_same) simp
    next
      case (InProgress g rs n)
      with Some search_groups_Some(1) obtain ranges where g: "(g, NewKeySpace ranges rs n) \<in> set (md_groups ?d)" by blast
      from Some InProgress run obtain d' where d': "announce to_wire g rs n ?d = Inr d'"
        "s = (dm_state dm)\<lparr>rs_node := (rs_node (dm_state dm))\<lparr>node_derived := d'\<rparr>\<rparr>"
        by (auto simp: find_key_task_def Let_def rbind_eq_Inr)
      from announce_tells [OF d'(1) g] show ?thesis
        by (intro master_movesI) (simp_all add: dm' d'(2) master_connections_def)
    qed
  qed
qed

lemma commit_task_moves:
  assumes run: "commit_task to_wire rand endpoint generation (dm_state dm) = Inr (w, s)"
    and inv: "master_inv to_wire rand init dm" and dm': "dm_state dm' = s"
  shows "master_moves to_wire dm dm'"
proof -
  from inv have "state_ok to_wire init (dm_state dm)" by (simp add: master_inv_def)
  from state_ok_follows [OF this] obtain d0 where "master_follows (node_derived (rs_node (dm_state dm))) d0" by blast
  from commit_task_effect [OF run this] consider "s = dm_state dm"
    | g where "request_propose (\<lambda>p. to_wire (master_paxos_wrapper p)) (config_provider md_timeline) rand
        (KeySpaceCommit g generation) (dm_state dm) = Inr s" by blast
  then show ?thesis
  proof cases
    case 1
    with dm' show ?thesis by (intro master_moves_same) simp
  next
    case 2
    with proposal_moves [OF 2 inv] dm' show ?thesis by simp
  qed
qed

lemma master_step_moves:
  assumes run: "master_step to_wire parse rand cs ev dm = Some (Inr dm')" and inv: "master_inv to_wire rand init dm"
  shows "master_moves to_wire dm dm'"
proof -
  let ?nd = "rs_node (dm_state dm)" let ?d = "node_derived ?nd"
  show ?thesis
  proof (cases ev)
    case (MasterQueueMessage m)
    with run show ?thesis by (intro master_moves_same) auto
  next
    case MasterHandleMessage
    show ?thesis
    proof (cases "posted (dm_scheduler dm)")
      case (Cons m ms)
      with run MasterHandleMessage obtain dm1 where
        h: "master_handle to_wire parse rand cs m dm = Some (Inr dm1)"
          "dm' = dm1\<lparr>dm_scheduler := message_handled (dm_scheduler dm1)\<rparr>"
        by (auto simp: rbind_eq_Inr)
      from master_handle_moves [OF h(1) inv] show ?thesis by (simp add: h(2) master_moves_def master_connections_def)
    qed (use run MasterHandleMessage in \<open>intro master_moves_same, simp\<close>)
  next
    case MasterRunTask
    with run obtain q s where r: "run_front (dm_async_queue dm) (dm_state dm) = Inr (q, s)"
      and dm': "dm' = dm\<lparr>dm_async_queue := q, dm_state := s\<rparr>" by (auto simp: rbind_eq_Inr)
    from inv obtain ts where "queue_callbacks (dm_async_queue dm) = find_key_tasks to_wire rand ts"
      by (auto simp: master_inv_def)
    from front_task [OF r this [unfolded find_key_tasks_def]] consider "s = dm_state dm"
      | rc message endpoint w where "find_key_task to_wire rand rc message endpoint (dm_state dm) = Inr (w, s)"
      by fastforce
    then show ?thesis
      by cases (use find_key_task_moves [OF _ inv] in \<open>auto simp: dm' intro: master_moves_same\<close>)
  next
    case MasterRunLocalTask
    with run obtain q s where r: "run_front (dm_local_queue dm) (dm_state dm) = Inr (q, s)"
      and dm': "dm' = dm\<lparr>dm_local_queue := q, dm_state := s\<rparr>" by (auto simp: rbind_eq_Inr)
    from inv obtain ts where "queue_callbacks (dm_local_queue dm) = commit_tasks to_wire rand ts"
      by (auto simp: master_inv_def)
    from front_task [OF r this [unfolded commit_tasks_def]] consider "s = dm_state dm"
      | endpoint generation w where "commit_task to_wire rand endpoint generation (dm_state dm) = Inr (w, s)"
      by fastforce
    then show ?thesis
      by cases (use commit_task_moves [OF _ inv] in \<open>auto simp: dm' intro: master_moves_same\<close>)
  next
    case MasterSyncTimer
    with run obtain nd where nd: "dm' = master_with_node nd dm"
      "sync_timer (\<lambda>p. to_wire (master_sync_wrapper p)) md_timeline ?nd = Inr nd"
      by (auto simp: rbind_eq_Inr)
    have "channels_change (master_wires to_wire) (master_connections dm) (node_connections nd)"
      using sync_timer_channels [OF nd(2)] channels_change_mono [OF _ master_wires_parts(3)]
      by (auto simp: master_connections_def)
    with sync_timer_keeps [OF nd(2)] show ?thesis
      by (intro master_movesI) (simp_all add: nd(1) master_with_node_def master_connections_def)
  next
    case (MasterToMaster cev)
    with run obtain c where c: "connection_step cev (node_connections ?nd) = Inr c"
      and dm': "dm' = master_with_node (?nd\<lparr>node_connections := c\<rparr>) dm"
      by (auto simp: Let_def rbind_eq_Inr)
    show ?thesis
      by (rule master_movesI)
        (use connection_step_change [OF c] in \<open>simp_all add: dm' master_with_node_def master_connections_def\<close>)
  next
    case (MasterToClient cev)
    with run show ?thesis by (intro master_moves_same) (auto simp: rbind_eq_Inr)
  next
    case (MasterToSlave cev)
    with run obtain c where c: "connection_step cev (md_slaves ?d) = Inr c"
      and dm': "dm' = master_with_node (?nd\<lparr>node_derived := ?d\<lparr>md_slaves := c\<rparr>\<rparr>) dm"
      by (auto simp: Let_def rbind_eq_Inr)
    show ?thesis
      by (rule master_movesI)
        (use connection_step_change [OF c] in \<open>simp_all add: dm' master_with_node_def master_connections_def tells_slaves_def\<close>)
  next
    case MasterOverlap
    with run show ?thesis by (intro master_moves_same) simp_all
  qed
qed

section \<open>Queue and tasks\<close>

lemma master_handle_keeps_scheduler:
  "master_handle to_wire parse rand cs m dm = Some (Inr dm') \<Longrightarrow> dm_scheduler dm' = dm_scheduler dm"
  by (auto simp: master_handle_def master_with_node_def Let_def rbind_eq_Inr
      split: message_wrapper.splits client_message.splits slave_message.splits master_message.splits prod.splits)

lemma master_step_queue:
  assumes run: "master_step to_wire parse rand cs ev dm = Some (Inr dm')" and ok: "scheduler_ok (dm_scheduler dm)"
  shows "changes {m. ev = MasterQueueMessage m} (message_queue (dm_scheduler dm)) (message_queue (dm_scheduler dm'))"
proof -
  have same: ?thesis if "dm_scheduler dm' = dm_scheduler dm" using that by simp
  show ?thesis
  proof (cases ev)
    case (MasterQueueMessage m)
    with run show ?thesis by (auto simp: scheduler_queues changes_append)
  next
    case MasterHandleMessage
    show ?thesis
    proof (cases "posted (dm_scheduler dm)")
      case (Cons m ms)
      with run MasterHandleMessage obtain dm1 where
        h: "master_handle to_wire parse rand cs m dm = Some (Inr dm1)"
          "dm' = dm1\<lparr>dm_scheduler := message_handled (dm_scheduler dm1)\<rparr>"
        by (auto simp: rbind_eq_Inr)
      have "subseq (tl ms) ms" for ms :: "'a incoming_message list" by (cases ms) auto
      then show ?thesis by (simp add: h(2) master_handle_keeps_scheduler [OF h(1)] scheduler_queues changes_subseq)
    qed (use run MasterHandleMessage same in simp)
  qed (use run in \<open>auto intro!: same simp: rbind_eq_Inr Let_def master_with_node_def\<close>)
qed

text \<open>
  The reports of slaves: \<open>C\<close> is a property of the numbers they carry, and of those the tasks may
  commit.
\<close>

definition report_tasks ::
  "(message_wrapper \<Rightarrow> 'w) \<Rightarrow> ('r \<Rightarrow> 32 word \<times> 'r) \<Rightarrow> (32 word \<Rightarrow> bool) \<Rightarrow> ('w, 'r) master_state async_queue \<Rightarrow> bool" where
  "report_tasks to_wire rand C q \<longleftrightarrow>
     (\<exists>ts. queue_callbacks q = commit_tasks to_wire rand ts \<and> (\<forall>(endpoint, n)\<in>set ts. C n))"

definition report_ok :: "('w \<Rightarrow> message_wrapper) \<Rightarrow> (32 word \<Rightarrow> bool) \<Rightarrow> 'w \<Rightarrow> bool" where
  "report_ok parse C w \<longleftrightarrow> (case parse w of SlaveMessage (SlaveKeySpaceChanged n) \<Rightarrow> C n | _ \<Rightarrow> True)"

lemma master_handle_reports:
  assumes "master_handle to_wire parse rand cs m dm = Some (Inr dm')" "report_tasks to_wire rand C (dm_local_queue dm)"
    and "report_ok parse C (incoming_payload m)"
  shows "report_tasks to_wire rand C (dm_local_queue dm')"
proof -
  consider "dm_local_queue dm' = dm_local_queue dm"
    | n where "parse (incoming_payload m) = SlaveMessage (SlaveKeySpaceChanged n)"
      "dm_local_queue dm' = handle_key_space_changed to_wire rand (incoming_endpoint m) n (dm_local_queue dm)"
    using assms(1)
    by (auto simp: master_handle_def master_with_node_def Let_def rbind_eq_Inr
        split: message_wrapper.splits client_message.splits slave_message.splits master_message.splits prod.splits)
  then show ?thesis
  proof cases
    case (2 n)
    with assms(3) have new: "C n" by (simp add: report_ok_def)
    from assms(2) obtain ts where ts: "queue_callbacks (dm_local_queue dm) = commit_tasks to_wire rand ts"
      "\<forall>(endpoint, n)\<in>set ts. C n" by (auto simp: report_tasks_def)
    have "queue_callbacks (dm_local_queue dm') = commit_tasks to_wire rand (ts @ [(incoming_endpoint m, n)])"
      by (simp add: 2(2) ts(1) handle_key_space_changed_def add_task_def schedule_run_def Let_def commit_tasks_def)
    with ts(2) new show ?thesis unfolding report_tasks_def by (intro exI [of _ "ts @ [(incoming_endpoint m, n)]"]) simp
  qed (use assms(2) in simp)
qed

lemma master_step_reports:
  assumes run: "master_step to_wire parse rand cs ev dm = Some (Inr dm')" and tasks: "report_tasks to_wire rand C (dm_local_queue dm)"
    and ok: "scheduler_ok (dm_scheduler dm)"
    and queue: "\<forall>m\<in>set (message_queue (dm_scheduler dm)). report_ok parse C (incoming_payload m)"
  shows "report_tasks to_wire rand C (dm_local_queue dm')"
proof -
  have same: ?thesis if "dm_local_queue dm' = dm_local_queue dm" using that tasks by simp
  show ?thesis
  proof (cases ev)
    case MasterHandleMessage
    show ?thesis
    proof (cases "posted (dm_scheduler dm)")
      case (Cons m ms)
      with run MasterHandleMessage obtain dm1 where
        h: "master_handle to_wire parse rand cs m dm = Some (Inr dm1)"
          "dm' = dm1\<lparr>dm_scheduler := message_handled (dm_scheduler dm1)\<rparr>"
        by (auto simp: rbind_eq_Inr)
      have "m \<in> set (message_queue (dm_scheduler dm))" using scheduler_posted [OF ok Cons] by (metis list.set_intros(1))
      with master_handle_reports [OF h(1) tasks] queue show ?thesis by (simp add: h(2))
    qed (use run MasterHandleMessage same in simp)
  next
    case MasterRunLocalTask
    with run obtain q s where r: "run_front (dm_local_queue dm) (dm_state dm) = Inr (q, s)"
      and dm': "dm' = dm\<lparr>dm_local_queue := q, dm_state := s\<rparr>" by (auto simp: rbind_eq_Inr)
    show ?thesis
    proof (cases "scheduled_runs (dm_local_queue dm) = []")
      case False
      with r have f: "fire_run (dm_local_queue dm, dm_state dm) = Inr (q, s)" by (simp add: run_front_def)
      from tasks obtain ts where ts: "queue_callbacks (dm_local_queue dm) = commit_tasks to_wire rand ts"
        "\<forall>(endpoint, n)\<in>set ts. C n" by (auto simp: report_tasks_def)
      from fire_run_tasks [OF f ts(1) [unfolded commit_tasks_def]] obtain t ts' w where
        "ts = t # ts'" "queue_callbacks q = commit_tasks to_wire rand (if w = TERMINATE then ts' else ts)"
        unfolding commit_tasks_def by metis
      with ts(2) show ?thesis unfolding report_tasks_def
        by (intro exI [of _ "if w = TERMINATE then ts' else ts"]) (simp add: dm')
    qed (use r dm' same in \<open>simp add: run_front_def\<close>)
  qed (use run tasks in \<open>auto intro!: same simp: rbind_eq_Inr Let_def master_with_node_def\<close>)
qed

lemma master_wires_reports:
  assumes "\<And>m. parse (to_wire m) = m" "w \<in> master_wires to_wire"
  shows "report_ok parse C w"
  using assms by (auto simp: master_wires_def report_ok_def master_paxos_wrapper_def master_sync_wrapper_def)

end
