(* ===== verification/MasterGroup.thy ===== *)
theory MasterGroup
  imports MasterSteps
begin

text \<open>
  The group of masters: whole \<open>DataMaster\<close>s (DataMaster.thy) connected to each other, each taking the
  steps of its own model, with messages moving from the channels to the schedulers. The masters
  refine the group of PaxosGroup.thy, with the proposals of their tasks as the justified ones.
  Hence their logs agree, what DataMaster.thy asks of a log holds of the log of every master, no
  callback ever throws, and no two masters ever name different groups for a key.
\<close>

section \<open>The masters' messages on the wire\<close>

definition master_paxos_in :: "('w \<Rightarrow> message_wrapper) \<Rightarrow> 'w \<Rightarrow> paxos_message list" where
  "master_paxos_in parse w = (case parse w of MasterMessage (MasterPaxos m) \<Rightarrow> [m] | _ \<Rightarrow> [])"

definition master_sync_in :: "('w \<Rightarrow> message_wrapper) \<Rightarrow> 'w \<Rightarrow> (32 word \<times> paxos_log_entry) set" where
  "master_sync_in parse w =
     (case parse w of MasterMessage (MasterSync (SyncResponse r)) \<Rightarrow> set (missing_entries r) | _ \<Rightarrow> {})"

text \<open>Clients and slaves do not send the messages masters send each other.\<close>

definition from_a_master :: "('w \<Rightarrow> message_wrapper) \<Rightarrow> 'w \<Rightarrow> bool" where
  "from_a_master parse w \<longleftrightarrow>
     (case parse w of MasterMessage (MasterPaxos m) \<Rightarrow> True | MasterMessage (MasterSync y) \<Rightarrow> True | _ \<Rightarrow> False)"

section \<open>Runs of the group\<close>

text \<open>
  A master acts as in \<open>master_step\<close>; what arrives from outside is from no master; and its log has
  room, so that indices fit the wire. A master that throws is gone.
\<close>

definition master_act ::
  "(message_wrapper \<Rightarrow> 'w) \<Rightarrow> ('w \<Rightarrow> message_wrapper) \<Rightarrow> ('r \<Rightarrow> 32 word \<times> 'r) \<Rightarrow> constants
   \<Rightarrow> 'w master_event \<Rightarrow> ('w, 'r) data_master \<Rightarrow> ('w, 'r) data_master option" where
  "master_act to_wire parse rand cs ev dm =
     (if fits_index (first_free (node_log (rs_node (dm_state dm)))) \<and>
         (case ev of MasterQueueMessage m \<Rightarrow> \<not> from_a_master parse (incoming_payload m) | _ \<Rightarrow> True)
      then case master_step to_wire parse rand cs ev dm of Some (Inr dm') \<Rightarrow> Some dm' | _ \<Rightarrow> None
      else None)"

definition master_sent :: "endpoint_id \<Rightarrow> ('w, 'r) data_master \<Rightarrow> ('w, 'r) data_master" where
  "master_sent q dm = (let nd = rs_node (dm_state dm)
     in master_with_node (nd\<lparr>node_connections := deliver_from q (node_connections nd)\<rparr>) dm)"

definition master_received :: "'w incoming_message \<Rightarrow> ('w, 'r) data_master \<Rightarrow> ('w, 'r) data_master" where
  "master_received m dm = dm\<lparr>dm_scheduler := queue_message m (dm_scheduler dm)\<rparr>"

definition masters_run ::
  "(message_wrapper \<Rightarrow> 'w) \<Rightarrow> ('w \<Rightarrow> message_wrapper) \<Rightarrow> ('r \<Rightarrow> 32 word \<times> 'r) \<Rightarrow> constants \<Rightarrow> endpoint_id list
   \<Rightarrow> 'w master_event cluster_event list \<Rightarrow> (endpoint_id \<Rightarrow> ('w, 'r) data_master)
   \<Rightarrow> (endpoint_id \<Rightarrow> ('w, 'r) data_master) option" where
  "masters_run to_wire parse rand cs ns evs dms =
     cluster_run (master_act to_wire parse rand cs) master_connections master_sent master_received ns evs dms"

text \<open>
  The same when what slaves say has a property: \<open>C\<close> holds of the numbers they report.
\<close>

definition master_acts ::
  "(32 word \<Rightarrow> bool) \<Rightarrow> (message_wrapper \<Rightarrow> 'w) \<Rightarrow> ('w \<Rightarrow> message_wrapper) \<Rightarrow> ('r \<Rightarrow> 32 word \<times> 'r)
   \<Rightarrow> constants \<Rightarrow> 'w master_event \<Rightarrow> ('w, 'r) data_master \<Rightarrow> ('w, 'r) data_master option" where
  "master_acts C to_wire parse rand cs ev dm =
     (if (case ev of MasterQueueMessage m \<Rightarrow> report_ok parse C (incoming_payload m) | _ \<Rightarrow> True)
      then master_act to_wire parse rand cs ev dm else None)"

definition told_masters_run ::
  "(32 word \<Rightarrow> bool) \<Rightarrow> (message_wrapper \<Rightarrow> 'w) \<Rightarrow> ('w \<Rightarrow> message_wrapper) \<Rightarrow> ('r \<Rightarrow> 32 word \<times> 'r)
   \<Rightarrow> constants \<Rightarrow> endpoint_id list \<Rightarrow> 'w master_event cluster_event list \<Rightarrow> (endpoint_id \<Rightarrow> ('w, 'r) data_master)
   \<Rightarrow> (endpoint_id \<Rightarrow> ('w, 'r) data_master) option" where
  "told_masters_run C to_wire parse rand cs ns evs dms =
     cluster_run (master_acts C to_wire parse rand cs) master_connections master_sent master_received ns evs dms"

lemma master_acts_any: "master_acts (\<lambda>_. True) = master_act"
  by (intro ext)
    (simp add: master_acts_def report_ok_def split: master_event.split message_wrapper.split slave_message.split)

lemma told_masters_any: "told_masters_run (\<lambda>_. True) = masters_run"
  by (intro ext) (simp add: told_masters_run_def masters_run_def master_acts_any)

lemma masters_run_Nil: "masters_run to_wire parse rand cs ns [] dms = Some dms"
  by (simp add: masters_run_def)

lemma masters_run_append:
  "masters_run to_wire parse rand cs ns evs dms = Some dms1 \<Longrightarrow> masters_run to_wire parse rand cs ns evs' dms1 = Some dms2 \<Longrightarrow>
     masters_run to_wire parse rand cs ns (evs @ evs') dms = Some dms2"
  unfolding masters_run_def by (rule cluster_run_append)

text \<open>All start from the same files of addresses, over connections that are still silent.\<close>

definition start_masters ::
  "(message_wrapper \<Rightarrow> 'w) \<Rightarrow> (endpoint_id \<Rightarrow> 'r) \<Rightarrow> (endpoint_id \<Rightarrow> 'w connections) \<Rightarrow> (endpoint_id \<Rightarrow> 'w connections)
   \<Rightarrow> (endpoint_id \<Rightarrow> 'w connections) \<Rightarrow> endpoint_id list \<Rightarrow> endpoint_id list \<Rightarrow> endpoint_id \<Rightarrow> ('w, 'r) data_master" where
  "start_masters to_wire seeds clients slaves masters slave_endpoints master_endpoints p =
     DataMaster to_wire (seeds p) (clients p) (slaves p) (masters p) slave_endpoints master_endpoints"

section \<open>What justifies an entry\<close>

text \<open>
  A task proposed it on a master whose state was the replay of the log below it; a commit carries a
  number that slaves reported.
\<close>

definition master_justified ::
  "(32 word \<Rightarrow> bool) \<Rightarrow> (message_wrapper \<Rightarrow> 'w) \<Rightarrow> 'w master_derived \<Rightarrow> justification" where
  "master_justified C to_wire init L i e \<longleftrightarrow>
     (\<forall>g n. e = KeySpaceCommit g n \<longrightarrow> C n) \<and>
     (\<exists>d. replay (master_callbacks to_wire) L i init = Inr d \<and> master_proposal d e)"

lemma master_proposal_kind: "master_proposal d e \<Longrightarrow> not_reconfig e"
  by (auto simp: master_proposal_def assignment_def build_new_key_space_selected_paxos_def not_reconfig_def Let_def
      split: option.splits)

interpretation master_proposals: local_justification "master_justified C to_wire init" for C to_wire init
proof
  fix i e C and L L' :: "index_t \<rightharpoonup> paxos_log_entry"
  assume same: "\<And>k. k < i \<Longrightarrow> L k = L' k" and "master_justified C to_wire init L i e"
  moreover have "replay (master_callbacks to_wire) L i init = replay (master_callbacks to_wire) L' i init"
    by (rule replay_cong) (rule same)
  ultimately show "master_justified C to_wire init L' i e" by (simp add: master_justified_def)
qed

lemma master_timeline:
  assumes "replay (master_callbacks to_wire) m n init = Inr d" "timeline_distinct (md_timeline init)"
    and "\<And>i. i < n \<Longrightarrow> not_reconfig (the (m i))" "configured init"
  shows "timeline_distinct (md_timeline d)"
proof -
  have "md_timeline d = md_timeline init \<and> configured d"
  proof (rule replay_invariant [OF assms(1)])
    fix i and x x' :: "'a master_derived"
    assume i: "i < n" and x: "md_timeline x = md_timeline init \<and> configured x"
      and step: "apply_entry (master_callbacks to_wire) i (the (m i)) x = Inr x'"
    from assms(3) [OF i] x step show "md_timeline x' = md_timeline init \<and> configured x'"
      by (cases "the (m i)") (auto simp: not_reconfig_def apply_entry_master selected_Inr commit_Inr simp del: broadcast.simps)
  qed (use assms(4) in simp)
  with assms(2) show ?thesis by simp
qed

section \<open>The steps of a master in the group\<close>

definition master_member ::
  "(message_wrapper \<Rightarrow> 'w) \<Rightarrow> ('w \<Rightarrow> message_wrapper) \<Rightarrow> ('r \<Rightarrow> 32 word \<times> 'r) \<Rightarrow> (32 word \<Rightarrow> bool)
   \<Rightarrow> 'w master_derived \<Rightarrow> ('w, 'r) data_master \<Rightarrow> bool" where
  "master_member to_wire parse rand C init dm \<longleftrightarrow>
     master_inv to_wire rand init dm \<and> node_ok (rs_node (dm_state dm)) \<and> scheduler_ok (dm_scheduler dm) \<and>
     report_tasks to_wire rand C (dm_local_queue dm) \<and>
     admits (report_ok parse C) (message_queue (dm_scheduler dm)) (master_connections dm)"

definition master_view :: "('w \<Rightarrow> message_wrapper) \<Rightarrow> ('w, 'r) data_master \<Rightarrow> host_view" where
  "master_view parse dm =
     node_view (master_paxos_in parse) (master_sync_in parse) (message_queue (dm_scheduler dm)) (rs_node (dm_state dm))"

sublocale wire_format \<subseteq> master_wire: group_wire "master_paxos_in parse" "master_sync_in parse"
  "\<lambda>p. to_wire (master_paxos_wrapper p)" "\<lambda>y. to_wire (master_sync_wrapper y)"
  by unfold_locales
    (simp_all add: master_paxos_in_def master_sync_in_def master_paxos_wrapper_def master_sync_wrapper_def)

lemma master_proposal_follows: "master_follows d d0 \<Longrightarrow> master_proposal d e = master_proposal d0 e"
  by (simp add: master_follows_def master_proposal_def)

context wire_format
begin

lemma master_state_facts:
  assumes inv: "state_ok to_wire init s"
    and entries: "entries_sound (rs_node s)"
    and start: "timeline_distinct (md_timeline init)" "configured init"
  shows "makes_instances (config_provider md_timeline) (node_derived (rs_node s))"
    and "\<exists>d0. replay (master_callbacks to_wire) (log (node_log (rs_node s))) (first_free (node_log (rs_node s))) init = Inr d0 \<and>
      master_follows (node_derived (rs_node s)) d0"
proof -
  have srv: "master.server_inv to_wire init (rs_node s)" using inv by (simp add: state_ok_def)
  then have li: "log_inv (node_log (rs_node s))" by (simp add: master.server_inv_def master.log_followed_def)
  from master.server_replay [OF srv] obtain d0 where
    d0: "replay (master_callbacks to_wire) (log (node_log (rs_node s))) (first_free (node_log (rs_node s))) init = Inr d0"
      "master_follows (node_derived (rs_node s)) d0" by blast
  then show "\<exists>d0. replay (master_callbacks to_wire) (log (node_log (rs_node s))) (first_free (node_log (rs_node s))) init = Inr d0 \<and>
      master_follows (node_derived (rs_node s)) d0" by blast
  have "timeline_distinct (md_timeline d0)"
    by (rule master_timeline [OF d0(1) start(1) entries_sound_below [OF entries li] start(2)])
  with d0(2) show "makes_instances (config_provider md_timeline) (node_derived (rs_node s))"
    by (intro makes_instances_config) (simp add: master_follows_def)
qed

lemma master_task_view:
  assumes inv: "state_ok to_wire init s" and ok: "node_ok (rs_node s)" and entries: "entries_sound (rs_node s)"
    and start: "timeline_distinct (md_timeline init)" "configured init"
    and fit: "fits_index (first_free (node_log (rs_node s)))"
    and effect: "(\<exists>d. rs_node s' = (rs_node s)\<lparr>node_derived := d\<rparr>) \<or>
      (\<exists>e s1. master_proposal (node_derived (rs_node s)) e \<and> (\<forall>g n. e = KeySpaceCommit g n \<longrightarrow> C n) \<and>
         request_propose (\<lambda>p. to_wire (master_paxos_wrapper p)) (config_provider md_timeline) rand e s = Inr s1 \<and>
         rs_node s' = rs_node s1)"
  shows "host_step cs (master_justified C to_wire init)
      (master_wire.member_view queue (rs_node s)) (master_wire.member_view queue (rs_node s')) \<and> node_ok (rs_node s')"
proof (rule master_wire.task_view [OF ok master_state_facts(1) [OF inv entries start] fit])
  have "master_justified C to_wire init (log (node_log (rs_node s))) (first_free (node_log (rs_node s))) e"
    if "master_proposal (node_derived (rs_node s)) e" "\<forall>g n. e = KeySpaceCommit g n \<longrightarrow> C n" for e
    using master_state_facts(2) [OF inv entries start] that master_proposal_follows unfolding master_justified_def by blast
  with effect request_propose_node show "(\<exists>d. rs_node s' = (rs_node s)\<lparr>node_derived := d\<rparr>) \<or>
    (\<exists>draw e. master_justified C to_wire init (log (node_log (rs_node s))) (first_free (node_log (rs_node s))) e \<and>
      multi_propose (\<lambda>p. to_wire (master_paxos_wrapper p)) (config_provider md_timeline) draw e (rs_node s) = Inr (rs_node s'))"
    by metis
qed

lemma master_handle_view:
  assumes run: "master_handle to_wire parse rand cs m dm = Some (Inr dm')"
    and inv: "state_ok to_wire init (dm_state dm)" and ok: "node_ok (rs_node (dm_state dm))"
    and entries: "entries_sound (rs_node (dm_state dm))"
    and start: "timeline_distinct (md_timeline init)" "configured init"
  shows "host_step cs (master_justified C to_wire init)
      (master_wire.member_view (m # queue) (rs_node (dm_state dm))) (master_wire.member_view queue (rs_node (dm_state dm'))) \<and>
    node_ok (rs_node (dm_state dm')) \<and> dm_scheduler dm' = dm_scheduler dm"
proof -
  note facts = master_state_facts [OF inv entries start]
  have drop: "changes M (m # queue) queue" for M by (rule changes_subseq) (simp add: list_emb_Cons)
  have same: ?thesis if "rs_node (dm_state dm') = rs_node (dm_state dm)" "dm_scheduler dm' = dm_scheduler dm"
    using that ok drop by (auto intro: master_wire.queue_view_step)
  show ?thesis
  proof (cases "parse (incoming_payload m)")
    case (ClientMessage cm)
    with run show ?thesis
      by (intro same; cases cm) (auto simp: master_handle_def handle_find_key_def Let_def split: prod.splits)
  next
    case (SlaveMessage sm)
    with run show ?thesis by (intro same; cases sm) (auto simp: master_handle_def Let_def)
  next
    case (MasterMessage mm)
    show ?thesis
    proof (cases mm)
      case (MasterPaxos pm)
      with run MasterMessage obtain nd where nd: "dm' = master_with_node nd dm"
        "handle_incoming_message (\<lambda>p. to_wire (master_paxos_wrapper p)) cs (config_provider md_timeline)
          (incoming_endpoint m) pm (rs_node (dm_state dm)) = Inr nd"
        by (auto simp: master_handle_def Let_def rbind_eq_Inr)
      from MasterMessage MasterPaxos have "master_paxos_in parse (incoming_payload m) = [pm]"
        "master_sync_in parse (incoming_payload m) = {}" by (simp_all add: master_paxos_in_def master_sync_in_def)
      from master_wire.receive_view [OF nd(2) ok facts(1) refl this] show ?thesis by (simp add: nd(1) master_with_node_def)
    next
      case (MasterSync y)
      with run MasterMessage obtain nd where nd: "dm' = master_with_node nd dm"
        "handle_sync_message (\<lambda>p. to_wire (master_sync_wrapper p)) (incoming_endpoint m) y (rs_node (dm_state dm)) = Some (Inr nd)"
        by (auto simp: master_handle_def Let_def rbind_eq_Inr)
      from MasterMessage MasterSync have "set (missing_entries r) \<subseteq> master_sync_in parse (incoming_payload m)"
        if "y = SyncResponse r" for r using that by (simp add: master_sync_in_def)
      from master_wire.sync_message_view [OF nd(2) ok entries_sound_fits [OF entries] this] show ?thesis
        by (simp add: nd(1) master_with_node_def)
    qed (use run MasterMessage in \<open>intro same; auto simp: master_handle_def Let_def\<close>)+
  qed (use run in \<open>intro same; auto simp: master_handle_def Let_def\<close>)+
qed

lemma master_act_member:
  assumes acts: "master_acts C to_wire parse rand cs ev dm = Some dm'" and mem: "master_member to_wire parse rand C init dm"
    and entries: "entries_sound (rs_node (dm_state dm))"
    and start: "timeline_distinct (md_timeline init)" "configured init"
  shows "host_step cs (master_justified C to_wire init) (master_view parse dm) (master_view parse dm') \<and>
    master_member to_wire parse rand C init dm'"
proof -
  let ?J = "master_justified C to_wire init" and ?s = "dm_state dm" and ?q = "message_queue (dm_scheduler dm)"
  from acts have act: "master_act to_wire parse rand cs ev dm = Some dm'"
    and expected: "\<And>m. ev = MasterQueueMessage m \<Longrightarrow> report_ok parse C (incoming_payload m)"
    by (auto simp: master_acts_def split: if_splits)
  from act have run: "master_step to_wire parse rand cs ev dm = Some (Inr dm')"
    and fit: "fits_index (first_free (node_log (rs_node ?s)))"
    and outside: "\<And>m. ev = MasterQueueMessage m \<Longrightarrow> \<not> from_a_master parse (incoming_payload m)"
    by (auto simp: master_act_def split: if_splits option.splits sum.splits)
  from mem have inv: "master_inv to_wire rand init dm" and st: "state_ok to_wire init ?s" and ok: "node_ok (rs_node ?s)"
    and sched: "scheduler_ok (dm_scheduler dm)" and reports: "report_tasks to_wire rand C (dm_local_queue dm)"
    and admit: "admits (report_ok parse C) ?q (master_connections dm)"
    by (simp_all add: master_member_def master_inv_def)
  note task = master_task_view [OF st ok entries start fit, where cs = cs and queue = ?q and C = C]
  have inv': "master_inv to_wire rand init dm'" by (rule master_step_inv [OF run inv])
  obtain d0 where d0: "master_follows (node_derived (rs_node ?s)) d0" using state_ok_follows [OF st] by blast
  have "host_step cs ?J (master_view parse dm) (master_view parse dm') \<and> node_ok (rs_node (dm_state dm')) \<and>
    scheduler_ok (dm_scheduler dm')"
  proof (cases ev)
    case (MasterQueueMessage m)
    with run have dm': "dm' = dm\<lparr>dm_scheduler := queue_message m (dm_scheduler dm)\<rparr>" by simp
    have "master_wire.plain (incoming_payload m)"
      using outside [OF MasterQueueMessage]
      by (auto simp: from_a_master_def master_wire.plain_def master_paxos_in_def master_sync_in_def
          split: message_wrapper.splits master_message.splits)
    then have "changes {m. master_wire.plain (incoming_payload m)} ?q (?q @ [m])" by (intro changes_append) simp
    with ok sched show ?thesis
      by (simp add: dm' master_view_def scheduler_queues scheduler_ok_queue master_wire.queue_view_step)
  next
    case MasterHandleMessage
    show ?thesis
    proof (cases "posted (dm_scheduler dm)")
      case Nil
      with run MasterHandleMessage ok sched show ?thesis by (simp add: master_view_def master_wire.queue_view_step)
    next
      case (Cons m ms)
      with run MasterHandleMessage obtain dm1 where
        h: "master_handle to_wire parse rand cs m dm = Some (Inr dm1)"
          "dm' = dm1\<lparr>dm_scheduler := message_handled (dm_scheduler dm1)\<rparr>"
        by (auto simp: rbind_eq_Inr)
      from master_handle_view [OF h(1) st ok entries start, where queue = "tl ?q" and C = C] scheduler_posted [OF sched Cons]
        scheduler_ok_handled [OF sched Cons]
      show ?thesis by (simp add: h(2) master_view_def scheduler_queues)
    qed
  next
    case MasterRunTask
    with run obtain q s where r: "run_front (dm_async_queue dm) ?s = Inr (q, s)"
      and dm': "dm' = dm\<lparr>dm_async_queue := q, dm_state := s\<rparr>" by (auto simp: rbind_eq_Inr)
    from inv obtain ts where ts: "queue_callbacks (dm_async_queue dm) = find_key_tasks to_wire rand ts"
      by (auto simp: master_inv_def)
    from front_task [OF r ts [unfolded find_key_tasks_def]] consider "s = ?s"
      | rc message endpoint w where "find_key_task to_wire rand rc message endpoint ?s = Inr (w, s)"
      by fastforce
    then have "(\<exists>d. rs_node s = (rs_node ?s)\<lparr>node_derived := d\<rparr>) \<or>
      (\<exists>e s1. master_proposal (node_derived (rs_node ?s)) e \<and> (\<forall>g n. e = KeySpaceCommit g n \<longrightarrow> C n) \<and>
         request_propose (\<lambda>p. to_wire (master_paxos_wrapper p)) (config_provider md_timeline) rand e ?s = Inr s1 \<and>
         rs_node s = rs_node s1)"
    proof cases
      case 1
      then show ?thesis by (intro disjI1 exI [of _ "node_derived (rs_node ?s)"]) simp
    next
      case 2
      from find_key_task_effect [OF 2 d0] show ?thesis by force
    qed
    from task [OF this] sched show ?thesis by (simp add: dm' master_view_def)
  next
    case MasterRunLocalTask
    with run obtain q s where r: "run_front (dm_local_queue dm) ?s = Inr (q, s)"
      and dm': "dm' = dm\<lparr>dm_local_queue := q, dm_state := s\<rparr>" by (auto simp: rbind_eq_Inr)
    from reports obtain ts where ts: "queue_callbacks (dm_local_queue dm) = commit_tasks to_wire rand ts"
      "\<forall>(endpoint, n)\<in>set ts. C n" by (auto simp: report_tasks_def)
    from front_task [OF r ts(1) [unfolded commit_tasks_def]] ts(2) consider "s = ?s"
      | endpoint generation w where "commit_task to_wire rand endpoint generation ?s = Inr (w, s)" "C generation"
      by fastforce
    then have "(\<exists>d. rs_node s = (rs_node ?s)\<lparr>node_derived := d\<rparr>) \<or>
      (\<exists>e s1. master_proposal (node_derived (rs_node ?s)) e \<and> (\<forall>g n. e = KeySpaceCommit g n \<longrightarrow> C n) \<and>
         request_propose (\<lambda>p. to_wire (master_paxos_wrapper p)) (config_provider md_timeline) rand e ?s = Inr s1 \<and>
         rs_node s = rs_node s1)"
    proof cases
      case 1
      then show ?thesis by (intro disjI1 exI [of _ "node_derived (rs_node ?s)"]) simp
    next
      case 2
      from commit_task_effect [OF 2(1) d0] show ?thesis
      proof (elim disjE exE conjE)
        assume s: "s = ?s"
        have "rs_node ?s = (rs_node ?s)\<lparr>node_derived := node_derived (rs_node ?s)\<rparr>" by simp
        then show ?thesis unfolding s by blast
      qed (use 2(2) in blast)
    qed
    from task [OF this] sched show ?thesis by (simp add: dm' master_view_def)
  next
    case MasterSyncTimer
    with run obtain nd where nd: "dm' = master_with_node nd dm"
      "sync_timer (\<lambda>p. to_wire (master_sync_wrapper p)) md_timeline (rs_node ?s) = Inr nd"
      by (auto simp: rbind_eq_Inr)
    from master_wire.sync_timer_view [OF nd(2) ok] sched show ?thesis
      by (simp add: nd(1) master_view_def master_with_node_def)
  next
    case (MasterToMaster cev)
    with run obtain c where c: "connection_step cev (node_connections (rs_node ?s)) = Inr c"
      and dm': "dm' = master_with_node ((rs_node ?s)\<lparr>node_connections := c\<rparr>) dm"
      by (auto simp: Let_def rbind_eq_Inr)
    from master_wire.channels_view [OF connection_step_change [OF c, of "{}"]] ok sched show ?thesis
      by (simp add: dm' master_view_def master_with_node_def node_ok_def)
  next
    case (MasterToClient cev)
    with run ok sched show ?thesis
      by (auto simp: rbind_eq_Inr master_view_def intro: master_wire.queue_view_step [OF changes_refl])
  next
    case (MasterToSlave cev)
    with run ok sched show ?thesis
      by (auto simp: rbind_eq_Inr master_view_def master_with_node_def Let_def node_ok_def intro: master_wire.queue_view_step [OF changes_refl])
  next
    case MasterOverlap
    with run ok sched show ?thesis by (simp add: master_view_def master_wire.queue_view_step)
  qed
  moreover have "report_tasks to_wire rand C (dm_local_queue dm')"
    by (rule master_step_reports [OF run reports sched]) (use admit in \<open>simp add: admits_def\<close>)
  moreover have "admits (report_ok parse C) (message_queue (dm_scheduler dm')) (master_connections dm')"
    by (rule admits_change [OF admit master_step_queue [OF run sched], where W = "master_wires to_wire"])
      (use master_step_moves [OF run inv] expected master_wires_reports [of parse to_wire] parse_to_wire in \<open>auto simp: master_moves_def\<close>)
  ultimately show ?thesis using inv' by (simp add: master_member_def)
qed

lemma master_sent_inv: "master_inv to_wire rand init dm \<Longrightarrow> master_inv to_wire rand init (master_sent q dm)"
proof -
  let ?nd = "rs_node (dm_state dm)"
  assume inv: "master_inv to_wire rand init dm"
  then have "master.server_inv to_wire init ?nd" by (simp add: master_inv_def state_ok_def)
  then have "master.server_inv to_wire init (?nd\<lparr>node_connections := deliver_from q (node_connections ?nd)\<rparr>)" by simp
  with inv show ?thesis by (simp add: master_sent_def Let_def master_with_node_inv del: master.connections_server)
qed

lemma master_received_inv: "master_inv to_wire rand init dm \<Longrightarrow> master_inv to_wire rand init (master_received m dm)"
  by (auto simp: master_received_def master_inv_def)

lemma masters_server_group:
  fixes rand :: "'r \<Rightarrow> 32 word \<times> 'r"
  assumes start: "timeline_distinct (md_timeline init)" "configured init"
  shows "server_group (master_justified C to_wire init) cs not_reconfig (master_member to_wire parse rand C init) (master_view parse)
    (master_acts C to_wire parse rand cs) master_connections master_sent master_received
    (master_paxos_in parse) (master_sync_in parse)"
proof (intro server_group.intro server_group_axioms.intro)
  show "local_justification (master_justified C to_wire init)" by (rule master_proposals.local_justification_axioms)
  show "not_reconfig e" if "master_justified C to_wire init L i e" for L i e
    using that master_proposal_kind by (auto simp: master_justified_def)
  fix dm dm' :: "('w, 'r) data_master" and ev
  assume mem: "master_member to_wire parse rand C init dm"
  {
    assume "\<And>k e. view_entries (master_view parse dm) k = Some e \<Longrightarrow> fits_index k \<and> not_reconfig e"
      and act: "master_acts C to_wire parse rand cs ev dm = Some dm'"
    then have "entries_sound (rs_node (dm_state dm))" by (auto simp: entries_sound_def master_view_def node_view_def)
    from master_act_member [OF act mem this start]
    show "master_member to_wire parse rand C init dm'" "host_step cs (master_justified C to_wire init) (master_view parse dm) (master_view parse dm')"
      by simp_all
  }
  let ?nd = "rs_node (dm_state dm)"
  show "master_member to_wire parse rand C init (master_sent q dm)" for q
  proof -
    have "master_inv to_wire rand init (master_sent q dm)" using mem by (auto simp: master_member_def intro: master_sent_inv)
    with mem admits_deliver [of "report_ok parse C" "message_queue (dm_scheduler dm)" "master_connections dm" q] show ?thesis
      by (simp add: master_member_def master_sent_def Let_def node_ok_def master_with_node_def master_connections_def)
  qed
  show "master_member to_wire parse rand C init (master_received m dm)"
    if "master_member to_wire parse rand C init dm0" "in_flight (master_connections dm0) q = incoming_payload m # ws" for m dm0 q ws
  proof -
    have "admits (report_ok parse C) (message_queue (dm_scheduler dm) @ [m]) (master_connections dm)"
      by (rule admits_queue) (use mem that in \<open>auto simp: master_member_def\<close>)
    moreover have "master_inv to_wire rand init (master_received m dm)"
      using mem by (auto simp: master_member_def intro: master_received_inv)
    ultimately show ?thesis using mem
      by (simp add: master_member_def) (simp add: master_received_def scheduler_ok_queue scheduler_queues master_connections_def)
  qed
next
  fix dm :: "('w, 'r) data_master" and q b w ws
  assume w: "in_flight (master_connections dm) q = w # ws"
  from master_wire.deliver_view [OF w [unfolded master_connections_def]]
  show "view_instances (master_view parse (master_sent q dm)) = view_instances (master_view parse dm) \<and>
      view_entries (master_view parse (master_sent q dm)) = view_entries (master_view parse dm) \<and>
      view_inbox (master_view parse (master_sent q dm)) = view_inbox (master_view parse dm) \<and>
      view_flight (master_view parse dm) b = (if b = q then master_paxos_in parse w else []) @
        view_flight (master_view parse (master_sent q dm)) b \<and>
      view_offers (master_view parse (master_sent q dm)) \<union> master_sync_in parse w \<subseteq> view_offers (master_view parse dm)"
    by (simp add: master_view_def node_view_def master_sent_def Let_def master_with_node_def)
next
  show "master_view parse (master_received \<lparr>incoming_endpoint = p, incoming_payload = w\<rparr> dm) =
      (master_view parse dm)\<lparr>view_inbox := (view_inbox (master_view parse dm))(p :=
          view_inbox (master_view parse dm) p @ master_paxos_in parse w),
        view_offers := view_offers (master_view parse dm) \<union> master_sync_in parse w\<rparr>" for p w and dm :: "('w, 'r) data_master"
    by (simp add: master_view_def node_view_def master_received_def scheduler_queues master_wire.enqueue_view)
qed

lemma start_masters_member:
  assumes "silent masters"
  shows "view_start (master_view parse (start_masters to_wire seeds clients slaves masters ses mes p))"
    "master_member to_wire parse rand C (initial_master ses mes c) (start_masters to_wire seeds clients slaves masters ses mes p)"
proof -
  show "view_start (master_view parse (start_masters to_wire seeds clients slaves masters ses mes p))"
    using assms
    by (simp add: view_start_def master_view_def node_view_def start_masters_def DataMaster_def MultiPaxosHandler_def
        master_log_eq queue_view_def channel_view_def offered_def AsyncSchedulerImpl_def silent_def)
  show "master_member to_wire parse rand C (initial_master ses mes c) (start_masters to_wire seeds clients slaves masters ses mes p)"
    using assms unfolding master_member_def start_masters_def
    by (intro conjI DataMaster_inv)
      (auto simp: report_tasks_def commit_tasks_def admits_def silent_def master_connections_def intro!: exI [of _ "[]"],
        simp_all add: AsyncQueue_def add: DataMaster_def node_ok_def MultiPaxosHandler_def master_log_inv scheduler_ok_def AsyncSchedulerImpl_def)
qed

lemma masters_facts:
  fixes rand :: "'r \<Rightarrow> 32 word \<times> 'r"
  assumes N: "distinct ns" "length ns \<le> unat (num_slave_servers cs)" "majority_is_all cs ns"
    and files: "silent masters" "distinct mes"
    and run: "told_masters_run C to_wire parse rand cs ns evs (start_masters to_wire seeds clients slaves masters ses mes) = Some dms"
      "told_masters_run C to_wire parse rand cs ns evs' dms = Some dms'"
    and init: "init = initial_master ses mes \<lparr>channels = []\<rparr>"
  shows "log (node_log (rs_node (dm_state (dms p)))) i = Some e \<Longrightarrow> log (node_log (rs_node (dm_state (dms' q)))) i = Some e' \<Longrightarrow> e' = e"
    and "proposed_log to_wire (log (node_log (rs_node (dm_state (dms p))))) (first_free (node_log (rs_node (dm_state (dms p))))) init"
    and "log_inv (node_log (rs_node (dm_state (dms p))))"
    and "\<exists>d. replay (master_callbacks to_wire) (log (node_log (rs_node (dm_state (dms p)))))
        (first_free (node_log (rs_node (dm_state (dms p))))) init = Inr d \<and> master_follows (node_derived (rs_node (dm_state (dms p)))) d"
    and "log (node_log (rs_node (dm_state (dms p)))) i = Some e \<Longrightarrow> fits_index i"
    and "i < first_free (node_log (rs_node (dm_state (dms p)))) \<Longrightarrow>
      log (node_log (rs_node (dm_state (dms p)))) i = Some (KeySpaceCommit g n) \<Longrightarrow> C n"
    and "master_inv to_wire rand init (dms p)"
proof -
  have "timeline_distinct (md_timeline init)" "configured init"
    using files(2) by (simp_all add: init timeline_distinct_def configured_def) (simp add: initial_master_def PaxosConfigManager_def)
  note group = masters_server_group [OF this, where cs = cs and rand = rand and C = C]
  have start: "view_start (master_view parse (start_masters to_wire seeds clients slaves masters ses mes p))"
    "master_member to_wire parse rand C init (start_masters to_wire seeds clients slaves masters ses mes p)" for p
    unfolding init by (rule start_masters_member [OF files(1)])+
  note runs = run [unfolded told_masters_run_def]
  have entries: "view_entries (master_view parse dm) = log (node_log (rs_node (dm_state dm)))" for dm :: "('w, 'r) data_master"
    by (simp add: master_view_def node_view_def)
  show "log (node_log (rs_node (dm_state (dms p)))) i = Some e \<Longrightarrow> log (node_log (rs_node (dm_state (dms' q)))) i = Some e' \<Longrightarrow> e' = e"
    by (rule server_group.cluster_agrees [OF group N start runs, of p i e q e', unfolded entries])
  obtain mem: "master_member to_wire parse rand C init (dms p)"
    by (rule server_group.cluster_start_run [OF group N(1,2) start runs(1)]) (rule that)
  then have srv: "master.server_inv to_wire init (rs_node (dm_state (dms p)))"
    by (simp add: master_member_def master_inv_def state_ok_def)
  then show li: "log_inv (node_log (rs_node (dm_state (dms p))))"
    by (simp add: master.server_inv_def master.log_followed_def)
  from master.server_replay [OF srv] show "\<exists>d. replay (master_callbacks to_wire) (log (node_log (rs_node (dm_state (dms p)))))
        (first_free (node_log (rs_node (dm_state (dms p))))) init = Inr d \<and> master_follows (node_derived (rs_node (dm_state (dms p)))) d" .
  have just: "master_justified C to_wire init (log (node_log (rs_node (dm_state (dms p))))) i e"
    if i: "i < first_free (node_log (rs_node (dm_state (dms p))))" and e: "log (node_log (rs_node (dm_state (dms p)))) i = Some e" for i e
  proof -
    have "log (node_log (rs_node (dm_state (dms p)))) k \<noteq> None" if "k < i" for k
      using below_first_free [OF li order.strict_trans [OF that i]] by simp
    from server_group.cluster_justifies [OF group N start runs(1), of p i e, unfolded entries, OF e this] show ?thesis .
  qed
  show "proposed_log to_wire (log (node_log (rs_node (dm_state (dms p))))) (first_free (node_log (rs_node (dm_state (dms p))))) init"
    unfolding proposed_log_def
  proof (intro allI impI)
    fix i d
    assume i: "i < first_free (node_log (rs_node (dm_state (dms p))))"
      and d: "replay (master_callbacks to_wire) (log (node_log (rs_node (dm_state (dms p))))) i init = Inr d"
    from below_first_free [OF li i] obtain e where "log (node_log (rs_node (dm_state (dms p)))) i = Some e" by blast
    with just [OF i this] d show "master_proposal d (the (log (node_log (rs_node (dm_state (dms p)))) i))"
      by (simp add: master_justified_def)
  qed
  show "log (node_log (rs_node (dm_state (dms p)))) i = Some e \<Longrightarrow> fits_index i"
    using server_group.cluster_entry_ok [OF group N(1,2) start runs(1), of p i e, unfolded entries] by simp
  show "i < first_free (node_log (rs_node (dm_state (dms p)))) \<Longrightarrow>
      log (node_log (rs_node (dm_state (dms p)))) i = Some (KeySpaceCommit g n) \<Longrightarrow> C n"
    using just by (auto simp: master_justified_def)
  show "master_inv to_wire rand init (dms p)" using mem by (simp add: master_member_def)
qed

end

text \<open>Masters that read the addresses of a file once each, with messages as they are.\<close>

interpretation plain_masters: server_group "master_justified C (\<lambda>w. w) (initial_master ses (remdups mes) \<lparr>channels = []\<rparr>)"
    cs not_reconfig "master_member (\<lambda>w. w) (\<lambda>w. w) rand C (initial_master ses (remdups mes) \<lparr>channels = []\<rparr>)" "master_view (\<lambda>w. w)"
    "master_acts C (\<lambda>w. w) (\<lambda>w. w) rand cs" master_connections master_sent master_received
    "master_paxos_in (\<lambda>w. w)" "master_sync_in (\<lambda>w. w)"
    for C and ses mes :: "endpoint_id list" and cs and rand :: "'r \<Rightarrow> 32 word \<times> 'r"
  by (rule plain_messages.masters_server_group)
    (simp_all add: timeline_distinct_def configured_def, simp add: initial_master_def PaxosConfigManager_def)

section \<open>Owners\<close>

section \<open>Two masters\<close>

text \<open>
  A client asks one of two masters for a key of a table nobody has. The master proposes to give the
  table to the first group; both masters handle the messages of the round until both know.
\<close>

definition master_a :: endpoint_id where "master_a = EndpointId ''a'' 0"
definition master_b :: endpoint_id where "master_b = EndpointId ''b'' 0"

lemma masters_distinct [simp]: "master_a \<noteq> master_b" "master_b \<noteq> master_a"
  by (simp_all add: master_a_def master_b_def)

definition pair_connections :: "endpoint_id \<Rightarrow> message_wrapper connections" where
  "pair_connections p = \<lparr>channels = [(master_a, ChannelImpl []), (master_b, ChannelImpl [])]\<rparr>"

definition pair_events :: "message_wrapper master_event cluster_event list" where
  "pair_events = (let a = master_a; b = master_b in
     [Acts a (MasterQueueMessage \<lparr>incoming_endpoint = EndpointId ''c'' 0, incoming_payload =
        ClientMessage (FindKeyRangeRequest example_request)\<rparr>),
      Acts a MasterHandleMessage, Acts a MasterRunTask,
      Moves a a, Moves a b, Acts a MasterHandleMessage, Acts b MasterHandleMessage,
      Moves a a, Moves b a, Acts a MasterHandleMessage, Acts a MasterHandleMessage,
      Moves a a, Moves a b, Acts a MasterHandleMessage, Acts b MasterHandleMessage,
      Moves a a, Moves b a, Acts a MasterHandleMessage, Acts a MasterHandleMessage])"

definition later_pair_events :: "message_wrapper master_event cluster_event list" where
  "later_pair_events = (let a = master_a; b = master_b in
     [Moves a b, Moves b b, Acts b MasterHandleMessage, Acts b MasterHandleMessage])"

abbreviation pair_run ::
  "message_wrapper master_event cluster_event list \<Rightarrow> (endpoint_id \<Rightarrow> (message_wrapper, unit) data_master)
   \<Rightarrow> (endpoint_id \<Rightarrow> (message_wrapper, unit) data_master) option" where
  "pair_run evs dms \<equiv> masters_run (\<lambda>w. w) (\<lambda>w. w) (\<lambda>r. (7, r)) initialize_constants [master_a, master_b] evs dms"

abbreviation pair_start :: "endpoint_id \<Rightarrow> (message_wrapper, unit) data_master" where
  "pair_start \<equiv> start_masters (\<lambda>w. w) (\<lambda>_. ()) (\<lambda>_. \<lparr>channels = []\<rparr>) (\<lambda>_. \<lparr>channels = []\<rparr>) pair_connections
     [EndpointId ''s'' 0] [master_a, master_b]"

lemma pair_silent: "silent pair_connections"
  by (simp add: silent_def pair_connections_def in_flight_def get_channel_def split: option.split)

lemma initial_timeline: "md_timeline (initial_master ses mes c) = [(0, mes)]"
  by (simp add: initial_master_def PaxosConfigManager_def)

lemmas pair_simps =
  masters_run_def master_act_def start_masters_def pair_connections_def master_connections_def master_sent_def
  master_received_def from_a_master_def fits_index_def first_free_def DataMaster_def queue_message_def
  schedule_async_def message_handled_def AsyncSchedulerImpl_def AsyncQueue_def master_handle_def
  master_with_node_def master_log_eq set_entry_def next_available_index_def take_index_def log_insert_def
  word_upt_Cons invoke_callbacks_def log_at_def master_callbacks_simps Let_def handle_find_key_def add_task_def
  schedule_run_def run_front_def fire_run_def run_task_def find_key_task_def get_channel_def update_channel_def
  in_flight_def deliver_from_def MAX_MESSAGES_QUEUE_SIZE_def task_returned_def example_assignment
  request_propose_def config_provider_def config_def initial_timeline KeySpaceManager.RETRY_LIMIT_def
  multi_propose_react handle_incoming_message_react instance_of_def apply_reaction_def put_instance_def
  MultiPaxosHandler_def has_channel_def send_def emit_def make_paxos_message_def react_propose_def
  react_promise_def react_learn_def next_proposal_number_def says_def quiet_def SinglePaxosHandler_def
  PaxosProposerState_def PaxosAcceptorState_def PaxosLearnerState_def acceptor_defs promises_of_def
  proposal_of_def votes_of_def with_acceptor_def with_promises_def with_learned_def map_insert_def
  fun_upd_twist [OF masters_distinct(1)] master_paxos_wrapper_def KeySpaceManager.WAIT_FOR_NEW_KEY_SPACE_def
  TERMINATE_def

lemma pair_runs:
  "\<exists>dms dms'. pair_run pair_events pair_start = Some dms \<and> pair_run later_pair_events dms = Some dms' \<and>
     log (node_log (rs_node (dm_state (dms master_a)))) = [0 \<mapsto> first_assignment] \<and>
     log (node_log (rs_node (dm_state (dms' master_b)))) 0 \<noteq> None \<and>
     first_free (node_log (rs_node (dm_state (dms master_a)))) = 1 \<and>
     first_free (node_log (rs_node (dm_state (dms' master_b)))) = 1 \<and>
     md_groups (node_derived (rs_node (dm_state (dms master_a)))) = [(first_group, NewKeySpace [] [example_table] 1)]"
  by (simp add: pair_events_def later_pair_events_def pair_simps del: reaction_simps(7,8))

section \<open>Properties\<close>

text \<open>
  C6: the masters agree. Take whole masters that start from the same address files over silent
  connections, at most \<open>num_slave_servers\<close> of them and with the whole group as their majority (C11
  shows what happens without), and let them act, and messages move and get lost, in any order, for
  any time; later, let them go on. No handler overlaps work of its master's network thread: a run
  in which one does, or in which a callback throws, has no value. An entry that one master's log
  had at the earlier moment is never another in a master's log at the later moment; and the
  callbacks of the entries a master was behind run without throwing, and lead it to the groups,
  configurations and timeline of the master that is ahead.
\<close>

theorem masters_agree:
  assumes "\<forall>m. parse (to_wire m) = m"
    and "distinct ns" and "length ns \<le> unat (num_slave_servers cs)" and "majority_is_all cs ns"
    and "silent masters" and "distinct mes"
    and "masters_run to_wire parse rand cs ns evs (start_masters to_wire seeds clients slaves masters ses mes) = Some dms"
    and "masters_run to_wire parse rand cs ns evs' dms = Some dms'"
    and "p = rs_node (dm_state (dms a))" and "q = rs_node (dm_state (dms' b))"
  shows "(log (node_log p) i = Some e \<longrightarrow> log (node_log q) i = Some e' \<longrightarrow> e' = e) \<and>
    (first_free (node_log p) \<le> first_free (node_log q) \<longrightarrow>
      (\<exists>d. apply_range (master_callbacks to_wire) (log (node_log q)) (first_free (node_log p)) (first_free (node_log q))
          (node_derived p) = Inr d \<and>
        md_groups d = md_groups (node_derived q) \<and> md_configs d = md_configs (node_derived q) \<and>
        md_timeline d = md_timeline (node_derived q)))"
proof (intro conjI impI)
  have "wire_format to_wire parse" using assms(1) by unfold_locales simp
  note facts = wire_format.masters_facts [OF this assms(2-6), where C = "\<lambda>_. True", unfolded told_masters_any]
  note both = facts [OF assms(7,8) refl] and last = facts [OF masters_run_append [OF assms(7,8)] masters_run_Nil refl]
  show "log (node_log p) i = Some e \<Longrightarrow> log (node_log q) i = Some e' \<Longrightarrow> e' = e"
    unfolding assms(9,10) by (rule both(1))
  assume le: "first_free (node_log p) \<le> first_free (node_log q)"
  let ?init = "initial_master ses mes \<lparr>channels = []\<rparr>" and ?cbs = "master_callbacks to_wire"
  from both(4) [of a] obtain dp where
    dp: "replay ?cbs (log (node_log p)) (first_free (node_log p)) ?init = Inr dp" "master_follows (node_derived p) dp"
    unfolding assms(9) by blast
  from last(4) [of b] obtain dq where
    dq: "replay ?cbs (log (node_log q)) (first_free (node_log q)) ?init = Inr dq" "master_follows (node_derived q) dq"
    unfolding assms(10) by blast
  have "replay ?cbs (log (node_log q)) (first_free (node_log p)) ?init = replay ?cbs (log (node_log p)) (first_free (node_log p)) ?init"
    by (rule replay_agree [OF both(3) [of a, folded assms(9)] last(3) [of b, folded assms(10)] le])
      (use both(1) [of a _ _ b] assms(9,10) in blast)
  with dp(1) dq(1) replay_append [OF le, of ?cbs "log (node_log q)" ?init]
  have "apply_range ?cbs (log (node_log q)) (first_free (node_log p)) (first_free (node_log q)) dp = Inr dq" by simp
  from master.R_range [OF this, of "node_derived p"] dp(2) master_follows_configured [OF dp(2)]
  obtain d where d: "apply_range ?cbs (log (node_log q)) (first_free (node_log p)) (first_free (node_log q)) (node_derived p) = Inr d"
    "master_follows dq d" by (auto simp: master_follows_def)
  with dq(2) show "\<exists>d. apply_range ?cbs (log (node_log q)) (first_free (node_log p)) (first_free (node_log q))
          (node_derived p) = Inr d \<and>
        md_groups d = md_groups (node_derived q) \<and> md_configs d = md_configs (node_derived q) \<and>
        md_timeline d = md_timeline (node_derived q)"
    by (auto simp: master_follows_def)
qed

theorem masters_agree_witness:
  "\<exists>dms dms'. pair_run pair_events pair_start = Some dms \<and> pair_run later_pair_events dms = Some dms' \<and>
     log (node_log (rs_node (dm_state (dms' master_b)))) 0 = Some first_assignment \<and>
     md_groups (node_derived (rs_node (dm_state (dms' master_b)))) = [(first_group, NewKeySpace [] [example_table] 1)]"
proof -
  obtain dms dms' e where runs: "pair_run pair_events pair_start = Some dms" "pair_run later_pair_events dms = Some dms'"
    and a: "log (node_log (rs_node (dm_state (dms master_a)))) = [0 \<mapsto> first_assignment]"
    and e: "log (node_log (rs_node (dm_state (dms' master_b)))) 0 = Some e"
    and free: "first_free (node_log (rs_node (dm_state (dms master_a)))) = 1"
      "first_free (node_log (rs_node (dm_state (dms' master_b)))) = 1"
    and g: "md_groups (node_derived (rs_node (dm_state (dms master_a)))) = [(first_group, NewKeySpace [] [example_table] 1)]"
    using pair_runs by (elim exE conjE) auto
  note agree = masters_agree [OF _ _ _ _ pair_silent _ runs refl refl, of master_a 0 first_assignment master_b e]
  have "(log (node_log (rs_node (dm_state (dms master_a)))) 0 = Some first_assignment \<longrightarrow>
      log (node_log (rs_node (dm_state (dms' master_b)))) 0 = Some e \<longrightarrow> e = first_assignment) \<and>
    md_groups (node_derived (rs_node (dm_state (dms master_a)))) = md_groups (node_derived (rs_node (dm_state (dms' master_b))))"
    using agree by (auto simp: majority_is_all_def free apply_range_def)
  with a e g runs show ?thesis by auto
qed

end
