(* ===== verification/GroupHistory.thy ===== *)
theory GroupHistory
  imports Slave DataMaster
begin

text \<open>
  What the masters' log says of the one group of slaves: the key spaces selected for it, numbered from 1,
  and which of them is the group's. Used where masters and slaves hand over keys (WholeSystem.thy).
\<close>

section \<open>What a prefix of a log holds\<close>

definition logged :: "(paxos_log_entry \<Rightarrow> 'a list) \<Rightarrow> (index_t \<rightharpoonup> paxos_log_entry) \<Rightarrow> index_t \<Rightarrow> 'a list" where
  "logged f m n = concat (map (\<lambda>i. f (the (m i))) (word_upt 0 n))"

lemma logged_key_spaces_eq: "logged_key_spaces = logged entry_key_spaces"
  by (intro ext) (simp add: logged_key_spaces_def logged_def)

lemma logged_0 [simp]: "logged f m 0 = []"
  by (simp add: logged_def)

lemma logged_Suc_index: "i \<noteq> - 1 \<Longrightarrow> logged f m (i + 1) = logged f m i @ f (the (m i))"
  by (simp add: logged_def word_upt_snoc)

lemma logged_prefix: "i \<le> n \<Longrightarrow> take (length (logged f m i)) (logged f m n) = logged f m i"
  by (simp add: logged_def word_upt_append [of 0 i n])

lemma logged_length: "i \<le> n \<Longrightarrow> length (logged f m i) \<le> length (logged f m n)"
  by (simp add: logged_def word_upt_append [of 0 i n])

lemma logged_bound: "(\<And>e. length (f e) \<le> 1) \<Longrightarrow> length (logged f m n) \<le> unat n"
proof (rule word_induct_below [where j = n])
  fix i
  assume f: "\<And>e. length (f e) \<le> 1" and i: "i < n" "length (logged f m i) \<le> unat i"
  have "length (f (the (m i))) \<le> 1" by (rule f)
  with i(2) show "length (logged f m (i + 1)) \<le> unat (i + 1)"
    using unat_succ [OF i(1)] by (simp add: logged_Suc_index [OF not_max_below [OF i(1)]])
qed simp

section \<open>The masters' log of the first group\<close>

fun entry_selected :: "paxos_log_entry \<Rightarrow> (key_space_range list \<times> 32 word) list" where
  "entry_selected (KeySpaceSelected g rs n) = [(map convert_range rs, n)]"
| "entry_selected _ = []"

lemma entry_lengths: "length (entry_selected e) \<le> 1" "length (entry_key_spaces e) \<le> 1"
  by (cases e; simp)+

fun group_history :: "(key_space_range list \<times> 32 word) list \<Rightarrow> key_space \<Rightarrow> bool" where
  "group_history sel (KeySpace ranges n) \<longleftrightarrow>
     n = of_nat (length sel) \<and> ranges = (if sel = [] then [] else fst (last sel))"
| "group_history sel (NewKeySpace ranges new_ranges n) \<longleftrightarrow>
     n = of_nat (length sel) \<and> sel \<noteq> [] \<and> new_ranges = fst (last sel)"

definition numbered :: "('a \<times> 32 word) list \<Rightarrow> bool" where
  "numbered sel \<longleftrightarrow> map snd sel = map (\<lambda>n. of_nat (Suc n)) [0..<length sel]"

definition one_group :: "(key_space_range list \<times> 32 word) list \<Rightarrow> 'w master_derived \<Rightarrow> bool" where
  "one_group sel d \<longleftrightarrow> configured d \<and> numbered sel \<and> (\<exists>ks. md_groups d = [(first_group, ks)] \<and> group_history sel ks)"

lemma one_group_apply:
  assumes "apply_entry (master_callbacks to_wire) i e d = Inr d'" "one_group sel d"
  shows "one_group (sel @ entry_selected e) d'"
proof -
  from assms(2) obtain ks where ks: "configured d" "numbered sel" "md_groups d = [(first_group, ks)]" "group_history sel ks"
    by (auto simp: one_group_def)
  show ?thesis
  proof (cases e)
    case (KeySpaceSelected g rs n)
    from assms(1) ks(1) obtain ranges old c where
      m: "map_of (md_groups d) (SlaveGroupId g) = Some (KeySpace ranges old)" "n = old + 1"
      and d': "d' = d\<lparr>md_groups := put_group (SlaveGroupId g) (NewKeySpace ranges (map convert_range rs) n) (md_groups d),
        md_slaves := c\<rparr>"
      unfolding KeySpaceSelected by (auto simp: apply_entry_master selected_Inr simp del: broadcast.simps)
    from m(1) ks(3) have g: "SlaveGroupId g = first_group" "ks = KeySpace ranges old" by (simp_all split: if_splits)
    with ks(2,4) m(2) have "numbered (sel @ [(map convert_range rs, n)])"
      "group_history (sel @ [(map convert_range rs, n)]) (NewKeySpace ranges (map convert_range rs) n)"
      by (simp_all add: numbered_def)
    with ks(1,3) g show ?thesis by (simp add: d' KeySpaceSelected one_group_def put_group_def configured_def)
  next
    case (KeySpaceCommit g n)
    from assms(1) obtain ranges new_ranges where
      m: "map_of (md_groups d) (SlaveGroupId g) = Some (NewKeySpace ranges new_ranges n)"
      and d': "d' = d\<lparr>md_groups := put_group (SlaveGroupId g) (KeySpace new_ranges n) (md_groups d)\<rparr>"
      unfolding KeySpaceCommit by (auto simp: apply_entry_master commit_Inr)
    from m ks(3) have "SlaveGroupId g = first_group" "ks = NewKeySpace ranges new_ranges n"
      by (simp_all split: if_splits)
    with ks show ?thesis by (simp add: d' KeySpaceCommit one_group_def put_group_def configured_def)
  next
    case (ReconfigStarted ss)
    with assms(1) obtain t where "d' = d\<lparr>md_timeline := t\<rparr>" by (auto simp: apply_entry_master rbind_eq_Inr)
    with ks ReconfigStarted show ?thesis by (simp add: one_group_def)
  qed (use assms in \<open>simp_all add: apply_entry_master\<close>)
qed

lemma replay_one_group:
  assumes "one_group [] init"
  shows "replay (master_callbacks to_wire) m n init = Inr d \<Longrightarrow> one_group (logged entry_selected m n) d"
proof (induction arbitrary: d rule: word_induct_below [where j = n])
  case 1
  with assms show ?case by simp
next
  case (2 i)
  from 2(3) obtain d1 where "replay (master_callbacks to_wire) m i init = Inr d1"
    "apply_entry (master_callbacks to_wire) i (the (m i)) d1 = Inr d"
    by (auto simp: replay_step [OF 2(1)] rbind_eq_Inr)
  with 2(2) one_group_apply show ?case by (simp add: logged_Suc_index [OF not_max_below [OF 2(1)]]) blast
qed

lemma one_group_initial: "one_group [] (initial_master ses mes slaves)"
  by (simp add: one_group_def numbered_def configured_def)

section \<open>Numbers of key spaces\<close>

lemma of_nat_Suc_inj: "(of_nat (Suc j) :: 32 word) = of_nat (Suc k) \<Longrightarrow> Suc j \<le> 2 ^ 32 \<Longrightarrow> Suc k < 2 ^ 32 \<Longrightarrow> j = k"
proof -
  assume eq: "(of_nat (Suc j) :: 32 word) = of_nat (Suc k)" and b: "Suc j \<le> 2 ^ 32" "Suc k < 2 ^ 32"
  from eq have "Suc j mod 2 ^ 32 = Suc k mod 2 ^ 32"
    by (simp only: of_nat_eq_iff word_unat_eq_iff unat_of_nat) simp
  with b show ?thesis by (cases "Suc j = 2 ^ 32") auto
qed

lemma numbered_nth:
  assumes "numbered sel" "(rs, n) \<in> set sel"
  obtains k where "k < length sel" "sel ! k = (rs, n)" "n = of_nat (Suc k)"
proof -
  from assms(2) obtain k where k: "k < length sel" "sel ! k = (rs, n)" by (auto simp: in_set_conv_nth)
  from assms(1) k(1) have "map snd sel ! k = of_nat (Suc k)" by (simp add: numbered_def)
  with k that show ?thesis by simp
qed

end
