(* ===== verification/WholeSystem.thy ===== *)
theory WholeSystem
  imports MasterGroup SlaveGroup GroupHistory
begin

text \<open>
  The whole system: whole masters and whole slaves connected to each other and among themselves,
  with clients outside. A master's messages to slaves and a slave's messages to masters are those in
  the channels of its model, taken one at a time by the server at the other end. Both groups refine
  what MasterGroup and SlaveGroup say of them; the theorem is about both together: what a master
  answers a client, the slaves can serve.
\<close>

section \<open>The system\<close>

record ('w, 'r) key_value_system =
  sys_masters :: "endpoint_id \<Rightarrow> ('w, 'r) data_master"
  sys_slaves :: "endpoint_id \<Rightarrow> ('w, 'r) slave"

text \<open>
  A master or a slave acts, or messages move among masters or among slaves; or the oldest message of
  a master's channel to a slave, or of a slave's to a master, arrives there.
\<close>

datatype 'w system_event =
    AmongMasters "'w master_event cluster_event"
  | AmongSlaves "'w slave_event cluster_event"
  | ToSlave endpoint_id endpoint_id
  | ToMaster endpoint_id endpoint_id

text \<open>What comes from outside the system comes from clients.\<close>

definition from_client :: "('w \<Rightarrow> message_wrapper) \<Rightarrow> 'w \<Rightarrow> bool" where
  "from_client parse w \<longleftrightarrow> (case parse w of ClientMessage cm \<Rightarrow> True | WrapperNotSet \<Rightarrow> True | _ \<Rightarrow> False)"

definition slaves_channels :: "('w, 'r) data_master \<Rightarrow> 'w connections" where
  "slaves_channels dm = md_slaves (node_derived (rs_node (dm_state dm)))"

definition masters_channels :: "('w, 'r) slave \<Rightarrow> 'w connections" where
  "masters_channels sl = sd_masters (node_derived (rs_node (sl_state sl)))"

fun system_step ::
  "(message_wrapper \<Rightarrow> 'w) \<Rightarrow> ('w \<Rightarrow> message_wrapper) \<Rightarrow> ('r \<Rightarrow> 32 word \<times> 'r) \<Rightarrow> constants \<Rightarrow> endpoint_id list \<Rightarrow> endpoint_id list
   \<Rightarrow> 'w system_event \<Rightarrow> ('w, 'r) key_value_system \<Rightarrow> ('w, 'r) key_value_system option" where
  "system_step to_wire parse rand cs ms ss (AmongMasters ev) sys =
     (if (case ev of Acts p (MasterQueueMessage m) \<Rightarrow> from_client parse (incoming_payload m) | _ \<Rightarrow> True)
      then map_option (\<lambda>dms. sys\<lparr>sys_masters := dms\<rparr>) (masters_run to_wire parse rand cs ms [ev] (sys_masters sys))
      else None)"
| "system_step to_wire parse rand cs ms ss (AmongSlaves ev) sys =
     (if (case ev of Acts p (SlaveQueueMessage m) \<Rightarrow> from_client parse (incoming_payload m) | _ \<Rightarrow> True)
      then map_option (\<lambda>sls. sys\<lparr>sys_slaves := sls\<rparr>) (slaves_run to_wire parse rand cs ss [ev] (sys_slaves sys))
      else None)"
| "system_step to_wire parse rand cs ms ss (ToSlave p q) sys =
     (case in_flight (slaves_channels (sys_masters sys p)) q of
        [] \<Rightarrow> None
      | w # _ \<Rightarrow>
          (case masters_run to_wire parse rand cs ms [Acts p (MasterToSlave (Written q))] (sys_masters sys) of
             None \<Rightarrow> None
           | Some dms \<Rightarrow>
               map_option (\<lambda>sls. \<lparr>sys_masters = dms, sys_slaves = sls\<rparr>)
                 (slaves_run to_wire parse rand cs ss
                   [Acts q (SlaveQueueMessage \<lparr>incoming_endpoint = p, incoming_payload = w\<rparr>)] (sys_slaves sys))))"
| "system_step to_wire parse rand cs ms ss (ToMaster p q) sys =
     (case in_flight (masters_channels (sys_slaves sys p)) q of
        [] \<Rightarrow> None
      | w # _ \<Rightarrow>
          (case slaves_run to_wire parse rand cs ss [Acts p (MasterConnection (Written q))] (sys_slaves sys) of
             None \<Rightarrow> None
           | Some sls \<Rightarrow>
               map_option (\<lambda>dms. \<lparr>sys_masters = dms, sys_slaves = sls\<rparr>)
                 (masters_run to_wire parse rand cs ms
                   [Acts q (MasterQueueMessage \<lparr>incoming_endpoint = p, incoming_payload = w\<rparr>)] (sys_masters sys))))"

fun system_run ::
  "(message_wrapper \<Rightarrow> 'w) \<Rightarrow> ('w \<Rightarrow> message_wrapper) \<Rightarrow> ('r \<Rightarrow> 32 word \<times> 'r) \<Rightarrow> constants \<Rightarrow> endpoint_id list \<Rightarrow> endpoint_id list
   \<Rightarrow> 'w system_event list \<Rightarrow> ('w, 'r) key_value_system \<Rightarrow> ('w, 'r) key_value_system option" where
  "system_run to_wire parse rand cs ms ss [] sys = Some sys"
| "system_run to_wire parse rand cs ms ss (ev # evs) sys =
     (case system_step to_wire parse rand cs ms ss ev sys of
        None \<Rightarrow> None | Some sys' \<Rightarrow> system_run to_wire parse rand cs ms ss evs sys')"

text \<open>What a step of each kind consists of.\<close>

lemma system_among_masters:
  assumes "system_step to_wire parse rand cs ms ss (AmongMasters ev) sys = Some sys'"
  shows "\<exists>dms. masters_run to_wire parse rand cs ms [ev] (sys_masters sys) = Some dms \<and> sys' = sys\<lparr>sys_masters := dms\<rparr> \<and>
    (\<forall>p m. ev = Acts p (MasterQueueMessage m) \<longrightarrow> from_client parse (incoming_payload m))"
proof (cases "masters_run to_wire parse rand cs ms [ev] (sys_masters sys)")
  case (Some dms)
  show ?thesis
  proof (intro exI [of _ dms] conjI allI impI)
    show "sys' = sys\<lparr>sys_masters := dms\<rparr>"
      using assms by (simp only: system_step.simps Some option.map split: if_split_asm) simp_all
    fix p m assume "ev = Acts p (MasterQueueMessage m)"
    with assms show "from_client parse (incoming_payload m)"
      by (simp only: system_step.simps cluster_event.case master_event.case split: if_split_asm) simp_all
  qed (rule Some)
next
  case None
  with assms show ?thesis by (simp only: system_step.simps None option.map split: if_split_asm) simp_all
qed

lemma system_among_slaves:
  assumes "system_step to_wire parse rand cs ms ss (AmongSlaves ev) sys = Some sys'"
  shows "\<exists>sls. slaves_run to_wire parse rand cs ss [ev] (sys_slaves sys) = Some sls \<and> sys' = sys\<lparr>sys_slaves := sls\<rparr> \<and>
    (\<forall>p m. ev = Acts p (SlaveQueueMessage m) \<longrightarrow> from_client parse (incoming_payload m))"
proof (cases "slaves_run to_wire parse rand cs ss [ev] (sys_slaves sys)")
  case (Some sls)
  show ?thesis
  proof (intro exI [of _ sls] conjI allI impI)
    show "sys' = sys\<lparr>sys_slaves := sls\<rparr>"
      using assms by (simp only: system_step.simps Some option.map split: if_split_asm) simp_all
    fix p m assume "ev = Acts p (SlaveQueueMessage m)"
    with assms show "from_client parse (incoming_payload m)"
      by (simp only: system_step.simps cluster_event.case slave_event.case split: if_split_asm) simp_all
  qed (rule Some)
next
  case None
  with assms show ?thesis by (simp only: system_step.simps None option.map split: if_split_asm) simp_all
qed

lemma system_to_slave:
  assumes "system_step to_wire parse rand cs ms ss (ToSlave p q) sys = Some sys'"
  shows "\<exists>w ws dms sls. in_flight (slaves_channels (sys_masters sys p)) q = w # ws \<and>
    masters_run to_wire parse rand cs ms [Acts p (MasterToSlave (Written q))] (sys_masters sys) = Some dms \<and>
    slaves_run to_wire parse rand cs ss
      [Acts q (SlaveQueueMessage \<lparr>incoming_endpoint = p, incoming_payload = w\<rparr>)] (sys_slaves sys) = Some sls \<and>
    sys' = \<lparr>sys_masters = dms, sys_slaves = sls\<rparr>"
  using assms unfolding system_step.simps map_option_case by (simp only: split: list.split_asm option.split_asm) simp_all

lemma system_to_master:
  assumes "system_step to_wire parse rand cs ms ss (ToMaster p q) sys = Some sys'"
  shows "\<exists>w ws dms sls. in_flight (masters_channels (sys_slaves sys p)) q = w # ws \<and>
    slaves_run to_wire parse rand cs ss [Acts p (MasterConnection (Written q))] (sys_slaves sys) = Some sls \<and>
    masters_run to_wire parse rand cs ms
      [Acts q (MasterQueueMessage \<lparr>incoming_endpoint = p, incoming_payload = w\<rparr>)] (sys_masters sys) = Some dms \<and>
    sys' = \<lparr>sys_masters = dms, sys_slaves = sls\<rparr>"
  using assms unfolding system_step.simps map_option_case by (simp only: split: list.split_asm option.split_asm) simp_all

section \<open>What the logs hold\<close>

abbreviation master_node :: "('w, 'r) data_master \<Rightarrow> ('w, 'w master_derived) paxos_node" where
  "master_node dm \<equiv> rs_node (dm_state dm)"

abbreviation slave_node :: "('w, 'r) slave \<Rightarrow> ('w, ('w, 'r) slave_derived) paxos_node" where
  "slave_node sl \<equiv> rs_node (sl_state sl)"

definition selected_by :: "('w, 'r) data_master \<Rightarrow> (key_space_range list \<times> 32 word) list" where
  "selected_by dm = logged entry_selected (log (node_log (master_node dm))) (first_free (node_log (master_node dm)))"

definition installed_by :: "('w, 'r) slave \<Rightarrow> (key_space_range list \<times> 32 word) list" where
  "installed_by sl = logged entry_key_spaces (log (node_log (slave_node sl))) (first_free (node_log (slave_node sl)))"

lemma logged_same_below: "(\<And>i. i < n \<Longrightarrow> m i = m' i) \<Longrightarrow> logged f m n = logged f m' n"
  unfolding logged_def by (intro arg_cong [where f = concat] map_cong refl) simp

text \<open>The logs of one server at two moments, or of two servers, hold prefixes of each other.\<close>

lemma logged_grows:
  assumes "log_inv pl" "log pl \<subseteq>\<^sub>m log pl'" "first_free pl \<le> first_free pl'"
  shows "take (length (logged f (log pl) (first_free pl))) (logged f (log pl') (first_free pl')) =
    logged f (log pl) (first_free pl)"
proof -
  have "logged f (log pl) (first_free pl) = logged f (log pl') (first_free pl)"
  proof (rule logged_same_below)
    fix i assume "i < first_free pl"
    with below_first_free [OF assms(1)] obtain e where "log pl i = Some e" by blast
    with assms(2) show "log pl i = log pl' i" by (auto simp: map_le_def dom_def)
  qed
  with logged_prefix [OF assms(3), of f "log pl'"] show ?thesis by simp
qed

lemma logged_agrees:
  fixes pl pl' :: "'s paxos_log"
  assumes "log_inv pl" "log_inv pl'" "\<forall>i e e'. log pl i = Some e \<longrightarrow> log pl' i = Some e' \<longrightarrow> e' = e"
    and "k < length (logged f (log pl) (first_free pl))" "k < length (logged f (log pl') (first_free pl'))"
  shows "logged f (log pl) (first_free pl) ! k = logged f (log pl') (first_free pl') ! k"
proof -
  have *: "logged f (log p) (first_free p) ! k = logged f (log q) (first_free q) ! k"
    if "log_inv p" "log_inv q" "\<forall>i e e'. log p i = Some e \<longrightarrow> log q i = Some e' \<longrightarrow> e' = e"
      "first_free p \<le> first_free q" "k < length (logged f (log p) (first_free p))" for p q :: "'s paxos_log"
  proof -
    have "logged f (log p) (first_free p) = logged f (log q) (first_free p)"
    proof (rule logged_same_below)
      fix i assume i: "i < first_free p"
      with below_first_free [OF that(1)] below_first_free [OF that(2), of i] that(4) obtain e e' where
        "log p i = Some e" "log q i = Some e'" by fastforce
      with that(3) show "log p i = log q i" by auto
    qed
    with logged_prefix [OF that(4), of f "log q"] that(5) show ?thesis by (metis nth_take)
  qed
  consider "first_free pl \<le> first_free pl'" | "first_free pl' \<le> first_free pl" by (rule linear [THEN disjE])
  then show ?thesis
  proof cases
    case 2
    have "\<forall>i e e'. log pl' i = Some e \<longrightarrow> log pl i = Some e' \<longrightarrow> e' = e" using assms(3) by metis
    from * [OF assms(2,1) this 2 assms(5)] show ?thesis by simp
  qed (rule * [OF assms(1-3) _ assms(4)])
qed

section \<open>What a master tells slaves\<close>

text \<open>Only key spaces that are selected in its log.\<close>

definition tells_selected :: "(message_wrapper \<Rightarrow> 'w) \<Rightarrow> (key_space_range list \<times> 32 word) set \<Rightarrow> 'w connections \<Rightarrow> bool" where
  "tells_selected to_wire S c \<longleftrightarrow>
     (\<forall>q. \<forall>w\<in>set (in_flight c q). \<exists>(rs, n)\<in>S. w = to_wire (build_new_key_space_selected_message rs n))"

lemma tells_selected_mono: "tells_selected to_wire S c \<Longrightarrow> S \<subseteq> S' \<Longrightarrow> tells_selected to_wire S' c"
  unfolding tells_selected_def by blast

lemma tells_selectedD:
  assumes "tells_selected to_wire S c" "in_flight c q = w # ws"
  shows "\<exists>rs n. (rs, n) \<in> S \<and> w = to_wire (build_new_key_space_selected_message rs n)"
proof -
  have "w \<in> set (in_flight c q)" using assms(2) by simp
  with assms(1) have "\<exists>x\<in>S. case x of (rs, n) \<Rightarrow> w = to_wire (build_new_key_space_selected_message rs n)"
    unfolding tells_selected_def by blast
  then show ?thesis by auto
qed

lemma tells_selected_change:
  assumes "tells_selected to_wire S c" "channels_change W c c'"
    and "\<And>w. w \<in> W \<Longrightarrow> \<exists>(rs, n)\<in>S. w = to_wire (build_new_key_space_selected_message rs n)"
  shows "tells_selected to_wire S c'"
proof -
  have "set (in_flight c' q) \<subseteq> set (in_flight c q) \<union> W" for q
    using assms(2) by (intro changes_set) (simp add: channels_change_def)
  with assms(1,3) show ?thesis unfolding tells_selected_def by blast
qed

definition honest_master ::
  "(message_wrapper \<Rightarrow> 'w) \<Rightarrow> ('r \<Rightarrow> 32 word \<times> 'r) \<Rightarrow> 'w master_derived \<Rightarrow> ('w, 'r) data_master \<Rightarrow> bool" where
  "honest_master to_wire rand init dm \<longleftrightarrow>
     master_inv to_wire rand init dm \<and> tells_selected to_wire (set (selected_by dm)) (slaves_channels dm)"

lemma selected_entry_tells:
  assumes "apply_entry (master_callbacks to_wire) i e d = Inr d'" "configured d" "tells_selected to_wire S (md_slaves d)"
  shows "configured d' \<and> tells_selected to_wire (S \<union> set (entry_selected e)) (md_slaves d')"
proof -
  have mono: "tells_selected to_wire (S \<union> set (entry_selected e)) (md_slaves d)"
    by (rule tells_selected_mono [OF assms(3)]) simp
  show ?thesis
  proof (cases e)
    case (KeySpaceSelected g rs n)
    from assms(1,2) obtain es ranges where d': "d' = d\<lparr>md_groups := put_group (SlaveGroupId g)
        (NewKeySpace ranges (map convert_range rs) n) (md_groups d),
        md_slaves := broadcast es (to_wire (build_new_key_space_selected_message (map convert_range rs) n)) (md_slaves d)\<rparr>"
      unfolding KeySpaceSelected by (auto simp: apply_entry_master selected_Inr simp del: broadcast.simps)
    have "tells_selected to_wire (S \<union> set (entry_selected e))
        (broadcast es (to_wire (build_new_key_space_selected_message (map convert_range rs) n)) (md_slaves d))"
      by (rule tells_selected_change [OF mono channels_change_broadcast [OF singletonI]]) (auto simp: KeySpaceSelected)
    with assms(2) show ?thesis by (simp add: d' configured_def del: broadcast.simps)
  next
    case (KeySpaceCommit g n)
    with assms(1) obtain new_ranges where
      "d' = d\<lparr>md_groups := put_group (SlaveGroupId g) (KeySpace new_ranges n) (md_groups d)\<rparr>"
      by (auto simp: apply_entry_master commit_Inr)
    with assms(2) mono show ?thesis by (simp add: configured_def)
  next
    case (ReconfigStarted ss)
    with assms(1,2) mono show ?thesis by (auto simp: apply_entry_master rbind_eq_Inr)
  qed (use assms(1,2) mono in \<open>simp_all add: apply_entry_master\<close>)
qed

lemma honest_master_groups:
  assumes "master_inv to_wire rand (initial_master ses mes c) dm"
  shows "one_group (selected_by dm) (node_derived (master_node dm))"
    and "\<exists>d. replay (master_callbacks to_wire) (log (node_log (master_node dm))) (first_free (node_log (master_node dm)))
      (initial_master ses mes c) = Inr d \<and> master_follows (node_derived (master_node dm)) d"
proof -
  from assms have "master.server_inv to_wire (initial_master ses mes c) (master_node dm)"
    by (simp add: master_inv_def state_ok_def)
  from master.server_replay [OF this] obtain d where
    d: "replay (master_callbacks to_wire) (log (node_log (master_node dm))) (first_free (node_log (master_node dm)))
      (initial_master ses mes c) = Inr d" "master_follows (node_derived (master_node dm)) d" by blast
  then show "\<exists>d. replay (master_callbacks to_wire) (log (node_log (master_node dm))) (first_free (node_log (master_node dm)))
      (initial_master ses mes c) = Inr d \<and> master_follows (node_derived (master_node dm)) d" by blast
  from replay_one_group [OF one_group_initial d(1)] d(2) show "one_group (selected_by dm) (node_derived (master_node dm))"
    by (simp add: one_group_def master_follows_def selected_by_def)
qed

text \<open>Whatever moves a master this way keeps that.\<close>

definition master_grows :: "('w, 'r) data_master \<Rightarrow> ('w, 'r) data_master \<Rightarrow> bool" where
  "master_grows dm dm' \<longleftrightarrow> set (selected_by dm) \<subseteq> set (selected_by dm')"

lemma master_grows_refl [simp]: "master_grows dm dm"
  by (simp add: master_grows_def)

lemma master_grows_trans: "master_grows a b \<Longrightarrow> master_grows b c \<Longrightarrow> master_grows a c"
  unfolding master_grows_def by blast

lemma master_moves_honest:
  assumes moves: "master_moves to_wire dm dm'" and honest: "honest_master to_wire rand (initial_master ses mes c) dm"
    and inv': "master_inv to_wire rand (initial_master ses mes c) dm'"
  shows "honest_master to_wire rand (initial_master ses mes c) dm' \<and> master_grows dm dm'"
proof -
  let ?pl = "node_log (master_node dm)" and ?pl' = "node_log (master_node dm')"
  let ?d = "node_derived (master_node dm)"
  from honest have inv: "master_inv to_wire rand (initial_master ses mes c) dm"
    and told: "tells_selected to_wire (set (selected_by dm)) (md_slaves ?d)"
    by (simp_all add: honest_master_def slaves_channels_def)
  note node = master_inv_node [OF inv]
  from honest_master_groups(1) [OF inv] obtain ks where ks: "configured ?d" "md_groups ?d = [(first_group, ks)]"
    "group_history (selected_by dm) ks" "numbered (selected_by dm)" by (auto simp: one_group_def)
  from moves consider "node_advances (master_node dm) (master_node dm')"
    | "?pl' = ?pl" "tells_slaves to_wire ?d (node_derived (master_node dm'))"
    by (auto simp: master_moves_def)
  then show ?thesis
  proof cases
    case 1
    then have adv: "log ?pl \<subseteq>\<^sub>m log ?pl'" "first_free ?pl \<le> first_free ?pl'"
      "apply_range (master_callbacks to_wire) (log ?pl') (first_free ?pl) (first_free ?pl') ?d = Inr (node_derived (master_node dm'))"
      by (simp_all add: node_advances_def advances_def node(3))
    note grow = logged_grows [OF node(1) adv(1,2), of entry_selected]
    have eq: "logged entry_selected (log ?pl') (first_free ?pl) = selected_by dm"
      using grow logged_prefix [OF adv(2), of entry_selected "log ?pl'"] logged_same_below [of "first_free ?pl" "log ?pl" "log ?pl'" entry_selected]
        below_first_free [OF node(1)] adv(1) by (fastforce simp: selected_by_def map_le_def)
    let ?P = "\<lambda>i x. configured x \<and> tells_selected to_wire (set (logged entry_selected (log ?pl') i)) (md_slaves x)"
    have "?P (first_free ?pl') (node_derived (master_node dm'))"
    proof (rule apply_range_invariant [OF adv(3,2), where P = ?P])
      fix i and s s' :: "'a master_derived"
      assume i: "i < first_free ?pl'" and s: "?P i s" and step: "apply_entry (master_callbacks to_wire) i (the (log ?pl' i)) s = Inr s'"
      from s have "configured s" "tells_selected to_wire (set (logged entry_selected (log ?pl') i)) (md_slaves s)" by blast+
      from selected_entry_tells [OF step this] show "?P (i + 1) s'"
        by (simp add: logged_Suc_index [OF not_max_below [OF i]])
    qed (use ks(1) told in \<open>simp add: eq\<close>)
    with inv' grow show ?thesis
      by (auto simp: honest_master_def slaves_channels_def master_grows_def selected_by_def dest: in_set_takeD) (metis in_set_takeD)
  next
    case 2
    have "\<exists>(rs, n)\<in>set (selected_by dm). w = to_wire (build_new_key_space_selected_message rs n)"
      if w: "w \<in> in_progress to_wire ?d" for w
    proof -
      from w ks(2) obtain ranges rs n where k: "ks = NewKeySpace ranges rs n" "w = to_wire (build_new_key_space_selected_message rs n)"
        by (auto simp: in_progress_def)
      with ks(3,4) have "selected_by dm \<noteq> []" "rs = fst (last (selected_by dm))" "snd (last (selected_by dm)) = n"
        by (cases "selected_by dm" rule: rev_cases; auto simp: numbered_def)+
      then have "(rs, n) \<in> set (selected_by dm)" by (metis last_in_set surjective_pairing)
      with k(2) show ?thesis by blast
    qed
    with 2 told have "tells_selected to_wire (set (selected_by dm)) (md_slaves (node_derived (master_node dm')))"
      by (auto simp: tells_slaves_def intro: tells_selected_change)
    with inv' 2(1) show ?thesis by (simp add: honest_master_def slaves_channels_def master_grows_def selected_by_def)
  qed
qed

section \<open>What a slave tells masters\<close>

text \<open>Only numbers of key spaces that are installed in its log.\<close>

definition tells_installed :: "(message_wrapper \<Rightarrow> 'w) \<Rightarrow> nat \<Rightarrow> 'w connections \<Rightarrow> bool" where
  "tells_installed to_wire n c \<longleftrightarrow>
     (\<forall>q. \<forall>w\<in>set (in_flight c q). \<exists>k\<le>n. w = to_wire (key_space_changed_message (of_nat k)))"

lemma tells_installedD:
  "tells_installed to_wire n c \<Longrightarrow> in_flight c q = w # ws \<Longrightarrow> \<exists>k\<le>n. w = to_wire (key_space_changed_message (of_nat k))"
  unfolding tells_installed_def by (metis list.set_intros(1))

lemma tells_installed_change:
  assumes "tells_installed to_wire n c" "channels_change {to_wire (key_space_changed_message (of_nat k))} c c'" "n \<le> n'" "k \<le> n'"
  shows "tells_installed to_wire n' c'"
proof -
  have "set (in_flight c' q) \<subseteq> set (in_flight c q) \<union> {to_wire (key_space_changed_message (of_nat k))}" for q
    using assms(2) by (intro changes_set) (simp add: channels_change_def)
  with assms(1,3,4) show ?thesis unfolding tells_installed_def by (meson UnE order.trans singletonD subsetD)
qed

definition honest_slave ::
  "(message_wrapper \<Rightarrow> 'w) \<Rightarrow> ('r \<Rightarrow> 32 word \<times> 'r) \<Rightarrow> endpoint_id list \<Rightarrow> ('w, 'r) slave \<Rightarrow> bool" where
  "honest_slave to_wire rand es sl \<longleftrightarrow>
     slave_rules to_wire rand es sl \<and> tells_installed to_wire (length (installed_by sl)) (masters_channels sl)"

definition slave_grows :: "('w, 'r) slave \<Rightarrow> ('w, 'r) slave \<Rightarrow> bool" where
  "slave_grows sl sl' \<longleftrightarrow> length (installed_by sl) \<le> length (installed_by sl')"

lemma slave_grows_refl [simp]: "slave_grows sl sl"
  by (simp add: slave_grows_def)

lemma slave_grows_trans: "slave_grows a b \<Longrightarrow> slave_grows b c \<Longrightarrow> slave_grows a c"
  unfolding slave_grows_def by (rule order.trans)

lemma installed_by_holds:
  "slave_rules to_wire rand es sl \<Longrightarrow> holds_key_spaces (installed_by sl) (node_derived (slave_node sl))"
  using slave_facts(1) [OF _ refl refl] by (simp add: installed_by_def logged_key_spaces_eq)

lemma installed_entry_tells:
  assumes "apply_entry (slave_callbacks to_wire provider) i e d = Inr d'" "holds_key_spaces ks d"
    and "tells_installed to_wire (length ks) (sd_masters d)"
  shows "tells_installed to_wire (length (ks @ entry_key_spaces e)) (sd_masters d')"
proof (cases e)
  case (KeySpaceChanged rs g)
  from assms(1) obtain es where d': "g = sd_generation d + 1"
    "sd_masters d' = broadcast es (to_wire (key_space_changed_message g)) (sd_masters d)"
    unfolding KeySpaceChanged by (auto simp: apply_entry_slave on_key_space_changed_Inr simp del: broadcast.simps)
  with assms(2) have "g = of_nat (Suc (length ks))" by (simp add: holds_key_spaces_def)
  then show ?thesis unfolding d'(2)
    by (intro tells_installed_change [OF assms(3), where k = "Suc (length ks)"])
      (simp_all add: KeySpaceChanged channels_change_broadcast del: broadcast.simps)
next
  case (ReconfigStarted ss)
  with assms show ?thesis by (auto simp: apply_entry_slave rbind_eq_Inr)
qed (use assms in \<open>simp_all add: apply_entry_slave\<close>)

lemma slave_moves_honest:
  assumes moves: "slave_moves to_wire sl sl'" and honest: "honest_slave to_wire rand es sl"
    and rules': "slave_rules to_wire rand es sl'"
  shows "honest_slave to_wire rand es sl' \<and> slave_grows sl sl'"
proof -
  let ?pl = "node_log (slave_node sl)" and ?pl' = "node_log (slave_node sl')"
  let ?d = "node_derived (slave_node sl)"
  from honest have rules: "slave_rules to_wire rand es sl"
    and told: "tells_installed to_wire (length (installed_by sl)) (sd_masters ?d)"
    by (simp_all add: honest_slave_def masters_channels_def)
  note node = slave_rules_node [OF rules]
  note holds = installed_by_holds [OF rules]
  from moves consider "node_advances (slave_node sl) (slave_node sl')"
    | "?pl' = ?pl" "tells_masters to_wire ?d (node_derived (slave_node sl'))"
    by (auto simp: slave_moves_def)
  then show ?thesis
  proof cases
    case 1
    from node(4) obtain random clients where cbs: "callbacks ?pl = slave_callbacks to_wire (production_provider random clients)" by blast
    from 1 have adv: "log ?pl \<subseteq>\<^sub>m log ?pl'" "first_free ?pl \<le> first_free ?pl'"
      "apply_range (slave_callbacks to_wire (production_provider random clients)) (log ?pl') (first_free ?pl) (first_free ?pl') ?d =
        Inr (node_derived (slave_node sl'))"
      by (simp_all add: node_advances_def advances_def cbs)
    note grow = logged_grows [OF node(1) adv(1,2), of entry_key_spaces]
    have eq: "logged entry_key_spaces (log ?pl') (first_free ?pl) = installed_by sl"
      using grow logged_prefix [OF adv(2), of entry_key_spaces "log ?pl'"] logged_same_below [of "first_free ?pl" "log ?pl" "log ?pl'" entry_key_spaces]
        below_first_free [OF node(1)] adv(1) by (fastforce simp: installed_by_def map_le_def)
    let ?P = "\<lambda>i x. holds_key_spaces (logged entry_key_spaces (log ?pl') i) x \<and>
      tells_installed to_wire (length (logged entry_key_spaces (log ?pl') i)) (sd_masters x)"
    have "?P (first_free ?pl') (node_derived (slave_node sl'))"
    proof (rule apply_range_invariant [OF adv(3,2), where P = ?P])
      fix i and s s' :: "('a, 'b) slave_derived"
      assume i: "i < first_free ?pl'" and s: "?P i s"
        and step: "apply_entry (slave_callbacks to_wire (production_provider random clients)) i (the (log ?pl' i)) s = Inr s'"
      from holds_key_spaces_apply [OF step] installed_entry_tells [OF step] s show "?P (i + 1) s'"
        by (simp add: logged_Suc_index [OF not_max_below [OF i]])
    qed (use holds told in \<open>simp add: eq\<close>)
    moreover have "length (installed_by sl) \<le> length (installed_by sl')"
      using logged_length [OF adv(2), of entry_key_spaces "log ?pl'"] by (simp add: eq) (simp add: installed_by_def)
    ultimately show ?thesis using rules' by (simp add: honest_slave_def masters_channels_def slave_grows_def installed_by_def)
  next
    case 2
    from holds have "sd_generation ?d = of_nat (length (installed_by sl))" by (simp add: holds_key_spaces_def)
    with 2 told have "tells_installed to_wire (length (installed_by sl)) (sd_masters (node_derived (slave_node sl')))"
      by (auto simp: tells_masters_def intro: tells_installed_change)
    with rules' 2(1) show ?thesis by (simp add: honest_slave_def masters_channels_def slave_grows_def installed_by_def)
  qed
qed

section \<open>Steps of the system\<close>

definition selected_in :: "('w, 'r) key_value_system \<Rightarrow> (key_space_range list \<times> 32 word) set" where
  "selected_in sys = (\<Union>p. set (selected_by (sys_masters sys p)))"

definition reported_in :: "('w, 'r) key_value_system \<Rightarrow> 32 word set" where
  "reported_in sys = {of_nat k | k p. k \<le> length (installed_by (sys_slaves sys p))}"

definition honest ::
  "(message_wrapper \<Rightarrow> 'w) \<Rightarrow> ('r \<Rightarrow> 32 word \<times> 'r) \<Rightarrow> 'w master_derived \<Rightarrow> endpoint_id list \<Rightarrow> ('w, 'r) key_value_system \<Rightarrow> bool" where
  "honest to_wire rand init es sys \<longleftrightarrow>
     (\<forall>p. honest_master to_wire rand init (sys_masters sys p)) \<and> (\<forall>p. honest_slave to_wire rand es (sys_slaves sys p))"

definition system_grows :: "('w, 'r) key_value_system \<Rightarrow> ('w, 'r) key_value_system \<Rightarrow> bool" where
  "system_grows sys sys' \<longleftrightarrow> selected_in sys \<subseteq> selected_in sys' \<and> reported_in sys \<subseteq> reported_in sys'"

lemma system_grows_refl [simp]: "system_grows sys sys"
  by (simp add: system_grows_def)

lemma system_grows_trans: "system_grows a b \<Longrightarrow> system_grows b c \<Longrightarrow> system_grows a c"
  unfolding system_grows_def by blast

lemma system_growsI:
  assumes "\<And>p. master_grows (sys_masters sys p) (sys_masters sys' p)" "\<And>p. slave_grows (sys_slaves sys p) (sys_slaves sys' p)"
  shows "system_grows sys sys'"
proof -
  have "selected_in sys \<subseteq> selected_in sys'" using assms(1) unfolding selected_in_def master_grows_def by blast
  moreover have "reported_in sys \<subseteq> reported_in sys'"
    using assms(2) unfolding reported_in_def slave_grows_def by (blast intro: order.trans)
  ultimately show ?thesis by (simp add: system_grows_def)
qed

text \<open>The slaves are told only key spaces of \<open>S\<close>, the masters only numbers of \<open>C\<close>.\<close>

definition key_spaces_of :: "(key_space_range list \<times> 32 word) set \<Rightarrow> paxos_log_entry \<Rightarrow> bool" where
  "key_spaces_of S e \<longleftrightarrow> set (entry_key_spaces e) \<subseteq> S"

lemma told_slaves_Nil: "told_slaves_run E to_wire parse rand cs ns [] sls = Some sls"
  by (simp add: told_slaves_run_def)

lemma told_masters_Nil: "told_masters_run C to_wire parse rand cs ns [] dms = Some dms"
  by (simp add: told_masters_run_def)

lemma told_slaves_append:
  "told_slaves_run E to_wire parse rand cs ns evs sls = Some sls1 \<Longrightarrow> told_slaves_run E to_wire parse rand cs ns evs' sls1 = Some sls2 \<Longrightarrow>
     told_slaves_run E to_wire parse rand cs ns (evs @ evs') sls = Some sls2"
  unfolding told_slaves_run_def by (rule cluster_run_append)

lemma told_masters_append:
  "told_masters_run C to_wire parse rand cs ns evs dms = Some dms1 \<Longrightarrow> told_masters_run C to_wire parse rand cs ns evs' dms1 = Some dms2 \<Longrightarrow>
     told_masters_run C to_wire parse rand cs ns (evs @ evs') dms = Some dms2"
  unfolding told_masters_run_def by (rule cluster_run_append)

lemma cluster_run_one: "cluster_run step conns pop push ns [ev] hs = cluster_step step conns pop push ns ev hs"
  by (simp split: option.split)

lemma told_slaves_one:
  assumes "slaves_run to_wire parse rand cs ns [ev] sls = Some sls'"
    and "\<And>p m. ev = Acts p (SlaveQueueMessage m) \<Longrightarrow> slave_welcome parse E (incoming_payload m)"
  shows "told_slaves_run E to_wire parse rand cs ns [ev] sls = Some sls'"
proof (cases ev)
  case (Acts p sev)
  with assms(2) have "slave_acts E to_wire parse rand cs sev (sls p) = slave_act to_wire parse rand cs sev (sls p)"
    by (cases sev) (auto simp: slave_acts_def)
  with assms(1) Acts show ?thesis by (simp only: slaves_run_def told_slaves_run_def cluster_run_one cluster_step.simps)
qed (use assms(1) in \<open>simp only: slaves_run_def told_slaves_run_def cluster_run_one cluster_step.simps\<close>)

lemma told_masters_one:
  assumes "masters_run to_wire parse rand cs ns [ev] dms = Some dms'"
    and "\<And>p m. ev = Acts p (MasterQueueMessage m) \<Longrightarrow> report_ok parse C (incoming_payload m)"
  shows "told_masters_run C to_wire parse rand cs ns [ev] dms = Some dms'"
proof (cases ev)
  case (Acts p mev)
  with assms(2) have "master_acts C to_wire parse rand cs mev (dms p) = master_act to_wire parse rand cs mev (dms p)"
    by (cases mev) (auto simp: master_acts_def)
  with assms(1) Acts show ?thesis by (simp only: masters_run_def told_masters_run_def cluster_run_one cluster_step.simps)
qed (use assms(1) in \<open>simp only: masters_run_def told_masters_run_def cluster_run_one cluster_step.simps\<close>)

lemma from_client_told:
  "from_client parse w \<Longrightarrow> slave_welcome parse E w" "from_client parse w \<Longrightarrow> report_ok parse C w"
  by (auto simp: from_client_def slave_welcome_def report_ok_def split: message_wrapper.splits)

context wire_format
begin

lemma masters_one_honest:
  assumes run: "masters_run to_wire parse rand cs ns [ev] dms = Some dms'"
    and honest: "\<And>p. honest_master to_wire rand (initial_master ses mes c) (dms p)"
  shows "honest_master to_wire rand (initial_master ses mes c) (dms' p) \<and> master_grows (dms p) (dms' p)"
proof -
  let ?H = "honest_master to_wire rand (initial_master ses mes c)"
  have inv: "master_inv to_wire rand (initial_master ses mes c) (dms p)" for p using honest by (simp add: honest_master_def)
  note step = run [unfolded masters_run_def cluster_run_one]
  show ?thesis
  proof (cases ev)
    case (Acts a mev)
    with step obtain dm where dm: "master_act to_wire parse rand cs mev (dms a) = Some dm" "dms' = dms(a := dm)"
      by (auto split: if_splits)
    then have s: "master_step to_wire parse rand cs mev (dms a) = Some (Inr dm)"
      by (auto simp: master_act_def split: if_splits option.splits sum.splits)
    from master_moves_honest [OF master_step_moves [OF s inv] honest master_step_inv [OF s inv]] honest dm(2) show ?thesis
      by (simp add: master_grows_def)
  next
    case (Moves a b)
    have sent: "?H (master_sent b dm) \<and> master_grows dm (master_sent b dm)" if "?H dm" for dm
      using that master_sent_inv
      by (auto simp: honest_master_def) (simp_all add: master_sent_def Let_def master_with_node_def slaves_channels_def selected_by_def master_grows_def)
    have received: "?H (master_received m dm) \<and> master_grows dm (master_received m dm)" if "?H dm" for m dm
      using that master_received_inv
      by (auto simp: honest_master_def) (simp_all add: master_received_def slaves_channels_def selected_by_def master_grows_def)
    from Moves step obtain w where
      "dms' = (let hs = dms(a := master_sent b (dms a))
        in hs(b := master_received \<lparr>incoming_endpoint = a, incoming_payload = w\<rparr> (hs b)))"
      by (auto simp: Let_def split: list.splits if_splits)
    moreover have "?H (master_received m (master_sent b dm)) \<and> master_grows dm (master_received m (master_sent b dm))"
      if "?H dm" for m dm
      using sent [OF that] received by (blast intro: master_grows_trans)
    ultimately show ?thesis using honest sent received by (auto simp: Let_def)
  qed
qed

lemma slaves_one_honest:
  assumes run: "slaves_run to_wire parse rand cs ns [ev] sls = Some sls'"
    and honest: "\<And>p. honest_slave to_wire rand es (sls p)"
  shows "honest_slave to_wire rand es (sls' p) \<and> slave_grows (sls p) (sls' p)"
proof -
  let ?H = "honest_slave to_wire rand es"
  have rules: "slave_rules to_wire rand es (sls p)" for p using honest by (simp add: honest_slave_def)
  note step = run [unfolded slaves_run_def cluster_run_one]
  show ?thesis
  proof (cases ev)
    case (Acts a sev)
    with step obtain sl where sl: "slave_act to_wire parse rand cs sev (sls a) = Some sl" "sls' = sls(a := sl)"
      by (auto split: if_splits)
    then have s: "slave_step to_wire parse rand cs sev (sls a) = Some (Inr sl)"
      by (auto simp: slave_act_def split: if_splits option.splits sum.splits)
    from slave_moves_honest [OF slave_step_moves [OF s rules] honest slave_rules_step [OF s rules]] honest sl(2) show ?thesis
      by (simp add: slave_grows_def)
  next
    case (Moves a b)
    have sent: "?H (slave_sent b sl) \<and> slave_grows sl (slave_sent b sl)" if "?H sl" for sl
      using that slave_sent_rules
      by (auto simp: honest_slave_def) (simp_all add: slave_sent_def Let_def slave_with_node_def masters_channels_def installed_by_def slave_grows_def)
    have received: "?H (slave_received m sl) \<and> slave_grows sl (slave_received m sl)" if "?H sl" for m sl
      using that slave_received_rules
      by (auto simp: honest_slave_def) (simp_all add: slave_received_def masters_channels_def installed_by_def slave_grows_def)
    from Moves step obtain w where
      "sls' = (let hs = sls(a := slave_sent b (sls a))
        in hs(b := slave_received \<lparr>incoming_endpoint = a, incoming_payload = w\<rparr> (hs b)))"
      by (auto simp: Let_def split: list.splits if_splits)
    moreover have "?H (slave_received m (slave_sent b sl)) \<and> slave_grows sl (slave_received m (slave_sent b sl))"
      if "?H sl" for m sl
      using sent [OF that] received by (blast intro: slave_grows_trans)
    ultimately show ?thesis using honest sent received by (auto simp: Let_def)
  qed
qed

text \<open>Every step of the system is one of each group's, in which nothing but the truth is told.\<close>

lemma system_step_told:
  assumes step: "system_step to_wire parse rand cs ms ss ev sys = Some sys'"
    and honest: "honest to_wire rand (initial_master ses mes c) es sys"
  shows "honest to_wire rand (initial_master ses mes c) es sys' \<and> system_grows sys sys'"
    and "selected_in sys \<subseteq> S \<Longrightarrow> reported_in sys \<subseteq> R \<Longrightarrow>
      \<exists>mevs sevs. told_masters_run (\<lambda>n. n \<in> R) to_wire parse rand cs ms mevs (sys_masters sys) = Some (sys_masters sys') \<and>
        told_slaves_run (key_spaces_of S) to_wire parse rand cs ss sevs (sys_slaves sys) = Some (sys_slaves sys')"
proof -
  let ?init = "initial_master ses mes c"
  have hm: "honest_master to_wire rand ?init (sys_masters sys p)" and hs: "honest_slave to_wire rand es (sys_slaves sys p)" for p
    using honest by (simp_all add: honest_def)
  note masters = masters_one_honest [OF _ hm] and slaves = slaves_one_honest [OF _ hs]
  have none: "told_masters_run C to_wire parse rand cs ms [] dms = Some dms"
    "told_slaves_run E to_wire parse rand cs ss [] sls = Some sls" for C E dms sls
    by (rule told_masters_Nil, rule told_slaves_Nil)
  have one: "(honest to_wire rand ?init es sys' \<and> system_grows sys sys') \<and>
      (selected_in sys \<subseteq> S \<longrightarrow> reported_in sys \<subseteq> R \<longrightarrow>
      (\<exists>mevs sevs. told_masters_run (\<lambda>n. n \<in> R) to_wire parse rand cs ms mevs (sys_masters sys) = Some (sys_masters sys') \<and>
        told_slaves_run (key_spaces_of S) to_wire parse rand cs ss sevs (sys_slaves sys) = Some (sys_slaves sys')))"
  proof (cases ev)
    case (AmongMasters mev)
    from system_among_masters [OF step [unfolded AmongMasters]] obtain dms where run: "masters_run to_wire parse rand cs ms [mev] (sys_masters sys) = Some dms"
      and sys': "sys' = sys\<lparr>sys_masters := dms\<rparr>"
      and client: "\<forall>p m. mev = Acts p (MasterQueueMessage m) \<longrightarrow> from_client parse (incoming_payload m)"
      by blast
    have "told_masters_run (\<lambda>n. n \<in> R) to_wire parse rand cs ms [mev] (sys_masters sys) = Some dms"
    proof (rule told_masters_one [OF run])
      fix p m assume "mev = Acts p (MasterQueueMessage m)"
      with client have "from_client parse (incoming_payload m)" by simp
      then show "report_ok parse (\<lambda>n. n \<in> R) (incoming_payload m)" by (rule from_client_told)
    qed
    with none(2) masters [OF run] hs show ?thesis
      by (auto simp: sys' honest_def intro!: system_growsI)
  next
    case (AmongSlaves sev)
    from system_among_slaves [OF step [unfolded AmongSlaves]] obtain sls where run: "slaves_run to_wire parse rand cs ss [sev] (sys_slaves sys) = Some sls"
      and sys': "sys' = sys\<lparr>sys_slaves := sls\<rparr>"
      and client: "\<forall>p m. sev = Acts p (SlaveQueueMessage m) \<longrightarrow> from_client parse (incoming_payload m)"
      by blast
    have "told_slaves_run (key_spaces_of S) to_wire parse rand cs ss [sev] (sys_slaves sys) = Some sls"
    proof (rule told_slaves_one [OF run])
      fix p m assume "sev = Acts p (SlaveQueueMessage m)"
      with client have "from_client parse (incoming_payload m)" by simp
      then show "slave_welcome parse (key_spaces_of S) (incoming_payload m)" by (rule from_client_told)
    qed
    with none(1) slaves [OF run] hm show ?thesis
      by (auto simp: sys' honest_def intro!: system_growsI)
  next
    case (ToSlave p q)
    from system_to_slave [OF step [unfolded ToSlave]] obtain w ws dms sls where w: "in_flight (slaves_channels (sys_masters sys p)) q = w # ws"
      and m: "masters_run to_wire parse rand cs ms [Acts p (MasterToSlave (Written q))] (sys_masters sys) = Some dms"
      and s: "slaves_run to_wire parse rand cs ss
        [Acts q (SlaveQueueMessage \<lparr>incoming_endpoint = p, incoming_payload = w\<rparr>)] (sys_slaves sys) = Some sls"
      and sys': "sys' = \<lparr>sys_masters = dms, sys_slaves = sls\<rparr>"
      by blast
    from tells_selectedD [OF conjunct2 [OF hm [of p, unfolded honest_master_def]] w] obtain rs n where sel: "(rs, n) \<in> set (selected_by (sys_masters sys p))"
      "w = to_wire (build_new_key_space_selected_message rs n)"
      by blast
    have "slave_welcome parse (key_spaces_of S) w" if "selected_in sys \<subseteq> S"
    proof -
      have "(rs, n) \<in> S" using sel(1) that by (auto simp: selected_in_def)
      then show ?thesis by (simp add: sel(2) slave_welcome_def build_new_key_space_selected_message_def key_spaces_of_def)
    qed
    then have "told_slaves_run (key_spaces_of S) to_wire parse rand cs ss
        [Acts q (SlaveQueueMessage \<lparr>incoming_endpoint = p, incoming_payload = w\<rparr>)] (sys_slaves sys) = Some sls"
      if "selected_in sys \<subseteq> S" using that by (intro told_slaves_one [OF s]) auto
    moreover have "told_masters_run (\<lambda>n. n \<in> R) to_wire parse rand cs ms [Acts p (MasterToSlave (Written q))] (sys_masters sys) = Some dms"
      by (rule told_masters_one [OF m]) simp
    ultimately show ?thesis
      using masters [OF m] slaves [OF s] by (auto simp: sys' honest_def intro!: system_growsI)
  next
    case (ToMaster p q)
    from system_to_master [OF step [unfolded ToMaster]] obtain w ws dms sls where w: "in_flight (masters_channels (sys_slaves sys p)) q = w # ws"
      and s: "slaves_run to_wire parse rand cs ss [Acts p (MasterConnection (Written q))] (sys_slaves sys) = Some sls"
      and m: "masters_run to_wire parse rand cs ms
        [Acts q (MasterQueueMessage \<lparr>incoming_endpoint = p, incoming_payload = w\<rparr>)] (sys_masters sys) = Some dms"
      and sys': "sys' = \<lparr>sys_masters = dms, sys_slaves = sls\<rparr>"
      by blast
    from tells_installedD [OF conjunct2 [OF hs [of p, unfolded honest_slave_def]] w] obtain k where k: "k \<le> length (installed_by (sys_slaves sys p))"
      "w = to_wire (key_space_changed_message (of_nat k))"
      by blast
    have "report_ok parse (\<lambda>n. n \<in> R) w" if "reported_in sys \<subseteq> R"
    proof -
      have "of_nat k \<in> R" using k(1) that by (auto simp: reported_in_def)
      then show ?thesis by (simp add: k(2) report_ok_def key_space_changed_message_def)
    qed
    then have "told_masters_run (\<lambda>n. n \<in> R) to_wire parse rand cs ms
        [Acts q (MasterQueueMessage \<lparr>incoming_endpoint = p, incoming_payload = w\<rparr>)] (sys_masters sys) = Some dms"
      if "reported_in sys \<subseteq> R" using that by (intro told_masters_one [OF m]) auto
    moreover have "told_slaves_run (key_spaces_of S) to_wire parse rand cs ss [Acts p (MasterConnection (Written q))] (sys_slaves sys) = Some sls"
      by (rule told_slaves_one [OF s]) simp
    ultimately show ?thesis
      using masters [OF m] slaves [OF s] by (auto simp: sys' honest_def intro!: system_growsI)
  qed
  then show "honest to_wire rand ?init es sys' \<and> system_grows sys sys'" by blast
  from one show "selected_in sys \<subseteq> S \<Longrightarrow> reported_in sys \<subseteq> R \<Longrightarrow>
      \<exists>mevs sevs. told_masters_run (\<lambda>n. n \<in> R) to_wire parse rand cs ms mevs (sys_masters sys) = Some (sys_masters sys') \<and>
        told_slaves_run (key_spaces_of S) to_wire parse rand cs ss sevs (sys_slaves sys) = Some (sys_slaves sys')" by blast
qed

lemma system_run_told:
  assumes "system_run to_wire parse rand cs ms ss evs sys = Some sys'" "honest to_wire rand (initial_master ses mes c) es sys"
  shows "(honest to_wire rand (initial_master ses mes c) es sys' \<and> system_grows sys sys') \<and>
    (selected_in sys' \<subseteq> S \<longrightarrow> reported_in sys' \<subseteq> R \<longrightarrow>
      (\<exists>mevs sevs. told_masters_run (\<lambda>n. n \<in> R) to_wire parse rand cs ms mevs (sys_masters sys) = Some (sys_masters sys') \<and>
        told_slaves_run (key_spaces_of S) to_wire parse rand cs ss sevs (sys_slaves sys) = Some (sys_slaves sys')))"
  using assms
proof (induction evs arbitrary: sys)
  case Nil
  then show ?case by (auto simp: told_masters_run_def told_slaves_run_def intro!: exI [of _ "[]"])
next
  case (Cons ev evs)
  then obtain sys1 where step: "system_step to_wire parse rand cs ms ss ev sys = Some sys1"
    and run: "system_run to_wire parse rand cs ms ss evs sys1 = Some sys'" by (auto split: option.splits)
  note first = system_step_told [OF step Cons.prems(2)]
  note rest = Cons.IH [OF run conjunct1 [OF first(1)]]
  have "\<exists>mevs sevs. told_masters_run (\<lambda>n. n \<in> R) to_wire parse rand cs ms mevs (sys_masters sys) = Some (sys_masters sys') \<and>
        told_slaves_run (key_spaces_of S) to_wire parse rand cs ss sevs (sys_slaves sys) = Some (sys_slaves sys')"
    if SR: "selected_in sys' \<subseteq> S" "reported_in sys' \<subseteq> R"
  proof -
    have "selected_in sys \<subseteq> S" "reported_in sys \<subseteq> R"
      using SR first(1) rest unfolding system_grows_def by blast+
    from first(2) [OF this] rest SR obtain mevs sevs mevs' sevs' where
      "told_masters_run (\<lambda>n. n \<in> R) to_wire parse rand cs ms mevs (sys_masters sys) = Some (sys_masters sys1)"
      "told_slaves_run (key_spaces_of S) to_wire parse rand cs ss sevs (sys_slaves sys) = Some (sys_slaves sys1)"
      "told_masters_run (\<lambda>n. n \<in> R) to_wire parse rand cs ms mevs' (sys_masters sys1) = Some (sys_masters sys')"
      "told_slaves_run (key_spaces_of S) to_wire parse rand cs ss sevs' (sys_slaves sys1) = Some (sys_slaves sys')"
      by blast
    from told_masters_append [OF this(1,3)] told_slaves_append [OF this(2,4)] show ?thesis by blast
  qed
  with first(1) rest system_grows_trans show ?case by blast
qed

end

lemma system_run_append:
  "system_run to_wire parse rand cs ms ss evs sys = Some sys' \<Longrightarrow>
     system_run to_wire parse rand cs ms ss (evs @ evs') sys = system_run to_wire parse rand cs ms ss evs' sys'"
  by (induction evs arbitrary: sys) (simp_all split: option.splits)

text \<open>So each group goes on as told by the other.\<close>

context wire_format
begin

lemma system_sides:
  assumes run: "system_run to_wire parse rand cs ms ss evs start = Some sys"
      "system_run to_wire parse rand cs ms ss evs' sys = Some sys'"
    and start: "honest to_wire rand (initial_master ses mes c) es start"
  shows "\<exists>mevs. told_masters_run (\<lambda>n. n \<in> reported_in sys) to_wire parse rand cs ms mevs (sys_masters start) = Some (sys_masters sys)"
    and "\<exists>sevs. told_slaves_run (key_spaces_of (selected_in sys)) to_wire parse rand cs ss sevs (sys_slaves start) = Some (sys_slaves sys)"
    and "\<exists>sevs. told_slaves_run (key_spaces_of (selected_in sys')) to_wire parse rand cs ss sevs (sys_slaves start) = Some (sys_slaves sys')"
    and "\<exists>mevs1 mevs2. told_masters_run (\<lambda>n. n \<in> UNIV) to_wire parse rand cs ms mevs1 (sys_masters start) = Some (sys_masters sys) \<and>
      told_masters_run (\<lambda>n. n \<in> UNIV) to_wire parse rand cs ms mevs2 (sys_masters sys) = Some (sys_masters sys')"
proof -
  note first = system_run_told [OF run(1) start]
  note whole = system_run_told [OF trans [OF system_run_append [OF run(1), of evs'] run(2)] start]
  note rest = system_run_told [OF run(2) conjunct1 [OF conjunct1 [OF first]]]
  from first [of "selected_in sys" "reported_in sys"] show
    "\<exists>mevs. told_masters_run (\<lambda>n. n \<in> reported_in sys) to_wire parse rand cs ms mevs (sys_masters start) = Some (sys_masters sys)"
    "\<exists>sevs. told_slaves_run (key_spaces_of (selected_in sys)) to_wire parse rand cs ss sevs (sys_slaves start) = Some (sys_slaves sys)"
    by blast+
  from whole [of "selected_in sys'" UNIV] show
    "\<exists>sevs. told_slaves_run (key_spaces_of (selected_in sys')) to_wire parse rand cs ss sevs (sys_slaves start) = Some (sys_slaves sys')"
    by blast
  from first [of "selected_in sys" UNIV] rest [of "selected_in sys'" UNIV] show
    "\<exists>mevs1 mevs2. told_masters_run (\<lambda>n. n \<in> UNIV) to_wire parse rand cs ms mevs1 (sys_masters start) = Some (sys_masters sys) \<and>
      told_masters_run (\<lambda>n. n \<in> UNIV) to_wire parse rand cs ms mevs2 (sys_masters sys) = Some (sys_masters sys')"
    by blast
qed

end

section \<open>The start\<close>

lemma start_honest:
  assumes "sys_masters sys = start_masters to_wire mseeds mclients to_slaves masters ses mes"
    and "sys_slaves sys = start_slaves to_wire tablet_seeds cores seeds clients to_masters slaves es ips"
    and "silent to_slaves" "silent to_masters"
  shows "honest to_wire rand (initial_master ses mes c) es sys"
proof -
  have "honest_master to_wire rand (initial_master ses mes c) (sys_masters sys p)" for p
    using assms(3) unfolding honest_master_def
    by (intro conjI) (simp add: assms(1) start_masters_def DataMaster_inv,
      simp add: tells_selected_def slaves_channels_def assms(1) start_masters_def DataMaster_def initial_master_def silent_def)
  moreover have "honest_slave to_wire rand es (sys_slaves sys p)" for p
    using assms(4) start_slaves_rules unfolding honest_slave_def
    by (simp add: assms(2))
      (simp add: tells_installed_def masters_channels_def start_slaves_def ProductionContext_def LocalTransactionManager_def
        initial_slave_def silent_def)
  ultimately show ?thesis by (simp add: honest_def)
qed

section \<open>What a committed key space shows\<close>

lemma logged_bound_skip:
  assumes "\<forall>e. length (f e) \<le> 1" "i < n" "f (the (m i)) = []"
  shows "length (logged f m n) < unat n"
proof -
  have "length (logged f m n) + (if i < n then 1 else 0) \<le> unat n"
  proof (rule word_induct_below [where j = n])
    fix j assume j: "j < n" "length (logged f m j) + (if i < j then 1 else 0) \<le> unat j"
    note next_j = logged_Suc_index [OF not_max_below [OF j(1)], of f m] unat_succ [OF j(1)]
    have le: "i < j + 1 \<longleftrightarrow> i \<le> j" using next_j(2) by (simp add: word_less_nat_alt word_le_nat_alt) linarith
    have "length (f (the (m j))) \<le> 1" using assms(1) by blast
    with j(2) assms(3) next_j le show "length (logged f m (j + 1)) + (if i < j + 1 then 1 else 0) \<le> unat (j + 1)"
      by (cases "i = j") (auto simp: order.strict_iff_order)
  qed simp
  with assms(2) show ?thesis by simp
qed

lemma entries_fit_bound:
  assumes "log_inv pl" "\<forall>i e. log pl i = Some e \<longrightarrow> fits_index i"
  shows "unat (first_free pl) \<le> 2 ^ 32"
proof (cases "first_free pl = 0")
  case False
  then have "unat (first_free pl) > 0" by (simp add: unat_gt_0)
  with unat_minus_one [OF False] have "first_free pl - 1 < first_free pl" by (simp add: word_less_nat_alt)
  with below_first_free [OF assms(1)] assms(2) have "first_free pl - 1 < 2 ^ 32" unfolding fits_index_def by blast
  with unat_minus_one [OF False] show ?thesis by (simp add: word_less_nat_alt)
qed simp

text \<open>Key spaces that were handed over were committed.\<close>

lemma replay_committed:
  assumes "one_group [] init"
  shows "replay (master_callbacks to_wire) m n init = Inr d \<Longrightarrow> md_groups d = [(first_group, KeySpace ranges k)] \<Longrightarrow>
    logged entry_selected m n \<noteq> [] \<Longrightarrow> \<exists>i<n. \<exists>g. the (m i) = KeySpaceCommit g k"
proof (induction arbitrary: d ranges k rule: word_induct_below [where j = n])
  case (2 i)
  from 2(3) obtain d1 where d1: "replay (master_callbacks to_wire) m i init = Inr d1"
    and e: "apply_entry (master_callbacks to_wire) i (the (m i)) d1 = Inr d"
    by (auto simp: replay_step [OF 2(1)] rbind_eq_Inr)
  have below: "x < i + 1" if "x \<le> i" for x using unat_succ [OF 2(1)] that by (simp add: word_less_nat_alt word_le_nat_alt)
  note snoc = logged_Suc_index [OF not_max_below [OF 2(1)], of entry_selected m]
  have earlier: ?case if "md_groups d = md_groups d1" "entry_selected (the (m i)) = []"
    using 2(2) [OF d1, of ranges k] 2(4,5) that snoc below by (auto intro: less_imp_le)
  from replay_one_group [OF assms d1] obtain ks where ks: "md_groups d1 = [(first_group, ks)]" "configured d1"
    by (auto simp: one_group_def)
  show ?case
  proof (cases "the (m i)")
    case (KeySpaceSelected g rs n)
    with e ks obtain old where "md_groups d = put_group (SlaveGroupId g) (NewKeySpace old (map convert_range rs) n) (md_groups d1)"
      "SlaveGroupId g = first_group"
      by (auto simp: apply_entry_master selected_Inr simp del: broadcast.simps split: if_splits)
    with ks(1) 2(4) show ?thesis by (simp add: put_group_def)
  next
    case (KeySpaceCommit g n)
    with e ks 2(4) have "n = k" by (auto simp: apply_entry_master commit_Inr put_group_def split: if_splits)
    with KeySpaceCommit below show ?thesis by blast
  next
    case (ReconfigStarted ss')
    with e have "md_groups d = md_groups d1" by (auto simp: apply_entry_master rbind_eq_Inr)
    with ReconfigStarted earlier show ?thesis by simp
  qed (use e earlier in \<open>simp_all add: apply_entry_master\<close>)
qed simp

lemma justified_key_spaces:
  assumes "\<And>i. i < n \<Longrightarrow> slave_justified (key_spaces_of S) L i (the (L i))"
  shows "numbered (logged_key_spaces L n) \<and> set (logged_key_spaces L n) \<subseteq> S"
proof (rule word_induct_below [where j = n])
  fix i assume i: "i < n" "numbered (logged_key_spaces L i) \<and> set (logged_key_spaces L i) \<subseteq> S"
  from assms [OF i(1)] obtain rs where e: "the (L i) = KeySpaceChanged rs (of_nat (length (logged_key_spaces L i)) + 1)"
    "key_spaces_of S (the (L i))" by (auto simp: slave_justified_def)
  with i(2) show "numbered (logged_key_spaces L (i + 1)) \<and> set (logged_key_spaces L (i + 1)) \<subseteq> S"
    by (simp add: logged_key_spaces_succ [OF i(1)] numbered_def key_spaces_of_def)
qed (simp add: numbered_def logged_key_spaces_eq)

context wire_format
begin

text \<open>What a master that names an owner has in its log.\<close>

lemma answer_selected:
  assumes N: "distinct ms" "length ms \<le> unat (num_slave_servers cs)" "majority_is_all cs ms" "silent masters" "distinct mes"
    and run: "told_masters_run (\<lambda>n. n \<in> R) to_wire parse rand cs ms evs (start_masters to_wire seeds clients slaves masters ses mes) = Some dms"
    and answer: "search_groups message (md_groups (node_derived (master_node (dms a)))) = Some (Assigned g)"
  shows "g = first_group \<and>
    md_groups (node_derived (master_node (dms a))) =
      [(g, KeySpace (fst (last (selected_by (dms a)))) (of_nat (length (selected_by (dms a)))))] \<and>
    selected_by (dms a) \<noteq> [] \<and> length (selected_by (dms a)) < 2 ^ 32 \<and>
    of_nat (length (selected_by (dms a))) \<in> R \<and>
    list_ex (\<lambda>r. within_range r (fk_database_id message) (fk_table_id message) (fk_key message)) (fst (last (selected_by (dms a))))"
proof -
  let ?pl = "node_log (master_node (dms a))"
  note facts = masters_facts [OF N run told_masters_Nil refl]
  from search_groups_Some(2) [OF answer] obtain ranges n where
    r: "(g, KeySpace ranges n) \<in> set (md_groups (node_derived (master_node (dms a))))"
      "list_ex (\<lambda>r. within_range r (fk_database_id message) (fk_table_id message) (fk_key message)) ranges" by blast
  from honest_master_groups(1) [OF facts(7) [of a]] r(1) have
    g: "g = first_group" "md_groups (node_derived (master_node (dms a))) = [(first_group, KeySpace ranges n)]"
      "group_history (selected_by (dms a)) (KeySpace ranges n)"
    by (auto simp: one_group_def)
  from r(2) g(3) have sel: "selected_by (dms a) \<noteq> []" "ranges = fst (last (selected_by (dms a)))"
    "n = of_nat (length (selected_by (dms a)))" by (auto split: if_splits)
  from facts(4) [of a] obtain d where d: "replay (master_callbacks to_wire) (log ?pl) (first_free ?pl)
      (initial_master ses mes \<lparr>channels = []\<rparr>) = Inr d" "md_groups d = [(first_group, KeySpace ranges n)]"
    using g(2) by (auto simp: master_follows_def)
  from replay_committed [OF one_group_initial d sel(1) [unfolded selected_by_def]] obtain i g' where
    i: "i < first_free ?pl" "the (log ?pl i) = KeySpaceCommit g' n" by blast
  from below_first_free [OF facts(3) i(1)] i(2) have "log ?pl i = Some (KeySpaceCommit g' n)" by auto
  from facts(6) [OF i(1) this] have "n \<in> R" .
  moreover have "length (selected_by (dms a)) < 2 ^ 32"
  proof -
    have "unat (first_free ?pl) \<le> 2 ^ 32" by (rule entries_fit_bound [OF facts(3)]) (use facts(5) in blast)
    moreover have "length (selected_by (dms a)) < unat (first_free ?pl)"
      unfolding selected_by_def by (rule logged_bound_skip [OF _ i(1)]) (simp_all add: entry_lengths [unfolded One_nat_def] i(2))
    ultimately show ?thesis by simp
  qed
  ultimately show ?thesis using g(1,2) sel r(2) by simp
qed

text \<open>A number says which key space it is, on all masters.\<close>

lemma selected_by_number:
  assumes N: "distinct ms" "length ms \<le> unat (num_slave_servers cs)" "majority_is_all cs ms" "silent masters" "distinct mes"
    and run: "told_masters_run C to_wire parse rand cs ms evs (start_masters to_wire seeds clients slaves masters ses mes) = Some dms"
      "told_masters_run C to_wire parse rand cs ms evs' dms = Some dms'"
    and sel: "(rs, of_nat n) \<in> set (selected_by (dms' b))" "0 < n" "n \<le> length (selected_by (dms a))" "n < 2 ^ 32"
  shows "selected_by (dms a) ! (n - 1) = (rs, of_nat n)"
proof -
  note both = masters_facts [OF N run refl]
    and last = masters_facts [OF N told_masters_append [OF run] told_masters_Nil refl]
  let ?pl = "node_log (master_node (dms a))" and ?pl' = "node_log (master_node (dms' b))"
  have agree: "\<forall>i e e'. log ?pl i = Some e \<longrightarrow> log ?pl' i = Some e' \<longrightarrow> e' = e" using both(1) by blast
  have "numbered (selected_by (dms' b))"
    using honest_master_groups(1) [OF last(7) [of b]] by (simp add: one_group_def)
  from numbered_nth [OF this sel(1)] obtain k where
    k: "k < length (selected_by (dms' b))" "selected_by (dms' b) ! k = (rs, of_nat n)" "(of_nat n :: 32 word) = of_nat (Suc k)" by blast
  have "unat (first_free ?pl') \<le> 2 ^ 32" by (rule entries_fit_bound [OF last(3)]) (use last(5) in blast)
  moreover have "length (selected_by (dms' b)) \<le> unat (first_free ?pl')"
    unfolding selected_by_def by (rule logged_bound) (rule entry_lengths)
  ultimately have "Suc k \<le> 2 ^ 32" using k(1) by linarith
  moreover obtain j where j: "n = Suc j" using sel(2) by (cases n) auto
  ultimately have "k = j" using of_nat_Suc_inj [of k j] k(3) sel(4) by simp
  with logged_agrees [OF both(3) last(3) agree, of k entry_selected] k(1,2) sel(3) j show ?thesis
    by (simp add: selected_by_def)
qed

text \<open>What a slave has installed is what masters selected, and it has a tablet for all of it.\<close>

lemma slave_installed:
  assumes N: "distinct ss" "length ss \<le> unat (num_slave_servers cs)" "majority_is_all cs ss" "silent slaves" "distinct es"
    and run: "told_slaves_run (key_spaces_of S) to_wire parse rand cs ss evs
      (start_slaves to_wire tablet_seeds cores seeds clients masters slaves es ips) = Some sls"
  shows "numbered (installed_by (sls b)) \<and> set (installed_by (sls b)) \<subseteq> S \<and>
    length (installed_by (sls b)) = unat (first_free (node_log (slave_node (sls b)))) \<and>
    length (installed_by (sls b)) \<le> 2 ^ 32 \<and>
    holds_key_spaces (installed_by (sls b)) (node_derived (slave_node (sls b)))"
proof -
  note facts = slaves_facts [OF N run told_slaves_Nil]
  have just: "slave_justified (key_spaces_of S) (log (node_log (slave_node (sls b)))) i (the (log (node_log (slave_node (sls b))) i))"
    if "i < first_free (node_log (slave_node (sls b)))" for i using facts(3) [of i b] that by simp
  have "unat (first_free (node_log (slave_node (sls b)))) \<le> 2 ^ 32"
    by (rule entries_fit_bound [OF slave_facts(4) [OF facts(2) refl refl]]) (use facts(4) in blast)
  with justified_key_spaces [OF just] justified_numbers [OF just] installed_by_holds [OF facts(2)] show ?thesis
    by (simp add: installed_by_def logged_key_spaces_eq)
qed

end

lemma same_number:
  assumes "(of_nat n :: 32 word) = of_nat k" "0 < n" "n < 2 ^ 32" "k \<le> 2 ^ 32"
  shows "k = n"
proof -
  from assms(1) have "n mod 2 ^ 32 = k mod 2 ^ 32"
    by (simp only: of_nat_eq_iff word_unat_eq_iff unat_of_nat) simp
  with assms(2-4) show ?thesis by (cases "k = 2 ^ 32") auto
qed

lemma numbered_at:
  assumes "numbered ks" "0 < n" "n \<le> length ks"
  shows "\<exists>rs. ks ! (n - 1) = (rs, of_nat n) \<and> (rs, of_nat n) \<in> set ks"
proof -
  from assms(2) obtain j where j: "n = Suc j" by (cases n) auto
  with assms(3) have "j < length ks" by simp
  with assms(1) have "map snd ks ! j = of_nat (Suc j)" by (simp add: numbered_def)
  with \<open>j < length ks\<close> j have "ks ! j = (fst (ks ! j), of_nat n)" by (simp add: prod_eq_iff)
  with nth_mem [OF \<open>j < length ks\<close>] j show ?thesis by (metis diff_Suc_1)
qed

text \<open>A slave that has logged that many key spaces serves the one of that number.\<close>

lemma served_number:
  assumes "numbered ks \<and> set ks \<subseteq> S \<and> length ks = l \<and> length ks \<le> u \<and> holds_key_spaces ks d" "n \<le> length ks" "0 < n"
  shows "\<exists>rs. (rs, of_nat n) \<in> S \<and> set rs \<subseteq> fst ` set (sd_tablets d)"
proof -
  from numbered_at [of ks n] assms obtain rs where "(rs, of_nat n) \<in> set ks" by blast
  with assms(1) show ?thesis unfolding holds_key_spaces_def by fastforce
qed

context wire_format
begin

lemma slave_serves_selected:
  assumes M: "distinct ms" "length ms \<le> unat (num_slave_servers cs)" "majority_is_all cs ms" "silent masters" "distinct mes"
    and N: "distinct ss" "length ss \<le> unat (num_slave_servers cs)" "majority_is_all cs ss" "silent slaves" "distinct es"
    and runs: "told_masters_run C to_wire parse rand cs ms mevs (start_masters to_wire mseeds mclients to_slaves masters ses mes) =
        Some (sys_masters sys)" "told_masters_run C to_wire parse rand cs ms mevs' (sys_masters sys) = Some (sys_masters sys')"
      "told_slaves_run (key_spaces_of (selected_in sys')) to_wire parse rand cs ss sevs
        (start_slaves to_wire tablet_seeds cores seeds clients to_masters slaves es ips) = Some (sys_slaves sys')"
    and sel: "selected_by (sys_masters sys a) \<noteq> []" "length (selected_by (sys_masters sys a)) < 2 ^ 32"
    and b: "length (selected_by (sys_masters sys a)) \<le> unat (first_free (node_log (slave_node (sys_slaves sys' b))))"
  shows "set (fst (last (selected_by (sys_masters sys a)))) \<subseteq> fst ` set (sd_tablets (node_derived (slave_node (sys_slaves sys' b))))"
proof -
  let ?sel = "selected_by (sys_masters sys a)"
  note slave = slave_installed [OF N runs(3), of b]
  have "length ?sel \<le> length (installed_by (sys_slaves sys' b))" using b slave by simp
  from served_number [OF slave this] sel(1) obtain rs where
    rs: "(rs, of_nat (length ?sel)) \<in> selected_in sys'" "set rs \<subseteq> fst ` set (sd_tablets (node_derived (slave_node (sys_slaves sys' b))))"
    by auto
  then obtain a' where a': "(rs, of_nat (length ?sel)) \<in> set (selected_by (sys_masters sys' a'))" by (auto simp: selected_in_def)
  from selected_by_number [OF M runs(1,2) a', of a] sel have "last ?sel = (rs, of_nat (length ?sel))"
    by (simp add: last_conv_nth)
  with rs(2) show ?thesis by simp
qed

end

section \<open>One master and one slave\<close>

text \<open>
  A client asks for a key nobody has: the master gives it to the group and tells the slave, which
  installs it and tells the master, which commits it. Every proposal takes a round of Paxos.
\<close>

definition one_server :: constants where
  "one_server = initialize_constants\<lparr>num_slave_servers := 1\<rparr>"

definition one_channel :: "endpoint_id \<Rightarrow> endpoint_id \<Rightarrow> message_wrapper connections" where
  "one_channel q p = \<lparr>channels = [(q, ChannelImpl [])]\<rparr>"

lemma one_channel_silent: "silent (one_channel q)"
  by (simp add: silent_def one_channel_def in_flight_def get_channel_def split: option.split)

definition one_system :: "(message_wrapper, unit) key_value_system" where
  "one_system =
     \<lparr>sys_masters = start_masters (\<lambda>w. w) (\<lambda>_. ()) (\<lambda>_. \<lparr>channels = []\<rparr>) (one_channel slave_a) (one_channel master_a)
        [slave_a] [master_a],
      sys_slaves = start_slaves (\<lambda>w. w) (\<lambda>_ _. ()) (\<lambda>_. 3) (\<lambda>_. ()) (\<lambda>_. \<lparr>channels = []\<rparr>)
        (one_channel master_a) (one_channel slave_a) [slave_a] (\<lambda>_. ''a'')\<rparr>"

definition master_round :: "message_wrapper system_event list" where
  "master_round = (let m = master_a in
     [AmongMasters (Moves m m), AmongMasters (Acts m MasterHandleMessage),
      AmongMasters (Moves m m), AmongMasters (Acts m MasterHandleMessage),
      AmongMasters (Moves m m), AmongMasters (Acts m MasterHandleMessage),
      AmongMasters (Moves m m), AmongMasters (Acts m MasterHandleMessage)])"

definition slave_round :: "message_wrapper system_event list" where
  "slave_round = (let s = slave_a in
     [AmongSlaves (Moves s s), AmongSlaves (Acts s SlaveHandleMessage),
      AmongSlaves (Moves s s), AmongSlaves (Acts s SlaveHandleMessage),
      AmongSlaves (Moves s s), AmongSlaves (Acts s SlaveHandleMessage),
      AmongSlaves (Moves s s), AmongSlaves (Acts s SlaveHandleMessage)])"

definition select_events :: "message_wrapper system_event list" where
  "select_events =
     [AmongMasters (Acts master_a (MasterQueueMessage \<lparr>incoming_endpoint = EndpointId ''c'' 0, incoming_payload =
        ClientMessage (FindKeyRangeRequest example_request)\<rparr>)),
      AmongMasters (Acts master_a MasterHandleMessage), AmongMasters (Acts master_a MasterRunTask)] @ master_round"

definition install_events :: "message_wrapper system_event list" where
  "install_events =
     [ToSlave master_a slave_a, AmongSlaves (Acts slave_a SlaveHandleMessage), AmongSlaves (Acts slave_a SlaveRunTask)] @ slave_round"

definition commit_events :: "message_wrapper system_event list" where
  "commit_events =
     [ToMaster slave_a master_a, AmongMasters (Acts master_a MasterHandleMessage),
      AmongMasters (Acts master_a MasterRunLocalTask)] @ master_round"

abbreviation one_run ::
  "message_wrapper system_event list \<Rightarrow> (message_wrapper, unit) key_value_system \<Rightarrow> (message_wrapper, unit) key_value_system option" where
  "one_run \<equiv> system_run (\<lambda>w. w) (\<lambda>w. w) (\<lambda>r. (7, r)) one_server [master_a] [slave_a]"

lemmas one_system_simps =
  one_server_def one_channel_def one_system_def master_round_def slave_round_def select_events_def install_events_def
  commit_events_def from_client_def slaves_channels_def masters_channels_def

lemma one_server_majority [simp]:
  "majority_threshold (initialize_constants\<lparr>num_slave_servers := 1\<rparr>) = 1"
  by (simp add: majority_threshold_def initialize_constants_def)

lemma one_master_entries [simp]:
  "on_key_space_selected (\<lambda>w. w) i first_assignment (initial_master [s] mes \<lparr>channels = [(s, ChannelImpl [])]\<rparr>) =
     Inr ((initial_master [s] mes \<lparr>channels = [(s, ChannelImpl [])]\<rparr>)\<lparr>md_groups := [(first_group, NewKeySpace [] [example_table] 1)],
       md_slaves := \<lparr>channels = [(s, ChannelImpl [MasterMessage (NewKeySpaceSelected [convert_range_object example_table] 1)])]\<rparr>\<rparr>)"
  "on_key_space_commit i first_commit (d\<lparr>md_slaves := c, md_groups := [(first_group, NewKeySpace [] [example_table] 1)]\<rparr>) =
     Inr (d\<lparr>md_slaves := c, md_groups := [(first_group, KeySpace [example_table] 1)]\<rparr>)"
  by (simp_all add: first_assignment_def first_commit_def on_key_space_selected_def
      on_key_space_commit_def first_group_def put_group_def announce_def group_endpoints_def
      convert_range_object_def initial_master_def set_first_key_space_def set_first_group_config_def send_def
      has_channel_def get_channel_def update_channel_def MAX_MESSAGES_QUEUE_SIZE_def build_new_key_space_selected_message_def Let_def)

lemma one_commit [simp]: "KeySpaceCommit (group_string first_group) 1 = first_commit"
  by (simp add: first_commit_def first_group_def)

lemma one_run_commits:
  "\<exists>sys. one_run (select_events @ install_events @ commit_events) one_system = Some sys \<and>
     md_groups (node_derived (master_node (sys_masters sys master_a))) = [(first_group, KeySpace [example_table] 1)] \<and>
     first_free (node_log (slave_node (sys_slaves sys slave_a))) = 1"
  by (simp add: one_system_simps pair_simps two_slaves_simps handle_key_space_changed_def commit_task_def group_key_space_def
    WAIT_FOR_COMMIT_def del: reaction_simps(7,8))

section \<open>Properties\<close>

text \<open>
  C16: what a master answers, the slaves serve. Take whole masters and whole slaves, started from
  their address files with nothing in flight, each group with its whole as its majority and no larger
  than \<open>num_slave_servers\<close>; let clients send anything, servers act in any order, and messages between
  servers of either kind arrive in order or get lost. No handler overlaps work of its server's
  network thread, and no exception ends a server. When a master finds that a client's key has an owner, that is the slaves' group,
  whose key space on this master has some generation \<open>n\<close>; then some slave has logged \<open>n\<close> key
  spaces; and however the system goes on, every slave that has logged \<open>n\<close> of them has a tablet for
  the client's key (even if it has logged others since).
\<close>

theorem answers_are_served:
  assumes "\<forall>m. parse (to_wire m) = m"
    and "distinct ms" and "length ms \<le> unat (num_slave_servers cs)" and "majority_is_all cs ms"
    and "distinct ss" and "length ss \<le> unat (num_slave_servers cs)" and "majority_is_all cs ss"
    and "sys_masters start = start_masters to_wire mseeds mclients to_slaves masters ses mes"
    and "sys_slaves start = start_slaves to_wire tablet_seeds cores seeds clients to_masters slaves es ips"
    and "silent masters" and "silent slaves" and "silent to_slaves" and "silent to_masters"
    and "distinct mes" and "distinct es"
    and "system_run to_wire parse rand cs ms ss evs start = Some sys"
    and "system_run to_wire parse rand cs ms ss evs' sys = Some sys'"
    and "search_groups message (md_groups (node_derived (master_node (sys_masters sys a)))) = Some (Assigned g)"
  shows "\<exists>ranges n. g = first_group \<and>
    md_groups (node_derived (master_node (sys_masters sys a))) = [(g, KeySpace ranges n)] \<and>
    (\<exists>b. ucast n \<le> first_free (node_log (slave_node (sys_slaves sys b)))) \<and>
    (\<forall>b m. ucast n \<le> first_free (node_log (slave_node (sys_slaves sys' b))) \<longrightarrow>
      route (\<lambda>tid. within_range tid (fk_database_id message) (fk_table_id message) (fk_key message)) m
        (sd_tablets (node_derived (slave_node (sys_slaves sys' b)))) \<noteq> None)"
proof -
  have wf: "wire_format to_wire parse" using assms(1) by unfold_locales simp
  note start = start_honest [OF assms(8,9,12,13), where c = "\<lparr>channels = []\<rparr>"]
  note sides = wire_format.system_sides [OF wf assms(16,17) start]
  let ?sel = "selected_by (sys_masters sys a)"
  let ?N = "length ?sel"
  obtain mevs where m: "told_masters_run (\<lambda>n. n \<in> reported_in sys) to_wire parse rand cs ms mevs (sys_masters start) = Some (sys_masters sys)"
    using sides(1) by blast
  from wire_format.answer_selected [OF wf assms(2-4,10,14) m [unfolded assms(8)] assms(18)] have
    sel: "?sel \<noteq> []" "?N < 2 ^ 32" "of_nat ?N \<in> reported_in sys"
      "list_ex (\<lambda>r. within_range r (fk_database_id message) (fk_table_id message) (fk_key message)) (fst (last ?sel))"
    and g: "g = first_group" "md_groups (node_derived (master_node (sys_masters sys a))) = [(g, KeySpace (fst (last ?sel)) (of_nat ?N))]"
    by blast+
  let ?n = "ucast (of_nat ?N :: 32 word) :: index_t"
  have n: "unat ?n = ?N" using sel(2) by (simp add: unat_of_nat)
  have "\<exists>b. ?n \<le> first_free (node_log (slave_node (sys_slaves sys b)))"
  proof -
    from sel(3) obtain k b where k: "k \<le> length (installed_by (sys_slaves sys b))" "(of_nat ?N :: 32 word) = of_nat k"
      by (auto simp: reported_in_def)
    from sides(2) obtain sevs where
      "told_slaves_run (key_spaces_of (selected_in sys)) to_wire parse rand cs ss sevs (sys_slaves start) = Some (sys_slaves sys)" by blast
    note slave = wire_format.slave_installed [OF wf assms(5-7,11,15) this [unfolded assms(9)], of b]
    have "k = ?N" by (rule same_number) (use k slave sel(1,2) in auto)
    with k(1) slave n show ?thesis by (intro exI [of _ b]) (simp add: word_le_nat_alt)
  qed
  moreover have "route (\<lambda>tid. within_range tid (fk_database_id message) (fk_table_id message) (fk_key message)) m
      (sd_tablets (node_derived (slave_node (sys_slaves sys' b)))) \<noteq> None"
    if b: "?n \<le> first_free (node_log (slave_node (sys_slaves sys' b)))" for b m
  proof -
    from sides(3,4) obtain sevs mevs1 mevs2 where
      "told_masters_run (\<lambda>n. n \<in> UNIV) to_wire parse rand cs ms mevs1 (sys_masters start) = Some (sys_masters sys)"
      "told_masters_run (\<lambda>n. n \<in> UNIV) to_wire parse rand cs ms mevs2 (sys_masters sys) = Some (sys_masters sys')"
      "told_slaves_run (key_spaces_of (selected_in sys')) to_wire parse rand cs ss sevs (sys_slaves start) = Some (sys_slaves sys')"
      by blast
    note serves = wire_format.slave_serves_selected [OF wf assms(2-4,10,14,5-7,11,15) this(1) [unfolded assms(8)] this(2)
      this(3) [unfolded assms(9)] sel(1,2), of b]
    have "?N \<le> unat (first_free (node_log (slave_node (sys_slaves sys' b))))" using b n by (simp add: word_le_nat_alt)
    from serves [OF this] sel(4) show ?thesis by (auto simp: route_None list_ex_iff)
  qed
  ultimately show ?thesis using g by blast
qed

theorem answers_are_served_witness:
  "\<exists>sys. one_run (select_events @ install_events @ commit_events) one_system = Some sys \<and>
     search_groups example_request (md_groups (node_derived (master_node (sys_masters sys master_a)))) = Some (Assigned first_group) \<and>
     (\<forall>m. route (\<lambda>tid. within_range tid ''db'' ''t'' ''k'') m
        (sd_tablets (node_derived (slave_node (sys_slaves sys slave_a)))) \<noteq> None)"
proof -
  from one_run_commits obtain sys where
    run: "one_run (select_events @ install_events @ commit_events) one_system = Some sys"
    and groups: "md_groups (node_derived (master_node (sys_masters sys master_a))) = [(first_group, KeySpace [example_table] 1)]"
    and free: "first_free (node_log (slave_node (sys_slaves sys slave_a))) = 1" by blast
  have answer: "search_groups example_request (md_groups (node_derived (master_node (sys_masters sys master_a)))) = Some (Assigned first_group)"
    by (simp add: groups)
  have one: "length [master_a] \<le> unat (num_slave_servers one_server)" "majority_is_all one_server [master_a]"
    "length [slave_a] \<le> unat (num_slave_servers one_server)" "majority_is_all one_server [slave_a]"
    by (simp_all add: one_server_def majority_is_all_def)
  have start: "sys_masters one_system = start_masters (\<lambda>w. w) (\<lambda>_. ()) (\<lambda>_. \<lparr>channels = []\<rparr>) (one_channel slave_a) (one_channel master_a)
      [slave_a] [master_a]"
    "sys_slaves one_system = start_slaves (\<lambda>w. w) (\<lambda>_ _. ()) (\<lambda>_. 3) (\<lambda>_. ()) (\<lambda>_. \<lparr>channels = []\<rparr>)
      (one_channel master_a) (one_channel slave_a) [slave_a] (\<lambda>_. ''a'')"
    by (simp_all add: one_system_def)
  have "\<forall>b m. ucast (1 :: 32 word) \<le> first_free (node_log (slave_node (sys_slaves sys b))) \<longrightarrow>
      route (\<lambda>tid. within_range tid ''db'' ''t'' ''k'') m (sd_tablets (node_derived (slave_node (sys_slaves sys b)))) \<noteq> None"
    using answers_are_served [OF _ _ one(1,2) _ one(3,4) start one_channel_silent one_channel_silent one_channel_silent
      one_channel_silent _ _ run system_run.simps(1) answer] groups by (simp add: example_request_def)
  with run answer free show ?thesis by auto
qed

end
