(* ===== verification/ChannelImpl.thy ===== *)
theory ChannelImpl
  imports AsyncQueue Connections "HOL-Library.Sublist"
begin

text \<open>
  \<open>uni::net::ChannelImpl\<close> (src/src/net/impl/ChannelImpl.cc): the bounded queue of messages of
  which one is being written to the socket, and the framing of messages on the byte stream, a
  header of four bytes (the low bytes of the length, least significant first, as the servers'
  machines store it) before the body. The socket itself is a parameter of nothing here: a stream
  of bytes that arrives in pieces, and takes what is written at once or later. The lemmas show that
  the queue implements the channel of Connections.thy when it takes it at once, and that the reader
  recovers the messages however the bytes are cut.
\<close>

section \<open>The message queue\<close>

text \<open>
  A message is written in two parts, its header and then its body. The buffers given to
  \<open>async_write\<close> do not live as long as the write: the string that holds the header is a temporary,
  the body is a capture of the header's handler, and both are gone when the function that started
  the write returns. \<open>buffer_read\<close> says whether the socket took all bytes before that, within the
  call; if not, what is written later is read from a dead buffer.
\<close>

datatype write_part = HeaderPart | BodyPart

record pending_write =
  write_part :: write_part
  write_message :: string
  buffer_read :: bool

record channel_impl =
  out_queue :: "string list"
  writes :: "pending_write list"

definition new_channel_impl :: channel_impl where
  "new_channel_impl = \<lparr>out_queue = [], writes = []\<rparr>"

definition async_write :: "write_part \<Rightarrow> string \<Rightarrow> bool \<Rightarrow> channel_impl \<Rightarrow> channel_impl" where
  "async_write part message taken c =
     c\<lparr>writes := writes c @ [\<lparr>write_part = part, write_message = message, buffer_read = taken\<rparr>]\<rparr>"

definition channel_send :: "bool \<Rightarrow> string \<Rightarrow> channel_impl \<Rightarrow> channel_impl" where
  "channel_send taken message c = async_write HeaderPart message taken c"

definition channel_queue_send :: "bool \<Rightarrow> string \<Rightarrow> channel_impl \<Rightarrow> channel_impl" where
  "channel_queue_send taken message c =
     (if length (out_queue c) < MAX_MESSAGES_QUEUE_SIZE then
        let c' = c\<lparr>out_queue := out_queue c @ [message]\<rparr>
        in if length (out_queue c') = 1 then channel_send taken message c' else c'
      else c)"

text \<open>The completion handlers of the header's write and of the body's.\<close>

definition header_done :: "bool \<Rightarrow> string \<Rightarrow> channel_impl \<Rightarrow> channel_impl" where
  "header_done taken message c = async_write BodyPart message taken (c\<lparr>writes := tl (writes c)\<rparr>)"

definition write_done :: "bool \<Rightarrow> channel_impl \<Rightarrow> channel_impl" where
  "write_done taken c =
     (let c' = c\<lparr>out_queue := tl (out_queue c), writes := tl (writes c)\<rparr>
      in if length (out_queue c') > 0 then channel_send taken (hd (out_queue c')) c' else c')"

text \<open>The pending write completes (or fails, which the handlers do not look at).\<close>

definition write_completes :: "bool \<Rightarrow> channel_impl \<Rightarrow> channel_impl result" where
  "write_completes taken c =
     (case writes c of
        [] \<Rightarrow> Inr c
      | w # _ \<Rightarrow>
          if \<not> buffer_read w then Inl UndefinedBehaviour
          else Inr (case write_part w of
                      HeaderPart \<Rightarrow> header_done taken (write_message w) c
                    | BodyPart \<Rightarrow> write_done taken c))"

interpretation out_channel: single_flight out_queue "\<lambda>c. map write_message (writes c)"
  "\<lambda>c. length (out_queue c) < MAX_MESSAGES_QUEUE_SIZE" "channel_queue_send taken" "write_done taken"
  "\<lambda>c. header_done taken (write_message (hd (writes c))) c" for taken
  by unfold_locales
    (auto simp: channel_queue_send_def write_done_def header_done_def channel_send_def async_write_def Let_def take_Suc
      hd_conv_nth MAX_MESSAGES_QUEUE_SIZE_def)

section \<open>The byte stream\<close>

definition INT_TO_STR :: "nat \<Rightarrow> string" where
  "INT_TO_STR n = map (\<lambda>k. char_of (n div 256 ^ k mod 256)) [0..<4]"

definition frame :: "string \<Rightarrow> string" where
  "frame message = INT_TO_STR (length message) @ message"

text \<open>\<open>*((int* ) header_buf)\<close>: four bytes as a signed integer.\<close>

definition header_int :: "string \<Rightarrow> int" where
  "header_int h =
     (let v = (\<Sum>k<4. of_char (h ! k) * 256 ^ k :: nat)
      in if v < 2 ^ 31 then int v else int v - 2 ^ 32)"

text \<open>The loop over the receive callbacks; false from one of them ends the listening.\<close>

fun receive :: "(string \<Rightarrow> 's \<Rightarrow> bool \<times> 's) list \<Rightarrow> string \<Rightarrow> 's \<Rightarrow> bool \<times> 's" where
  "receive [] message s = (True, s)"
| "receive (callback # callbacks) message s =
     (let (continue, s') = callback message s
      in if \<not> continue then (False, s') else receive callbacks message s')"

text \<open>
  \<open>recv\<close> on the bytes that have arrived: the state after the callbacks, the bytes still waiting
  for the rest of their message, and whether the channel goes on listening. A negative length
  goes to \<open>malloc\<close>.
\<close>

function recv ::
  "(string \<Rightarrow> 's \<Rightarrow> bool \<times> 's) list \<Rightarrow> string \<Rightarrow> 's \<Rightarrow> ('s \<times> string \<times> bool) result" where
  "recv callbacks bytes s =
     (if length bytes < 4 then Inr (s, bytes, True)
      else
        let n = header_int (take 4 bytes); body = drop 4 bytes
        in if n < 0 then Inl UndefinedBehaviour
           else if length body < nat n then Inr (s, bytes, True)
           else
             let (continue, s') = receive callbacks (take (nat n) body) s; rest = drop (nat n) body
             in if continue then recv callbacks rest s' else Inr (s', rest, False))"
  by pat_completeness auto
termination by (relation "measure (\<lambda>(callbacks, bytes, s). length bytes)") auto

declare recv.simps [simp del]

text \<open>
  The end of the stream, while the bytes \<open>bytes\<close> of an unfinished message were waiting: between
  messages the close callbacks run; otherwise the handlers, which ignore the error code, go on
  with a buffer that was not filled.
\<close>

definition recv_eof :: "('s \<Rightarrow> 's) list \<Rightarrow> string \<Rightarrow> 's \<Rightarrow> 's result" where
  "recv_eof close_callbacks bytes s =
     (if length bytes = 0 then Inr (fold (\<lambda>callback. callback) close_callbacks s)
      else Inl UndefinedBehaviour)"

lemma recv_Nil [simp]: "recv cbs [] s = Inr (s, [], True)"
  by (simp add: recv.simps)

lemma frame_not_Nil [simp]: "frame m \<noteq> []"
  by (simp add: frame_def INT_TO_STR_def upt_conv_Cons)

lemma length_INT_TO_STR [simp]: "length (INT_TO_STR n) = 4"
  by (simp add: INT_TO_STR_def)

lemma header_INT_TO_STR:
  assumes "n < 2 ^ 31"
  shows "header_int (INT_TO_STR n) = int n"
proof -
  have byte: "of_char (INT_TO_STR n ! k) = n div 256 ^ k mod 256" if "k < 4" for k
    using that by (simp add: INT_TO_STR_def)
  have "(\<Sum>k<4. of_char (INT_TO_STR n ! k) * 256 ^ k) = (\<Sum>k<4. (n div 256 ^ k mod 256) * 256 ^ k)"
    by (rule sum.cong) (simp_all add: byte)
  also have "\<dots> = n mod 256 + 256 * (n div 256 mod 256) + 65536 * (n div 65536 mod 256)
      + 16777216 * (n div 16777216 mod 256)"
  proof -
    have "{..<4::nat} = {0, 1, 2, 3}" by auto
    then show ?thesis by simp
  qed
  also have "\<dots> = n"
  proof -
    have "n mod 65536 = 256 * (n div 256 mod 256) + n mod 256"
      using mod_mult2_eq [of n 256 256] by simp
    moreover have "n mod 16777216 = 65536 * (n div 65536 mod 256) + n mod 65536"
      using mod_mult2_eq [of n 65536 256] by simp
    moreover have "n mod 4294967296 = 16777216 * (n div 16777216 mod 256) + n mod 16777216"
      using mod_mult2_eq [of n 16777216 256] by simp
    moreover have "n mod 4294967296 = n" using assms by simp
    ultimately show ?thesis by linarith
  qed
  finally show ?thesis using assms by (simp add: header_int_def)
qed

lemma recv_frame:
  assumes "length m < 2 ^ 31"
  shows "recv cbs (frame m @ bytes) s =
    (if fst (receive cbs m s) then recv cbs bytes (snd (receive cbs m s))
     else Inr (snd (receive cbs m s), bytes, False))"
  using header_INT_TO_STR [OF assms]
  by (subst recv.simps) (simp add: frame_def Let_def split: prod.split)

lemma recv_incomplete:
  assumes "length m < 2 ^ 31" and "k < length (frame m)"
  shows "recv cbs (take k (frame m)) s = Inr (s, take k (frame m), True)"
proof (cases "k < 4")
  case True
  then have "length (take k (frame m)) < 4" by simp
  then show ?thesis by (subst recv.simps) (simp only: if_True)
next
  case False
  then have "take 4 (take k (frame m)) = INT_TO_STR (length m)"
    by (simp add: frame_def take_take min_absorb1)
  with False assms header_INT_TO_STR [OF assms(1)] show ?thesis
    by (subst recv.simps) (auto simp: frame_def Let_def)
qed

section \<open>Runs of the queue\<close>

text \<open>
  Messages are sent and writes complete; the bit says whether the socket takes at once what the event
  begins to write. Beside the channel: the messages it accepted, those written, and the bytes that went
  to the socket.
\<close>

datatype channel_event = QueueSend string bool | WriteCompletes bool

fun taken_at_once :: "channel_event \<Rightarrow> bool" where
  "taken_at_once (QueueSend m taken) = taken"
| "taken_at_once (WriteCompletes taken) = taken"

type_synonym channel_log = "channel_impl \<times> string list \<times> string list \<times> string"

fun channel_event_step :: "channel_event \<Rightarrow> channel_log \<Rightarrow> channel_log result" where
  "channel_event_step (QueueSend m taken) (c, accepted, written, bytes) =
     Inr (channel_queue_send taken m c,
       if length (out_queue c) < MAX_MESSAGES_QUEUE_SIZE then accepted @ [m] else accepted, written, bytes)"
| "channel_event_step (WriteCompletes taken) (c, accepted, written, bytes) =
     rbind (write_completes taken c) (\<lambda>c'.
     Inr (case writes c of
            [] \<Rightarrow> (c', accepted, written, bytes)
          | w # _ \<Rightarrow>
              (case write_part w of
                 HeaderPart \<Rightarrow> (c', accepted, written, bytes @ INT_TO_STR (length (write_message w)))
               | BodyPart \<Rightarrow> (c', accepted, written @ [write_message w], bytes @ write_message w))))"

fun half_written :: "pending_write list \<Rightarrow> string" where
  "half_written [] = []"
| "half_written (w # _) = (case write_part w of HeaderPart \<Rightarrow> [] | BodyPart \<Rightarrow> INT_TO_STR (length (write_message w)))"

fun channel_log_inv :: "channel_log \<Rightarrow> bool" where
  "channel_log_inv (c, accepted, written, bytes) \<longleftrightarrow>
     out_channel.flight_inv c \<and> accepted = written @ out_queue c \<and>
     bytes = concat (map frame written) @ half_written (writes c)"

lemma channel_event_inv:
  assumes "channel_event_step ev x = Inr x'" and "channel_log_inv x"
  shows "channel_log_inv x'"
proof -
  obtain c accepted written bytes where x: "x = (c, accepted, written, bytes)" by (cases x)
  have flight: "map write_message (writes c) = take 1 (out_queue c)" using assms(2) by (simp add: x out_channel.flight_inv_def)
  show ?thesis
  proof (cases ev)
    case (QueueSend m taken)
    then have "flight_step (\<lambda>c. map write_message (writes c)) (\<lambda>c. length (out_queue c) < MAX_MESSAGES_QUEUE_SIZE)
        (channel_queue_send taken) (write_done taken) (\<lambda>c. header_done taken (write_message (hd (writes c))) c)
        (Enqueue m) (c, accepted, written) =
      (channel_queue_send taken m c, if length (out_queue c) < MAX_MESSAGES_QUEUE_SIZE then accepted @ [m] else accepted, written)"
      by simp
    from out_channel.flight_step_inv [OF _ this] assms QueueSend flight show ?thesis
      by (cases "out_queue c") (auto simp: x channel_queue_send_def channel_send_def async_write_def Let_def frame_def)
  next
    case (WriteCompletes taken)
    show ?thesis
    proof (cases "writes c")
      case Nil
      with assms WriteCompletes show ?thesis by (simp add: x write_completes_def)
    next
      case (Cons w ws)
      with flight obtain ms where q: "out_queue c = write_message w # ms" and ws: "ws = []"
        by (cases "out_queue c") auto
      let ?step = "\<lambda>ev. flight_step (\<lambda>c. map write_message (writes c)) (\<lambda>c. length (out_queue c) < MAX_MESSAGES_QUEUE_SIZE)
        (channel_queue_send taken) (write_done taken) (\<lambda>c. header_done taken (write_message (hd (writes c))) c) ev (c, accepted, written)"
      have steps: "?step JobAgain = (header_done taken (write_message w) c, accepted, written)"
        "?step JobDone = (write_done taken c, accepted, written @ [write_message w])"
        by (simp_all add: Cons)
      from assms(2) have inv: "out_channel.flight_inv c" "accepted = written @ out_queue c" by (simp_all add: x)
      note out_channel.flight_step_inv [OF inv(1) steps(1) inv(2)] out_channel.flight_step_inv [OF inv(1) steps(2) inv(2)]
      with assms WriteCompletes show ?thesis
        by (cases "write_part w")
          (auto simp: x Cons ws q write_completes_def header_done_def write_done_def channel_send_def async_write_def Let_def
            frame_def split: if_splits)
    qed
  qed
qed

text \<open>Without a dead buffer nothing fails, and no write that is pending has one.\<close>

definition buffers_read :: "channel_impl \<Rightarrow> bool" where
  "buffers_read c \<longleftrightarrow> (\<forall>w\<in>set (writes c). buffer_read w)"

lemma buffers_read_steps:
  assumes "buffers_read c"
  shows "buffers_read (channel_queue_send True m c)" "buffers_read (header_done True m c)" "buffers_read (write_done True c)"
  using assms set_mono_suffix [OF suffix_tl, of "writes c"]
  by (auto simp: buffers_read_def channel_queue_send_def header_done_def write_done_def channel_send_def async_write_def Let_def
      subset_iff)

lemma taken_step:
  assumes "taken_at_once ev" and "buffers_read c"
  shows "\<exists>c' y. channel_event_step ev (c, accepted, written, bytes) = Inr (c', y) \<and> buffers_read c'"
proof (cases ev)
  case (QueueSend m taken)
  with assms buffers_read_steps(1) show ?thesis by simp
next
  case (WriteCompletes taken)
  show ?thesis
  proof (cases "writes c")
    case Nil
    with assms WriteCompletes show ?thesis by (simp add: write_completes_def)
  next
    case (Cons w ws)
    with assms(2) have "buffer_read w" by (simp add: buffers_read_def)
    with Cons WriteCompletes assms buffers_read_steps(2,3) show ?thesis
      by (cases "write_part w") (simp_all add: write_completes_def)
  qed
qed

lemma taken_steps:
  "\<forall>ev\<in>set evs. taken_at_once ev \<Longrightarrow> buffers_read (fst x) \<Longrightarrow> \<exists>x'. rfold channel_event_step evs x = Inr x'"
proof (induction evs arbitrary: x)
  case (Cons ev evs)
  obtain c accepted written bytes where x: "x = (c, accepted, written, bytes)" by (cases x)
  with Cons.prems taken_step [of ev c accepted written bytes] obtain c' y where
    "channel_event_step ev x = Inr (c', y)" "buffers_read c'" by auto
  with Cons.IH [of "(c', y)"] Cons.prems show ?case by simp
qed (simp only: rfold.simps, blast)

lemma channel_event_error: "channel_event_step ev x = Inl e \<Longrightarrow> e = UndefinedBehaviour"
  by (cases x; cases ev) (auto simp: write_completes_def split: list.splits if_splits)

lemma channel_run_error: "rfold channel_event_step evs x = Inl e \<Longrightarrow> e = UndefinedBehaviour"
  by (induction evs arbitrary: x) (auto simp: rbind_eq_Inl dest: channel_event_error)

section \<open>Properties\<close>

text \<open>
  C20: framing. However the stream of framed messages is cut, the reader hands the callbacks the
  messages whose frames have arrived in full, unchanged and in order, and keeps the bytes of the
  next one (for messages shorter than \<open>2^31\<close> bytes, beyond which the header is read as a negative
  length, and callbacks that go on listening); when the stream ends after a whole number of
  messages the close callbacks run.
\<close>

theorem recv_any_prefix:
  assumes "\<forall>m\<in>set ms. length m < 2 ^ 31" and "\<forall>m s. fst (receive cbs m s)"
  shows "\<exists>n rest. recv cbs (take k (concat (map frame ms))) s =
      Inr (fold (\<lambda>m s. snd (receive cbs m s)) (take n ms) s, rest, True) \<and>
    concat (map frame (take n ms)) @ rest = take k (concat (map frame ms)) \<and>
    (n < length ms \<longrightarrow> length rest < length (frame (ms ! n))) \<and>
    (is_ok (recv_eof closes rest s') \<longleftrightarrow> rest = [])"
  using assms(1)
proof (induction ms arbitrary: k s)
  case Nil
  then show ?case by (auto simp: recv.simps recv_eof_def)
next
  case (Cons m ms)
  then have m: "length m < 2 ^ 31" by simp
  show ?case
  proof (cases "k < length (frame m)")
    case True
    then show ?thesis
      using recv_incomplete [OF m True, of cbs s]
      by (intro exI [of _ 0] exI [of _ "take k (frame m)"]) (simp add: recv_eof_def)
  next
    case False
    define sm where "sm = snd (receive cbs m s)"
    from Cons.IH [of "k - length (frame m)" sm] Cons.prems obtain n rest where
      IH: "recv cbs (take (k - length (frame m)) (concat (map frame ms))) sm =
        Inr (fold (\<lambda>m s. snd (receive cbs m s)) (take n ms) sm, rest, True)"
      "concat (map frame (take n ms)) @ rest = take (k - length (frame m)) (concat (map frame ms))"
      "n < length ms \<longrightarrow> length rest < length (frame (ms ! n))"
      "is_ok (recv_eof closes rest s') \<longleftrightarrow> rest = []" by auto
    from False IH recv_frame [OF m, of cbs _ s] assms(2) show ?thesis
      by (intro exI [of _ "Suc n"] exI [of _ rest]) (simp add: sm_def)
  qed
qed

theorem recv_any_prefix_witness:
  "\<exists>n rest. recv [\<lambda>m s. (True, s @ [m])] (take 10 (concat (map frame [''ab'', ''cde'']))) [] =
       Inr (fold (\<lambda>m s. snd (receive [\<lambda>m s. (True, s @ [m])] m s)) (take n [''ab'', ''cde'']) [], rest, True) \<and>
     concat (map frame (take n [''ab'', ''cde''])) @ rest = take 10 (concat (map frame [''ab'', ''cde'']))"
  using recv_any_prefix [of "[''ab'', ''cde'']" "[\<lambda>m s. (True, s @ [m])]" 10 "[]" "[]" "[]"] by auto

text \<open>
  C21: the queue of a \<open>ChannelImpl\<close> is the channel the servers' model uses, as long as the socket takes
  at once what each write begins to write. Then no write fails, and after any sends and completed writes
  at most one write is in progress, that of the oldest message; the messages written are those
  accepted, in order, and the bytes on the stream are their frames; a message is dropped only when ten
  thousand are waiting. A write that the socket does not take at once reads a buffer that is gone.
\<close>

theorem channel_impl_fifo:
  "(case rfold channel_event_step evs (new_channel_impl, [], [], []) of
      Inl e \<Rightarrow> e = UndefinedBehaviour \<and> (\<exists>ev\<in>set evs. \<not> taken_at_once ev)
    | Inr (c, accepted, written, bytes) \<Rightarrow>
        accepted = written @ pending (ChannelImpl (out_queue c)) \<and> map write_message (writes c) = take 1 (out_queue c) \<and>
        bytes = concat (map frame written) @ half_written (writes c) \<and>
        (\<forall>taken m. ChannelImpl (out_queue (channel_queue_send taken m c)) = queue_send m (ChannelImpl (out_queue c))) \<and>
        (\<forall>taken. ChannelImpl (out_queue (write_done taken c)) = pop_message (ChannelImpl (out_queue c)))) \<and>
   rfold channel_event_step [QueueSend m False, WriteCompletes taken] (new_channel_impl, [], [], []) = Inl UndefinedBehaviour"
proof
  show "rfold channel_event_step [QueueSend m False, WriteCompletes taken] (new_channel_impl, [], [], []) = Inl UndefinedBehaviour"
    by (simp add: new_channel_impl_def channel_queue_send_def channel_send_def async_write_def write_completes_def Let_def
        MAX_MESSAGES_QUEUE_SIZE_def)
  show "case rfold channel_event_step evs (new_channel_impl, [], [], []) of
      Inl e \<Rightarrow> e = UndefinedBehaviour \<and> (\<exists>ev\<in>set evs. \<not> taken_at_once ev)
    | Inr (c, accepted, written, bytes) \<Rightarrow>
        accepted = written @ pending (ChannelImpl (out_queue c)) \<and> map write_message (writes c) = take 1 (out_queue c) \<and>
        bytes = concat (map frame written) @ half_written (writes c) \<and>
        (\<forall>taken m. ChannelImpl (out_queue (channel_queue_send taken m c)) = queue_send m (ChannelImpl (out_queue c))) \<and>
        (\<forall>taken. ChannelImpl (out_queue (write_done taken c)) = pop_message (ChannelImpl (out_queue c)))"
  proof (cases "rfold channel_event_step evs (new_channel_impl, [], [], [])")
    case (Inl e)
    with taken_steps [of evs "(new_channel_impl, [], [], [])"] channel_run_error [OF Inl] show ?thesis
      by (auto simp: new_channel_impl_def buffers_read_def)
  next
    case (Inr x)
    have "channel_log_inv x"
      by (rule rfold_invariant [OF Inr, where P = channel_log_inv])
        (auto simp: new_channel_impl_def out_channel.flight_inv_def dest: channel_event_inv)
    with Inr show ?thesis
      by (cases x) (simp add: out_channel.flight_inv_def channel_queue_send_def write_done_def channel_send_def async_write_def Let_def)
  qed
qed

end
