(* ===== verification/ProposerQueue.thy ===== *)
theory ProposerQueue
  imports ClientRequestHandler
begin

text \<open>
  \<open>uni::paxos::ProposerQueue\<close> (src/src/paxos/ProposerQueue.cc): a queue of values to be inserted in
  the log, one at a time, each proposed up to three times. The callbacks of a task are arbitrary
  functions on the server's state that may throw; that they call the queue again is not modelled.
  The lemmas show the invariant that the header of the class states, and where the code leaves it.
\<close>

section \<open>State\<close>

definition TERMINATE :: int where "TERMINATE = - 1"
definition PROPOSAL_WAIT_TIME :: int where "PROPOSAL_WAIT_TIME = 100"
definition PROPOSAL_RETRIES :: "32 word" where "PROPOSAL_RETRIES = 3"

record 's insert_task =
  try_callback :: "'s \<Rightarrow> (paxos_log_entry option \<times> 's) result"
  success_callback :: "'s \<Rightarrow> 's result"
  failure_callback :: "'s \<Rightarrow> 's result"

text \<open>A pending timer calls \<open>try_proposal\<close> with what its closure captured.\<close>

record 's proposal_job =
  job_task :: "'s insert_task"
  job_index :: index_t
  job_entry :: paxos_log_entry
  job_tries :: "32 word"

record 's proposer_queue =
  pq_tasks :: "'s insert_task list"
  pq_jobs :: "('s proposal_job \<times> int) list"

definition ProposerQueue :: "'s proposer_queue" where
  "ProposerQueue = \<lparr>pq_tasks = [], pq_jobs = []\<rparr>"

section \<open>Operations\<close>

text \<open>The loop drops the tasks whose \<open>try_callback\<close> gives no value.\<close>

fun remove_invalid_tasks ::
  "'s insert_task list \<Rightarrow> 's \<Rightarrow> (paxos_log_entry option \<times> 's insert_task list \<times> 's) result" where
  "remove_invalid_tasks [] s = Inr (None, [], s)"
| "remove_invalid_tasks (task # tasks) s =
     rbind (try_callback task s) (\<lambda>(entry, s').
     if entry \<noteq> None then Inr (entry, task # tasks, s') else remove_invalid_tasks tasks s')"

type_synonym ('w, 'r, 'd) proposer = "('w, 'r, 'd) request_state proposer_queue \<times> ('w, 'r, 'd) request_state"

text \<open>
  \<open>try_proposal\<close> and \<open>run_task\<close> call each other: \<open>run\<close> stands for the call at the end. A call of
  \<open>try_proposal\<close> with tries left does not reach it, so \<open>run_task\<close> needs it only there.
\<close>

definition try_proposal_body ::
  "(paxos_log_entry \<Rightarrow> ('w, 'r, 'd) request_state \<Rightarrow> ('w, 'r, 'd) request_state result)
   \<Rightarrow> (('w, 'r, 'd) proposer \<Rightarrow> ('w, 'r, 'd) proposer result)
   \<Rightarrow> ('w, 'r, 'd) request_state proposal_job \<Rightarrow> ('w, 'r, 'd) proposer \<Rightarrow> ('w, 'r, 'd) proposer result" where
  "try_proposal_body propose run job x =
     (let (q, s) = x
      in rbind (next_available_index (node_log (rs_node s))) (\<lambda>next.
         if job_index job < next then Inr (q, s)
         else if job_tries job > 0 then
           rbind (propose (job_entry job) s) (\<lambda>s'.
           Inr (q\<lparr>pq_jobs := pq_jobs q @ [(job\<lparr>job_tries := job_tries job - 1\<rparr>, PROPOSAL_WAIT_TIME)]\<rparr>, s'))
         else
           rbind (failure_callback (job_task job) s) (\<lambda>s'.
           if pq_tasks q = [] then Inl UndefinedBehaviour
           else run (q\<lparr>pq_tasks := tl (pq_tasks q)\<rparr>, s'))))"

definition run_tasks ::
  "(paxos_log_entry \<Rightarrow> ('w, 'r, 'd) request_state \<Rightarrow> ('w, 'r, 'd) request_state result)
   \<Rightarrow> ('w, 'r, 'd) proposer \<Rightarrow> ('w, 'r, 'd) proposer result" where
  "run_tasks propose x =
     (let (q, s) = x
      in rbind (remove_invalid_tasks (pq_tasks q) s) (\<lambda>(entry, tasks, s').
         let q' = q\<lparr>pq_tasks := tasks\<rparr>
         in case entry of
              None \<Rightarrow> Inr (q', s')
            | Some e \<Rightarrow>
                rbind (next_available_index (node_log (rs_node s'))) (\<lambda>index.
                try_proposal_body propose Inr
                  \<lparr>job_task = hd tasks, job_index = index, job_entry = e, job_tries = PROPOSAL_RETRIES\<rparr> (q', s'))))"

definition try_proposal ::
  "(paxos_log_entry \<Rightarrow> ('w, 'r, 'd) request_state \<Rightarrow> ('w, 'r, 'd) request_state result)
   \<Rightarrow> ('w, 'r, 'd) request_state proposal_job \<Rightarrow> ('w, 'r, 'd) proposer \<Rightarrow> ('w, 'r, 'd) proposer result" where
  "try_proposal propose job x = try_proposal_body propose (run_tasks propose) job x"

definition try_insert ::
  "(paxos_log_entry \<Rightarrow> ('w, 'r, 'd) request_state \<Rightarrow> ('w, 'r, 'd) request_state result)
   \<Rightarrow> ('w, 'r, 'd) request_state insert_task \<Rightarrow> ('w, 'r, 'd) proposer \<Rightarrow> ('w, 'r, 'd) proposer result" where
  "try_insert propose task x =
     (let (q, s) = x; q' = q\<lparr>pq_tasks := pq_tasks q @ [task]\<rparr>
      in if length (pq_tasks q') = 1 then run_tasks propose (q', s) else Inr (q', s))"

text \<open>The oldest timer fires.\<close>

definition fire_proposal ::
  "(paxos_log_entry \<Rightarrow> ('w, 'r, 'd) request_state \<Rightarrow> ('w, 'r, 'd) request_state result)
   \<Rightarrow> ('w, 'r, 'd) proposer \<Rightarrow> ('w, 'r, 'd) proposer result" where
  "fire_proposal propose x =
     (let (q, s) = x
      in case pq_jobs q of
           [] \<Rightarrow> Inr (q, s)
         | (job, wait) # jobs \<Rightarrow> try_proposal propose job (q\<lparr>pq_jobs := jobs\<rparr>, s))"

section \<open>The invariant of the class\<close>

text \<open>The calls are those of the code.\<close>

lemma try_proposal_body_run:
  "job_tries job > 0 \<Longrightarrow> try_proposal_body propose run job x = try_proposal_body propose run' job x"
  by (cases x) (simp add: try_proposal_body_def Let_def)

lemma run_tasks_calls_try_proposal:
  "run_tasks propose (q, s) =
     rbind (remove_invalid_tasks (pq_tasks q) s) (\<lambda>(entry, tasks, s').
     case entry of
       None \<Rightarrow> Inr (q\<lparr>pq_tasks := tasks\<rparr>, s')
     | Some e \<Rightarrow>
         rbind (next_available_index (node_log (rs_node s'))) (\<lambda>index.
         try_proposal propose
           \<lparr>job_task = hd tasks, job_index = index, job_entry = e, job_tries = PROPOSAL_RETRIES\<rparr>
           (q\<lparr>pq_tasks := tasks\<rparr>, s')))"
proof -
  let ?job = "\<lambda>t i e. \<lparr>job_task = t, job_index = i, job_entry = e, job_tries = PROPOSAL_RETRIES\<rparr>"
  have "try_proposal_body propose Inr (?job t i e) x = try_proposal propose (?job t i e) x" for t i e x
    unfolding try_proposal_def by (rule try_proposal_body_run) (simp add: PROPOSAL_RETRIES_def)
  then show ?thesis
    unfolding run_tasks_def Let_def prod.case
    by (intro arg_cong2 [where f = rbind] refl ext) (auto split: option.split)
qed

text \<open>
  As the header says: with tasks waiting, the first one's \<open>try_callback\<close> returned a value, that value is
  in proposal, and the one timer that is pending was set \<open>PROPOSAL_WAIT_TIME\<close> away, to try this task and
  value again with less \<open>tries\<close>. What it means to be in proposal is an argument.
\<close>

definition returned :: "'s insert_task \<Rightarrow> paxos_log_entry \<Rightarrow> bool" where
  "returned task e \<longleftrightarrow> (\<exists>s s'. try_callback task s = Inr (Some e, s'))"

definition proposer_inv :: "(paxos_log_entry \<Rightarrow> 's \<Rightarrow> bool) \<Rightarrow> 's proposer_queue \<Rightarrow> 's \<Rightarrow> bool" where
  "proposer_inv in_proposal q s \<longleftrightarrow>
     (case pq_tasks q of
        [] \<Rightarrow> pq_jobs q = []
      | task # _ \<Rightarrow> \<exists>job. pq_jobs q = [(job, PROPOSAL_WAIT_TIME)] \<and> job_task job = task \<and>
          job_tries job < PROPOSAL_RETRIES \<and> in_proposal (job_entry job) s \<and>
          returned task (job_entry job))"

lemma returnedI: "try_callback task s = Inr (Some e, s') \<Longrightarrow> returned task e"
  unfolding returned_def by blast

lemma remove_invalid_tasks_result:
  "remove_invalid_tasks tasks s = Inr (entry, tasks', s') \<Longrightarrow> entry = None \<longleftrightarrow> tasks' = []"
  "remove_invalid_tasks tasks s = Inr (Some e, tasks', s') \<Longrightarrow> returned (hd tasks') e"
  by (induction tasks s rule: remove_invalid_tasks.induct) (auto simp: rbind_eq_Inr returnedI split: if_splits)

lemma retries_minus:
  assumes "(0::32 word) < k" "k \<le> PROPOSAL_RETRIES"
  shows "k - 1 < PROPOSAL_RETRIES"
proof -
  have "unat (k - 1) = unat k - 1" using assms(1) by (intro unat_minus_one) auto
  moreover have "unat k \<le> unat PROPOSAL_RETRIES" "0 < unat PROPOSAL_RETRIES"
    using assms(2) by (simp_all add: word_le_nat_alt PROPOSAL_RETRIES_def)
  ultimately show ?thesis unfolding word_less_nat_alt by linarith
qed

text \<open>What \<open>try_proposal\<close> does while the log has not passed the job's index, and once it has.\<close>

lemma try_proposal_passed:
  "next_available_index (node_log (rs_node s)) = Inr next \<Longrightarrow> job_index job < next \<Longrightarrow>
     try_proposal_body propose run job (q, s) = Inr (q, s)"
  by (simp add: try_proposal_body_def)

lemma proposal_pending:
  assumes "try_proposal_body propose run job (q, s) = Inr (q', s')" "pq_jobs q = []" "pq_tasks q = job_task job # tasks"
    and "next_available_index (node_log (rs_node s)) = Inr next" "\<not> job_index job < next"
    and "job_tries job \<le> PROPOSAL_RETRIES" "0 < job_tries job"
    and "\<And>e s s'. propose e s = Inr s' \<Longrightarrow> in_proposal e s'"
    and "returned (job_task job) (job_entry job)"
  shows "proposer_inv in_proposal q' s' \<and> pq_tasks q' = pq_tasks q \<and>
    pq_jobs q' = [(job\<lparr>job_tries := job_tries job - 1\<rparr>, PROPOSAL_WAIT_TIME)]"
  using assms retries_minus [OF assms(7,6)]
  by (auto simp: try_proposal_body_def Let_def rbind_eq_Inr proposer_inv_def)

lemma run_tasks_inv:
  assumes "run_tasks propose (q, s) = Inr (q', s')" "pq_jobs q = []"
    and proposed: "\<And>e s s'. propose e s = Inr s' \<Longrightarrow> in_proposal e s'"
  shows "proposer_inv in_proposal q' s'"
proof -
  from assms(1) obtain entry tasks s1 where r: "remove_invalid_tasks (pq_tasks q) s = Inr (entry, tasks, s1)"
    "(case entry of None \<Rightarrow> Inr (q\<lparr>pq_tasks := tasks\<rparr>, s1)
      | Some e \<Rightarrow> rbind (next_available_index (node_log (rs_node s1))) (\<lambda>index.
          try_proposal_body propose Inr
            \<lparr>job_task = hd tasks, job_index = index, job_entry = e, job_tries = PROPOSAL_RETRIES\<rparr>
            (q\<lparr>pq_tasks := tasks\<rparr>, s1))) = Inr (q', s')"
    by (auto simp: run_tasks_def Let_def rbind_eq_Inr)
  note empty = remove_invalid_tasks_result(1) [OF r(1)]
  show ?thesis
  proof (cases entry)
    case None
    with r(2) empty assms(2) show ?thesis by (auto simp: proposer_inv_def)
  next
    case (Some e)
    with r(2) obtain index where i: "next_available_index (node_log (rs_node s1)) = Inr index"
      "try_proposal_body propose Inr
        \<lparr>job_task = hd tasks, job_index = index, job_entry = e, job_tries = PROPOSAL_RETRIES\<rparr>
        (q\<lparr>pq_tasks := tasks\<rparr>, s1) = Inr (q', s')" by (auto simp: rbind_eq_Inr)
    from empty Some obtain t ts where ts: "tasks = t # ts" by (cases tasks) auto
    with remove_invalid_tasks_result(2) [OF r(1) [unfolded Some]] have "returned t e" by simp
    with proposal_pending [OF i(2), where in_proposal = in_proposal] i(1) assms(2) proposed ts show ?thesis
      by (simp add: PROPOSAL_RETRIES_def)
  qed
qed

lemma try_insert_inv:
  assumes "try_insert propose task (q, s) = Inr (q', s')" "proposer_inv in_proposal q s"
    and "\<And>e s s'. propose e s = Inr s' \<Longrightarrow> in_proposal e s'"
  shows "proposer_inv in_proposal q' s'"
proof (cases "pq_tasks q")
  case Nil
  with assms have "run_tasks propose (q\<lparr>pq_tasks := [task]\<rparr>, s) = Inr (q', s')" "pq_jobs q = []"
    by (simp_all add: try_insert_def proposer_inv_def)
  with run_tasks_inv [OF _ _ assms(3)] show ?thesis by fastforce
next
  case (Cons t ts)
  with assms show ?thesis by (auto simp: try_insert_def proposer_inv_def)
qed

text \<open>While the log has not passed the job's index, its timer keeps the invariant.\<close>

lemma fire_proposal_inv:
  assumes "fire_proposal propose (q, s) = Inr (q', s')" "proposer_inv in_proposal q s" "pq_jobs q = [(job, wait)]"
    and "next_available_index (node_log (rs_node s)) = Inr next" "\<not> job_index job < next"
    and proposed: "\<And>e s s'. propose e s = Inr s' \<Longrightarrow> in_proposal e s'"
  shows "proposer_inv in_proposal q' s' \<and> (0 < job_tries job \<longrightarrow>
    pq_tasks q' = pq_tasks q \<and> pq_jobs q' = [(job\<lparr>job_tries := job_tries job - 1\<rparr>, PROPOSAL_WAIT_TIME)])"
proof -
  from assms(2,3) obtain ts where t: "pq_tasks q = job_task job # ts" "job_tries job < PROPOSAL_RETRIES"
    and tried: "returned (job_task job) (job_entry job)"
    by (auto simp: proposer_inv_def split: list.splits)
  from assms(1,3) have f: "try_proposal_body propose (run_tasks propose) job (q\<lparr>pq_jobs := []\<rparr>, s) = Inr (q', s')"
    by (simp add: fire_proposal_def try_proposal_def)
  show ?thesis
  proof (cases "0 < job_tries job")
    case True
    with proposal_pending [OF f, where in_proposal = in_proposal] t tried assms(4,5) proposed show ?thesis by simp
  next
    case False
    with f assms(4,5) t(1) obtain s1 where "run_tasks propose (q\<lparr>pq_jobs := [], pq_tasks := ts\<rparr>, s1) = Inr (q', s')"
      by (auto simp: try_proposal_body_def rbind_eq_Inr)
    with run_tasks_inv [OF _ _ proposed] False show ?thesis by fastforce
  qed
qed

section \<open>Properties\<close>

text \<open>Clients insert further tasks, and timers fire if there are any.\<close>

datatype ('w, 'r, 'd) proposer_event = TryInsert "('w, 'r, 'd) request_state insert_task" | FireProposal

fun proposer_step ::
  "(paxos_log_entry \<Rightarrow> ('w, 'r, 'd) request_state \<Rightarrow> ('w, 'r, 'd) request_state result)
   \<Rightarrow> ('w, 'r, 'd) proposer_event \<Rightarrow> ('w, 'r, 'd) proposer \<Rightarrow> ('w, 'r, 'd) proposer result" where
  "proposer_step propose (TryInsert task) x = try_insert propose task x"
| "proposer_step propose FireProposal x = fire_proposal propose x"

definition inserted :: "('w, 'r, 'd) proposer_event list \<Rightarrow> ('w, 'r, 'd) request_state insert_task list" where
  "inserted evs = concat (map (\<lambda>ev. case ev of TryInsert t \<Rightarrow> [t] | FireProposal \<Rightarrow> []) evs)"

lemma stuck_queue:
  "pq_tasks q \<noteq> [] \<Longrightarrow> pq_jobs q = [] \<Longrightarrow>
     rfold (proposer_step propose) evs (q, s) = Inr (q\<lparr>pq_tasks := pq_tasks q @ inserted evs\<rparr>, s)"
proof (induction evs arbitrary: q)
  case (Cons ev evs)
  show ?case
  proof (cases ev)
    case (TryInsert t)
    with Cons.prems have "proposer_step propose ev (q, s) = Inr (q\<lparr>pq_tasks := pq_tasks q @ [t]\<rparr>, s)"
      by (simp add: try_insert_def)
    with Cons.IH [of "q\<lparr>pq_tasks := pq_tasks q @ [t]\<rparr>"] Cons.prems TryInsert show ?thesis
      by (simp add: inserted_def)
  next
    case FireProposal
    with Cons show ?thesis by (simp add: fire_proposal_def inserted_def)
  qed
qed (simp add: inserted_def)

text \<open>
  C40: the queue of proposals. Inserting a task, and a timer that fires before the log has passed
  the index it proposed for, keep the invariant of the class: with tasks waiting, the first one's
  value is in proposal and one timer is pending, \<open>PROPOSAL_WAIT_TIME\<close> away, to try it again; while
  tries are left the timer proposes again, and its successor has one less. But when the
  timer fires after the log has passed the index - as it does when the value was chosen - nothing
  is popped and no timer is set: from then on no task is ever tried, proposed, or reported.
\<close>

theorem proposer_queue_contract:
  assumes "\<forall>e s s'. propose e s = Inr s' \<longrightarrow> in_proposal e s'" and "proposer_inv in_proposal q s"
  shows "(try_insert propose task (q, s) = Inr (q', s') \<longrightarrow> proposer_inv in_proposal q' s') \<and>
    (pq_jobs q = [(job, wait)] \<and> next_available_index (node_log (rs_node s)) = Inr next \<longrightarrow>
      (if job_index job < next
       then rfold (proposer_step propose) (FireProposal # evs) (q, s) =
         Inr (q\<lparr>pq_tasks := pq_tasks q @ inserted evs, pq_jobs := []\<rparr>, s)
       else fire_proposal propose (q, s) = Inr (q', s') \<longrightarrow> proposer_inv in_proposal q' s' \<and>
         (0 < job_tries job \<longrightarrow> pq_tasks q' = pq_tasks q \<and>
            pq_jobs q' = [(job\<lparr>job_tries := job_tries job - 1\<rparr>, PROPOSAL_WAIT_TIME)])))"
proof -
  have "rfold (proposer_step propose) (FireProposal # evs) (q, s) =
      Inr (q\<lparr>pq_tasks := pq_tasks q @ inserted evs, pq_jobs := []\<rparr>, s)"
    if j: "pq_jobs q = [(job, wait)]" "next_available_index (node_log (rs_node s)) = Inr next" "job_index job < next"
  proof -
    have "fire_proposal propose (q, s) = Inr (q\<lparr>pq_jobs := []\<rparr>, s)"
      using j by (simp add: fire_proposal_def try_proposal_def try_proposal_passed)
    moreover have "pq_tasks q \<noteq> []" using assms(2) j(1) by (auto simp: proposer_inv_def split: list.splits)
    ultimately show ?thesis using stuck_queue [of "q\<lparr>pq_jobs := []\<rparr>" propose evs s] by simp
  qed
  moreover have "try_insert propose task (q, s) = Inr (q', s') \<Longrightarrow> proposer_inv in_proposal q' s'"
    by (rule try_insert_inv [OF _ assms(2)]) (use assms(1) in blast)+
  moreover note fire_proposal_inv [of propose q s q' s' in_proposal job wait "next"]
  ultimately show ?thesis using assms by auto
qed

text \<open>
  A lone server whose Paxos handlers propose: a value is in proposal while the instances are those a
  proposal of it left. A task is inserted; its timer fires at once, and once more after the log has
  got two entries.
\<close>

definition noop_task :: "('w, 'r, 'd) request_state insert_task" where
  "noop_task = \<lparr>try_callback = (\<lambda>s. Inr (Some EntryContentNotSet, s)), success_callback = Inr, failure_callback = Inr\<rparr>"

definition lone_propose ::
  "paxos_log_entry \<Rightarrow> (unit, unit, unit request_derived) request_state
   \<Rightarrow> (unit, unit, unit request_derived) request_state result" where
  "lone_propose = request_propose (\<lambda>_. ()) (\<lambda>d i. Inr (SinglePaxosHandler i [])) (\<lambda>r. (7, r))"

definition left_proposed :: "paxos_log_entry \<Rightarrow> (unit, unit, unit request_derived) request_state \<Rightarrow> bool" where
  "left_proposed e s \<longleftrightarrow> (\<exists>s0 s1. lone_propose e s0 = Inr s1 \<and> node_paxos (rs_node s1) = node_paxos (rs_node s))"

definition logged_on ::
  "(unit, unit, unit request_derived) request_state \<Rightarrow> (unit, unit, unit request_derived) request_state" where
  "logged_on s = s\<lparr>rs_node := (rs_node s)\<lparr>node_log := written_log\<rparr>\<rparr>"

lemma lone_propose_returns:
  "next_available_index (node_log (rs_node s)) = Inr i \<Longrightarrow>
     \<exists>s1. lone_propose e s = Inr s1 \<and> node_log (rs_node s1) = node_log (rs_node s)"
  by (cases "paxos_instances (node_paxos (rs_node s)) i")
    (simp_all add: lone_propose_def request_propose_def multi_propose_def get_instance_def put_instance_def split_beta Let_def)

theorem proposer_queue_contract_witness:
  "\<exists>q s. try_insert lone_propose noop_task (ProposerQueue, lone_state (ClientRequestHandler PaxosLog) empty_derived) = Inr (q, s) \<and>
     proposer_inv left_proposed q s \<and> pq_tasks q = [noop_task] \<and>
     (\<exists>q' s'. fire_proposal lone_propose (q, s) = Inr (q', s') \<and> proposer_inv left_proposed q' s' \<and>
        map (\<lambda>(job, wait). (job_tries job, wait)) (pq_jobs q') = [(1, PROPOSAL_WAIT_TIME)]) \<and>
     fire_proposal lone_propose (q, logged_on s) = Inr (q\<lparr>pq_jobs := []\<rparr>, logged_on s)"
proof -
  let ?s0 = "lone_state (ClientRequestHandler PaxosLog) empty_derived"
  let ?job = "\<lparr>job_task = noop_task, job_index = 0, job_entry = EntryContentNotSet, job_tries = 2\<rparr>"
  let ?q = "\<lparr>pq_tasks = [noop_task], pq_jobs = [(?job, PROPOSAL_WAIT_TIME)]\<rparr>"
  have first: "next_available_index (ClientRequestHandler PaxosLog :: unit request_derived paxos_log) = Inr 0"
    by (simp add: next_available_index_def ClientRequestHandler_def add_callback_def PaxosLog_def)
  then obtain s where s: "lone_propose EntryContentNotSet ?s0 = Inr s" "node_log (rs_node s) = ClientRequestHandler PaxosLog"
    using lone_propose_returns [of ?s0 0] by (auto simp: lone_state_def)
  then have insert: "try_insert lone_propose noop_task (ProposerQueue, ?s0) = Inr (?q, s)"
    using first by (simp add: try_insert_def run_tasks_def try_proposal_body_def noop_task_def ProposerQueue_def
        PROPOSAL_RETRIES_def lone_state_def word_less_nat_alt)
  have started: "\<forall>e s s'. lone_propose e s = Inr s' \<longrightarrow> left_proposed e s'" unfolding left_proposed_def by blast
  have none: "proposer_inv left_proposed ProposerQueue ?s0" by (simp add: proposer_inv_def ProposerQueue_def)
  from proposer_queue_contract [OF started none, where task = noop_task] insert have inv: "proposer_inv left_proposed ?q s" by blast
  from inv have later: "proposer_inv left_proposed ?q (logged_on s)"
    by (simp add: proposer_inv_def left_proposed_def logged_on_def)
  from first s(2) lone_propose_returns [of s 0] obtain s' where s': "lone_propose EntryContentNotSet s = Inr s'" by auto
  let ?q' = "?q\<lparr>pq_jobs := [(?job\<lparr>job_tries := 1\<rparr>, PROPOSAL_WAIT_TIME)]\<rparr>"
  from s' s(2) first have fire: "fire_proposal lone_propose (?q, s) = Inr (?q', s')"
    by (simp add: fire_proposal_def try_proposal_def try_proposal_body_def word_less_nat_alt)
  have at0: "pq_jobs ?q = [(?job, PROPOSAL_WAIT_TIME)] \<and> next_available_index (node_log (rs_node s)) = Inr 0"
    using s(2) first by simp
  from proposer_queue_contract [OF started inv, of noop_task ?q' s' ?job PROPOSAL_WAIT_TIME 0 "[]"] at0 fire
  have "proposer_inv left_proposed ?q' s'" by simp
  moreover have at2: "pq_jobs ?q = [(?job, PROPOSAL_WAIT_TIME)] \<and> next_available_index (node_log (rs_node (logged_on s))) = Inr 2"
    by (simp add: logged_on_def written_log_def next_available_index_def)
  from proposer_queue_contract [OF started later, of noop_task ?q' s' ?job PROPOSAL_WAIT_TIME 2 "[]"] at2
  have "rbind (fire_proposal lone_propose (?q, logged_on s)) Inr = Inr (?q\<lparr>pq_jobs := []\<rparr>, logged_on s)"
    by (simp add: inserted_def rbind_def split: sum.splits)
  then have "fire_proposal lone_propose (?q, logged_on s) = Inr (?q\<lparr>pq_jobs := []\<rparr>, logged_on s)"
    by (simp add: rbind_def split: sum.splits)
  ultimately show ?thesis using insert inv fire by (intro exI [of _ ?q] exI [of _ s]) simp
qed

end
