(* ===== verification/Startup.thy ===== *)
theory Startup
  imports Slave DataMaster
begin

text \<open>
  The programs of the two kinds of server (src/src/slave.cc, src/src/master.cc) up to \<open>Setup
  finished\<close>: they listen on their ports, connect to the servers named on the command line, and
  build the server over these connections. The network is the environment: which acceptor listens
  at which address and port, with its backlog. The order in which notes.md starts the servers is
  shown to connect every server with every other when its arguments are addresses, as in its Short
  Run, and to end at the second server when they are host names, as in its Long Run.
\<close>

section \<open>Command line and addresses\<close>

text \<open>src/src/utils.h; \<open>argc\<close> is the length of \<open>argv\<close>.\<close>

definition parse_args :: "string list \<Rightarrow> string list" where
  "parse_args argv = map (\<lambda>i. argv ! i) [1..<length argv]"

text \<open>\<open>std::to_string\<close> of a number that is not negative.\<close>

function decimal :: "nat \<Rightarrow> string" where
  "decimal n = (if n < 10 then [''0123456789'' ! n] else decimal (n div 10) @ [''0123456789'' ! (n mod 10)])"
  by pat_completeness auto
termination by (relation "measure id") auto

declare decimal.simps [simp del]

definition slave_address :: "nat \<Rightarrow> string" where
  "slave_address i = ''172.19.0.'' @ decimal (10 + i)"

definition master_address :: "nat \<Rightarrow> string" where
  "master_address i = ''172.19.0.'' @ decimal (20 + i)"

definition slave_config_endpoints :: "constants \<Rightarrow> endpoint_id list" where
  "slave_config_endpoints cs = map (\<lambda>i. EndpointId (slave_address i) 0) [0..<unat (num_slave_servers cs)]"

definition master_config_endpoints :: "constants \<Rightarrow> endpoint_id list" where
  "master_config_endpoints cs = map (\<lambda>i. EndpointId (master_address i) 0) [0..<unat (num_master_servers cs)]"

section \<open>The network\<close>

text \<open>
  \<open>boost\<close> throws a \<open>system_error\<close>, which nobody catches, when an address is not a dotted IPv4
  address (\<open>valid\<close>), when a port is taken and when nobody listens.
\<close>

datatype start_error =
    SystemError
  | Broken uni_error

type_synonym 'a start_result = "start_error + 'a"

definition sbind :: "'a start_result \<Rightarrow> ('a \<Rightarrow> 'b start_result) \<Rightarrow> 'b start_result" where
  "sbind r f = (case r of Inl e \<Rightarrow> Inl e | Inr x \<Rightarrow> f x)"

definition broken :: "'a result \<Rightarrow> 'a start_result" where
  "broken r = (case r of Inl e \<Rightarrow> Inl (Broken e) | Inr x \<Rightarrow> Inr x)"

lemma start_simps [simp]:
  "sbind (Inr x) f = f x" "sbind (Inl e) f = Inl e" "broken (Inr x) = Inr x" "broken (Inl u) = Inl (Broken u)"
  by (simp_all add: sbind_def broken_def)

type_synonym 'w network = "string \<times> 32 word \<rightharpoonup> 'w connection_handler"

definition listen :: "string \<Rightarrow> 32 word \<Rightarrow> 'w network \<Rightarrow> 'w network start_result" where
  "listen machine p net =
     (if net (machine, p) \<noteq> None then Inl SystemError else Inr (net((machine, p) \<mapsto> ConnectionHandler)))"

definition start_accepting :: "string \<Rightarrow> 32 word \<Rightarrow> 'w network \<Rightarrow> 'w network" where
  "start_accepting machine p net = net((machine, p) := map_option async_accept (net (machine, p)))"

definition socket_connect ::
  "(string \<Rightarrow> bool) \<Rightarrow> string \<Rightarrow> string \<Rightarrow> 32 word \<Rightarrow> 'w network \<Rightarrow> 'w network start_result" where
  "socket_connect valid machine ip p net =
     (if \<not> valid ip then Inl SystemError
      else case net (ip, p) of
             None \<Rightarrow> Inl SystemError
           | Some h \<Rightarrow> Inr (net((ip, p) \<mapsto> knock (Some machine) h)))"

text \<open>The loops that connect to other servers; the channel of a connected socket is added to \<open>c\<close>.\<close>

fun connect_all ::
  "(string \<Rightarrow> bool) \<Rightarrow> string \<Rightarrow> 32 word \<Rightarrow> string list \<Rightarrow> 'w network \<times> 'w connections
   \<Rightarrow> ('w network \<times> 'w connections) start_result" where
  "connect_all valid machine p [] x = Inr x"
| "connect_all valid machine p (ip # ips) (net, c) =
     sbind (socket_connect valid machine ip p net) (\<lambda>net'.
     sbind (broken (accepted ip c)) (\<lambda>c'. connect_all valid machine p ips (net', c')))"

text \<open>The connections behind an acceptor.\<close>

definition connections_at :: "string \<Rightarrow> 32 word \<Rightarrow> 'w network \<Rightarrow> 'w connections" where
  "connections_at machine p net = (case net (machine, p) of None \<Rightarrow> \<lparr>channels = []\<rparr> | Some h \<Rightarrow> ch_connections h)"

definition set_connections :: "string \<Rightarrow> 32 word \<Rightarrow> 'w connections \<Rightarrow> 'w network \<Rightarrow> 'w network" where
  "set_connections machine p c net =
     net((machine, p) := map_option (\<lambda>h. h\<lparr>ch_connections := c\<rparr>) (net (machine, p)))"

section \<open>The programs\<close>

text \<open>
  \<open>machine\<close> is the address of the machine the program runs on, \<open>argv\<close> its arguments. The handlers
  of the acceptors run on another thread; what knocks while the program starts waits in the backlog.
\<close>

definition slave_main ::
  "(string \<Rightarrow> bool) \<Rightarrow> (message_wrapper \<Rightarrow> 'w) \<Rightarrow> (tablet_id \<Rightarrow> 'r) \<Rightarrow> 32 word \<Rightarrow> 'r \<Rightarrow> constants
   \<Rightarrow> string \<Rightarrow> string list \<Rightarrow> 'w network \<Rightarrow> ('w network \<times> ('w, 'r) slave) start_result" where
  "slave_main valid to_wire tablet_random hardware_concurrency random cs machine argv net =
     (let ips = parse_args argv
      in if ips = [] then Inl (Broken UndefinedBehaviour)
         else
           sbind (listen machine (slave_port cs) net) (\<lambda>net1.
           sbind (listen machine (client_port cs) (start_accepting machine (slave_port cs) net1)) (\<lambda>net2.
           sbind (listen machine (master_port cs) (start_accepting machine (client_port cs) net2)) (\<lambda>net3.
           let net4 = start_accepting machine (master_port cs) net3
           in sbind (connect_all valid machine (slave_port cs) (tl ips)
                (net4, connections_at machine (slave_port cs) net4)) (\<lambda>(net5, c).
              let slaves = add_channel (EndpointId (ips ! 0) 0) (SelfChannel False []) c
              in Inr (set_connections machine (slave_port cs) slaves net5,
                   ProductionContext to_wire tablet_random hardware_concurrency random
                     (connections_at machine (client_port cs) net5) (connections_at machine (master_port cs) net5)
                     slaves (slave_config_endpoints cs) (ips ! 0)))))))"

text \<open>\<open>ips.end() - num_slave_servers\<close> lies before the first argument when there are too few.\<close>

definition master_main ::
  "(string \<Rightarrow> bool) \<Rightarrow> (message_wrapper \<Rightarrow> 'w) \<Rightarrow> 'r \<Rightarrow> constants
   \<Rightarrow> string \<Rightarrow> string list \<Rightarrow> 'w network \<Rightarrow> ('w network \<times> ('w, 'r) data_master) start_result" where
  "master_main valid to_wire random cs machine argv net =
     (let ips = parse_args argv; n = unat (num_slave_servers cs);
          master_ips = take (length ips - n) ips; slave_ips = drop (length ips - n) ips
      in if length ips < n \<or> master_ips = [] then Inl (Broken UndefinedBehaviour)
         else
           sbind (listen machine (master_port cs) net) (\<lambda>net1.
           let net2 = start_accepting machine (master_port cs) net1
           in sbind (connect_all valid machine (master_port cs) (tl master_ips)
                (net2, connections_at machine (master_port cs) net2)) (\<lambda>(net3, c).
              let masters = add_channel (EndpointId (master_ips ! 0) 0) (SelfChannel False []) c
              in sbind (listen machine (client_port cs) (set_connections machine (master_port cs) masters net3)) (\<lambda>net4.
                 sbind (connect_all valid machine (master_port cs) slave_ips (net4, \<lparr>channels = []\<rparr>)) (\<lambda>(net5, slaves).
                 Inr (start_accepting machine (client_port cs) net5,
                   DataMaster to_wire random (connections_at machine (client_port cs) net5) slaves masters
                     (slave_config_endpoints cs) (master_config_endpoints cs)))))))"

section \<open>The documented start\<close>

text \<open>
  notes.md starts the slaves one after the other, each with its own name and those of the slaves
  that run already, then the masters in the same way, with the names of all slaves behind. In its
  Short Run the names are addresses, in its Long Run the host names that Docker gives.
\<close>

fun start_in_order ::
  "(string \<Rightarrow> string list \<Rightarrow> 'w network \<Rightarrow> ('w network \<times> 'p) start_result) \<Rightarrow> string \<Rightarrow> string list
   \<Rightarrow> string list \<Rightarrow> string list \<Rightarrow> 'w network \<Rightarrow> ('w network \<times> 'p list) start_result" where
  "start_in_order main program others running [] net = Inr (net, [])"
| "start_in_order main program others running (a # as) net =
     sbind (main a (program # a # running @ others) net) (\<lambda>(net', p).
     sbind (start_in_order main program others (running @ [a]) as net') (\<lambda>(net'', ps). Inr (net'', p # ps)))"

definition start_cluster ::
  "(string \<Rightarrow> bool) \<Rightarrow> (message_wrapper \<Rightarrow> 'w) \<Rightarrow> (tablet_id \<Rightarrow> 'r) \<Rightarrow> 32 word \<Rightarrow> 'r \<Rightarrow> constants
   \<Rightarrow> string list \<Rightarrow> string list
   \<Rightarrow> ('w network \<times> ('w, 'r) slave list \<times> ('w, 'r) data_master list) start_result" where
  "start_cluster valid to_wire tablet_random hardware_concurrency random cs slave_ips master_ips =
     sbind (start_in_order (slave_main valid to_wire tablet_random hardware_concurrency random cs)
       ''./build/Slave'' [] [] slave_ips Map.empty) (\<lambda>(net, slaves).
     sbind (start_in_order (master_main valid to_wire random cs) ''./build/Master'' slave_ips [] master_ips net)
       (\<lambda>(net', masters). Inr (net', slaves, masters)))"

section \<open>The network after each start\<close>

abbreviation channel_to :: "string \<Rightarrow> endpoint_id \<times> 'w channel" where
  "channel_to ip \<equiv> (EndpointId ip 0, ChannelImpl [])"

text \<open>
  The acceptor of a server in a group: it is connected to those that ran before and to itself, and
  those that came later knocked.
\<close>

definition mesh :: "string list \<Rightarrow> string \<Rightarrow> 'w connection_handler" where
  "mesh running a =
     \<lparr>ch_connections =
        \<lparr>channels = map channel_to (takeWhile (\<lambda>b. b \<noteq> a) running) @ [(EndpointId a 0, SelfChannel True [])]\<rparr>,
      ch_accepting = True, ch_backlog = map Some (tl (dropWhile (\<lambda>b. b \<noteq> a) running))\<rparr>"

definition waiting :: "string list \<Rightarrow> 'w connection_handler" where
  "waiting ips = \<lparr>ch_connections = \<lparr>channels = []\<rparr>, ch_accepting = True, ch_backlog = map Some ips\<rparr>"

definition network_of :: "constants \<Rightarrow> string list \<Rightarrow> string list \<Rightarrow> 'w network" where
  "network_of cs ss ms = (\<lambda>(ip, p).
     if ip \<in> set ss then
       if p = slave_port cs then Some (mesh ss ip)
       else if p = client_port cs then Some (waiting [])
       else if p = master_port cs then Some (waiting ms) else None
     else if ip \<in> set ms then
       if p = master_port cs then Some (mesh ms ip)
       else if p = client_port cs then Some (waiting []) else None
     else None)"

lemma async_accept_new: "async_accept ConnectionHandler = waiting []"
  by (simp add: async_accept_def ConnectionHandler_def waiting_def)

lemma knock_simps [simp]:
  "ch_connections (knock x h) = ch_connections h" "ch_accepting (knock x h) = ch_accepting h"
  by (simp_all add: knock_def)

lemma knock_waiting: "knock (Some m) (waiting ms) = waiting (ms @ [m])"
  by (simp add: knock_def waiting_def)

lemma knock_mesh: "b \<in> set running \<Longrightarrow> knock (Some m) (mesh running b) = mesh (running @ [m]) b"
proof -
  assume b: "b \<in> set running"
  then have "dropWhile (\<lambda>x. x \<noteq> b) running \<noteq> []" by (auto simp: dropWhile_eq_Nil_conv)
  with b show ?thesis by (auto simp: knock_def mesh_def)
qed

lemma mesh_new: "a \<notin> set running \<Longrightarrow>
    mesh (running @ [a]) a =
      \<lparr>ch_connections = \<lparr>channels = map channel_to running @ [(EndpointId a 0, SelfChannel True [])]\<rparr>,
       ch_accepting = True, ch_backlog = []\<rparr>"
proof -
  assume a: "a \<notin> set running"
  then have "takeWhile (\<lambda>b. b \<noteq> a) (running @ [a]) = running" by (induction running) auto
  moreover from a have "dropWhile (\<lambda>b. b \<noteq> a) (running @ [a]) = [a]" by (induction running) auto
  ultimately show ?thesis by (simp add: mesh_def)
qed

lemma connect_all_outcome:
  assumes "\<forall>ip\<in>set ips. valid ip \<and> net (ip, p) \<noteq> None" and "distinct ips"
    and "(\<lambda>ip. EndpointId ip 0) ` set ips \<inter> set (get_all_endpoints c) = {}"
  shows "connect_all valid machine p ips (net, c) =
    Inr (\<lambda>(a, q). if q = p \<and> a \<in> set ips then map_option (knock (Some machine)) (net (a, q)) else net (a, q),
         \<lparr>channels = channels c @ map channel_to ips\<rparr>)"
  using assms
proof (induction ips arbitrary: net c)
  case Nil
  show ?case by auto
next
  case (Cons ip ips)
  then obtain h where h: "valid ip" "net (ip, p) = Some h" by auto
  let ?net = "net((ip, p) \<mapsto> knock (Some machine) h)"
  let ?c = "\<lparr>channels = channels c @ [channel_to ip]\<rparr>"
  from Cons.prems(3) have acc: "accepted ip c = Inr ?c" by (simp add: accepted_Inr)
  have "connect_all valid machine p ips (?net, ?c) =
    Inr (\<lambda>(a, q). if q = p \<and> a \<in> set ips then map_option (knock (Some machine)) (?net (a, q)) else ?net (a, q),
         \<lparr>channels = channels ?c @ map channel_to ips\<rparr>)"
    by (rule Cons.IH) (use Cons.prems in \<open>auto simp: get_all_endpoints_def\<close>)
  moreover have "(\<lambda>(a, q). if q = p \<and> a \<in> set ips then map_option (knock (Some machine)) (?net (a, q)) else ?net (a, q)) =
    (\<lambda>(a, q). if q = p \<and> a \<in> set (ip # ips) then map_option (knock (Some machine)) (net (a, q)) else net (a, q))"
    using Cons.prems(2) h(2) by (auto simp: fun_eq_iff)
  ultimately show ?case using h acc by (simp add: socket_connect_def)
qed

lemma parse_args_Cons [simp]: "parse_args (program # args) = args"
  by (simp add: parse_args_def map_Suc_upt [symmetric] comp_def map_nth del: upt_Suc)

definition ports_ok :: "constants \<Rightarrow> bool" where
  "ports_ok cs \<longleftrightarrow> distinct [slave_port cs, client_port cs, master_port cs]"

lemma slave_starts:
  fixes to_wire :: "message_wrapper \<Rightarrow> 'w"
  assumes "ports_ok cs" "distinct (running @ [a])" "\<forall>ip\<in>set running. valid ip"
  shows "\<exists>sl. slave_main valid to_wire tr hw r cs a (program # a # running) (network_of cs running []) =
    Inr (network_of cs (running @ [a]) [], sl)"
proof -
  let ?old = "network_of cs running [] :: 'w network"
  let ?net = "?old((a, slave_port cs) \<mapsto> waiting [], (a, client_port cs) \<mapsto> waiting [],
    (a, master_port cs) \<mapsto> waiting [])"
  have a: "a \<notin> set running" using assms(2) by simp
  have free: "?old (a, p) = None" for p using a by (simp add: network_of_def)
  have ports: "slave_port cs \<noteq> client_port cs" "slave_port cs \<noteq> master_port cs" "client_port cs \<noteq> master_port cs"
    using assms(1) by (simp_all add: ports_ok_def)
  let ?res = "\<lambda>(b, q). if q = slave_port cs \<and> b \<in> set running then map_option (knock (Some a)) (?net (b, q)) else ?net (b, q)"
  let ?c = "\<lparr>channels = map channel_to running\<rparr> :: 'w connections"
  have c: "connect_all valid a (slave_port cs) running (?net, \<lparr>channels = []\<rparr>) = Inr (?res, ?c)"
    by (subst connect_all_outcome)
      (use assms(2,3) a in \<open>auto simp: get_all_endpoints_def network_of_def\<close>)
  have own: "connections_at a (slave_port cs) ?net = \<lparr>channels = []\<rparr>"
    using ports by (simp add: connections_at_def waiting_def)
  have "EndpointId a 0 \<notin> fst ` set (map channel_to running)" using a by auto
  then have self: "add_channel (EndpointId a 0) (SelfChannel False []) ?c =
      \<lparr>channels = map channel_to running @ [(EndpointId a 0, SelfChannel True [])]\<rparr>"
    by (simp add: add_channel_def has_channel_def)
  have "set_connections a (slave_port cs) \<lparr>channels = map channel_to running @ [(EndpointId a 0, SelfChannel True [])]\<rparr> ?res =
      network_of cs (running @ [a]) []"
  proof (rule ext)
    fix x :: "string \<times> 32 word"
    obtain b q where "x = (b, q)" by (cases x)
    with a ports knock_mesh [of b running a] show "set_connections a (slave_port cs) \<lparr>channels = map channel_to running @ [(EndpointId a 0, SelfChannel True [])]\<rparr> ?res x = network_of cs (running @ [a]) [] x"
      by (auto simp: set_connections_def network_of_def mesh_new waiting_def)
  qed
  with c own self free ports show ?thesis
    by (simp add: slave_main_def listen_def start_accepting_def async_accept_new Let_def)
qed

lemma master_starts:
  fixes to_wire :: "message_wrapper \<Rightarrow> 'w"
  assumes "ports_ok cs" "distinct (ss @ running @ [a])" "\<forall>ip\<in>set (ss @ running). valid ip"
    and "unat (num_slave_servers cs) = length ss"
  shows "\<exists>dm. master_main valid to_wire r cs a (program # a # running @ ss) (network_of cs ss running) =
      Inr (network_of cs ss (running @ [a]), dm) \<and>
    get_all_endpoints (md_slaves (node_derived (rs_node (dm_state dm)))) = map (\<lambda>ip. EndpointId ip 0) ss"
proof -
  let ?old = "network_of cs ss running :: 'w network"
  let ?mp = "master_port cs" and ?cp = "client_port cs"
  have a: "a \<notin> set running" "a \<notin> set ss" "distinct running" "distinct ss" "set running \<inter> set ss = {}"
    using assms(2) by auto
  have free: "?old (a, p) = None" for p using a by (simp add: network_of_def)
  have ports: "slave_port cs \<noteq> ?cp" "slave_port cs \<noteq> ?mp" "?cp \<noteq> ?mp"
    using assms(1) by (simp_all add: ports_ok_def)
  let ?n1 = "?old((a, ?mp) \<mapsto> waiting [])"
  let ?r1 = "\<lambda>(b, q). if q = ?mp \<and> b \<in> set running then map_option (knock (Some a)) (?n1 (b, q)) else ?n1 (b, q)"
  let ?c1 = "\<lparr>channels = map channel_to running\<rparr> :: 'w connections"
  let ?m = "\<lparr>channels = map channel_to running @ [(EndpointId a 0, SelfChannel True [])]\<rparr> :: 'w connections"
  let ?n2 = "\<lambda>(b, q). if q = ?mp \<and> b \<in> set (running @ [a]) then Some (mesh (running @ [a]) b) else ?old (b, q)"
  let ?n3 = "?n2((a, ?cp) \<mapsto> ConnectionHandler)"
  let ?r3 = "\<lambda>(b, q). if q = ?mp \<and> b \<in> set ss then map_option (knock (Some a)) (?n3 (b, q)) else ?n3 (b, q)"
  let ?c3 = "\<lparr>channels = map channel_to ss\<rparr> :: 'w connections"
  have c1: "connect_all valid a ?mp running (?n1, \<lparr>channels = []\<rparr>) = Inr (?r1, ?c1)"
    by (subst connect_all_outcome) (use assms(3) a ports in \<open>auto simp: get_all_endpoints_def network_of_def\<close>)
  have c3: "connect_all valid a ?mp ss (?n3, \<lparr>channels = []\<rparr>) = Inr (?r3, ?c3)"
    by (subst connect_all_outcome) (use assms(3) a ports in \<open>auto simp: get_all_endpoints_def network_of_def\<close>)
  have own: "connections_at a ?mp ?n1 = \<lparr>channels = []\<rparr>"
    by (simp add: connections_at_def waiting_def)
  have "EndpointId a 0 \<notin> fst ` set (map channel_to running)" using a(1) by auto
  then have self: "add_channel (EndpointId a 0) (SelfChannel False []) ?c1 = ?m"
    by (simp add: add_channel_def has_channel_def)
  have n2: "set_connections a ?mp ?m ?r1 = ?n2"
  proof (rule ext)
    fix x :: "string \<times> 32 word"
    obtain b q where "x = (b, q)" by (cases x)
    with a ports knock_mesh [of b running a] show "set_connections a ?mp ?m ?r1 x = ?n2 x"
      by (auto simp: set_connections_def network_of_def mesh_new waiting_def)
  qed
  have last: "start_accepting a ?cp ?r3 = network_of cs ss (running @ [a])"
  proof (rule ext)
    fix x :: "string \<times> 32 word"
    obtain b q where "x = (b, q)" by (cases x)
    with a ports show "start_accepting a ?cp ?r3 x = network_of cs ss (running @ [a]) x" by (auto simp: start_accepting_def network_of_def knock_waiting async_accept_new)
  qed
  have ends: "get_all_endpoints ?c3 = map (\<lambda>ip. EndpointId ip 0) ss" by (simp add: get_all_endpoints_def)
  have args: "parse_args (program # a # running @ ss) = a # running @ ss" by simp
  have n2_free: "?n2 (a, ?cp) = None" using ports free by simp
  have main: "master_main valid to_wire r cs a (program # a # running @ ss) ?old =
    Inr (start_accepting a ?cp ?r3,
      DataMaster to_wire r (connections_at a ?cp ?r3) ?c3 ?m (slave_config_endpoints cs) (master_config_endpoints cs))"
    unfolding master_main_def Let_def args
    using free c1 own self n2 n2_free c3
    by (simp add: assms(4) listen_def start_accepting_def async_accept_new)
  show ?thesis
    unfolding main last using ends by (simp add: DataMaster_def initial_master_def)
qed

lemma network_of_empty: "network_of cs [] [] = Map.empty"
  by (auto simp: network_of_def)

lemma slaves_start:
  fixes to_wire :: "message_wrapper \<Rightarrow> 'w"
  assumes "ports_ok cs"
  shows "distinct (running @ as) \<Longrightarrow> \<forall>ip\<in>set (running @ as). valid ip \<Longrightarrow>
    \<exists>sls. start_in_order (slave_main valid to_wire tr hw r cs) program [] running as (network_of cs running []) =
      Inr (network_of cs (running @ as) [], sls) \<and> length sls = length as"
proof (induction as arbitrary: running)
  case (Cons a as)
  from Cons.prems obtain sl where
    sl: "slave_main valid to_wire tr hw r cs a (program # a # running) (network_of cs running []) =
      Inr (network_of cs (running @ [a]) [], sl)"
    using slave_starts [OF assms, of running a valid to_wire tr hw r program] by auto
  from Cons.prems Cons.IH [of "running @ [a]"] obtain sls where
    "start_in_order (slave_main valid to_wire tr hw r cs) program [] (running @ [a]) as (network_of cs (running @ [a]) []) =
      Inr (network_of cs (running @ a # as) [], sls)" "length sls = length as" by auto
  with sl show ?case by simp
qed simp

lemma masters_start:
  fixes to_wire :: "message_wrapper \<Rightarrow> 'w"
  assumes "ports_ok cs" "unat (num_slave_servers cs) = length ss"
  shows "distinct (ss @ running @ as) \<Longrightarrow> \<forall>ip\<in>set (ss @ running @ as). valid ip \<Longrightarrow>
    \<exists>dms. start_in_order (master_main valid to_wire r cs) program ss running as (network_of cs ss running) =
      Inr (network_of cs ss (running @ as), dms) \<and> length dms = length as \<and>
      (\<forall>dm\<in>set dms. get_all_endpoints (md_slaves (node_derived (rs_node (dm_state dm)))) = map (\<lambda>ip. EndpointId ip 0) ss)"
proof (induction as arbitrary: running)
  case (Cons a as)
  from Cons.prems obtain dm where
    dm: "master_main valid to_wire r cs a (program # a # running @ ss) (network_of cs ss running) =
      Inr (network_of cs ss (running @ [a]), dm)"
      "get_all_endpoints (md_slaves (node_derived (rs_node (dm_state dm)))) = map (\<lambda>ip. EndpointId ip 0) ss"
    using master_starts [OF assms(1) _ _ assms(2), of running a valid to_wire r program] by auto
  from Cons.prems Cons.IH [of "running @ [a]"] obtain dms where
    "start_in_order (master_main valid to_wire r cs) program ss (running @ [a]) as (network_of cs ss (running @ [a])) =
      Inr (network_of cs ss (running @ a # as), dms)" "length dms = length as"
    "\<forall>dm\<in>set dms. get_all_endpoints (md_slaves (node_derived (rs_node (dm_state dm)))) = map (\<lambda>ip. EndpointId ip 0) ss"
    by auto
  with dm show ?case by simp
qed simp

lemma settled_mesh:
  assumes "distinct running" "a \<in> set running"
  shows "settled (mesh running a) = Inr (map (\<lambda>ip. EndpointId ip 0) running)"
proof -
  let ?old = "takeWhile (\<lambda>b. b \<noteq> a) running" and ?new = "tl (dropWhile (\<lambda>b. b \<noteq> a) running)"
  have d: "dropWhile (\<lambda>b. b \<noteq> a) running \<noteq> []" using assms(2) by (auto simp: dropWhile_eq_Nil_conv)
  then have "hd (dropWhile (\<lambda>b. b \<noteq> a) running) = a" using hd_dropWhile [OF d] by simp
  with d have r: "running = ?old @ a # ?new" by (metis takeWhile_dropWhile_id list.collapse)
  then have dist: "distinct (?old @ a # ?new)" using assms(1) by metis
  have "settled (mesh running a) = Inr (map (\<lambda>ip. EndpointId ip 0) (?old @ a # ?new))"
    unfolding mesh_def settled_def
    by (simp only: connection_handler.simps length_map, subst accept_all_peers)
      (use dist in \<open>auto simp: get_all_endpoints_def\<close>)
  with r show ?thesis by simp
qed

lemma settled_waiting: "distinct ms \<Longrightarrow> settled (waiting ms) = Inr (map (\<lambda>ip. EndpointId ip 0) ms)"
  unfolding waiting_def settled_def
  by (simp only: connection_handler.simps length_map, subst accept_all_peers) (auto simp: get_all_endpoints_def)

text \<open>A host name is not an address.\<close>

lemma named_start_fails:
  assumes "\<not> valid b" "ports_ok cs" "\<forall>p. net (machine, p) = None"
  shows "slave_main valid to_wire tr hw r cs machine (program # a # b # others) net = Inl SystemError"
  using assms by (simp add: slave_main_def listen_def start_accepting_def socket_connect_def ports_ok_def Let_def)

lemma named_cluster_fails:
  fixes to_wire :: "message_wrapper \<Rightarrow> 'w"
  assumes "ports_ok cs" "a \<noteq> b" "\<not> valid a"
  shows "start_cluster valid to_wire tr hw r cs (a # b # ss) ms = Inl SystemError"
proof -
  have free: "\<forall>p. network_of cs [a] [] (b, p) = None" using assms(2) by (simp add: network_of_def)
  obtain sl where first: "slave_main valid to_wire tr hw r cs a [''./build/Slave'', a] Map.empty =
      Inr (network_of cs [a] [], sl)"
    using slave_starts [of cs "[]" a valid to_wire tr hw r "''./build/Slave''"] assms(1) by (auto simp: network_of_empty)
  have second: "slave_main valid to_wire tr hw r cs b [''./build/Slave'', b, a] (network_of cs [a] []) = Inl SystemError"
    by (rule named_start_fails [where others = "[]" and valid = valid and b = a, OF assms(3,1) free])
  show ?thesis by (simp add: start_cluster_def first second)
qed

lemma addressed_cluster_starts:
  fixes to_wire :: "message_wrapper \<Rightarrow> 'w"
  assumes "distinct (ss @ ms)" "\<forall>ip\<in>set (ss @ ms). valid ip" "ports_ok cs" "unat (num_slave_servers cs) = length ss"
  shows "\<exists>slaves masters.
    start_cluster valid to_wire tr hw r cs ss ms = Inr (network_of cs ss ms, slaves, masters) \<and>
    length slaves = length ss \<and> length masters = length ms \<and>
    (\<forall>dm\<in>set masters. get_all_endpoints (md_slaves (node_derived (rs_node (dm_state dm)))) = map (\<lambda>ip. EndpointId ip 0) ss)"
proof -
  from slaves_start [OF assms(3), of "[]" ss valid to_wire tr hw r "''./build/Slave''"] assms(1,2)
  obtain sls where "start_in_order (slave_main valid to_wire tr hw r cs) ''./build/Slave'' [] [] ss Map.empty =
      Inr (network_of cs ss [], sls)" "length sls = length ss"
    by (auto simp: network_of_empty)
  moreover from masters_start [OF assms(3,4), of "[]" ms valid to_wire r "''./build/Master''"] assms(1,2)
  obtain dms where "start_in_order (master_main valid to_wire r cs) ''./build/Master'' ss [] ms (network_of cs ss []) =
      Inr (network_of cs ss ms, dms)" "length dms = length ms"
      "\<forall>dm\<in>set dms. get_all_endpoints (md_slaves (node_derived (rs_node (dm_state dm)))) = map (\<lambda>ip. EndpointId ip 0) ss"
    by auto
  ultimately show ?thesis by (simp add: start_cluster_def)
qed

section \<open>Properties\<close>

text \<open>
  C5: the documented start connects everybody, if it is given addresses. The slaves are started in
  any order and then the masters, each with the arguments notes.md gives it. When these are addresses
  (the Short Run), every program gets as far as its setup; and when the acceptors have served who
  knocked, every slave is connected to all slaves, itself included, and to all masters, every master
  to all masters and all slaves. If the machines have the addresses built into the programs, these
  are the endpoints of the first configurations. When they are host names (the Long Run), or only the
  first one is, the second program started ends with an exception.
\<close>

theorem documented_start_is_mesh:
  assumes "distinct (ss @ ms)" and "ports_ok cs"
    and "unat (num_slave_servers cs) = length ss" and "unat (num_master_servers cs) = length ms"
  shows "((\<forall>ip\<in>set (ss @ ms). valid ip) \<longrightarrow> (\<exists>net slaves masters.
    start_cluster valid to_wire tablet_random hardware_concurrency random cs ss ms = Inr (net, slaves, masters) \<and>
    length slaves = length ss \<and> length masters = length ms \<and>
    (\<forall>a\<in>set ss. (\<exists>h. net (a, slave_port cs) = Some h \<and> settled h = Inr (map (\<lambda>ip. EndpointId ip 0) ss)) \<and>
      (\<exists>h. net (a, master_port cs) = Some h \<and> settled h = Inr (map (\<lambda>ip. EndpointId ip 0) ms))) \<and>
    (\<forall>a\<in>set ms. \<exists>h. net (a, master_port cs) = Some h \<and> settled h = Inr (map (\<lambda>ip. EndpointId ip 0) ms)) \<and>
    (\<forall>dm\<in>set masters. get_all_endpoints (md_slaves (node_derived (rs_node (dm_state dm)))) = map (\<lambda>ip. EndpointId ip 0) ss) \<and>
    (ss = map slave_address [0..<length ss] \<longrightarrow> slave_config_endpoints cs = map (\<lambda>ip. EndpointId ip 0) ss) \<and>
    (ms = map master_address [0..<length ms] \<longrightarrow> master_config_endpoints cs = map (\<lambda>ip. EndpointId ip 0) ms))) \<and>
    (2 \<le> length ss \<longrightarrow> \<not> valid (hd ss) \<longrightarrow>
      start_cluster valid to_wire tablet_random hardware_concurrency random cs ss ms = Inl SystemError)"
proof (intro conjI impI)
  assume addresses: "\<forall>ip\<in>set (ss @ ms). valid ip"
  from addressed_cluster_starts [OF assms(1) addresses assms(2,3), of to_wire tablet_random hardware_concurrency random]
  obtain sls dms where start: "start_cluster valid to_wire tablet_random hardware_concurrency random cs ss ms =
      Inr (network_of cs ss ms, sls, dms)" "length sls = length ss" "length dms = length ms"
    "\<forall>dm\<in>set dms. get_all_endpoints (md_slaves (node_derived (rs_node (dm_state dm)))) = map (\<lambda>ip. EndpointId ip 0) ss"
    by auto
  have dist: "distinct ss" "distinct ms" "set ss \<inter> set ms = {}" using assms(1) by auto
  have ports: "slave_port cs \<noteq> master_port cs" "client_port cs \<noteq> master_port cs" using assms(2) by (simp_all add: ports_ok_def)
  have "\<forall>a\<in>set ss.
      (\<exists>h. network_of cs ss ms (a, slave_port cs) = Some h \<and> settled h = Inr (map (\<lambda>ip. EndpointId ip 0) ss)) \<and>
      (\<exists>h. network_of cs ss ms (a, master_port cs) = Some h \<and> settled h = Inr (map (\<lambda>ip. EndpointId ip 0) ms))"
    using ports dist(1,2) by (auto simp: network_of_def settled_mesh settled_waiting)
  moreover have "\<forall>a\<in>set ms.
      \<exists>h. network_of cs ss ms (a, master_port cs) = Some h \<and> settled h = Inr (map (\<lambda>ip. EndpointId ip 0) ms)"
    using dist(2,3) by (auto simp: network_of_def settled_mesh)
  moreover have "ss = map slave_address [0..<length ss] \<longrightarrow> slave_config_endpoints cs = map (\<lambda>ip. EndpointId ip 0) ss"
    by (auto simp: slave_config_endpoints_def assms(3) dest: arg_cong [where f = "map (\<lambda>ip. EndpointId ip 0)"])
  moreover have "ms = map master_address [0..<length ms] \<longrightarrow> master_config_endpoints cs = map (\<lambda>ip. EndpointId ip 0) ms"
    by (auto simp: master_config_endpoints_def assms(4) dest: arg_cong [where f = "map (\<lambda>ip. EndpointId ip 0)"])
  ultimately show "\<exists>net slaves masters.
    start_cluster valid to_wire tablet_random hardware_concurrency random cs ss ms = Inr (net, slaves, masters) \<and>
    length slaves = length ss \<and> length masters = length ms \<and>
    (\<forall>a\<in>set ss. (\<exists>h. net (a, slave_port cs) = Some h \<and> settled h = Inr (map (\<lambda>ip. EndpointId ip 0) ss)) \<and>
      (\<exists>h. net (a, master_port cs) = Some h \<and> settled h = Inr (map (\<lambda>ip. EndpointId ip 0) ms))) \<and>
    (\<forall>a\<in>set ms. \<exists>h. net (a, master_port cs) = Some h \<and> settled h = Inr (map (\<lambda>ip. EndpointId ip 0) ms)) \<and>
    (\<forall>dm\<in>set masters. get_all_endpoints (md_slaves (node_derived (rs_node (dm_state dm)))) = map (\<lambda>ip. EndpointId ip 0) ss) \<and>
    (ss = map slave_address [0..<length ss] \<longrightarrow> slave_config_endpoints cs = map (\<lambda>ip. EndpointId ip 0) ss) \<and>
    (ms = map master_address [0..<length ms] \<longrightarrow> master_config_endpoints cs = map (\<lambda>ip. EndpointId ip 0) ms)"
    using start by (intro exI [of _ "network_of cs ss ms"] exI [of _ sls] exI [of _ dms]) blast
next
  assume "2 \<le> length ss" "\<not> valid (hd ss)"
  then obtain a b ss' where "ss = a # b # ss'" "\<not> valid a"
    by (cases ss; cases "tl ss") auto
  then show "start_cluster valid to_wire tablet_random hardware_concurrency random cs ss ms = Inl SystemError"
    using named_cluster_fails [of cs a b valid] assms(1,2) by simp
qed

theorem documented_start_is_mesh_witness:
  "(\<exists>net slaves masters.
     start_cluster (\<lambda>_. True) (\<lambda>w. w) (\<lambda>_. ()) 4 () initialize_constants
       [''172.19.0.10'', ''172.19.0.11''] [''172.19.0.20'', ''172.19.0.21''] = Inr (net, slaves, masters) \<and>
     (\<exists>h. net (''172.19.0.10'', 1610) = Some h \<and> settled h = Inr (slave_config_endpoints initialize_constants)) \<and>
     (\<exists>h. net (''172.19.0.21'', 1810) = Some h \<and> settled h = Inr (master_config_endpoints initialize_constants))) \<and>
   start_cluster (\<lambda>name. hd name = CHR ''1'') (\<lambda>w. w) (\<lambda>_. ()) 4 () initialize_constants
     [''universal0'', ''universal1''] [''master0'', ''master1''] = Inl SystemError"
proof
  let ?ss = "[''172.19.0.10'', ''172.19.0.11'']" and ?ms = "[''172.19.0.20'', ''172.19.0.21'']"
  let ?cs = initialize_constants
  have cs: "ports_ok ?cs" "slave_port ?cs = 1610" "master_port ?cs = 1810"
    "unat (num_slave_servers ?cs) = 2" "unat (num_master_servers ?cs) = 2"
    by (simp_all add: ports_ok_def initialize_constants_def Constants_def)
  have addresses: "?ss = map slave_address [0..<length ?ss]" "?ms = map master_address [0..<length ?ms]"
    by (simp_all add: slave_address_def master_address_def decimal.simps)
  have "\<forall>ip\<in>set (?ss @ ?ms). True" "distinct (?ss @ ?ms)" by simp_all
  with documented_start_is_mesh [of ?ss ?ms ?cs "\<lambda>_. True" "\<lambda>w. w" "\<lambda>_. ()" 4 "()"] cs addresses
  obtain net slaves masters where start: "start_cluster (\<lambda>_. True) (\<lambda>w. w) (\<lambda>_. ()) 4 () ?cs ?ss ?ms =
      Inr (net, slaves, masters)"
    and s: "\<forall>a\<in>set ?ss. \<exists>h. net (a, slave_port ?cs) = Some h \<and> settled h = Inr (slave_config_endpoints ?cs)"
    and m: "\<forall>a\<in>set ?ms. \<exists>h. net (a, master_port ?cs) = Some h \<and> settled h = Inr (master_config_endpoints ?cs)"
    by (metis length_Cons list.size(3) numeral_2_eq_2)
  from s m cs(2,3) have
    "\<exists>h. net (''172.19.0.10'', 1610) = Some h \<and> settled h = Inr (slave_config_endpoints ?cs)"
    "\<exists>h. net (''172.19.0.21'', 1810) = Some h \<and> settled h = Inr (master_config_endpoints ?cs)"
    by simp_all
  with start show "\<exists>net slaves masters.
     start_cluster (\<lambda>_. True) (\<lambda>w. w) (\<lambda>_. ()) 4 () ?cs ?ss ?ms = Inr (net, slaves, masters) \<and>
     (\<exists>h. net (''172.19.0.10'', 1610) = Some h \<and> settled h = Inr (slave_config_endpoints ?cs)) \<and>
     (\<exists>h. net (''172.19.0.21'', 1810) = Some h \<and> settled h = Inr (master_config_endpoints ?cs))"
    by blast
  show "start_cluster (\<lambda>name. hd name = CHR ''1'') (\<lambda>w. w) (\<lambda>_. ()) 4 () ?cs
     [''universal0'', ''universal1''] [''master0'', ''master1''] = Inl SystemError"
    using documented_start_is_mesh [of "[''universal0'', ''universal1'']" "[''master0'', ''master1'']" ?cs
      "\<lambda>name. hd name = CHR ''1''" "\<lambda>w. w" "\<lambda>_. ()" 4 "()"] cs(1,4,5) by simp
qed

end
