(* ===== verification/TestClient.thy ===== *)
theory TestClient
  imports ClientRequestHandler Startup
begin

text \<open>
  The interactive client (src/src/testclient.cc): a line is split at its spaces; \<open>find\<close> asks a
  master for the group that has a key, \<open>insert\<close> sends a write to a slave. The lemmas show that the
  splitting loses nothing, and what happens to a second client: every client numbers its requests
  from 0, so its write is taken for the first client's.
\<close>

section \<open>Splitting a line\<close>

text \<open>\<open>message.find(" ")\<close>, \<open>npos\<close> being \<open>None\<close>; the loop erases what it has taken.\<close>

fun find_space :: "string \<Rightarrow> nat option" where
  "find_space [] = None"
| "find_space (c # cs) = (if c = CHR '' '' then Some 0 else map_option Suc (find_space cs))"

lemma find_space_Some:
  "find_space s = Some pos \<Longrightarrow>
     pos < length s \<and> s = take pos s @ CHR '' '' # drop (pos + 1) s \<and> CHR '' '' \<notin> set (take pos s)"
  by (induction s arbitrary: pos) (auto split: if_splits)

lemma find_space_None: "find_space s = None \<longleftrightarrow> CHR '' '' \<notin> set s"
  by (induction s) auto

function parse_input :: "string \<Rightarrow> string list" where
  "parse_input message =
     (case find_space message of
        None \<Rightarrow> [message]
      | Some pos \<Rightarrow> take pos message # parse_input (drop (pos + 1) message))"
  by pat_completeness auto

termination
  by (relation "measure length") (auto dest: find_space_Some)

declare parse_input.simps [simp del]

section \<open>The commands\<close>

datatype channel_end = ToMaster | ToSlave

definition wrap :: "client_message \<Rightarrow> message_wrapper" where
  "wrap m = ClientMessage m"

text \<open>
  A missing argument is reported and then read all the same, past the end of the vector. \<open>now\<close> is
  \<open>std::time\<close>, an \<open>int64\<close> stored in the wrapper of a \<open>uint64\<close>.
\<close>

definition client_command ::
  "nat \<Rightarrow> 64 word \<Rightarrow> string \<Rightarrow> (channel_end \<times> message_wrapper) option result" where
  "client_command request_id now line =
     (let parsed_output = parse_input line; command = parsed_output ! 0
      in if command = ''find'' then
           if length parsed_output < 4 then Inl UndefinedBehaviour
           else Inr (Some (ToMaster, wrap (FindKeyRangeRequest
             \<lparr>fk_database_id = parsed_output ! 1, fk_table_id = parsed_output ! 2, fk_key = parsed_output ! 3\<rparr>)))
         else if command = ''insert'' then
           if length parsed_output < 5 then Inl UndefinedBehaviour
           else Inr (Some (ToSlave, wrap (ClientRequest
             \<lparr>cr_request_id = decimal request_id, cr_request_type = WRITE,
              cr_database_id = parsed_output ! 1, cr_table_id = parsed_output ! 2, cr_key = parsed_output ! 3,
              cr_value = pb_string (parsed_output ! 4), cr_timestamp = pb_uint64 now\<rparr>)))
         else Inr None)"

text \<open>The main loop: one line after the other, each with the next number.\<close>

fun client_session ::
  "nat \<Rightarrow> (64 word \<times> string) list \<Rightarrow> (channel_end \<times> message_wrapper) list result" where
  "client_session request_id [] = Inr []"
| "client_session request_id ((now, line) # input) =
     rbind (client_command request_id now line) (\<lambda>sent.
     rbind (client_session (request_id + 1) input) (\<lambda>rest.
     Inr ((case sent of None \<Rightarrow> [] | Some m \<Rightarrow> [m]) @ rest)))"

text \<open>The program before its loop: it connects to a slave and to a master.\<close>

definition client_main ::
  "(string \<Rightarrow> bool) \<Rightarrow> constants \<Rightarrow> string \<Rightarrow> string list \<Rightarrow> 'w network \<Rightarrow> 'w network start_result" where
  "client_main valid cs machine argv net =
     (let args = parse_args argv
      in if length args < 2 then Inl (Broken UndefinedBehaviour)
         else
           sbind (socket_connect valid machine (args ! 0) (client_port cs) net)
             (socket_connect valid machine (args ! 1) (client_port cs)))"

section \<open>Lemmas\<close>

fun join :: "string list \<Rightarrow> string" where
  "join [] = []"
| "join [w] = w"
| "join (w # ws) = w @ CHR '' '' # join ws"

lemma parse_input_not_Nil [simp]: "parse_input s \<noteq> []"
  by (subst parse_input.simps) (simp split: option.split)

lemma join_Cons: "ws \<noteq> [] \<Longrightarrow> join (w # ws) = w @ CHR '' '' # join ws"
  by (cases ws) auto

lemma find_space_append: "CHR '' '' \<notin> set w \<Longrightarrow> find_space (w @ CHR '' '' # s) = Some (length w)"
  by (induction w) auto

lemma join_parse: "join (parse_input s) = s"
proof (induction s rule: parse_input.induct)
  case (1 s)
  show ?case
  proof (cases "find_space s")
    case None
    then show ?thesis by (simp add: parse_input.simps [of s])
  next
    case (Some pos)
    with 1 [OF Some] find_space_Some [OF Some] show ?thesis
      by (simp add: parse_input.simps [of s] join_Cons)
  qed
qed

lemma parse_words: "\<forall>w\<in>set (parse_input s). CHR '' '' \<notin> set w"
proof (induction s rule: parse_input.induct)
  case (1 s)
  show ?case
  proof (cases "find_space s")
    case None
    then have "CHR '' '' \<notin> set s" by (simp add: find_space_None)
    with None show ?thesis by (simp add: parse_input.simps [of s])
  next
    case (Some pos)
    with 1 [OF Some] find_space_Some [OF Some] show ?thesis
      by (simp add: parse_input.simps [of s])
  qed
qed

lemma parse_join: "ws \<noteq> [] \<Longrightarrow> \<forall>w\<in>set ws. CHR '' '' \<notin> set w \<Longrightarrow> parse_input (join ws) = ws"
proof (induction ws)
  case (Cons w ws)
  show ?case
  proof (cases "ws = []")
    case True
    with Cons.prems show ?thesis by (simp add: parse_input.simps [of w] find_space_None [THEN iffD2])
  next
    case False
    from Cons.prems(2) have "find_space (w @ CHR '' '' # join ws) = Some (length w)" by (intro find_space_append) simp
    with Cons False show ?thesis
      by (simp add: join_Cons parse_input.simps [of "w @ CHR '' '' # join ws"])
  qed
qed simp

lemma client_command_insert:
  "client_command n now line = Inr (Some (ToSlave, m)) \<Longrightarrow>
     \<exists>r. m = ClientMessage (ClientRequest r) \<and> cr_request_id r = decimal n \<and> cr_request_type r = WRITE"
  by (auto simp: client_command_def wrap_def Let_def split: if_splits)

section \<open>Properties\<close>

text \<open>
  Splitting and joining are inverse to each other. A line is the words it was split into, with
  one space between them; no word has a space in it; and any words without spaces come back.
\<close>

theorem parse_input_round_trip:
  "parse_input line = words \<longleftrightarrow> words \<noteq> [] \<and> (\<Union>w\<in>set words. set w) \<inter> {CHR '' ''} = {} \<and> join words = line"
  using parse_words [of line] join_parse [of line] parse_join [of words] by auto

text \<open>
  C18: the second client's write is lost. Two clients number their lines alike. When the write of one
  client's line \<open>n\<close> has been logged by a tablet, the task of the write of another client's line
  \<open>n\<close> answers \<open>SUCCESS\<close> at once: it proposes nothing and changes neither log nor store, whatever the
  second line says.
\<close>

theorem second_client_write_lost:
  assumes "client_command n now1 line1 = Inr (Some (ToSlave, ClientMessage (ClientRequest first)))"
    and "client_command n now2 line2 = Inr (Some (ToSlave, ClientMessage (ClientRequest second)))"
    and "request_id_map (node_derived (rs_node s)) (cr_request_id first) = Some index"
  shows "request_task to_wire pw provider rand rc second endpoint s =
      Inr (TERMINATE, respond to_wire endpoint \<lparr>response_value = None, response_code = SUCCESS\<rparr> s) \<and>
    rs_node (respond to_wire endpoint \<lparr>response_value = None, response_code = SUCCESS\<rparr> s) = rs_node s"
proof -
  from client_command_insert [OF assms(1)] client_command_insert [OF assms(2)] have
    "cr_request_id second = cr_request_id first" "cr_request_type second = WRITE" by simp_all
  with assms(3) show ?thesis by (simp add: request_task_def fulfilled_def respond_def)
qed

theorem second_client_write_lost_witness:
  "\<exists>d first second. client_command 0 1 ''insert d t k v'' = Inr (Some (ToSlave, ClientMessage (ClientRequest first))) \<and>
     client_command 0 2 ''insert d t x w'' = Inr (Some (ToSlave, ClientMessage (ClientRequest second))) \<and>
     rbind (request_entry first) (\<lambda>entry. on_write 0 entry \<lparr>kvs = Map.empty, request_id_map = Map.empty, owner = ()\<rparr>) = Inr d \<and>
     (\<exists>s'. request_task (\<lambda>w. w) (\<lambda>p. WrapperNotSet) (\<lambda>_ _. Inl UndefinedBehaviour) (\<lambda>r. (0, r)) 0 second (EndpointId ''c'' 0)
        \<lparr>rs_random = (),
         rs_node = \<lparr>node_paxos = MultiPaxosHandler, node_connections = \<lparr>channels = []\<rparr>, node_log = PaxosLog, node_derived = d\<rparr>,
         rs_clients = \<lparr>channels = []\<rparr>, rs_retry_counts = [0]\<rparr> = Inr (TERMINATE, s') \<and>
       kvs (node_derived (rs_node s')) ''x'' = None)"
proof -
  let ?r = "\<lambda>k v t. \<lparr>cr_request_id = ''0'', cr_request_type = WRITE, cr_database_id = ''d'', cr_table_id = ''t'',
    cr_key = k, cr_value = Some v, cr_timestamp = Some t\<rparr>"
  have sent: "client_command 0 1 ''insert d t k v'' = Inr (Some (ToSlave, ClientMessage (ClientRequest (?r ''k'' ''v'' 1))))"
    "client_command 0 2 ''insert d t x w'' = Inr (Some (ToSlave, ClientMessage (ClientRequest (?r ''x'' ''w'' 2))))"
    by (simp_all add: client_command_def parse_input.simps wrap_def decimal.simps pb_string_def pb_uint64_def)
  let ?d0 = "\<lparr>kvs = Map.empty, request_id_map = Map.empty, owner = ()\<rparr>"
  obtain d where d: "rbind (request_entry (?r ''k'' ''v'' 1)) (\<lambda>entry. on_write 0 entry ?d0) = Inr d"
    "request_id_map d ''0'' = Some 0" "kvs d ''x'' = None"
    by (simp add: request_entry_def on_write_def kv_write_def map_insert_def pb_string_def pb_uint64_def)
  let ?s = "\<lparr>rs_random = (),
    rs_node = \<lparr>node_paxos = MultiPaxosHandler, node_connections = \<lparr>channels = []\<rparr>, node_log = PaxosLog, node_derived = d\<rparr>,
    rs_clients = \<lparr>channels = []\<rparr>, rs_retry_counts = [0]\<rparr>"
  from second_client_write_lost [OF sent, of ?s 0 "\<lambda>w. w" "\<lambda>p. WrapperNotSet" "\<lambda>_ _. Inl UndefinedBehaviour" "\<lambda>r. (0, r)" 0 "EndpointId ''c'' 0"]
    sent d show ?thesis
    by (intro exI [of _ d] exI [of _ "?r ''k'' ''v'' 1"] exI [of _ "?r ''x'' ''w'' 2"]) (simp add: respond_def)
qed

end
