(* ===== verification/Printing.thy ===== *)
theory Printing
  imports Startup
begin

text \<open>
  What the servers print and hash: the debug strings of the log, the store and the heartbeats
  (PaxosLog.cc, KVStore.cc and HeartbeatTracker.cc) with \<open>indent\<close> (src/src/utils/stringutils.cc),
  and the hash functions of the keys of unordered maps. A map without an order is printed in the
  order of its iteration, an argument; \<open>debug\<close> is the \<open>DebugString\<close> of the generated code.
\<close>

section \<open>Debug strings\<close>

abbreviation newline :: string where
  "newline \<equiv> [CHR 0x0A]"

text \<open>
  The loop runs over the positions \<open>j\<close> of the string; \<open>i\<close> is where the current line starts. The
  servers indent by 4 (a negative number would throw).
\<close>

fun indent_loop :: "string \<Rightarrow> nat \<Rightarrow> nat \<Rightarrow> nat list \<Rightarrow> string" where
  "indent_loop s n i [] = []"
| "indent_loop s n i (j # js) =
     (if s ! j = CHR 0x0A
      then replicate n (CHR '' '') @ take (j - i) (drop i s) @ newline @ indent_loop s n (j + 1) js
      else indent_loop s n i js)"

definition indent :: "string \<Rightarrow> nat \<Rightarrow> string" where
  "indent s n = indent_loop s n 0 [0..<length s]"

definition log_debug_string :: "(paxos_log_entry \<Rightarrow> string) \<Rightarrow> (index_t \<times> paxos_log_entry) list \<Rightarrow> string" where
  "log_debug_string debug entries =
     ''PaxosLog: {'' @ newline @
     concat (map (\<lambda>(index, entry).
       ''  '' @ ''index: '' @ decimal (unat index) @ newline @
       ''  '' @ ''value: {'' @ newline @
       indent (debug entry) 4 @
       ''  }'' @ newline) entries) @
     ''}'' @ newline"

text \<open>\<open>_mvkvs\<close> is a \<open>std::map\<close>: the keys come in their order.\<close>

definition kv_debug_string :: "kvstore \<Rightarrow> string" where
  "kv_debug_string kv =
     ''KVStore: {'' @ newline @
     concat (map (\<lambda>key. let entry = the (kv key) in
       ''  '' @ ''key: '' @ key @ newline @
       ''  '' @ ''value: {'' @ newline @
       ''    '' @ ''lat: '' @ decimal (unat (lat entry)) @ newline @
       ''    '' @ ''versions: ['' @ newline @
       concat (map (\<lambda>version.
         ''      '' @ ''{ value: '' @ ve_value version @ '', timestamp: '' @ decimal (unat (ve_timestamp version)) @ '' }'' @ newline)
         (versions entry)) @
       ''    '' @ '']'' @ newline @
       ''  '' @ ''}'' @ newline) (sorted_list_of_set (dom kv))) @
     ''}'' @ newline"

definition heartbeat_debug_string :: "heartbeat_count \<Rightarrow> string" where
  "heartbeat_debug_string hc =
     ''HeartbeatTracker: {'' @ newline @
     concat (map (\<lambda>(endpoint, count).
       ''  {'' @ ip_string endpoint @ '', '' @ decimal (unat count) @ ''}'' @ newline) hc) @
     ''}'' @ newline"

text \<open>\<open>indent\<close> indents every complete line; what follows the last newline is dropped.\<close>

definition unlines :: "string list \<Rightarrow> string" where
  "unlines ls = concat (map (\<lambda>l. l @ newline) ls)"

lemma indent_loop_skip:
  assumes "\<forall>j\<in>set js. s ! j \<noteq> CHR 0x0A"
  shows "indent_loop s n i (js @ js') = indent_loop s n i js'"
  using assms by (induction js) auto

lemma indent_loop_lines:
  assumes "s = pre @ unlines ls @ rest" "\<forall>l\<in>set (ls @ [rest]). CHR 0x0A \<notin> set l"
  shows "indent_loop s n (length pre) [length pre..<length s] = unlines (map (\<lambda>l. replicate n (CHR '' '') @ l) ls)"
  using assms
proof (induction ls arbitrary: pre)
  case Nil
  have "\<forall>j\<in>set [length pre..<length s]. s ! j \<noteq> CHR 0x0A"
  proof
    fix j assume "j \<in> set [length pre..<length s]"
    then have "s ! j = rest ! (j - length pre)" "j - length pre < length rest"
      using Nil(1) by (auto simp: unlines_def nth_append)
    then have "s ! j \<in> set rest" by simp
    with Nil(2) show "s ! j \<noteq> CHR 0x0A" by auto
  qed
  from indent_loop_skip [OF this, of n "length pre" "[]"] show ?case by (simp add: unlines_def)
next
  case (Cons l ls)
  let ?i = "length pre" and ?j = "length pre + length l"
  have s: "s = (pre @ l @ newline) @ unlines ls @ rest" using Cons.prems(1) by (simp add: unlines_def)
  then have len: "length s = ?j + 1 + length (unlines ls @ rest)" by simp
  have "[?i..<length s] = [?i..<?j] @ ?j # [Suc ?j..<length s]"
  proof -
    have "[?i..<?j + (length s - ?j)] = [?i..<?j] @ [?j..<?j + (length s - ?j)]" by (rule upt_add_eq_append) simp
    moreover have "?j < length s" using len by simp
    ultimately show ?thesis by (simp add: upt_conv_Cons)
  qed
  moreover have "\<forall>j\<in>set [?i..<?j]. s ! j \<noteq> CHR 0x0A"
  proof
    fix j assume "j \<in> set [?i..<?j]"
    then have "s ! j = l ! (j - ?i)" "j - ?i < length l" using s by (auto simp: nth_append)
    then have "s ! j \<in> set l" by simp
    with Cons.prems(2) show "s ! j \<noteq> CHR 0x0A" by auto
  qed
  moreover have "s ! ?j = CHR 0x0A" "take (?j - ?i) (drop ?i s) = l" using s by (simp_all add: nth_append)
  moreover have "indent_loop s n (length (pre @ l @ newline)) [length (pre @ l @ newline)..<length s] =
      unlines (map (\<lambda>l. replicate n (CHR '' '') @ l) ls)"
    by (rule Cons.IH [OF s]) (use Cons.prems(2) in simp)
  ultimately show ?case by (simp add: indent_loop_skip) (simp add: unlines_def)
qed

lemma indent_lines:
  "\<forall>l\<in>set (ls @ [rest]). CHR 0x0A \<notin> set l \<Longrightarrow>
     indent (unlines ls @ rest) n = unlines (map (\<lambda>l. replicate n (CHR '' '') @ l) ls)"
  using indent_loop_lines [of "unlines ls @ rest" "[]" ls rest n] by (simp add: indent_def)

section \<open>Hash functions\<close>

text \<open>
  \<open>boost::hash_value\<close> of strings and numbers and \<open>boost::hash_combine\<close> are arguments; a
  \<open>std::size_t\<close> has 64 bits.
\<close>

definition endpoint_hash ::
  "(string \<Rightarrow> 64 word) \<Rightarrow> (32 word \<Rightarrow> 64 word) \<Rightarrow> (64 word \<Rightarrow> 64 word \<Rightarrow> 64 word) \<Rightarrow> endpoint_id \<Rightarrow> 64 word" where
  "endpoint_hash hash_string hash_int hash_combine key =
     hash_combine (hash_combine 0 (hash_string (ip_string key))) (hash_int (port key))"

definition slave_group_hash :: "(string \<Rightarrow> 64 word) \<Rightarrow> (64 word \<Rightarrow> 64 word \<Rightarrow> 64 word) \<Rightarrow> slave_group_id \<Rightarrow> 64 word" where
  "slave_group_hash hash_string hash_combine key = hash_combine 0 (hash_string (group_string key))"

definition range_hash :: "(string \<Rightarrow> 64 word) \<Rightarrow> (64 word \<Rightarrow> 64 word \<Rightarrow> 64 word) \<Rightarrow> key_space_range \<Rightarrow> 64 word" where
  "range_hash hash_string hash_combine key =
     (let seed = hash_combine (hash_combine 0 (hash_string (database_id key))) (hash_string (table_id key));
          seed1 = (case start_key key of None \<Rightarrow> seed | Some k \<Rightarrow> hash_combine seed (hash_string k))
      in case end_key key of None \<Rightarrow> seed1 | Some k \<Rightarrow> hash_combine seed1 (hash_string k))"

text \<open>
  What an unordered map needs: equal keys have equal hashes. The converse fails for ranges whatever
  the library's functions are: below a key and from that key on are not told apart.
\<close>

lemma hash_respects_eq:
  "endpoint_eq a b \<Longrightarrow> endpoint_hash hs hi hc a = endpoint_hash hs hi hc b"
  "slave_group_eq g g' \<Longrightarrow> slave_group_hash hs hc g = slave_group_hash hs hc g'"
  "range_eq r r' \<Longrightarrow> range_hash hs hc r = range_hash hs hc r'"
  by (simp_all add: endpoint_hash_def slave_group_hash_def range_hash_def range_eq_def)

lemma halves_collide:
  "range_hash hs hc \<lparr>database_id = d, table_id = t, start_key = Some k, end_key = None\<rparr> =
     range_hash hs hc \<lparr>database_id = d, table_id = t, start_key = None, end_key = Some k\<rparr>"
  by (simp add: range_hash_def)

end
