(* ===== verification/WellFormed.thy ===== *)
theory WellFormed
  imports SlaveSteps
begin

text \<open>
  The data a slave holds is always well formed: connections with distinct endpoints and bounded
  queues, instances filed under their own index whose votes and promises stay within a majority,
  logs whose free indices are the holes of their maps, timelines in order, schedulers and queues
  with one job at work. The locale \<open>node_types\<close> proves it once for every kind of server from what
  the callbacks of its log keep.
\<close>

section \<open>Connections\<close>

fun channel_ok :: "'w channel \<Rightarrow> bool" where
  "channel_ok (ChannelImpl q) \<longleftrightarrow> length q \<le> MAX_MESSAGES_QUEUE_SIZE"
| "channel_ok (SelfChannel listening q) \<longleftrightarrow> listening \<or> q = []"

definition connections_ok :: "'w connections \<Rightarrow> bool" where
  "connections_ok c \<longleftrightarrow> distinct (get_all_endpoints c) \<and> (\<forall>(e, ch)\<in>set (channels c). channel_ok ch)"

lemma channel_ok_queue_send: "channel_ok ch \<Longrightarrow> channel_ok (queue_send m ch)"
  by (cases ch) auto

lemma connections_ok_update:
  assumes "connections_ok c" "\<And>ch. channel_ok ch \<Longrightarrow> channel_ok (f ch)"
  shows "connections_ok (c\<lparr>channels := update_channel e f (channels c)\<rparr>)"
proof -
  have "channel_ok ch" if "(k, ch) \<in> set (update_channel e f (channels c))" for k ch
    using that assms by (auto simp: update_channel_def connections_ok_def split: if_splits)
  with assms(1) show ?thesis by (auto simp: connections_ok_def get_all_endpoints_def)
qed

lemma connections_ok_send [simp]: "connections_ok c \<Longrightarrow> connections_ok (send e m c)"
  by (auto simp: send_def intro: connections_ok_update channel_ok_queue_send)

lemma connections_ok_broadcast [simp]: "connections_ok c \<Longrightarrow> connections_ok (broadcast es m c)"
  by (induction es arbitrary: c) auto

lemma connections_ok_emit [simp]: "connections_ok c \<Longrightarrow> connections_ok (emit to_wire h out c)"
  by (auto simp: emit_def simp del: broadcast.simps split: option.split prod.split)

lemma connections_ok_respond [simp]: "connections_ok c \<Longrightarrow> connections_ok (client_respond to_wire e r c)"
  by (auto simp: client_respond_def intro: connections_ok_update channel_ok_queue_send split: option.split)

lemma connections_ok_step: "connection_step ev c = Inr c' \<Longrightarrow> connections_ok c \<Longrightarrow> connections_ok c'"
proof (cases ev)
  case (Closed e)
  assume "connection_step ev c = Inr c'" "connections_ok c"
  with Closed show ?thesis
    by (auto simp: connections_ok_def on_close_Inr get_all_endpoints_def distinct_map_filter)
next
  case (Written e)
  have "channel_ok (pop_message ch)" if "channel_ok ch" for ch :: "'a channel" using that by (cases ch) auto
  moreover assume "connection_step ev c = Inr c'" "connections_ok c"
  ultimately show ?thesis using Written by (auto simp: deliver_from_def intro: connections_ok_update)
qed (auto simp: accepted_Inr connections_ok_def get_all_endpoints_def)

section \<open>Instances\<close>

text \<open>
  An acceptor has voted in no round above the one it promised; a proposer has one list of promises,
  no longer than a majority, for every proposal; a learner has counted at least one vote and at most
  a majority, and has learned exactly when some count is a majority.
\<close>

definition instance_ok :: "constants \<Rightarrow> index_t \<Rightarrow> single_paxos_handler \<Rightarrow> bool" where
  "instance_ok cs i h \<longleftrightarrow>
     paxos_log_index h = i \<and> vrnd_of h \<le> rnd_of h \<and> dom (promises_of h) = dom (proposal_of h) \<and>
     (\<forall>r ps. promises_of h r = Some ps \<longrightarrow> length ps \<le> unat (majority_threshold cs)) \<and>
     (\<forall>r v n. votes_of h r = Some (v, n) \<longrightarrow> 0 < n \<and> n \<le> majority_threshold cs) \<and>
     (learned (learner_state h) \<longleftrightarrow> (\<exists>r v. votes_of h r = Some (v, majority_threshold cs)))"

lemma instance_ok_new: "instance_ok cs i (SinglePaxosHandler i es)"
  by (auto simp: instance_ok_def dom_def) (simp add: SinglePaxosHandler_def PaxosLearnerState_def)

lemma role_learned [simp]:
  "learner_state (with_acceptor a h) = learner_state h" "learner_state (with_promises r ps h) = learner_state h"
  "learned (learner_state (with_learned b lv h)) = b"
  "paxos_log_index (with_acceptor a h) = paxos_log_index h" "paxos_log_index (with_promises r ps h) = paxos_log_index h"
  "paxos_log_index (with_learned b lv h) = paxos_log_index h"
  by (simp_all add: with_acceptor_def with_promises_def with_learned_def)

lemma instance_ok_propose:
  "instance_ok cs i h \<Longrightarrow> instance_ok cs i (new_state (react_propose draw e h))"
proof -
  have "learner_state (new_state (react_propose draw e h)) = learner_state h"
    by (simp add: react_propose_def Let_def)
  moreover assume "instance_ok cs i h"
  ultimately show ?thesis
    by (auto simp: instance_ok_def map_insert_apply dom_def split: if_splits)
qed

lemma instance_ok_promise:
  assumes "react_promise cs r pv h = Inr x" "instance_ok cs i h"
  shows "instance_ok cs i (new_state x)"
proof -
  have new: "instance_ok cs i (with_promises r (ps @ [pv]) h)"
    if "promises_of h r = Some ps" "length ps < unat (majority_threshold cs)" for ps
    using assms(2) that by (auto simp: instance_ok_def)
  from assms new show ?thesis
    by (auto simp: react_promise_def not_le split: option.splits if_splits)
qed

lemma instance_ok_learn:
  assumes "instance_ok cs i h"
  shows "instance_ok cs i (new_state (react_learn cs r v h))"
proof (cases "learned (learner_state h)")
  case False
  let ?m = "majority_threshold cs"
  obtain u n where un: "(case votes_of h r of None \<Rightarrow> (v, 0) | Some x \<Rightarrow> x) = (u, n)" by fastforce
  have none: "votes_of h q \<noteq> Some (w, ?m)" for q w using assms False by (auto simp: instance_ok_def)
  show ?thesis
  proof (cases "?m \<le> n")
    case True
    with assms False un show ?thesis by (simp add: react_learn_def)
  next
    case less: False
    then have "unat (n + 1) = unat n + 1" using unat_succ [of n ?m] by simp
    with less have step: "0 < n + 1" "n + 1 \<le> ?m" by (simp_all add: word_less_nat_alt word_le_nat_alt)
    have "instance_ok cs i (with_learned (n + 1 = ?m) ((votes_of h)(r \<mapsto> (u, n + 1))) h)"
      using assms step none unfolding instance_ok_def by auto
    with False less un show ?thesis by (simp add: react_learn_def)
  qed
qed (use assms in \<open>simp add: react_learn_def\<close>)

lemma instance_ok_acceptor:
  "instance_ok cs i h \<Longrightarrow> vr \<le> r \<Longrightarrow> instance_ok cs i (with_acceptor (r, vr, v) h)"
  by (simp add: instance_ok_def)

lemma instance_ok_react:
  assumes "react cs src m h = Inr x" "instance_ok cs i h"
  shows "instance_ok cs i (new_state x)"
proof (cases m)
  case (Promise r vr vv)
  with assms show ?thesis by (auto intro: instance_ok_promise)
next
  case (Learn r v)
  with assms instance_ok_learn show ?thesis by auto
next
  case (Prepare r)
  have "vrnd_of h \<le> rnd_of h" using assms(2) by (simp add: instance_ok_def)
  then have "vrnd_of h \<le> r" if "rnd_of h < r" using that by simp
  with Prepare assms instance_ok_acceptor [OF assms(2), of "vrnd_of h" r "vval_of h"] show ?thesis
    by (auto split: if_splits)
next
  case (Accept r v)
  with assms instance_ok_acceptor [OF assms(2), of r r v] show ?thesis by (auto split: if_splits)
qed (use assms in auto)

section \<open>Nodes\<close>

definition paxos_node_ok :: "constants \<Rightarrow> ('w, 's) paxos_node \<Rightarrow> bool" where
  "paxos_node_ok cs nd \<longleftrightarrow>
     (\<forall>i h. paxos_instances (node_paxos nd) i = Some h \<longrightarrow> instance_ok cs i h) \<and>
     connections_ok (node_connections nd) \<and> log_inv (node_log nd)"

text \<open>\<open>P\<close> is what the callbacks of the log keep of the state they change.\<close>

locale node_types =
  fixes cbs :: "content_case \<Rightarrow> 's log_callback list"
    and P :: "'s \<Rightarrow> bool"
  assumes P_apply: "apply_entry cbs i e d = Inr d' \<Longrightarrow> i \<noteq> - 1 \<Longrightarrow> P d \<Longrightarrow> P d'"
begin

definition node_typed :: "constants \<Rightarrow> ('w, 's) paxos_node \<Rightarrow> bool" where
  "node_typed cs nd \<longleftrightarrow> paxos_node_ok cs nd \<and> callbacks (node_log nd) = cbs \<and> P (node_derived nd)"

lemma set_entry_typed:
  assumes "set_entry i e (pl, d) = Inr (pl', d')" "i \<noteq> - 1" "log_inv pl" "callbacks pl = cbs" "P d"
  shows "log_inv pl' \<and> callbacks pl' = cbs \<and> P d'"
proof -
  from assms(1) have pl': "pl' = store_entry (i, e) pl"
    and app: "apply_range cbs (log pl') (first_free pl) (first_free pl') d = Inr d'"
    unfolding set_entry_store [OF assms(3,2)] assms(4) by (auto simp: rbind_eq_Inr)
  have "P d'"
  proof (rule rfold_invariant [OF app [unfolded apply_range_def]])
    fix k s s'
    assume k: "k \<in> set (word_upt (first_free pl) (first_free pl'))" and s: "P s"
      and step: "apply_entry cbs k (the (log pl' k)) s = Inr s'"
    from k have "k < first_free pl'" by simp
    then have "k \<noteq> - 1" by (metis word_order.extremum_strict)
    with step s show "P s'" by (blast intro: P_apply)
  qed (rule assms(5))
  with assms(2-4) show ?thesis by (simp add: pl' store_entry_inv)
qed

lemma sync_response_typed:
  assumes "handle_sync_response response (pl, d) = Inr (pl', d')" "log_inv pl" "callbacks pl = cbs" "P d"
  shows "log_inv pl' \<and> callbacks pl' = cbs \<and> P d'"
proof -
  let ?Q = "\<lambda>x. log_inv (fst x) \<and> callbacks (fst x) = cbs \<and> P (snd x)"
  have "?Q (pl', d')"
  proof (rule rfold_invariant [OF assms(1) [unfolded handle_sync_response_def]])
    fix ie :: "32 word \<times> paxos_log_entry" and x x'
    assume x: "?Q x" and step: "(case ie of (i, e) \<Rightarrow> set_entry (ucast i) e) x = Inr x'"
    obtain i e pl0 d0 pl1 d1 where [simp]: "ie = (i, e)" "x = (pl0, d0)" "x' = (pl1, d1)"
      by (cases ie; cases x; cases x') auto
    from step x show "?Q x'" using set_entry_typed [of "ucast i" e pl0 d0 pl1 d1] by simp
  qed (use assms(2-4) in simp)
  then show ?thesis by simp
qed

lemma apply_reaction_typed:
  assumes "apply_reaction to_wire i h x nd = Inr nd'" "node_typed cs nd"
    and "paxos_log_index h = i" "instance_ok cs i (new_state x)" "i \<noteq> - 1 \<or> decided x = None"
  shows "node_typed cs nd'"
proof -
  from assms(1) obtain pl d where
    set: "(case decided x of None \<Rightarrow> Inr (node_log nd, node_derived nd)
           | Some v \<Rightarrow> set_entry i v (node_log nd, node_derived nd)) = Inr (pl, d)"
    and nd': "nd' = put_instance i (new_state x) (nd\<lparr>node_connections :=
        emit to_wire h (outgoing x) (node_connections nd), node_log := pl, node_derived := d\<rparr>)"
    unfolding apply_reaction_def assms(3) by (auto simp: rbind_eq_Inr)
  have "log_inv pl \<and> callbacks pl = cbs \<and> P d"
  proof (cases "decided x")
    case (Some v)
    with set assms(2,5) show ?thesis
      by (intro set_entry_typed [of i v "node_log nd" "node_derived nd"]) (auto simp: node_typed_def paxos_node_ok_def)
  qed (use set assms(2) in \<open>simp add: node_typed_def paxos_node_ok_def\<close>)
  with assms(2,4) show ?thesis by (auto simp: node_typed_def paxos_node_ok_def nd')
qed

lemma instance_of_typed:
  "node_typed cs nd \<Longrightarrow> instance_of (config_provider get) i nd = Inr h \<Longrightarrow> instance_ok cs i h"
  by (auto simp: node_typed_def paxos_node_ok_def instance_of_def config_provider_def rbind_eq_Inr instance_ok_new
      split: option.splits)

lemma propose_typed:
  assumes "multi_propose to_wire (config_provider get) draw e nd = Inr nd'" "node_typed cs nd"
  shows "node_typed cs nd'"
proof -
  from assms(1) obtain i h where h: "instance_of (config_provider get) i nd = Inr h"
    "apply_reaction to_wire i h (react_propose draw e h) nd = Inr nd'"
    by (auto simp: multi_propose_react rbind_eq_Inr)
  have "instance_ok cs i h" by (rule instance_of_typed [OF assms(2) h(1)])
  then show ?thesis
    by (intro apply_reaction_typed [OF h(2) assms(2)]) (simp_all add: instance_ok_propose, simp add: instance_ok_def)
qed

lemma paxos_message_typed:
  assumes "handle_incoming_message to_wire cs (config_provider get) endpoint m nd = Inr nd'" "node_typed cs nd"
  shows "node_typed cs nd'"
proof -
  let ?i = "ucast (paxos_index m) :: index_t"
  from assms(1) obtain h x where h: "instance_of (config_provider get) ?i nd = Inr h"
    "react cs endpoint (paxos_payload m) h = Inr x" "apply_reaction to_wire ?i h x nd = Inr nd'"
    by (auto simp: handle_incoming_message_react rbind_eq_Inr)
  have "instance_ok cs ?i h" by (rule instance_of_typed [OF assms(2) h(1)])
  then show ?thesis
    by (intro apply_reaction_typed [OF h(3) assms(2)] instance_ok_react [OF h(2)])
      (simp_all, simp add: instance_ok_def)
qed

lemma sync_message_typed:
  "handle_sync_message to_wire endpoint m nd = Some (Inr nd') \<Longrightarrow> node_typed cs nd \<Longrightarrow> node_typed cs nd'"
  by (cases m)
    (auto simp: handle_sync_message_def handle_sync_request_def rbind_eq_Inr node_typed_def paxos_node_ok_def
      dest: sync_response_typed)

lemma sync_timer_typed:
  "sync_timer to_wire get nd = Inr nd' \<Longrightarrow> node_typed cs nd \<Longrightarrow> node_typed cs nd'"
  by (auto simp: sync_timer_def syncing_callback_def rbind_eq_Inr node_typed_def paxos_node_ok_def
      simp del: broadcast.simps)

lemma node_typed_connections:
  "node_typed cs nd \<Longrightarrow> connections_ok c \<Longrightarrow> node_typed cs (nd\<lparr>node_connections := c\<rparr>)"
  by (simp add: node_typed_def paxos_node_ok_def)

lemma node_typed_derived:
  "node_typed cs nd \<Longrightarrow> P d \<Longrightarrow> node_typed cs (nd\<lparr>node_derived := d\<rparr>)"
  by (simp add: node_typed_def paxos_node_ok_def)

end

section \<open>Tablets\<close>

lemma tablet_callbacks_timeline:
  assumes "apply_entry tablet_callbacks i e d = Inr d'" "i \<noteq> - 1" "timeline_inv (owner d)"
  shows "timeline_inv (owner d')"
proof -
  consider "owner d' = owner d" | "on_reconfig_started i e (owner d) = Inr (owner d')"
    using assms(1)
    by (auto simp: tablet.apply_request_entry on_read_def on_write_def timeline_step_def Let_def rbind_eq_Inr
        split: if_splits prod.splits)
  then show ?thesis
    by cases (use assms(2,3) in \<open>auto intro: timeline_inv_on_reconfig_started\<close>)
qed

interpretation tablet_types: node_types tablet_callbacks "\<lambda>d. timeline_inv (owner d)"
  by unfold_locales (rule tablet_callbacks_timeline)

definition tablet_typed :: "constants \<Rightarrow> ('w, 'r) tablet_participant \<Rightarrow> bool" where
  "tablet_typed cs tp \<longleftrightarrow>
     tablet_types.node_typed cs (rs_node (tp_state tp)) \<and> connections_ok (rs_clients (tp_state tp))"

lemma tablet_typedD:
  "tablet_typed cs tp \<Longrightarrow>
     tablet_types.node_typed cs (rs_node (tp_state tp)) \<and> connections_ok (rs_clients (tp_state tp))"
  by (simp add: tablet_typed_def)

lemma tablet_typed_update [simp]:
  "tablet_typed cs (tp\<lparr>tp_scheduler := a\<rparr>) = tablet_typed cs tp"
  "tablet_typed cs (with_node nd tp) \<longleftrightarrow> tablet_types.node_typed cs nd \<and> connections_ok (rs_clients (tp_state tp))"
  "tablet_typed cs (tp\<lparr>tp_async_queue := q, tp_state := s\<rparr>) \<longleftrightarrow>
     tablet_types.node_typed cs (rs_node s) \<and> connections_ok (rs_clients s)"
  by (simp_all add: tablet_typed_def with_node_def)

lemma TabletParticipant_typed:
  assumes "connections_ok slaves" "connections_ok clients"
  shows "tablet_typed cs (TabletParticipant random slaves clients tid)"
  using assms tablet_log_inv
  by (auto simp: tablet_typed_def TabletParticipant_def tablet_types.node_typed_def paxos_node_ok_def
      MultiPaxosHandler_def tablet_callbacks_def [symmetric] tablet_initial_def intro: timeline_inv_PaxosConfigManager)

lemma request_task_typed:
  assumes "request_task to_wire pw (config_provider owner) rand rc message endpoint s = Inr (w, s')"
    and "tablet_types.node_typed cs (rs_node s)" "connections_ok (rs_clients s)"
  shows "tablet_types.node_typed cs (rs_node s') \<and> connections_ok (rs_clients s')"
proof (cases "w = TERMINATE")
  case True
  have "ClientRequestHandler.WAIT_FOR_PAXOS \<noteq> TERMINATE"
    by (simp add: ClientRequestHandler.WAIT_FOR_PAXOS_def TERMINATE_def)
  with True assms(1) obtain r s1 where s': "s' = respond to_wire endpoint r s1"
    and "s1 = s \<or> (\<exists>index. fulfilled message index s = Inr (r, s1))"
    by (auto simp: request_task_def rbind_eq_Inr split: option.splits if_splits)
  then have "tablet_types.node_typed cs (rs_node s1) \<and> connections_ok (rs_clients s1)"
    using assms(2,3) by (auto dest!: fulfilled_state simp: tablet_types.node_typed_def paxos_node_ok_def)
  with s' show ?thesis by (simp add: respond_def)
next
  case False
  from task_proposes [OF assms(1) False] obtain e s1 where
    p: "request_propose pw (config_provider owner) rand e s = Inr s1"
    "s' = s1\<lparr>rs_retry_counts := (rs_retry_counts s1)[rc := rs_retry_counts s1 ! rc + 1]\<rparr>" by blast
  from request_propose_node [OF p(1)] obtain draw where
    "multi_propose pw (config_provider owner) draw e (rs_node s) = Inr (rs_node s1)" "rs_clients s1 = rs_clients s" by blast
  with assms(2,3) p(2) show ?thesis by (auto intro: tablet_types.propose_typed)
qed

lemma tablet_handle_typed:
  assumes "tablet_handle to_wire parse rand cs m tp = Some (Inr tp')" "tablet_typed cs tp"
  shows "tablet_typed cs tp'"
  using assms tablet_typedD [OF assms(2)]
  by (auto simp: tablet_handle_def handle_request_def Let_def rbind_eq_Inr
      intro: tablet_types.paxos_message_typed tablet_types.sync_message_typed
      split: message_wrapper.splits client_message.splits tablet_payload.splits)

lemma tablet_step_typed:
  assumes "tablet_step to_wire parse rand cs ev tp = Some (Inr tp')" "tablet_typed cs tp"
    and "tablet_inv to_wire rand init tp"
  shows "tablet_typed cs tp'"
proof (cases ev)
  case HandleMessage
  with assms(1,2) show ?thesis
    by (auto simp: rbind_eq_Inr split: list.splits dest: tablet_handle_typed)
next
  case RunTask
  show ?thesis
  proof (cases "scheduled_runs (tp_async_queue tp) = []")
    case False
    from RunTask False assms(1) obtain q s where qs: "fire_run (tp_async_queue tp, tp_state tp) = Inr (q, s)"
      "tp' = tp\<lparr>tp_async_queue := q, tp_state := s\<rparr>" by (auto simp: rbind_eq_Inr)
    from assms(3) obtain ts where ts: "queue_callbacks (tp_async_queue tp) = request_tasks to_wire rand (tp_tablet_id tp) ts"
      by (auto simp: tablet_inv_def)
    from fire_run_tasks [OF qs(1) ts [unfolded request_tasks_def]] obtain t w where
      t: "(case t of (rc, message, endpoint) \<Rightarrow> request_task to_wire (\<lambda>p. to_wire (tablet_paxos_wrapper (tp_tablet_id tp) p))
        (config_provider owner) rand rc message endpoint) (tp_state tp) = Inr (w, s)" by metis
    obtain rc message endpoint where "t = (rc, message, endpoint)" by (cases t)
    with t assms(2) qs(2) show ?thesis by (auto simp: tablet_typed_def dest: request_task_typed)
  qed (use RunTask assms in simp)
next
  case SyncTimer
  with assms(1) tablet_typedD [OF assms(2)] show ?thesis
    by (auto simp: rbind_eq_Inr intro: tablet_types.sync_timer_typed)
qed (use assms in auto)

section \<open>Slaves\<close>

definition slave_data_ok :: "constants \<Rightarrow> ('w, 'r) slave_derived \<Rightarrow> bool" where
  "slave_data_ok cs d \<longleftrightarrow>
     timeline_inv (sd_timeline d) \<and> connections_ok (sd_masters d) \<and> connections_ok (sd_slaves d) \<and>
     (\<forall>(tid, tp)\<in>set (sd_tablets d). tablet_typed cs tp)"

lemma slave_callbacks_typed:
  assumes "apply_entry (slave_callbacks to_wire (production_provider random clients)) i e d = Inr d'" "i \<noteq> - 1"
    and "slave_data_ok cs d" "connections_ok clients"
  shows "slave_data_ok cs d'"
proof (cases e)
  case (KeySpaceChanged rs g)
  with assms(1) obtain tps threads where
    tps: "tp_key_space_change (production_provider random clients (sd_slaves d)) (map convert_range rs)
      (sd_tablets d, sd_threads d) = Inr (tps, threads)"
    and d': "d' = d\<lparr>sd_ranges := map convert_range rs, sd_generation := g, sd_tablets := tps, sd_threads := threads,
       sd_masters := broadcast [get_all_endpoints (sd_masters d) ! 0] (to_wire (key_space_changed_message g)) (sd_masters d)\<rparr>"
    by (auto simp: apply_entry_slave on_key_space_changed_Inr simp del: broadcast.simps)
  have "tablet_typed cs tp" if "production_provider random clients (sd_slaves d) r c = Inr (tp, c')" for r c tp c'
    using that assms(3,4) TabletParticipant_typed
    by (auto simp: production_provider_def rbind_eq_Inr slave_data_ok_def)
  with key_space_change_tablets [OF tps, of "\<lambda>(tid, tp). tablet_typed cs tp"] assms(3)
  show ?thesis by (auto simp: slave_data_ok_def d' simp del: broadcast.simps)
next
  case (ReconfigStarted ss)
  with assms show ?thesis
    by (auto simp: apply_entry_slave slave_data_ok_def rbind_eq_Inr intro: timeline_inv_on_reconfig_started)
qed (use assms in \<open>simp_all add: apply_entry_slave\<close>)

text \<open>New tablets get the connections to the clients that their provider was given.\<close>

definition slave_keeps :: "'w connections \<Rightarrow> constants \<Rightarrow> ('w, 'r) slave_derived \<Rightarrow> bool" where
  "slave_keeps clients cs d \<longleftrightarrow> (connections_ok clients \<longrightarrow> slave_data_ok cs d)"

interpretation slave_types: node_types "slave_callbacks to_wire (production_provider random clients)"
  "slave_keeps clients cs" for to_wire random clients cs
  by unfold_locales (auto simp: slave_keeps_def intro: slave_callbacks_typed)

abbreviation slave_node_typed ::
  "(message_wrapper \<Rightarrow> 'w) \<Rightarrow> (tablet_id \<Rightarrow> 'r) \<Rightarrow> 'w connections \<Rightarrow> constants
   \<Rightarrow> ('w, ('w, 'r) slave_derived) paxos_node \<Rightarrow> bool" where
  "slave_node_typed to_wire random clients cs \<equiv>
     node_types.node_typed (slave_callbacks to_wire (production_provider random clients))
       (slave_keeps clients cs) cs"

lemmas slave_node_typed_def = slave_types.node_typed_def slave_keeps_def

definition slave_typed ::
  "(message_wrapper \<Rightarrow> 'w) \<Rightarrow> (tablet_id \<Rightarrow> 'r) \<Rightarrow> 'w connections \<Rightarrow> constants \<Rightarrow> ('w, 'r) slave \<Rightarrow> bool" where
  "slave_typed to_wire random clients cs sl \<longleftrightarrow>
     slave_node_typed to_wire random clients cs (rs_node (sl_state sl)) \<and>
     connections_ok (rs_clients (sl_state sl)) \<and> scheduler_ok (sl_scheduler sl)"

lemma slave_typed_with_node:
  "slave_typed to_wire random clients cs sl \<Longrightarrow> slave_node_typed to_wire random clients cs nd \<Longrightarrow>
     slave_typed to_wire random clients cs (slave_with_node nd sl)"
  by (simp add: slave_typed_def slave_with_node_def)

lemma slave_node_typed_tablets:
  assumes "slave_node_typed to_wire random clients cs nd" "connections_ok clients" "map_of (sd_tablets (node_derived nd)) tid = Some tp"
  shows "tablet_typed cs tp"
  using assms map_of_SomeD [OF assms(3)]
  by (auto simp: slave_node_typed_def slave_data_ok_def)

lemma to_tablets_typed:
  assumes "slave_typed to_wire random clients cs sl"
  shows "slave_typed to_wire random clients cs (to_tablets to_wire parse m sl)"
proof -
  let ?s = "sl_state sl"
  let ?d = "node_derived (rs_node ?s)"
  obtain tps clients' where tps: "tp_handle to_wire parse m (sd_tablets ?d, rs_clients ?s) = (tps, clients')"
    by (metis surj_pair)
  have "tablet_typed cs tp" if "(tid, tp) \<in> set tps" "connections_ok clients" for tid tp
  proof -
    from tp_handle_tablets [of tid tp to_wire parse m "sd_tablets ?d" "rs_clients ?s"] tps that(1) obtain tp0 where
      "(tid, tp0) \<in> set (sd_tablets ?d)" "tp = tp0 \<or> tp = queue_tablet_message m tp0" by auto
    with assms that(2) show ?thesis
      by (auto simp: slave_typed_def slave_node_typed_def slave_data_ok_def queue_tablet_message_def)
  qed
  moreover have "connections_ok clients'"
  proof -
    from assms have "connections_ok (rs_clients ?s)" by (simp add: slave_typed_def)
    with tps show ?thesis
      by (auto simp: tp_handle_def handle_client_request_def handle_tablet_message_def Let_def
          split: message_wrapper.splits client_message.splits option.splits)
  qed
  ultimately show ?thesis
    using assms tps
    by (auto simp: slave_typed_def to_tablets_def Let_def slave_node_typed_def slave_data_ok_def paxos_node_ok_def)
qed

lemma slave_handle_typed:
  assumes "slave_handle to_wire parse rand cs m sl = Some (Inr sl')" "slave_typed to_wire random clients cs sl"
  shows "slave_typed to_wire random clients cs sl'"
proof -
  let ?nd = "rs_node (sl_state sl)"
  have node: "slave_node_typed to_wire random clients cs ?nd" using assms(2) by (simp add: slave_typed_def)
  have paxos: "slave_typed to_wire random clients cs (slave_with_node nd sl)"
    if "handle_incoming_message pw cs (config_provider sd_timeline) endpoint pm ?nd = Inr nd" for pw endpoint pm nd
    by (rule slave_typed_with_node [OF assms(2) slave_types.paxos_message_typed [OF that node]])
  have sync: "slave_typed to_wire random clients cs (slave_with_node nd sl)"
    if "handle_sync_message sw endpoint ym ?nd = Some (Inr nd)" for sw endpoint ym nd
    by (rule slave_typed_with_node [OF assms(2) slave_types.sync_message_typed [OF that node]])
  have other: "slave_typed to_wire random clients cs (sl\<lparr>sl_heartbeats := hc\<rparr>)"
    "slave_typed to_wire random clients cs (sl\<lparr>sl_async_queue := q\<rparr>)" for hc q
    using assms(2) by (simp_all add: slave_typed_def)
  show ?thesis
    using assms paxos sync other to_tablets_typed [OF assms(2)]
    by (auto simp: slave_handle_def Let_def rbind_eq_Inr
        split: message_wrapper.splits client_message.splits slave_message.splits master_message.splits)
qed

lemma key_space_task_typed:
  assumes "key_space_task to_wire rand endpoint rs g s = Inr (w, s')"
    and "slave_node_typed to_wire random clients cs (rs_node s)"
  shows "slave_node_typed to_wire random clients cs (rs_node s') \<and> rs_clients s' = rs_clients s"
proof (cases "w = TERMINATE")
  case True
  have "SlaveKeySpaceManager.WAIT_FOR_PAXOS \<noteq> TERMINATE"
    by (simp add: SlaveKeySpaceManager.WAIT_FOR_PAXOS_def TERMINATE_def)
  with True assms show ?thesis
    by (auto simp: key_space_task_def Let_def rbind_eq_Inr slave_node_typed_def slave_data_ok_def paxos_node_ok_def
        simp del: broadcast.simps split: if_splits)
next
  case False
  have w: "w = TERMINATE \<or> w = SlaveKeySpaceManager.WAIT_FOR_PAXOS"
    using assms(1) by (auto simp: key_space_task_def Let_def rbind_eq_Inr simp del: broadcast.simps split: if_splits)
  with False assms(1) have "request_propose (\<lambda>p. to_wire (slave_paxos_wrapper p)) (config_provider sd_timeline) rand
      (KeySpaceChanged rs g) s = Inr s'"
    by (auto dest: key_space_task_waits)
  from request_propose_node [OF this] slave_types.propose_typed [OF _ assms(2)] show ?thesis by auto
qed

lemma slave_task_typed:
  assumes "fire_run (sl_async_queue sl, sl_state sl) = Inr (q, s)"
    and "slave_typed to_wire random clients cs sl" "slave_inv to_wire random' rand clients' init sl"
  shows "slave_typed to_wire random clients cs (sl\<lparr>sl_async_queue := q, sl_state := s\<rparr>)"
proof -
  from assms(3) obtain ts where ts: "queue_callbacks (sl_async_queue sl) = key_space_tasks to_wire rand ts"
    by (auto simp: slave_inv_def)
  from fire_run_tasks [OF assms(1) ts [unfolded key_space_tasks_def]] obtain t w where
    t: "(case t of (endpoint, rs, g) \<Rightarrow> key_space_task to_wire rand endpoint rs g) (sl_state sl) = Inr (w, s)" by metis
  obtain endpoint rs g where [simp]: "t = (endpoint, rs, g)" by (cases t)
  from assms(2) have "slave_node_typed to_wire random clients cs (rs_node (sl_state sl))" by (simp add: slave_typed_def)
  from key_space_task_typed [OF t [simplified] this] assms(2) show ?thesis by (simp add: slave_typed_def)
qed

lemma give_back_typed:
  assumes "slave_typed to_wire random clients cs sl" "tablet_typed cs tp" "connections_ok clients"
  shows "slave_typed to_wire random clients cs (give_back tid tp sl)"
proof -
  have "tablet_typed cs tp'" if "(k, tp') \<in> set (put_tablet tid tp (sd_tablets (node_derived (rs_node (sl_state sl)))))" for k tp'
    using that assms by (auto simp: put_tablet_def slave_typed_def slave_node_typed_def slave_data_ok_def split: if_splits)
  with assms show ?thesis
    by (auto simp: slave_typed_def give_back_def Let_def slave_node_typed_def slave_data_ok_def paxos_node_ok_def
        tablet_typed_def tablet_types.node_typed_def)
qed

lemma lend_typed:
  "tablet_typed cs tp \<Longrightarrow> connections_ok c \<Longrightarrow> connections_ok c' \<Longrightarrow> tablet_typed cs (lend c c' tp)"
  by (simp add: tablet_typed_def lend_def tablet_types.node_typed_connections)

lemma slave_tablet_inv:
  assumes "slave_inv to_wire random rand clients init sl"
    and "map_of (sd_tablets (node_derived (rs_node (sl_state sl)))) tid = Some tp"
  shows "tp_tablet_id tp = tid \<and> (\<exists>es. tablet_inv to_wire rand (tablet_initial es) tp)"
proof -
  let ?nd = "rs_node (sl_state sl)"
  from assms(1) have "log_follower.server_inv (slave_callbacks to_wire (production_provider random clients))
      (slave_follows to_wire rand (get_all_endpoints (node_connections ?nd))) init ?nd"
    by (simp add: slave_inv_def)
  from slave.server_replay [OF this] map_of_SomeD [OF assms(2)] show ?thesis
    by (auto simp: slave_follows_def tablets_sound_def tablet_sound_def)
qed

lemma slave_step_typed:
  assumes "slave_step to_wire parse rand cs ev sl = Some (Inr sl')" "slave_typed to_wire random clients cs sl"
    and "slave_inv to_wire random rand clients init sl" "connections_ok clients"
  shows "slave_typed to_wire random clients cs sl'"
proof -
  let ?nd = "rs_node (sl_state sl)" let ?d = "node_derived ?nd"
  have node: "slave_node_typed to_wire random clients cs ?nd" and cl: "connections_ok (rs_clients (sl_state sl))"
    and sched: "scheduler_ok (sl_scheduler sl)"
    using assms(2) by (simp_all add: slave_typed_def)
  have data: "connections_ok (node_connections ?nd)" "slave_data_ok cs ?d"
    using node assms(4) by (simp_all add: slave_node_typed_def paxos_node_ok_def)
  note with_node = slave_typed_with_node [OF assms(2)]
  show ?thesis
  proof (cases ev)
    case (SlaveQueueMessage m)
    with assms(1,2) show ?thesis by (auto simp: slave_typed_def scheduler_ok_queue)
  next
    case SlaveHandleMessage
    show ?thesis
    proof (cases "posted (sl_scheduler sl)")
      case (Cons m ms)
      with assms(1) SlaveHandleMessage obtain sl1 where
        h: "slave_handle to_wire parse rand cs m sl = Some (Inr sl1)"
        "sl' = sl1\<lparr>sl_scheduler := message_handled (sl_scheduler sl1)\<rparr>" by (auto simp: rbind_eq_Inr)
      have "sl_scheduler sl1 = sl_scheduler sl" by (rule slave_handle_scheduler [OF h(1)])
      with slave_handle_typed [OF h(1) assms(2)] h(2) scheduler_ok_handled [OF sched Cons] show ?thesis
        by (simp add: slave_typed_def)
    qed (use assms SlaveHandleMessage in simp)
  next
    case SlaveRunTask
    with assms slave_task_typed [OF _ assms(2,3)] show ?thesis by (auto simp: rbind_eq_Inr split: if_splits)
  next
    case SlaveSyncTimer
    with assms(1) slave_types.sync_timer_typed [OF _ node] with_node show ?thesis by (auto simp: rbind_eq_Inr)
  next
    case SlaveHeartbeatTimer
    with assms(1) with_node [OF slave_types.node_typed_connections [OF node connections_ok_broadcast [OF data(1)]]]
    show ?thesis
      by (auto simp: rbind_eq_Inr heartbeat_callback_def Let_def slave_typed_def slave_with_node_def
          simp del: broadcast.simps)
  next
    case (TabletEvent tid tev)
    show ?thesis
    proof (cases "map_of (sd_tablets ?d) tid")
      case None
      with assms TabletEvent show ?thesis by (auto simp: Let_def)
    next
      case (Some tp)
      with assms(1) TabletEvent obtain tp' where
        step: "tablet_step to_wire parse rand cs tev (lend (node_connections ?nd) (rs_clients (sl_state sl)) tp) = Some (Inr tp')"
        and sl': "sl' = give_back tid tp' sl"
        by (auto simp: Let_def rbind_eq_Inr)
      from slave_tablet_inv [OF assms(3) Some] obtain es where "tablet_inv to_wire rand (tablet_initial es) tp" by blast
      then have "tablet_inv to_wire rand (tablet_initial es) (lend (node_connections ?nd) (rs_clients (sl_state sl)) tp)"
        by (simp add: lend_inv)
      from tablet_step_typed [OF step lend_typed this] slave_node_typed_tablets [OF node assms(4) Some] data cl
      have "tablet_typed cs tp'" by blast
      with give_back_typed [OF assms(2) _ assms(4)] sl' show ?thesis by simp
    qed
  next
    case (SlaveConnection cev)
    with assms(1) obtain c where c: "connection_step cev (node_connections ?nd) = Inr c"
      "sl' = slave_with_node (?nd\<lparr>node_connections := c, node_derived := ?d\<lparr>sd_slaves := c\<rparr>\<rparr>) sl"
      by (auto simp: Let_def rbind_eq_Inr)
    have ok: "connections_ok c" by (rule connections_ok_step [OF c(1) data(1)])
    then have "slave_keeps clients cs (?d\<lparr>sd_slaves := c\<rparr>)" using data(2) by (simp add: slave_keeps_def slave_data_ok_def)
    from slave_types.node_typed_derived [OF slave_types.node_typed_connections [OF node ok] this] with_node c(2)
    show ?thesis by simp
  next
    case (ClientConnection cev)
    with assms(1,2) show ?thesis by (auto simp: rbind_eq_Inr slave_typed_def intro: connections_ok_step)
  next
    case (MasterConnection cev)
    with assms(1) obtain c where c: "connection_step cev (sd_masters ?d) = Inr c"
      "sl' = slave_with_node (?nd\<lparr>node_derived := ?d\<lparr>sd_masters := c\<rparr>\<rparr>) sl"
      by (auto simp: Let_def rbind_eq_Inr)
    have "slave_keeps clients cs (?d\<lparr>sd_masters := c\<rparr>)"
      using data(2) connections_ok_step [OF c(1)] by (simp add: slave_keeps_def slave_data_ok_def)
    from slave_types.node_typed_derived [OF node this] with_node c(2) show ?thesis by simp
  next
    case SlaveOverlap
    with assms(1,2) show ?thesis by simp
  qed
qed

lemma slave_run_typed:
  assumes "connections_ok clients"
  shows "slave_run to_wire parse rand cs evs sl = Some (Inr sl') \<Longrightarrow> slave_typed to_wire random clients cs sl \<Longrightarrow>
     slave_inv to_wire random rand clients init sl \<Longrightarrow>
     slave_typed to_wire random clients cs sl' \<and> slave_inv to_wire random rand clients init sl'"
proof (induction evs arbitrary: sl)
  case (Cons ev evs)
  then obtain sl1 where step: "slave_step to_wire parse rand cs ev sl = Some (Inr sl1)"
    "slave_run to_wire parse rand cs evs sl1 = Some (Inr sl')"
    by (auto split: option.splits sum.splits)
  from Cons.IH [OF step(2) slave_step_typed [OF step(1) Cons.prems(2,3) assms] slave_step_inv [OF step(1) Cons.prems(3)]]
  show ?case .
qed simp

lemma ProductionContext_typed:
  assumes "connections_ok clients" "connections_ok masters" "connections_ok slaves"
  shows "slave_typed to_wire random clients cs (ProductionContext to_wire random hw seed clients masters slaves es ip)"
  using assms slave_log_inv timeline_inv_PaxosConfigManager
  by (auto simp: slave_typed_def slave_node_typed_def paxos_node_ok_def slave_data_ok_def ProductionContext_def
      LocalTransactionManager_def MultiPaxosHandler_def scheduler_ok_def AsyncSchedulerImpl_def slave_callbacks_def [symmetric])

section \<open>Properties\<close>

definition tablet_ok :: "constants \<Rightarrow> tablet_id \<Rightarrow> ('w, 'r) tablet_participant \<Rightarrow> bool" where
  "tablet_ok cs tid tp \<longleftrightarrow>
     tp_tablet_id tp = tid \<and> scheduler_ok (tp_scheduler tp) \<and> async_queue_inv (tp_async_queue tp) \<and>
     paxos_node_ok cs (rs_node (tp_state tp)) \<and> timeline_inv (owner (node_derived (rs_node (tp_state tp)))) \<and>
     kv_inv (kvs (node_derived (rs_node (tp_state tp)))) \<and> connections_ok (rs_clients (tp_state tp)) \<and>
     counts_ok (rs_retry_counts (tp_state tp))"

definition slave_ok :: "constants \<Rightarrow> ('w, 'r) slave \<Rightarrow> bool" where
  "slave_ok cs sl \<longleftrightarrow>
     scheduler_ok (sl_scheduler sl) \<and> async_queue_inv (sl_async_queue sl) \<and> tracker_inv (sl_heartbeats sl) \<and>
     paxos_node_ok cs (rs_node (sl_state sl)) \<and> connections_ok (rs_clients (sl_state sl)) \<and>
     (let d = node_derived (rs_node (sl_state sl))
      in timeline_inv (sd_timeline d) \<and> connections_ok (sd_masters d) \<and>
         distinct (map fst (sd_tablets d)) \<and> (\<forall>(tid, tp)\<in>set (sd_tablets d). tablet_ok cs tid tp))"

lemma slave_typed_ok:
  assumes "slave_typed to_wire random clients cs sl" "slave_inv to_wire random rand clients init sl" "connections_ok clients"
  shows "slave_ok cs sl"
proof -
  let ?nd = "rs_node (sl_state sl)" let ?d = "node_derived ?nd"
  from assms(2) have "log_follower.server_inv (slave_callbacks to_wire (production_provider random clients))
      (slave_follows to_wire rand (get_all_endpoints (node_connections ?nd))) init ?nd"
    by (simp add: slave_inv_def)
  from slave.server_replay [OF this] have sound: "tablets_sound to_wire rand (sd_tablets ?d)"
    by (auto simp: slave_follows_def)
  have "tablet_ok cs tid tp" if tp: "(tid, tp) \<in> set (sd_tablets ?d)" for tid tp
  proof -
    from sound tp obtain es where inv: "tp_tablet_id tp = tid" "tablet_inv to_wire rand (tablet_initial es) tp"
      by (auto simp: tablets_sound_def tablet_sound_def)
    then have "tablet.server_inv (tablet_initial es) (rs_node (tp_state tp))" by (simp add: tablet_inv_def)
    from tablet.server_replay [OF this] have "kv_inv (kvs (node_derived (rs_node (tp_state tp))))"
      by (auto simp: follows_def)
    moreover have "tablet_typed cs tp"
      using assms(1,3) tp by (auto simp: slave_typed_def slave_node_typed_def slave_data_ok_def)
    ultimately show ?thesis
      using inv by (auto simp: tablet_ok_def tablet_inv_def tablet_typed_def tablet_types.node_typed_def scheduler_ok_def)
  qed
  with assms sound show ?thesis
    by (auto simp: slave_ok_def slave_typed_def slave_inv_def slave_node_typed_def slave_data_ok_def tablets_sound_def Let_def)
qed

text \<open>
  C15: the data of a slave is well formed. After any events that end without an exception or
  undefined behaviour, handlers and the network thread's work taking turns (an overlap of the two is
  a data race, which has no state; C8 has what it does to a task queue): every set of
  connections has distinct endpoints, no queue to a socket is longer than its bound, and a channel
  to the slave itself holds nothing while it does not listen; every Paxos instance of the slave and
  of its tablets is filed under its index, has voted in no round above its promise, has promises for
  exactly the numbers it proposed and no more than a majority of them, and has learned exactly when
  a majority of votes is counted; every log's free indices are the holes of its map, every timeline
  is in order; every store has its versions in order; schedulers and task queues have one job at
  work while they are not empty; tablets are filed once each under their own range, and their
  retry counters stay within the limit.
\<close>

theorem slave_well_formed:
  assumes "slave_run to_wire parse rand cs evs
      (ProductionContext to_wire tablet_random hw seed clients masters slaves es ip) = Some (Inr sl)"
    and "connections_ok clients" and "connections_ok masters" and "connections_ok slaves"
  shows "slave_ok cs sl"
  using slave_run_typed [OF assms(2,1) ProductionContext_typed [OF assms(2-4)] ProductionContext_inv]
    slave_typed_ok assms(2) by blast

theorem slave_well_formed_witness:
  "\<exists>sl. lone_slave_run slave_events = Some (Inr sl) \<and> slave_ok initialize_constants sl"
proof -
  obtain sl where run: "lone_slave_run slave_events = Some (Inr sl)" using lone_slave_runs by blast
  have "connections_ok \<lparr>channels = []\<rparr>" "connections_ok \<lparr>channels = [(EndpointId ''m'' 0, ChannelImpl [])]\<rparr>"
    by (simp_all add: connections_ok_def get_all_endpoints_def)
  from slave_well_formed [OF run [unfolded lone_slave_def] this(1,2,1)] run show ?thesis by blast
qed

end
