(* ===== verification/SimulatedClock.thy ===== *)
theory SimulatedClock
  imports AsyncQueue
begin

text \<open>
  The clock and the schedulers of the simulations (src/src/async/testing): \<open>ClockTesting\<close>, whose
  time moves by \<open>increment_time\<close> and which runs what has fallen due, \<open>TimerAsyncSchedulerTesting\<close>
  on top of it, and \<open>AsyncSchedulerTesting\<close>, which handles a message as it is queued. Closures
  are values of a type of jobs, with the function that runs them an argument. The lemmas show
  that a simulated server sees what it would see with the timers of \<open>TimerAsyncSchedulerImpl\<close>.
\<close>

section \<open>ClockTesting\<close>

text \<open>
  \<open>_scheduled_callbacks\<close> is a \<open>multimap\<close>: sorted by its keys, a new entry after those of its key.
  \<open>long\<close> and \<open>int64_t\<close> have 64 bits, and signed overflow is undefined.
\<close>

record 'j clock_testing =
  clock_time :: int
  scheduled_callbacks :: "(int \<times> 'j) list"

definition ClockTesting :: "'j clock_testing" where
  "ClockTesting = \<lparr>clock_time = 0, scheduled_callbacks = []\<rparr>"

definition clock_schedule_async :: "'j \<Rightarrow> int \<Rightarrow> 'j clock_testing \<Rightarrow> 'j clock_testing result" where
  "clock_schedule_async callback wait c =
     rbind (universal_assert (wait \<ge> 0) ''A clock can only wait on positive amount of time into the future.'') (\<lambda>_.
       if clock_time c + wait \<ge> 2 ^ 63 then Inl UndefinedBehaviour
       else Inr (c\<lparr>scheduled_callbacks := insert_timer (clock_time c + wait, callback) (scheduled_callbacks c)\<rparr>))"

text \<open>
  The \<open>while\<close> loop of \<open>increment_time\<close>. What is erased is the first entry after the callback has
  run, whatever the callback did. A callback that schedules itself with no wait is a loop without
  end.
\<close>

partial_function (option) run_due ::
  "('j \<Rightarrow> 'j clock_testing \<times> 's \<Rightarrow> ('j clock_testing \<times> 's) result)
   \<Rightarrow> 'j clock_testing \<times> 's \<Rightarrow> ('j clock_testing \<times> 's) result option" where
  "run_due run x =
     (case scheduled_callbacks (fst x) of
        [] \<Rightarrow> Some (Inr x)
      | (d, callback) # _ \<Rightarrow>
          if d \<le> clock_time (fst x) then
            case run callback x of
              Inl e \<Rightarrow> Some (Inl e)
            | Inr (c', s') \<Rightarrow>
                (case scheduled_callbacks c' of
                   [] \<Rightarrow> Some (Inl UndefinedBehaviour)
                 | _ # rest \<Rightarrow> run_due run (c'\<lparr>scheduled_callbacks := rest\<rparr>, s'))
          else Some (Inr x))"

text \<open>\<open>for (auto i = 0; i < increment; i++)\<close>, where \<open>i\<close> is an \<open>int\<close>.\<close>

function increment_from ::
  "('j \<Rightarrow> 'j clock_testing \<times> 's \<Rightarrow> ('j clock_testing \<times> 's) result)
   \<Rightarrow> int \<Rightarrow> int \<Rightarrow> 'j clock_testing \<times> 's \<Rightarrow> ('j clock_testing \<times> 's) result option" where
  "increment_from run i increment x =
     (if i < increment then
        if clock_time (fst x) = 2 ^ 63 - 1 then Some (Inl UndefinedBehaviour)
        else
          case run_due run ((fst x)\<lparr>clock_time := clock_time (fst x) + 1\<rparr>, snd x) of
            None \<Rightarrow> None
          | Some (Inl e) \<Rightarrow> Some (Inl e)
          | Some (Inr x') \<Rightarrow>
              if i = 2 ^ 31 - 1 then Some (Inl UndefinedBehaviour) else increment_from run (i + 1) increment x'
      else Some (Inr x))"
  by pat_completeness auto
termination by (relation "measure (\<lambda>(run, i, increment, x). nat (increment - i))") auto

declare increment_from.simps [simp del]

definition increment_time ::
  "('j \<Rightarrow> 'j clock_testing \<times> 's \<Rightarrow> ('j clock_testing \<times> 's) result)
   \<Rightarrow> int \<Rightarrow> 'j clock_testing \<times> 's \<Rightarrow> ('j clock_testing \<times> 's) result option" where
  "increment_time run increment x = increment_from run 0 increment x"

section \<open>TimerAsyncSchedulerTesting\<close>

definition testing_schedule_once :: "'cb \<Rightarrow> int \<Rightarrow> 'cb timer_job clock_testing \<Rightarrow> 'cb timer_job clock_testing result" where
  "testing_schedule_once callback wait c = clock_schedule_async (RunOnce callback) wait c"

definition testing_schedule_repeated :: "'cb \<Rightarrow> int \<Rightarrow> 'cb timer_job clock_testing \<Rightarrow> 'cb timer_job clock_testing result" where
  "testing_schedule_repeated callback period c = clock_schedule_async (RunRepeated callback period) period c"

definition testing_schedule_repeated_finite ::
  "'cb \<Rightarrow> int \<Rightarrow> int \<Rightarrow> 'cb timer_job clock_testing \<Rightarrow> 'cb timer_job clock_testing result" where
  "testing_schedule_repeated_finite callback period tries c =
     clock_schedule_async (RunFinite callback period tries) period c"

text \<open>What a closure does after its callback, and the closure as a whole.\<close>

fun testing_run_again :: "'cb timer_job \<Rightarrow> 'cb timer_job clock_testing \<Rightarrow> 'cb timer_job clock_testing result" where
  "testing_run_again (RunOnce cb) c = Inr c"
| "testing_run_again (RunRepeated cb p) c = testing_schedule_repeated cb p c"
| "testing_run_again (RunFinite cb p n) c =
     (if n > 1 then testing_schedule_repeated_finite cb p (n - 1) c else Inr c)"

definition testing_run ::
  "('cb, 's) callback_effect \<Rightarrow> 'cb timer_job \<Rightarrow> 'cb timer_job clock_testing \<times> 's
   \<Rightarrow> ('cb timer_job clock_testing \<times> 's) result" where
  "testing_run effect j x =
     (let (c, s) = x; (started, s') = effect (timer_callback j) (clock_time c) s
      in rbind (rfold (\<lambda>(wait, job). clock_schedule_async job wait) started c) (\<lambda>c'.
         rbind (testing_run_again j c') (\<lambda>c''. Inr (c'', s'))))"

section \<open>AsyncSchedulerTesting\<close>

text \<open>\<open>queue_message\<close> runs the callback there and then.\<close>

definition testing_queue_message :: "('m \<Rightarrow> 's \<Rightarrow> 's result option) \<Rightarrow> 'm \<Rightarrow> 's \<Rightarrow> 's result option" where
  "testing_queue_message callback message s = callback message s"

section \<open>The simulated timers against the real ones\<close>

text \<open>Waits and periods from one millisecond to \<open>W\<close>.\<close>

fun job_fits :: "int \<Rightarrow> 'cb timer_job \<Rightarrow> bool" where
  "job_fits W (RunOnce cb) \<longleftrightarrow> True"
| "job_fits W (RunRepeated cb p) \<longleftrightarrow> 1 \<le> p \<and> p \<le> W"
| "job_fits W (RunFinite cb p n) \<longleftrightarrow> 1 \<le> p \<and> p \<le> W"

definition effect_fits :: "int \<Rightarrow> ('cb, 's) callback_effect \<Rightarrow> bool" where
  "effect_fits W effect \<longleftrightarrow>
     (\<forall>cb now s. \<forall>(wait, job)\<in>set (fst (effect cb now s)). 1 \<le> wait \<and> wait \<le> W \<and> job_fits W job)"

text \<open>
  The two schedulers hold the same timers, all of them in the future; \<open>time_now\<close> is when the last
  one fired.
\<close>

definition clocks_agree :: "int \<Rightarrow> 'cb timer_scheduler \<Rightarrow> 'cb timer_job clock_testing \<Rightarrow> bool" where
  "clocks_agree W t c \<longleftrightarrow>
     timers t = scheduled_callbacks c \<and> time_now t \<le> clock_time c \<and> sorted (map fst (timers t)) \<and>
     (\<forall>(d, j)\<in>set (timers t). clock_time c < d \<and> job_fits W j)"

lemma set_insert_timer [simp]: "set (insert_timer x ts) = insert x (set ts)"
  by (induction x ts rule: insert_timer.induct) auto

lemma sorted_insert_timer [simp]: "sorted (map fst (insert_timer x ts)) \<longleftrightarrow> sorted (map fst ts)"
proof (induction x ts rule: insert_timer.induct)
  case (2 d j d' j' ts)
  then show ?case by auto
qed simp

lemma insert_timer_later: "d \<le> d' \<Longrightarrow> insert_timer (d', j') ((d, j) # ts) = (d, j) # insert_timer (d', j') ts"
  by simp


abbreviation start_all :: "(int \<times> 'cb timer_job) list \<Rightarrow> 'cb timer_scheduler \<Rightarrow> 'cb timer_scheduler" where
  "start_all started \<equiv> fold (\<lambda>(wait, job). async_wait wait job) started"

lemma start_all_time [simp]: "time_now (start_all started t) = time_now t"
  by (induction started arbitrary: t) (auto simp: async_wait_def)

lemma start_all_timers:
  "set (timers (start_all started t)) = set (timers t) \<union> {(time_now t + w, job) |w job. (w, job) \<in> set started}"
  "sorted (map fst (timers (start_all started t))) \<longleftrightarrow> sorted (map fst (timers t))"
  by (induction started arbitrary: t) (auto simp: async_wait_def)

lemma testing_start_all:
  assumes "\<forall>(wait, job)\<in>set started. 1 \<le> wait \<and> wait \<le> W" and "T + W < 2 ^ 63"
  shows "rfold (\<lambda>(wait, job). clock_schedule_async job wait) started \<lparr>clock_time = T, scheduled_callbacks = (T, j) # ts\<rparr> =
    Inr \<lparr>clock_time = T, scheduled_callbacks = (T, j) # timers (start_all started \<lparr>time_now = T, timers = ts\<rparr>)\<rparr>"
  using assms(1)
proof (induction started arbitrary: ts)
  case (Cons x started)
  obtain w job where x: "x = (w, job)" by (cases x)
  with Cons.prems assms(2) have "0 \<le> w" "\<not> 2 ^ 63 \<le> T + w" by auto
  with Cons x show ?case by (simp add: clock_schedule_async_def async_wait_def)
qed simp

text \<open>How a timer and a closure go on.\<close>

lemma testing_run_again_run_again:
  assumes "job_fits W job" and "T + W < 2 ^ 63"
  shows "testing_run_again job \<lparr>clock_time = T, scheduled_callbacks = (T, j) # ts\<rparr> =
    Inr \<lparr>clock_time = T, scheduled_callbacks = (T, j) # timers (run_again job \<lparr>time_now = T, timers = ts\<rparr>)\<rparr>"
  using assms
  by (cases job) (auto simp: clock_schedule_async_def testing_schedule_repeated_def
      testing_schedule_repeated_finite_def schedule_repeated_def schedule_repeated_finite_def async_wait_def)

lemma run_again_timers:
  assumes "job_fits W job"
  shows "time_now (run_again job t) = time_now t"
    "sorted (map fst (timers (run_again job t))) \<longleftrightarrow> sorted (map fst (timers t))"
    "\<And>d j. (d, j) \<in> set (timers (run_again job t)) \<Longrightarrow>
       (d, j) \<in> set (timers t) \<or> time_now t < d \<and> job_fits W j"
  using assms
  by (cases job; auto simp: schedule_repeated_def schedule_repeated_finite_def async_wait_def split: if_splits)+

definition due_agree :: "int \<Rightarrow> 'cb timer_scheduler \<Rightarrow> 'cb timer_job clock_testing \<Rightarrow> bool" where
  "due_agree W t c \<longleftrightarrow>
     timers t = scheduled_callbacks c \<and> time_now t \<le> clock_time c \<and> sorted (map fst (timers t)) \<and>
     (\<forall>(d, j)\<in>set (timers t). clock_time c \<le> d \<and> job_fits W j)"

definition due :: "'j clock_testing \<Rightarrow> (int \<times> 'j) list" where
  "due c = filter (\<lambda>(d, j). d \<le> clock_time c) (scheduled_callbacks c)"

text \<open>What is started is not due yet.\<close>

lemma filter_insert_timer [simp]: "\<not> P x \<Longrightarrow> filter P (insert_timer x ts) = filter P ts"
  by (induction x ts rule: insert_timer.induct) auto

lemma start_all_due:
  "\<forall>(wait, job)\<in>set started. 1 \<le> wait \<Longrightarrow>
   filter (\<lambda>(d, j). d \<le> time_now t) (timers (start_all started t)) =
   filter (\<lambda>(d, j). d \<le> time_now t) (timers t)"
proof (induction started arbitrary: t)
  case (Cons x started)
  obtain w job where x: "x = (w, job)" by (cases x)
  with Cons.IH [of "async_wait w job t"] Cons.prems show ?case by (simp add: async_wait_def)
qed simp

lemma run_again_due:
  "job_fits W job \<Longrightarrow>
   filter (\<lambda>(d, j). d \<le> time_now t) (timers (run_again job t)) =
   filter (\<lambda>(d, j). d \<le> time_now t) (timers t)"
  by (cases job) (auto simp: schedule_repeated_def schedule_repeated_finite_def async_wait_def)

text \<open>One due callback: the closure does what the timer does.\<close>

lemma due_step:
  assumes agree: "due_agree W t c" and "effect_fits W effect" and "clock_time c + W < 2 ^ 63"
    and head: "scheduled_callbacks c = (d, job) # ts" and "d \<le> clock_time c"
  obtains t' s' where "fire_timer effect (t, s) = Some (t', s')"
    "testing_run effect job (c, s) = Inr (c\<lparr>scheduled_callbacks := (d, job) # timers t'\<rparr>, s')"
    "due_agree W t' (c\<lparr>scheduled_callbacks := timers t'\<rparr>)"
    "length (due (c\<lparr>scheduled_callbacks := timers t'\<rparr>)) < length (due c)"
proof -
  define T where "T = clock_time c"
  have d: "d = T" and job: "job_fits W job" and t: "timers t = (T, job) # ts" "time_now t \<le> T"
    and later: "\<And>d' j'. (d', j') \<in> set ts \<Longrightarrow> T \<le> d' \<and> job_fits W j'"
    and sorted: "sorted (map fst ts)"
    using agree head assms(5) by (auto simp: due_agree_def T_def)
  have c: "c = \<lparr>clock_time = T, scheduled_callbacks = (T, job) # ts\<rparr>"
    using head d by (cases c) (simp add: T_def)
  obtain started s' where e: "effect (timer_callback job) T s = (started, s')" by (cases "effect (timer_callback job) T s")
  with assms(2) have fits: "\<forall>(wait, job)\<in>set started. 1 \<le> wait \<and> wait \<le> W \<and> job_fits W job"
    by (auto simp: effect_fits_def) (metis (no_types, lifting) case_prodD fst_conv)+
  define t1 where "t1 = start_all started \<lparr>time_now = T, timers = ts\<rparr>"
  define t' where "t' = run_again job t1"
  have t1: "t1 = \<lparr>time_now = T, timers = timers t1\<rparr>" by (cases t1) (simp add: t1_def [symmetric], metis start_all_time t1_def timer_scheduler.select_convs(1))
  have "fire_timer effect (t, s) = Some (t', s')"
    using t e by (cases t) (simp add: fire_timer_def t'_def t1_def max_def Let_def)
  moreover have "testing_run effect job (c, s) = Inr (c\<lparr>scheduled_callbacks := (d, job) # timers t'\<rparr>, s')"
  proof -
    have "rfold (\<lambda>(wait, job). clock_schedule_async job wait) started c =
        Inr \<lparr>clock_time = T, scheduled_callbacks = (T, job) # timers t1\<rparr>"
      unfolding c t1_def using fits assms(3) by (intro testing_start_all [of _ W]) (auto simp: T_def)
    moreover have "testing_run_again job \<lparr>clock_time = T, scheduled_callbacks = (T, job) # timers t1\<rparr> =
        Inr \<lparr>clock_time = T, scheduled_callbacks = (T, job) # timers t'\<rparr>"
      using testing_run_again_run_again [OF job, of T job "timers t1"] assms(3) t1 by (simp add: T_def t'_def)
    ultimately show ?thesis using e d by (simp add: testing_run_def c)
  qed
  moreover have new: "T < d' \<and> job_fits W j' \<or> (d', j') \<in> set ts" if "(d', j') \<in> set (timers t')" for d' j'
    using run_again_timers(3) [OF job that [unfolded t'_def]] fits
    by (auto simp: t1_def start_all_timers)
  moreover have "due_agree W t' (c\<lparr>scheduled_callbacks := timers t'\<rparr>)"
    using new later sorted run_again_timers(1,2) [OF job, of t1]
    by (fastforce simp: due_agree_def c t'_def t1_def start_all_timers)
  moreover have "length (due (c\<lparr>scheduled_callbacks := timers t'\<rparr>)) < length (due c)"
  proof -
    have "filter (\<lambda>(d, j). d \<le> T) (timers t') = filter (\<lambda>(d, j). d \<le> T) (timers t1)"
      using run_again_due [OF job, of t1] by (simp add: t'_def t1_def)
    also have "\<dots> = filter (\<lambda>(d, j). d \<le> T) ts"
      using start_all_due [of started "\<lparr>time_now = T, timers = ts\<rparr>"] fits by (auto simp: t1_def)
    finally show ?thesis by (simp add: due_def c)
  qed
  ultimately show ?thesis using that by blast
qed

lemma fire_timers_add:
  "fire_timers effect (k + k') x = fire_timers effect k' (fire_timers effect k x)"
proof (induction k arbitrary: x)
  case (Suc k)
  have "fire_timers effect n x = x" if "fire_timer effect x = None" for n
    using that by (cases n) simp_all
  with Suc show ?case by (cases "fire_timer effect x") simp_all
qed simp

text \<open>The \<open>while\<close> loop ends, and has fired the timers that were due.\<close>

lemma run_due_agree:
  assumes "due_agree W t c" and "effect_fits W effect" and "clock_time c + W < 2 ^ 63"
  shows "\<exists>k t' c' s'. fire_timers effect k (t, s) = (t', s') \<and> run_due (testing_run effect) (c, s) = Some (Inr (c', s')) \<and>
    clock_time c' = clock_time c \<and> clocks_agree W t' c'"
  using assms(1,3)
proof (induction "length (due c)" arbitrary: t c s rule: less_induct)
  case less
  note agree = less.prems(1)
  show ?case
  proof (cases "scheduled_callbacks c")
    case Nil
    with agree show ?thesis
      by (intro exI [of _ 0] exI [of _ t] exI [of _ c] exI [of _ s])
        (simp add: run_due.simps due_agree_def clocks_agree_def)
  next
    case (Cons x ts)
    obtain d job where x: "x = (d, job)" by (cases x)
    show ?thesis
    proof (cases "d \<le> clock_time c")
      case False
      with agree Cons x show ?thesis
        by (intro exI [of _ 0] exI [of _ t] exI [of _ c] exI [of _ s])
          (fastforce simp: run_due.simps due_agree_def clocks_agree_def)
    next
      case True
      with Cons x have head: "scheduled_callbacks c = (d, job) # ts" by simp
      obtain t1 s1 where step: "fire_timer effect (t, s) = Some (t1, s1)"
          "testing_run effect job (c, s) = Inr (c\<lparr>scheduled_callbacks := (d, job) # timers t1\<rparr>, s1)"
        and agree1: "due_agree W t1 (c\<lparr>scheduled_callbacks := timers t1\<rparr>)"
        and smaller: "length (due (c\<lparr>scheduled_callbacks := timers t1\<rparr>)) < length (due c)"
        by (rule due_step [OF agree assms(2) less.prems(2) head True])
      have bound: "clock_time (c\<lparr>scheduled_callbacks := timers t1\<rparr>) + W < 2 ^ 63" using less.prems(2) by simp
      from less.hyps [OF smaller agree1 bound, of s1] obtain k t' c' s' where rest:
        "fire_timers effect k (t1, s1) = (t', s')"
        "run_due (testing_run effect) (c\<lparr>scheduled_callbacks := timers t1\<rparr>, s1) = Some (Inr (c', s'))"
        "clock_time c' = clock_time c" "clocks_agree W t' c'"
        by (metis (no_types, lifting) clock_testing.select_convs(1) clock_testing.surjective clock_testing.update_convs(2))
      have "run_due (testing_run effect) (c, s) = Some (Inr (c', s'))"
        using rest(2) step(2) head True by (subst run_due.simps) simp
      moreover have "fire_timers effect (Suc k) (t, s) = (t', s')" using step(1) rest(1) by simp
      ultimately show ?thesis using rest(3,4) by blast
    qed
  qed
qed

lemma increment_agree:
  assumes "effect_fits W effect" and "n < 2 ^ 31" and "0 \<le> W"
    and "clocks_agree W t c" and "0 \<le> i" and "i \<le> n" and "clock_time c + (n - i) + W < 2 ^ 63"
  shows "\<exists>k t' c' s'. fire_timers effect k (t, s) = (t', s') \<and>
    increment_from (testing_run effect) i n (c, s) = Some (Inr (c', s')) \<and>
    clock_time c' = clock_time c + (n - i) \<and> clocks_agree W t' c'"
  using assms(4-)
proof (induction "nat (n - i)" arbitrary: i t c s)
  case 0
  then show ?case
    by (intro exI [of _ 0] exI [of _ t] exI [of _ c] exI [of _ s]) (simp add: increment_from.simps)
next
  case (Suc m)
  define c1 where "c1 = c\<lparr>clock_time := clock_time c + 1\<rparr>"
  have "due_agree W t c1"
    using Suc.prems(1) by (fastforce simp: due_agree_def clocks_agree_def c1_def)
  moreover have "clock_time c1 + W < 2 ^ 63" using Suc.prems(4) Suc.hyps(2) by (simp add: c1_def)
  ultimately have "\<exists>k t' c' s'. fire_timers effect k (t, s) = (t', s') \<and>
      run_due (testing_run effect) (c1, s) = Some (Inr (c', s')) \<and> clock_time c' = clock_time c1 \<and> clocks_agree W t' c'"
    by (rule run_due_agree [OF _ assms(1)])
  then obtain k t2 c2 s2 where tick:
    "fire_timers effect k (t, s) = (t2, s2)" "run_due (testing_run effect) (c1, s) = Some (Inr (c2, s2))"
    "clock_time c2 = clock_time c + 1" "clocks_agree W t2 c2"
    by (auto simp: c1_def)
  have left: "m = nat (n - (i + 1))" "i + 1 \<le> n" "clock_time c2 + (n - (i + 1)) + W < 2 ^ 63"
    using Suc.hyps(2) Suc.prems(4) tick(3) by auto
  from Suc.hyps(1) [OF left(1) tick(4) _ left(2,3), of s2] Suc.prems(2) obtain k' t' c' s' where
    rest: "fire_timers effect k' (t2, s2) = (t', s')"
    "increment_from (testing_run effect) (i + 1) n (c2, s2) = Some (Inr (c', s'))"
    "clock_time c' = clock_time c2 + (n - (i + 1))" "clocks_agree W t' c'"
    by auto
  have going: "i < n" "clock_time c \<noteq> 2 ^ 63 - 1" "i \<noteq> 2 ^ 31 - 1"
    using Suc.hyps(2) Suc.prems(3,4) assms(2,3) by auto
  have "fire_timers effect (k + k') (t, s) = (t', s')"
    by (simp add: fire_timers_add tick(1) rest(1))
  moreover have "increment_from (testing_run effect) i n (c, s) = Some (Inr (c', s'))"
    using tick(2) rest(2) going assms(2) left(2)
    by (subst increment_from.simps) (simp add: c1_def)
  ultimately show ?case using tick(3) rest(3,4) by auto
qed

lemma clocks_agree_start: "clocks_agree W \<lparr>time_now = 0, timers = []\<rparr> ClockTesting"
  by (simp add: clocks_agree_def ClockTesting_def)

lemma clocks_agree_schedule:
  assumes "clocks_agree W t c" and "1 \<le> wait" and "job_fits W job" and "clock_schedule_async job wait c = Inr c'"
  shows "clocks_agree W (async_wait wait job (t\<lparr>time_now := clock_time c\<rparr>)) c'"
  using assms by (auto simp: clocks_agree_def clock_schedule_async_def async_wait_def split: if_splits)

section \<open>Every simulated run\<close>

text \<open>
  Waits may be nothing here, and callbacks may be late; what the loop erases is the entry it ran, as
  what a callback starts comes after it.
\<close>

definition same_timers :: "'cb timer_scheduler \<Rightarrow> 'cb timer_job clock_testing \<Rightarrow> bool" where
  "same_timers t c \<longleftrightarrow> timers t = scheduled_callbacks c \<and> time_now t \<le> clock_time c"

lemma testing_schedule_behind:
  assumes "clock_schedule_async job w \<lparr>clock_time = T, scheduled_callbacks = (d, j) # ts\<rparr> = Inr c'" and "d \<le> T"
  shows "c' = \<lparr>clock_time = T, scheduled_callbacks = (d, j) # timers (async_wait w job \<lparr>time_now = T, timers = ts\<rparr>)\<rparr>"
  using assms by (auto simp: clock_schedule_async_def async_wait_def rbind_eq_Inr universal_assert_def split: if_splits)

lemma testing_start_all_behind:
  "rfold (\<lambda>(wait, job). clock_schedule_async job wait) started \<lparr>clock_time = T, scheduled_callbacks = (d, j) # ts\<rparr> = Inr c' \<Longrightarrow>
   d \<le> T \<Longrightarrow>
   c' = \<lparr>clock_time = T, scheduled_callbacks = (d, j) # timers (start_all started \<lparr>time_now = T, timers = ts\<rparr>)\<rparr>"
proof (induction started arbitrary: ts)
  case (Cons x started)
  obtain w job where x: "x = (w, job)" by (cases x)
  with Cons.prems obtain c1 where c1: "clock_schedule_async job w \<lparr>clock_time = T, scheduled_callbacks = (d, j) # ts\<rparr> = Inr c1"
    "rfold (\<lambda>(wait, job). clock_schedule_async job wait) started c1 = Inr c'" by (auto simp: rbind_eq_Inr)
  from testing_schedule_behind [OF c1(1) Cons.prems(2)] Cons.IH [OF _ Cons.prems(2)] c1(2) x show ?case
    by (simp add: async_wait_def)
qed simp

lemma testing_run_again_behind:
  "testing_run_again job \<lparr>clock_time = T, scheduled_callbacks = (d, j) # ts\<rparr> = Inr c' \<Longrightarrow> d \<le> T \<Longrightarrow>
   c' = \<lparr>clock_time = T, scheduled_callbacks = (d, j) # timers (run_again job \<lparr>time_now = T, timers = ts\<rparr>)\<rparr>"
  by (cases job)
    (auto simp: testing_schedule_repeated_def testing_schedule_repeated_finite_def schedule_repeated_def
      schedule_repeated_finite_def dest!: testing_schedule_behind split: if_splits)

lemma run_again_time [simp]: "time_now (run_again job t) = time_now t"
  by (cases job) (simp_all add: schedule_repeated_def schedule_repeated_finite_def async_wait_def)

lemma testing_run_fires:
  assumes "testing_run effect job (c, s) = Inr (c', s')" and same: "same_timers t c"
    and head: "scheduled_callbacks c = (d, job) # ts" and d: "d \<le> clock_time c"
  obtains t' where "timer_fires effect (t, s) (t', s')" "c' = c\<lparr>scheduled_callbacks := (d, job) # timers t'\<rparr>"
    "time_now t' = clock_time c"
proof -
  define T where "T = clock_time c"
  have c: "c = \<lparr>clock_time = T, scheduled_callbacks = (d, job) # ts\<rparr>" using head by (cases c) (simp add: T_def)
  obtain started s1 where e: "effect (timer_callback job) T s = (started, s1)" by (cases "effect (timer_callback job) T s")
  define t1 where "t1 = start_all started \<lparr>time_now = T, timers = ts\<rparr>"
  have t1: "t1 = \<lparr>time_now = T, timers = timers t1\<rparr>" by (cases t1) (simp add: t1_def [symmetric], metis start_all_time t1_def timer_scheduler.select_convs(1))
  from assms(1) e obtain c1 where c1: "rfold (\<lambda>(wait, job). clock_schedule_async job wait) started c = Inr c1"
    "testing_run_again job c1 = Inr c'" "s' = s1" by (auto simp: testing_run_def c rbind_eq_Inr)
  have "c1 = \<lparr>clock_time = T, scheduled_callbacks = (d, job) # timers t1\<rparr>"
    using testing_start_all_behind [OF c1(1) [unfolded c]] d by (simp add: T_def t1_def)
  from testing_run_again_behind [OF c1(2) [unfolded this]] d t1
  have c': "c' = \<lparr>clock_time = T, scheduled_callbacks = (d, job) # timers (run_again job t1)\<rparr>" by (simp add: T_def)
  have ts: "timers t = [] @ (d, job) # ts" "time_now t \<le> T" "d \<le> T" using same head d by (simp_all add: same_timers_def T_def)
  have "t\<lparr>time_now := T, timers := ts\<rparr> = \<lparr>time_now = T, timers = ts\<rparr>" by simp
  with timer_fires [where effect = effect, OF ts order.refl e] have "timer_fires effect (t, s) (run_again job t1, s')"
    by (simp add: t1_def c1(3))
  moreover have "time_now (run_again job t1) = clock_time c" by (simp add: t1_def T_def)
  ultimately show ?thesis using that c' by (simp add: c)
qed

lemma run_due_fires:
  assumes "run_due (testing_run effect) (c, s) = Some (Inr (c', s'))" and "same_timers t c"
  shows "\<exists>t'. (timer_fires effect)\<^sup>*\<^sup>* (t, s) (t', s') \<and> same_timers t' c' \<and> clock_time c' = clock_time c \<and>
    (\<forall>x\<in>set (take 1 (timers t')). clock_time c' < fst x)"
proof -
  define P where "P = (\<lambda>run x (y :: ('a timer_job clock_testing \<times> 'b) result). \<forall>c s c' s' t. run = testing_run effect \<longrightarrow> x = (c, s) \<longrightarrow> y = Inr (c', s') \<longrightarrow>
      same_timers t c \<longrightarrow> (\<exists>t'. (timer_fires effect)\<^sup>*\<^sup>* (t, s) (t', s') \<and> same_timers t' c' \<and> clock_time c' = clock_time c \<and>
        (\<forall>x\<in>set (take 1 (timers t')). clock_time c' < fst x)))"
  have step: "P run x y" if IH: "\<And>run x y. f run x = Some y \<Longrightarrow> P run x y"
    and body: "(case scheduled_callbacks (fst x) of [] \<Rightarrow> Some (Inr x)
      | (d, callback) # _ \<Rightarrow>
          if d \<le> clock_time (fst x) then
            case run callback x of
              Inl e \<Rightarrow> Some (Inl e)
            | Inr (c', s') \<Rightarrow>
                (case scheduled_callbacks c' of
                   [] \<Rightarrow> Some (Inl UndefinedBehaviour)
                 | _ # rest \<Rightarrow> f run (c'\<lparr>scheduled_callbacks := rest\<rparr>, s'))
          else Some (Inr x)) = Some y" for f run x y
    unfolding P_def
  proof (intro allI impI)
    fix c s c' s' t
    assume run: "run = testing_run effect" and x: "x = (c, s)" and y: "y = Inr (c', s')" and same: "same_timers t c"
    show "\<exists>t'. (timer_fires effect)\<^sup>*\<^sup>* (t, s) (t', s') \<and> same_timers t' c' \<and> clock_time c' = clock_time c \<and>
        (\<forall>x\<in>set (take 1 (timers t')). clock_time c' < fst x)"
    proof (cases "\<exists>d job ts. scheduled_callbacks c = (d, job) # ts \<and> d \<le> clock_time c")
      case False
      with body x y have "c' = c \<and> s' = s" by (cases "scheduled_callbacks c") (auto split: if_splits)
      with False same show ?thesis
        by (intro exI [of _ t]) (cases "scheduled_callbacks c", auto simp: same_timers_def)
    next
      case True
      then obtain d job ts where head: "scheduled_callbacks c = (d, job) # ts" "d \<le> clock_time c" by blast
      with body x y obtain c1 s1 e rest where c1: "testing_run effect job (c, s) = Inr (c1, s1)"
        "scheduled_callbacks c1 = e # rest" "f run (c1\<lparr>scheduled_callbacks := rest\<rparr>, s1) = Some (Inr (c', s'))"
        by (auto simp: run split: sum.splits list.splits)
      obtain t1 where t1: "timer_fires effect (t, s) (t1, s1)" "c1 = c\<lparr>scheduled_callbacks := (d, job) # timers t1\<rparr>"
        "time_now t1 = clock_time c" by (rule testing_run_fires [OF c1(1) same head])
      have "same_timers t1 (c1\<lparr>scheduled_callbacks := rest\<rparr>)" using c1(2) t1(2,3) by (simp add: same_timers_def)
      with IH [OF c1(3), unfolded P_def] run obtain t' where "(timer_fires effect)\<^sup>*\<^sup>* (t1, s1) (t', s')" "same_timers t' c'"
        "clock_time c' = clock_time c" "\<forall>x\<in>set (take 1 (timers t')). clock_time c' < fst x" by (auto simp: t1(2))
      with t1(1) show ?thesis by (meson converse_rtranclp_into_rtranclp)
    qed
  qed
  have "(case (testing_run effect, (c, s)) of (run, x) \<Rightarrow> P run x) (Inr (c', s'))"
    by (rule run_due.raw_induct, fact step) (simp add: assms(1))
  with assms(2) show ?thesis by (simp add: P_def)
qed

lemma increment_fires:
  "increment_from (testing_run effect) i n (c, s) = Some (Inr (c', s')) \<Longrightarrow> same_timers t c \<Longrightarrow>
   \<exists>t'. (timer_fires effect)\<^sup>*\<^sup>* (t, s) (t', s') \<and> same_timers t' c' \<and> clock_time c' = clock_time c + max 0 (n - i)"
proof (induction "nat (n - i)" arbitrary: i t c s)
  case 0
  then show ?case by (intro exI [of _ t]) (auto simp: increment_from.simps)
next
  case (Suc m)
  then have i: "i < n" "m = nat (n - (i + 1))" by auto
  with Suc.prems(1) obtain c1 s1 where run: "run_due (testing_run effect) (c\<lparr>clock_time := clock_time c + 1\<rparr>, s) = Some (Inr (c1, s1))"
    "increment_from (testing_run effect) (i + 1) n (c1, s1) = Some (Inr (c', s'))"
    by (subst (asm) increment_from.simps) (auto split: if_splits option.splits sum.splits)
  have "same_timers t (c\<lparr>clock_time := clock_time c + 1\<rparr>)" using Suc.prems(2) by (simp add: same_timers_def)
  from run_due_fires [OF run(1) this] obtain t1 where t1: "(timer_fires effect)\<^sup>*\<^sup>* (t, s) (t1, s1)" "same_timers t1 c1"
    "clock_time c1 = clock_time c + 1" by auto
  from Suc.hyps(1) [OF i(2) run(2) t1(2)] obtain t' where "(timer_fires effect)\<^sup>*\<^sup>* (t1, s1) (t', s')" "same_timers t' c'"
    "clock_time c' = clock_time c1 + max 0 (n - (i + 1))" by blast
  with t1(1,3) i(1) show ?case by (intro exI [of _ t']) (auto simp: max_def)
qed

section \<open>Properties\<close>

text \<open>
  C23: a simulated server sees an execution of the real one. Take the two schedulers with the same
  timers pending, and callbacks of any effect, which may start timers of their own and observe the
  time. When \<open>increment_time\<close> returns, the callbacks it has run, in their order and at their times,
  are a run that the timers of \<open>TimerAsyncSchedulerImpl\<close> may have (each fires once it has expired, but
  perhaps late, and those that have expired in any order), with the same state at the end and the
  same timers pending. And it does return, within the bounds of its integers, when all waits and
  periods are at least a millisecond; then each callback has run exactly at its expiry, those of one
  expiry in the order they were started. (With a wait of nothing, as task queues start their timers,
  a callback started between increments is late, and one that starts itself again never ends.)
\<close>

theorem simulated_timers_agree:
  "(same_timers t c \<longrightarrow> increment_time (testing_run effect) n (c, s) = Some (Inr (c1, s1)) \<longrightarrow>
      (\<exists>t1. (timer_fires effect)\<^sup>*\<^sup>* (t, s) (t1, s1) \<and> timers t1 = scheduled_callbacks c1 \<and>
        time_now t1 \<le> clock_time c1 \<and> clock_time c1 = clock_time c + max 0 n)) \<and>
   (effect_fits W effect \<longrightarrow> clocks_agree W t c \<longrightarrow> 0 \<le> n \<longrightarrow> n < 2 ^ 31 \<longrightarrow> 0 \<le> W \<longrightarrow> clock_time c + n + W < 2 ^ 63 \<longrightarrow>
      (\<exists>k t' c' s'. fire_timers effect k (t, s) = (t', s') \<and>
        increment_time (testing_run effect) n (c, s) = Some (Inr (c', s')) \<and>
        clock_time c' = clock_time c + n \<and> time_now t' \<le> clock_time c' \<and>
        timers t' = scheduled_callbacks c' \<and> (\<forall>(d, j)\<in>set (timers t'). clock_time c' < d) \<and> clocks_agree W t' c'))"
proof (intro conjI impI)
  assume "same_timers t c" "increment_time (testing_run effect) n (c, s) = Some (Inr (c1, s1))"
  with increment_fires [of effect 0 n c s c1 s1 t] show "\<exists>t1. (timer_fires effect)\<^sup>*\<^sup>* (t, s) (t1, s1) \<and>
      timers t1 = scheduled_callbacks c1 \<and> time_now t1 \<le> clock_time c1 \<and> clock_time c1 = clock_time c + max 0 n"
    by (auto simp: increment_time_def same_timers_def)
next
  assume assms: "effect_fits W effect" "clocks_agree W t c" "0 \<le> n" "n < 2 ^ 31" "0 \<le> W" "clock_time c + n + W < 2 ^ 63"
  then obtain k t' c' s' where
    "fire_timers effect k (t, s) = (t', s')" "increment_time (testing_run effect) n (c, s) = Some (Inr (c', s'))"
    "clock_time c' = clock_time c + n" "clocks_agree W t' c'"
    using increment_agree [OF assms(1,4,5,2), of 0 s] by (auto simp: increment_time_def)
  then show "\<exists>k t' c' s'. fire_timers effect k (t, s) = (t', s') \<and>
      increment_time (testing_run effect) n (c, s) = Some (Inr (c', s')) \<and>
      clock_time c' = clock_time c + n \<and> time_now t' \<le> clock_time c' \<and>
      timers t' = scheduled_callbacks c' \<and> (\<forall>(d, j)\<in>set (timers t'). clock_time c' < d) \<and> clocks_agree W t' c'"
    by (fastforce simp: clocks_agree_def)
qed

text \<open>A retry of two tries every ten milliseconds, seen for twenty-five.\<close>

theorem simulated_timers_agree_witness:
  "\<exists>k t' c' s'. fire_timers note_run k (\<lparr>time_now = 0, timers = [(10, RunFinite ''retry'' 10 2)]\<rparr>, []) = (t', s') \<and>
    increment_time (testing_run note_run) 25 (\<lparr>clock_time = 0, scheduled_callbacks = [(10, RunFinite ''retry'' 10 2)]\<rparr>, []) =
      Some (Inr (c', s')) \<and> clock_time c' = 25"
proof -
  have "effect_fits 10 (note_run :: (string, _) callback_effect)" by (simp add: effect_fits_def note_run_def)
  moreover have "clocks_agree 10 \<lparr>time_now = 0, timers = [(10, RunFinite ''retry'' 10 2)]\<rparr>
      \<lparr>clock_time = 0, scheduled_callbacks = [(10, RunFinite ''retry'' 10 2)]\<rparr>"
    by (simp add: clocks_agree_def)
  ultimately show ?thesis
    using simulated_timers_agree [of "\<lparr>time_now = 0, timers = [(10, RunFinite ''retry'' 10 2)]\<rparr>"
      "\<lparr>clock_time = 0, scheduled_callbacks = [(10, RunFinite ''retry'' 10 2)]\<rparr>" note_run 25 "[]" _ _ 10]
    by fastforce
qed

end
