(* ===== verification/Channel.thy ===== *)
theory Channel
  imports AsyncQueue Connections
begin

text \<open>
  \<open>uni::net::Channel\<close> (src/src/net/Channel.cc), the base class of the channels with its two lists of
  callbacks, and \<open>SelfChannel\<close>, by which a server sends messages to itself. Callbacks are values of
  a type of closures. The base class is a record that the records of its subclasses extend. The
  lemmas show that a \<open>SelfChannel\<close> with the callbacks that \<open>Connections::add_channel\<close> registers is
  the channel of Connections.thy.
\<close>

section \<open>Channel\<close>

record ('cb, 'cl) channel_base =
  receive_callbacks :: "'cb list"
  close_callbacks :: "'cl list"

definition add_receive_callback :: "'cb \<Rightarrow> ('cb, 'cl, 'c) channel_base_scheme \<Rightarrow> ('cb, 'cl, 'c) channel_base_scheme" where
  "add_receive_callback callback ch = ch\<lparr>receive_callbacks := receive_callbacks ch @ [callback]\<rparr>"

definition add_close_callback :: "'cl \<Rightarrow> ('cb, 'cl, 'c) channel_base_scheme \<Rightarrow> ('cb, 'cl, 'c) channel_base_scheme" where
  "add_close_callback callback ch = ch\<lparr>close_callbacks := close_callbacks ch @ [callback]\<rparr>"

text \<open>
  The loop of \<open>SelfChannel\<close> and \<open>ChannelTesting\<close> over the receive callbacks: what they return is
  not looked at. (\<open>ChannelImpl\<close> does look, in ChannelImpl.thy.)
\<close>

definition run_callbacks :: "('cb \<Rightarrow> 'm \<Rightarrow> 's \<Rightarrow> (bool \<times> 's) result) \<Rightarrow> 'cb list \<Rightarrow> 'm \<Rightarrow> 's \<Rightarrow> 's result" where
  "run_callbacks run callbacks message s =
     rfold (\<lambda>callback s. rbind (run callback message s) (\<lambda>(_, s'). Inr s')) callbacks s"

section \<open>SelfChannel\<close>

record ('cb, 'cl) self_channel = "('cb, 'cl) channel_base" +
  listening :: bool
  self_ip_string :: string

definition new_self_channel :: "string \<Rightarrow> ('cb, 'cl) self_channel" where
  "new_self_channel ip = \<lparr>receive_callbacks = [], close_callbacks = [], listening = False, self_ip_string = ip\<rparr>"

definition self_endpoint_id :: "('cb, 'cl) self_channel \<Rightarrow> endpoint_id" where
  "self_endpoint_id ch = EndpointId (self_ip_string ch) 0"

definition self_queue_send ::
  "('cb \<Rightarrow> 'm \<Rightarrow> 's \<Rightarrow> (bool \<times> 's) result) \<Rightarrow> 'm \<Rightarrow> ('cb, 'cl) self_channel \<Rightarrow> 's \<Rightarrow> 's result" where
  "self_queue_send run message ch s =
     (if listening ch then run_callbacks run (receive_callbacks ch) message s else Inr s)"

definition self_start_listening :: "('cb, 'cl) self_channel \<Rightarrow> ('cb, 'cl) self_channel" where
  "self_start_listening ch = ch\<lparr>listening := True\<rparr>"

section \<open>The callbacks of Connections\<close>

text \<open>The closures that \<open>add_channel\<close> registers, each with the endpoint it captured.\<close>

datatype connection_closure = QueueFrom endpoint_id
datatype close_closure = EraseChannel endpoint_id

fun run_receive ::
  "connection_closure \<Rightarrow> 'w \<Rightarrow> 'w incoming_message async_scheduler \<Rightarrow> (bool \<times> 'w incoming_message async_scheduler) result" where
  "run_receive (QueueFrom e) message scheduler =
     Inr (True, queue_message \<lparr>incoming_endpoint = e, incoming_payload = message\<rparr> scheduler)"

fun run_close :: "close_closure \<Rightarrow> 'w connections \<Rightarrow> 'w connections result" where
  "run_close (EraseChannel e) c = on_close e c"

definition register_channel ::
  "endpoint_id \<Rightarrow> (connection_closure, close_closure, 'c) channel_base_scheme
   \<Rightarrow> (connection_closure, close_closure, 'c) channel_base_scheme" where
  "register_channel e ch = add_close_callback (EraseChannel e) (add_receive_callback (QueueFrom e) ch)"

section \<open>Refinement\<close>

text \<open>
  What the servers' model keeps of a \<open>SelfChannel\<close>: whether it listens, and the messages it has
  handed to the scheduler that are not handled yet.
\<close>

definition self_channel_of ::
  "endpoint_id \<Rightarrow> (connection_closure, close_closure) self_channel \<Rightarrow> 'w incoming_message async_scheduler \<Rightarrow> 'w channel" where
  "self_channel_of e ch scheduler =
     SelfChannel (listening ch)
       (map incoming_payload (filter (\<lambda>m. incoming_endpoint m = e) (message_queue scheduler)))"

lemma message_queue_simps [simp]:
  "message_queue (queue_message m a) = message_queue a @ [m]"
  "message_queue (message_handled a) = tl (message_queue a)"
  by (simp_all add: queue_message_def message_handled_def schedule_async_def Let_def)

text \<open>
  The channel that a server registers for itself behaves as the model's: a message sent to it is
  queued with the server's own address when the channel listens and lost when it does not, messages
  of other channels leave it alone, handling a message takes it out, and closing it removes it from
  the connections.
\<close>

lemma self_endpoint_id_simps [simp]:
  "self_endpoint_id (new_self_channel ip) = EndpointId ip 0"
  "self_endpoint_id (register_channel e ch) = self_endpoint_id ch"
  by (simp_all add: self_endpoint_id_def new_self_channel_def register_channel_def add_close_callback_def
      add_receive_callback_def)

lemma self_channel_refines:
  assumes "ch = register_channel e (new_self_channel ip)" and "e = self_endpoint_id (new_self_channel ip :: (connection_closure, close_closure) self_channel)"
    and "ch' = ch \<or> ch' = self_start_listening ch"
  shows "\<exists>a'. self_queue_send run_receive m ch' a = Inr a' \<and>
      self_channel_of e ch' a' = queue_send m (self_channel_of e ch' a)"
    and "incoming_endpoint n \<noteq> e \<Longrightarrow> self_channel_of e ch' (queue_message n a) = self_channel_of e ch' a"
    and "message_queue a = n # ns \<Longrightarrow> self_channel_of e ch' (message_handled a) =
      (if incoming_endpoint n = e then pop_message (self_channel_of e ch' a) else self_channel_of e ch' a)"
    and "self_channel_of e (self_start_listening ch') a = start_listening (self_channel_of e ch' a)"
    and "map run_close (close_callbacks ch') = [on_close (EndpointId ip 0)]"
proof -
  have ch': "receive_callbacks ch' = [QueueFrom e]" "close_callbacks ch' = [EraseChannel e]" "e = EndpointId ip 0"
    using assms by (auto simp: register_channel_def add_receive_callback_def add_close_callback_def
        new_self_channel_def self_endpoint_id_def self_start_listening_def)
  show "\<exists>a'. self_queue_send run_receive m ch' a = Inr a' \<and>
      self_channel_of e ch' a' = queue_send m (self_channel_of e ch' a)"
    by (cases "listening ch'") (simp_all add: self_queue_send_def run_callbacks_def ch'(1) self_channel_of_def)
  show "incoming_endpoint n \<noteq> e \<Longrightarrow> self_channel_of e ch' (queue_message n a) = self_channel_of e ch' a"
    by (simp add: self_channel_of_def)
  show "message_queue a = n # ns \<Longrightarrow> self_channel_of e ch' (message_handled a) =
      (if incoming_endpoint n = e then pop_message (self_channel_of e ch' a) else self_channel_of e ch' a)"
    by (simp add: self_channel_of_def)
  show "self_channel_of e (self_start_listening ch') a = start_listening (self_channel_of e ch' a)"
    by (simp add: self_channel_of_def self_start_listening_def)
  show "map run_close (close_callbacks ch') = [on_close (EndpointId ip 0)]"
    using ch'(3) by (auto simp: ch'(2))
qed

end
