(* ===== verification/ChannelTesting.thy ===== *)
theory ChannelTesting
  imports Channel
begin

text \<open>
  \<open>uni::net::ChannelTesting\<close> (src/src/net/testing/ChannelTesting.cc), the network of the
  simulations: channels in pairs, each with a queue of messages on their way to the other, and the
  vectors of nonempty channels from which a simulation picks the next message to deliver or to drop.
  Pointers are addresses in a store; a handler that runs at the other end is the list of the
  messages it sends. The lemmas show that the bookkeeping of the vectors is always right, so that
  none of the class's assertions fails and a simulation is a run of plain FIFO channels.
\<close>

section \<open>State\<close>

record ('w, 'cb, 'cl) channel_testing = "('cb, 'cl) channel_base" +
  other_ip_string :: string
  testing_queue :: "'w list"
  nonempty_vector :: nat
  other_channel :: "nat option"
  connection_state :: bool
  testing_listening :: bool

text \<open>The channels by address, and the vectors they share.\<close>

record ('w, 'cb, 'cl) testing_net =
  net_channels :: "nat \<Rightarrow> ('w, 'cb, 'cl) channel_testing"
  nonempty_channels :: "nat \<Rightarrow> nat list"

definition new_channel_testing :: "string \<Rightarrow> nat \<Rightarrow> ('w, 'cb, 'cl) channel_testing" where
  "new_channel_testing other_ip vector =
     \<lparr>receive_callbacks = [], close_callbacks = [], other_ip_string = other_ip, testing_queue = [],
      nonempty_vector = vector, other_channel = None, connection_state = True, testing_listening = False\<rparr>"

definition update_net ::
  "nat \<Rightarrow> (('w, 'cb, 'cl) channel_testing \<Rightarrow> ('w, 'cb, 'cl) channel_testing)
   \<Rightarrow> ('w, 'cb, 'cl) testing_net \<Rightarrow> ('w, 'cb, 'cl) testing_net" where
  "update_net p f net = net\<lparr>net_channels := (net_channels net)(p := f (net_channels net p))\<rparr>"

section \<open>Operations\<close>

definition set_other_end :: "nat \<Rightarrow> nat \<Rightarrow> ('w, 'cb, 'cl) testing_net \<Rightarrow> ('w, 'cb, 'cl) testing_net" where
  "set_other_end p q = update_net p (\<lambda>ch. ch\<lparr>other_channel := Some q\<rparr>)"

definition testing_endpoint_id :: "('w, 'cb, 'cl) channel_testing \<Rightarrow> endpoint_id" where
  "testing_endpoint_id ch = EndpointId (other_ip_string ch) 0"

definition testing_start_listening :: "nat \<Rightarrow> ('w, 'cb, 'cl) testing_net \<Rightarrow> ('w, 'cb, 'cl) testing_net" where
  "testing_start_listening p = update_net p (\<lambda>ch. ch\<lparr>testing_listening := True\<rparr>)"

definition set_connection_state :: "nat \<Rightarrow> bool \<Rightarrow> ('w, 'cb, 'cl) testing_net \<Rightarrow> ('w, 'cb, 'cl) testing_net" where
  "set_connection_state p b = update_net p (\<lambda>ch. ch\<lparr>connection_state := b\<rparr>)"

definition testing_queue_send ::
  "nat \<Rightarrow> 'w \<Rightarrow> ('w, 'cb, 'cl) testing_net \<Rightarrow> ('w, 'cb, 'cl) testing_net result" where
  "testing_queue_send p message net =
     (if length (testing_queue (net_channels net p)) < MAX_MESSAGES_QUEUE_SIZE then
        let net' = update_net p (\<lambda>ch. ch\<lparr>testing_queue := testing_queue ch @ [message]\<rparr>) net;
            v = nonempty_vector (net_channels net' p)
        in if length (testing_queue (net_channels net' p)) = 1 then
             rbind (universal_assert (p \<notin> set (nonempty_channels net' v))
               ''This channel should not already be in the nonempty_channels vectors, since it was indeed empty'') (\<lambda>_.
             Inr (net'\<lparr>nonempty_channels := (nonempty_channels net')(v := nonempty_channels net' v @ [p])\<rparr>))
           else Inr net'
      else Inr net)"

definition check_empty :: "nat \<Rightarrow> ('w, 'cb, 'cl) testing_net \<Rightarrow> ('w, 'cb, 'cl) testing_net result" where
  "check_empty p net =
     (let v = nonempty_vector (net_channels net p)
      in if length (testing_queue (net_channels net p)) = 0 then
           rbind (universal_assert (p \<in> set (nonempty_channels net v))
             ''This channel should have been in the nonempty_channels vectors, since it was indeed nonempty'') (\<lambda>_.
           Inr (net\<lparr>nonempty_channels := (nonempty_channels net)(v := remove1 p (nonempty_channels net v))\<rparr>))
         else Inr net)"

text \<open>\<open>_message_queue.pop()\<close> is undefined on an empty queue.\<close>

definition pop_queue :: "nat \<Rightarrow> ('w, 'cb, 'cl) testing_net \<Rightarrow> ('w, 'cb, 'cl) testing_net result" where
  "pop_queue p net =
     (if testing_queue (net_channels net p) = [] then Inl UndefinedBehaviour
      else Inr (update_net p (\<lambda>ch. ch\<lparr>testing_queue := tl (testing_queue ch)\<rparr>) net))"

definition EMPTY_CHANNEL :: string where
  "EMPTY_CHANNEL = ''We should never be trying to deliver a message from an empty channel''"

definition drop_message :: "nat \<Rightarrow> ('w, 'cb, 'cl) testing_net \<Rightarrow> ('w, 'cb, 'cl) testing_net result" where
  "drop_message p net =
     rbind (universal_assert (length (testing_queue (net_channels net p)) > 0) EMPTY_CHANNEL) (\<lambda>_.
     rbind (pop_queue p net) (check_empty p))"

text \<open>
  A receive callback gives the messages it sends, each with the channel it sends it on, what it
  returns, and the state it leaves.
\<close>

type_synonym ('w, 'cb, 's) testing_callback = "'cb \<Rightarrow> 'w \<Rightarrow> 's \<Rightarrow> ((nat \<times> 'w) list \<times> bool \<times> 's) result"

definition run_testing_callback ::
  "('w, 'cb, 's) testing_callback \<Rightarrow> 'cb \<Rightarrow> 'w \<Rightarrow> ('w, 'cb, 'cl) testing_net \<times> 's
   \<Rightarrow> (bool \<times> ('w, 'cb, 'cl) testing_net \<times> 's) result" where
  "run_testing_callback run callback message x =
     rbind (run callback message (snd x)) (\<lambda>(sends, continue, s').
     rbind (rfold (\<lambda>(q, m). testing_queue_send q m) sends (fst x)) (\<lambda>net'. Inr (continue, net', s')))"

definition recieve_message ::
  "('w, 'cb, 's) testing_callback \<Rightarrow> nat \<Rightarrow> 'w \<Rightarrow> ('w, 'cb, 'cl) testing_net \<times> 's
   \<Rightarrow> (('w, 'cb, 'cl) testing_net \<times> 's) result" where
  "recieve_message run p message x =
     (if testing_listening (net_channels (fst x) p) then
        run_callbacks (run_testing_callback run) (receive_callbacks (net_channels (fst x) p)) message x
      else Inr x)"

definition deliver_message ::
  "('w, 'cb, 's) testing_callback \<Rightarrow> nat \<Rightarrow> ('w, 'cb, 'cl) testing_net \<times> 's
   \<Rightarrow> (('w, 'cb, 'cl) testing_net \<times> 's) result" where
  "deliver_message run p x =
     rbind (universal_assert (length (testing_queue (net_channels (fst x) p)) > 0) EMPTY_CHANNEL) (\<lambda>_.
     if \<not> connection_state (net_channels (fst x) p) then
       rbind (drop_message p (fst x)) (\<lambda>net'. Inr (net', snd x))
     else
       case other_channel (net_channels (fst x) p) of
         None \<Rightarrow> Inl UndefinedBehaviour
       | Some q \<Rightarrow>
           rbind (recieve_message run q (hd (testing_queue (net_channels (fst x) p))) x) (\<lambda>(net', s').
           rbind (pop_queue p net') (\<lambda>net''.
           rbind (check_empty p net'') (\<lambda>net'''. Inr (net''', s')))))"

section \<open>Simulations\<close>

text \<open>
  What a simulation does: a message is sent on a channel, the message at the front of a channel of
  one of the vectors is delivered or dropped, a connection fails or comes back. An index past the
  end of a vector does nothing.
\<close>

datatype 'w net_event =
    NetSend nat 'w
  | NetDeliver nat nat
  | NetDrop nat nat
  | NetConnection nat bool

fun net_step ::
  "('w, 'cb, 's) testing_callback \<Rightarrow> 'w net_event \<Rightarrow> ('w, 'cb, 'cl) testing_net \<times> 's
   \<Rightarrow> (('w, 'cb, 'cl) testing_net \<times> 's) result" where
  "net_step run (NetSend p m) (net, s) = rbind (testing_queue_send p m net) (\<lambda>net'. Inr (net', s))"
| "net_step run (NetDeliver v k) (net, s) =
     (if k < length (nonempty_channels net v) then deliver_message run (nonempty_channels net v ! k) (net, s)
      else Inr (net, s))"
| "net_step run (NetDrop v k) (net, s) =
     (if k < length (nonempty_channels net v) then
        rbind (drop_message (nonempty_channels net v ! k) net) (\<lambda>net'. Inr (net', s))
      else Inr (net, s))"
| "net_step run (NetConnection p b) (net, s) = Inr (set_connection_state p b net, s)"

section \<open>FIFO channels\<close>

text \<open>
  The network without its vectors, with the channels of Connections.thy, and with a record of what
  was sent and what was taken off. An event on an empty channel does nothing.
\<close>

datatype 'w wire_event = Sent nat 'w | Taken nat 'w

type_synonym ('w, 'cb, 'cl) fifo_net = "(nat \<Rightarrow> ('w, 'cb, 'cl) channel_testing) \<times> 'w wire_event list"

definition fifo_send :: "nat \<Rightarrow> 'w \<Rightarrow> ('w, 'cb, 'cl) fifo_net \<Rightarrow> ('w, 'cb, 'cl) fifo_net" where
  "fifo_send p m w =
     (let (chs, tr) = w; ch = ChannelImpl (testing_queue (chs p)); ch' = queue_send m ch
      in (chs(p := (chs p)\<lparr>testing_queue := pending ch'\<rparr>), if ch' = ch then tr else tr @ [Sent p m]))"

definition fifo_pop :: "nat \<Rightarrow> ('w, 'cb, 'cl) fifo_net \<Rightarrow> ('w, 'cb, 'cl) fifo_net" where
  "fifo_pop p w =
     (let (chs, tr) = w; ch = ChannelImpl (testing_queue (chs p))
      in (chs(p := (chs p)\<lparr>testing_queue := pending (pop_message ch)\<rparr>), tr @ [Taken p (hd (pending ch))]))"

definition fifo_callback ::
  "('w, 'cb, 's) testing_callback \<Rightarrow> 'cb \<Rightarrow> 'w \<Rightarrow> ('w, 'cb, 'cl) fifo_net \<times> 's
   \<Rightarrow> (bool \<times> ('w, 'cb, 'cl) fifo_net \<times> 's) result" where
  "fifo_callback run callback message x =
     rbind (run callback message (snd x)) (\<lambda>(sends, continue, s').
     Inr (continue, fold (\<lambda>(q, m). fifo_send q m) sends (fst x), s'))"

definition fifo_receive ::
  "('w, 'cb, 's) testing_callback \<Rightarrow> nat \<Rightarrow> 'w \<Rightarrow> ('w, 'cb, 'cl) fifo_net \<times> 's
   \<Rightarrow> (('w, 'cb, 'cl) fifo_net \<times> 's) result" where
  "fifo_receive run p message x =
     (if testing_listening (fst (fst x) p) then
        run_callbacks (fifo_callback run) (receive_callbacks (fst (fst x) p)) message x
      else Inr x)"

datatype 'w fifo_event = FifoSend nat 'w | FifoDeliver nat | FifoLose nat | FifoConnection nat bool

fun fifo_step ::
  "('w, 'cb, 's) testing_callback \<Rightarrow> 'w fifo_event \<Rightarrow> ('w, 'cb, 'cl) fifo_net \<times> 's
   \<Rightarrow> (('w, 'cb, 'cl) fifo_net \<times> 's) result" where
  "fifo_step run (FifoSend p m) (w, s) = Inr (fifo_send p m w, s)"
| "fifo_step run (FifoDeliver p) (w, s) =
     (case (testing_queue (fst w p), other_channel (fst w p)) of
        (m # _, Some q) \<Rightarrow>
          if connection_state (fst w p) then
            rbind (fifo_receive run q m (w, s)) (\<lambda>(w', s'). Inr (fifo_pop p w', s'))
          else Inr (fifo_pop p w, s)
      | _ \<Rightarrow> Inr (w, s))"
| "fifo_step run (FifoLose p) (w, s) =
     Inr (if testing_queue (fst w p) = [] then w else fifo_pop p w, s)"
| "fifo_step run (FifoConnection p b) (w, s) =
     Inr (((fst w)(p := (fst w p)\<lparr>connection_state := b\<rparr>), snd w), s)"

fun sent_on :: "nat \<Rightarrow> 'w wire_event list \<Rightarrow> 'w list" where
  "sent_on p [] = []"
| "sent_on p (Sent q m # tr) = (if q = p then m # sent_on p tr else sent_on p tr)"
| "sent_on p (Taken q m # tr) = sent_on p tr"

fun taken_off :: "nat \<Rightarrow> 'w wire_event list \<Rightarrow> 'w list" where
  "taken_off p [] = []"
| "taken_off p (Sent q m # tr) = taken_off p tr"
| "taken_off p (Taken q m # tr) = (if q = p then m # taken_off p tr else taken_off p tr)"

lemma trace_append [simp]:
  "sent_on p (tr @ tr') = sent_on p tr @ sent_on p tr'"
  "taken_off p (tr @ tr') = taken_off p tr @ taken_off p tr'"
  by (induction tr rule: sent_on.induct) auto

section \<open>The bookkeeping\<close>

definition net_ok :: "('w, 'cb, 'cl) testing_net \<Rightarrow> bool" where
  "net_ok net \<longleftrightarrow>
     (\<forall>v. distinct (nonempty_channels net v)) \<and>
     (\<forall>v p. p \<in> set (nonempty_channels net v) \<longleftrightarrow>
        nonempty_vector (net_channels net p) = v \<and> testing_queue (net_channels net p) \<noteq> []) \<and>
     (\<forall>p. other_channel (net_channels net p) \<noteq> None)"

text \<open>The messages of a channel are those it began with and those sent, without those taken off.\<close>

definition fifo_ok :: "(nat \<Rightarrow> 'w list) \<Rightarrow> ('w, 'cb, 'cl) fifo_net \<Rightarrow> bool" where
  "fifo_ok q0 w \<longleftrightarrow> (\<forall>p. q0 p @ sent_on p (snd w) = taken_off p (snd w) @ testing_queue (fst w p))"

lemma fifo_ok_send: "fifo_ok q0 w \<Longrightarrow> fifo_ok q0 (fifo_send p m w)"
  by (cases w) (auto simp: fifo_ok_def fifo_send_def Let_def)

lemma fifo_ok_pop: "fifo_ok q0 w \<Longrightarrow> testing_queue (fst w p) \<noteq> [] \<Longrightarrow> fifo_ok q0 (fifo_pop p w)"
  by (cases w) (auto simp: fifo_ok_def fifo_pop_def Let_def)

lemma testing_queue_send_fifo:
  assumes "net_ok net"
  obtains net' where "testing_queue_send p m net = Inr net'" "net_ok net'"
    "net_channels net' = fst (fifo_send p m (net_channels net, tr))"
    "\<forall>q. \<exists>rest. testing_queue (net_channels net' q) = testing_queue (net_channels net q) @ rest"
proof (cases "length (testing_queue (net_channels net p)) < MAX_MESSAGES_QUEUE_SIZE")
  case False
  then show ?thesis
    using assms by (intro that [of net]) (auto simp: testing_queue_send_def fifo_send_def Let_def)
next
  case room: True
  define v where "v = nonempty_vector (net_channels net p)"
  define net' where "net' = update_net p (\<lambda>ch. ch\<lparr>testing_queue := testing_queue ch @ [m]\<rparr>) net"
  show ?thesis
  proof (cases "testing_queue (net_channels net p) = []")
    case True
    with assms have "p \<notin> set (nonempty_channels net v')" for v' by (auto simp: net_ok_def)
    with room True assms show ?thesis
      by (intro that [of "net'\<lparr>nonempty_channels := (nonempty_channels net)(v := nonempty_channels net v @ [p])\<rparr>"])
        (auto simp: testing_queue_send_def fifo_send_def update_net_def Let_def net_ok_def v_def net'_def)
  next
    case False
    with room assms show ?thesis
      by (intro that [of net'])
        (auto simp: testing_queue_send_def fifo_send_def update_net_def Let_def net_ok_def net'_def)
  qed
qed

lemma pop_fifo:
  assumes "net_ok net" and "testing_queue (net_channels net p) \<noteq> []"
  obtains net' where "rbind (pop_queue p net) (check_empty p) = Inr net'" "net_ok net'"
    "net_channels net' = fst (fifo_pop p (net_channels net, tr))"
proof -
  define v where "v = nonempty_vector (net_channels net p)"
  define net' where "net' = update_net p (\<lambda>ch. ch\<lparr>testing_queue := tl (testing_queue ch)\<rparr>) net"
  from assms have p: "p \<in> set (nonempty_channels net v)" by (simp add: net_ok_def v_def)
  show ?thesis
  proof (cases "tl (testing_queue (net_channels net p)) = []")
    case True
    with assms p show ?thesis
      by (intro that [of "net'\<lparr>nonempty_channels := (nonempty_channels net)(v := remove1 p (nonempty_channels net v))\<rparr>"])
        (auto simp: pop_queue_def check_empty_def fifo_pop_def update_net_def Let_def net_ok_def v_def net'_def)
  next
    case False
    with assms(2) have "1 < length (testing_queue (net_channels net p))"
      by (cases "testing_queue (net_channels net p)") auto
    with assms False show ?thesis
      by (intro that [of net'])
        (auto simp: pop_queue_def check_empty_def fifo_pop_def update_net_def Let_def net_ok_def net'_def)
  qed
qed

text \<open>The store and the FIFO network side by side; sends only add at the end of a queue.\<close>

definition runs_fifo ::
  "(nat \<Rightarrow> 'w list) \<Rightarrow> ('w, 'cb, 'cl) testing_net \<times> 's \<Rightarrow> ('w, 'cb, 'cl) fifo_net \<times> 's \<Rightarrow> bool" where
  "runs_fifo q0 x w \<longleftrightarrow>
     net_ok (fst x) \<and> net_channels (fst x) = fst (fst w) \<and> snd x = snd w \<and> fifo_ok q0 (fst w)"

definition extends_queues ::
  "('w, 'cb, 'cl) testing_net \<times> 's \<Rightarrow> ('w, 'cb, 'cl) testing_net \<times> 's \<Rightarrow> bool" where
  "extends_queues x x' \<longleftrightarrow>
     (\<forall>q. \<exists>rest. testing_queue (net_channels (fst x') q) = testing_queue (net_channels (fst x) q) @ rest)"

lemma extends_queues_refl [simp]: "extends_queues x x"
  by (simp add: extends_queues_def)

lemma extends_queues_trans: "extends_queues x y \<Longrightarrow> extends_queues y z \<Longrightarrow> extends_queues x z"
  unfolding extends_queues_def by (metis append_assoc)

lemma send_runs_fifo:
  assumes "runs_fifo q0 (net, s) w"
  obtains net' where "testing_queue_send p m net = Inr net'" "runs_fifo q0 (net', s') (fifo_send p m (fst w), s')"
    "extends_queues (net, s) (net', s')"
proof -
  from assms have ok: "net_ok net" and w: "fst w = (net_channels net, snd (fst w))" and f: "fifo_ok q0 (fst w)"
    by (simp_all add: runs_fifo_def prod_eq_iff)
  obtain net' where "testing_queue_send p m net = Inr net'" "net_ok net'"
    "net_channels net' = fst (fifo_send p m (net_channels net, snd (fst w)))"
    and "\<forall>q. \<exists>rest. testing_queue (net_channels net' q) = testing_queue (net_channels net q) @ rest"
    by (rule testing_queue_send_fifo [OF ok])
  with w fifo_ok_send [OF f, of p m] show ?thesis
    by (intro that [of net']) (simp_all add: runs_fifo_def extends_queues_def)
qed

lemma sends_run_fifo:
  assumes "runs_fifo q0 (net, s) w"
  shows "\<exists>net'. rfold (\<lambda>(q, m). testing_queue_send q m) sends net = Inr net' \<and>
    runs_fifo q0 (net', s') (fold (\<lambda>(q, m). fifo_send q m) sends (fst w), s') \<and> extends_queues (net, s) (net', s')"
  using assms
proof (induction sends arbitrary: net w s)
  case Nil
  then show ?case by (auto simp: runs_fifo_def extends_queues_def)
next
  case (Cons x sends)
  obtain p m where x: "x = (p, m)" by (cases x)
  obtain net1 where net1: "testing_queue_send p m net = Inr net1" "runs_fifo q0 (net1, s) (fifo_send p m (fst w), s)"
    "extends_queues (net, s) (net1, s)"
    by (rule send_runs_fifo [OF Cons.prems])
  from Cons.IH [OF net1(2)] net1 x show ?case by (auto intro: extends_queues_trans)
qed

text \<open>A result agrees with the FIFO network's: the same error, or states side by side.\<close>

definition agrees ::
  "(nat \<Rightarrow> 'w list) \<Rightarrow> ('w, 'cb, 'cl) testing_net \<times> 's \<Rightarrow> (('w, 'cb, 'cl) testing_net \<times> 's) result
   \<Rightarrow> (('w, 'cb, 'cl) fifo_net \<times> 's) result \<Rightarrow> bool" where
  "agrees q0 x r r' \<longleftrightarrow>
     (case (r, r') of
        (Inl e, Inl e') \<Rightarrow> e = e'
      | (Inr x', Inr w') \<Rightarrow> runs_fifo q0 x' w' \<and> extends_queues x x'
      | _ \<Rightarrow> False)"

lemma callbacks_run_fifo:
  assumes "runs_fifo q0 x w"
  shows "agrees q0 x (run_callbacks (run_testing_callback run) cbs m x) (run_callbacks (fifo_callback run) cbs m w)"
  using assms
proof (induction cbs arbitrary: x w)
  case Nil
  then show ?case by (simp add: run_callbacks_def agrees_def)
next
  case (Cons cb cbs)
  obtain net s where x: "x = (net, s)" by (cases x)
  with Cons.prems have w: "snd w = s" by (simp add: runs_fifo_def)
  show ?case
  proof (cases "run cb m s")
    case (Inl e)
    with x w show ?thesis
      by (simp add: run_callbacks_def run_testing_callback_def fifo_callback_def agrees_def)
  next
    case (Inr r)
    then obtain sends continue s' where r: "run cb m s = Inr (sends, continue, s')" by (cases r) auto
    obtain net' where sends: "rfold (\<lambda>(q, m). testing_queue_send q m) sends net = Inr net'"
      "runs_fifo q0 (net', s') (fold (\<lambda>(q, m). fifo_send q m) sends (fst w), s')" "extends_queues (net, s) (net', s')"
      using sends_run_fifo Cons.prems x by metis
    from Cons.IH [OF sends(2)] sends(1,3) r x w show ?thesis
      by (auto simp: run_callbacks_def run_testing_callback_def fifo_callback_def agrees_def
          intro: extends_queues_trans split: sum.splits)
  qed
qed

lemma pop_runs_fifo:
  assumes "runs_fifo q0 (net, s) w" and "testing_queue (net_channels net p) \<noteq> []"
  obtains net' where "rbind (pop_queue p net) (check_empty p) = Inr net'" "runs_fifo q0 (net', s) (fifo_pop p (fst w), s)"
proof -
  from assms have ok: "net_ok net" and w: "fst w = (net_channels net, snd (fst w))" and f: "fifo_ok q0 (fst w)"
    by (simp_all add: runs_fifo_def prod_eq_iff)
  obtain net' where "rbind (pop_queue p net) (check_empty p) = Inr net'" "net_ok net'"
    "net_channels net' = fst (fifo_pop p (net_channels net, snd (fst w)))"
    by (rule pop_fifo [OF ok assms(2)])
  moreover have "fifo_ok q0 (fifo_pop p (fst w))"
    using fifo_ok_pop [OF f, of p] assms(2) w by (metis fst_conv)
  ultimately show ?thesis using w by (intro that [of net']) (simp_all add: runs_fifo_def)
qed

lemma deliver_runs_fifo:
  assumes "runs_fifo q0 (net, s) (w, s)" and "testing_queue (net_channels net p) \<noteq> []"
  shows "case deliver_message run p (net, s) of
      Inl e \<Rightarrow> fifo_step run (FifoDeliver p) (w, s) = Inl e
    | Inr x' \<Rightarrow> \<exists>w'. fifo_step run (FifoDeliver p) (w, s) = Inr w' \<and> runs_fifo q0 x' w'"
proof -
  obtain m ms where q: "testing_queue (net_channels net p) = m # ms"
    using assms(2) by (cases "testing_queue (net_channels net p)") auto
  from assms(1) have chs: "fst w = net_channels net" and ok: "net_ok net" by (simp_all add: runs_fifo_def)
  then obtain other where other: "other_channel (net_channels net p) = Some other"
    by (auto simp: net_ok_def dest: spec [of _ p])
  show ?thesis
  proof (cases "connection_state (net_channels net p)")
    case False
    obtain net' where "rbind (pop_queue p net) (check_empty p) = Inr net'" "runs_fifo q0 (net', s) (fifo_pop p w, s)"
      using pop_runs_fifo [OF assms] by auto
    with False q chs other show ?thesis by (simp add: deliver_message_def drop_message_def)
  next
    case True
    have agree: "agrees q0 (net, s) (recieve_message run other m (net, s)) (fifo_receive run other m (w, s))"
      using callbacks_run_fifo [OF assms(1)] assms(1) chs
      by (simp add: recieve_message_def fifo_receive_def) (simp add: agrees_def)
    show ?thesis
    proof (cases "recieve_message run other m (net, s)")
      case (Inl e)
      with agree have "fifo_receive run other m (w, s) = Inl e" by (auto simp: agrees_def split: sum.splits)
      with Inl True q chs other show ?thesis by (simp add: deliver_message_def)
    next
      case (Inr x1)
      obtain net1 s1 where x1: "x1 = (net1, s1)" by (cases x1)
      with agree Inr obtain w1 where w1: "fifo_receive run other m (w, s) = Inr (w1, s1)"
        "runs_fifo q0 (net1, s1) (w1, s1)" "extends_queues (net, s) (net1, s1)"
        by (auto simp: agrees_def runs_fifo_def split: sum.splits)
      from w1(3) q have "testing_queue (net_channels net1 p) \<noteq> []"
        unfolding extends_queues_def by (metis Nil_is_append_conv fst_conv list.discI)
      with w1(2) obtain net' where "rbind (pop_queue p net1) (check_empty p) = Inr net'"
        "runs_fifo q0 (net', s1) (fifo_pop p w1, s1)"
        using pop_runs_fifo [of q0 net1 s1 "(w1, s1)" p] by auto
      with Inr x1 w1(1) True q chs other show ?thesis
        by (simp add: deliver_message_def rbind_assoc [symmetric])
    qed
  qed
qed

lemma drop_runs_fifo:
  assumes "runs_fifo q0 (net, s) (w, s)" and "testing_queue (net_channels net p) \<noteq> []"
  obtains net' where "drop_message p net = Inr net'" "runs_fifo q0 (net', s) (fifo_pop p w, s)"
proof -
  obtain net' where "rbind (pop_queue p net) (check_empty p) = Inr net'" "runs_fifo q0 (net', s) (fifo_pop p w, s)"
    using pop_runs_fifo [OF assms] by auto
  with assms(2) show ?thesis by (intro that [of net']) (simp_all add: drop_message_def)
qed

lemma nonempty_nth:
  "runs_fifo q0 (net, s) w \<Longrightarrow> k < length (nonempty_channels net v) \<Longrightarrow>
   testing_queue (net_channels net (nonempty_channels net v ! k)) \<noteq> []"
  using nth_mem [of k "nonempty_channels net v"] by (auto simp: runs_fifo_def net_ok_def)

text \<open>An event of the simulation is an event of the FIFO network.\<close>

lemma net_step_runs_fifo:
  assumes run: "runs_fifo q0 (net, s) (w, s)"
  shows "\<exists>ev'. case net_step run ev (net, s) of
      Inl e \<Rightarrow> fifo_step run ev' (w, s) = Inl e
    | Inr x' \<Rightarrow> \<exists>w'. fifo_step run ev' (w, s) = Inr w' \<and> runs_fifo q0 x' w'"
proof -
  have idle: "fifo_step run (FifoConnection 0 (connection_state (fst w 0))) (w, s) = Inr (w, s)" by simp
  show ?thesis
  proof (cases ev)
    case (NetSend p m)
    obtain net' where "testing_queue_send p m net = Inr net'" "runs_fifo q0 (net', s) (fifo_send p m w, s)"
      by (rule send_runs_fifo [OF run, of p m s]) simp
    with NetSend show ?thesis by (intro exI [of _ "FifoSend p m"]) simp
  next
    case (NetDeliver v k)
    show ?thesis
    proof (cases "k < length (nonempty_channels net v)")
      case True
      let ?p = "nonempty_channels net v ! k"
      from deliver_runs_fifo [OF run nonempty_nth [OF run True], of run] NetDeliver True show ?thesis
        by (intro exI [of _ "FifoDeliver ?p"]) simp
    next
      case False
      with run NetDeliver idle show ?thesis
        by (intro exI [of _ "FifoConnection 0 (connection_state (fst w 0))"])
          (simp del: fifo_step.simps)
    qed
  next
    case (NetDrop v k)
    show ?thesis
    proof (cases "k < length (nonempty_channels net v)")
      case True
      let ?p = "nonempty_channels net v ! k"
      note queue = nonempty_nth [OF run True]
      obtain net' where "drop_message ?p net = Inr net'" "runs_fifo q0 (net', s) (fifo_pop ?p w, s)"
        by (rule drop_runs_fifo [OF run queue])
      moreover have "fst w = net_channels net" using run by (simp add: runs_fifo_def)
      ultimately show ?thesis using NetDrop True queue by (intro exI [of _ "FifoLose ?p"]) simp
    next
      case False
      with run NetDrop idle show ?thesis
        by (intro exI [of _ "FifoConnection 0 (connection_state (fst w 0))"])
          (simp del: fifo_step.simps)
    qed
  next
    case (NetConnection p b)
    with run show ?thesis
      by (intro exI [of _ "FifoConnection p b"])
        (auto simp: runs_fifo_def set_connection_state_def update_net_def net_ok_def fifo_ok_def)
  qed
qed

lemma net_run_runs_fifo:
  assumes "runs_fifo q0 (net, s) (w, s)"
  shows "\<exists>evs'. length evs' \<le> length evs \<and>
    (case rfold (net_step run) evs (net, s) of
       Inl e \<Rightarrow> rfold (fifo_step run) evs' (w, s) = Inl e
     | Inr x' \<Rightarrow> \<exists>w'. rfold (fifo_step run) evs' (w, s) = Inr w' \<and> runs_fifo q0 x' w')"
  using assms
proof (induction evs arbitrary: net s w)
  case Nil
  then show ?case by (intro exI [of _ "[]"]) simp
next
  case (Cons ev evs)
  from net_step_runs_fifo [OF Cons.prems, of run ev] obtain ev' where
    step: "case net_step run ev (net, s) of
      Inl e \<Rightarrow> fifo_step run ev' (w, s) = Inl e
    | Inr x' \<Rightarrow> \<exists>w'. fifo_step run ev' (w, s) = Inr w' \<and> runs_fifo q0 x' w'" ..
  show ?case
  proof (cases "net_step run ev (net, s)")
    case (Inl e)
    with step show ?thesis by (intro exI [of _ "[ev']"]) simp
  next
    case (Inr x1)
    obtain net1 s1 where x1: "x1 = (net1, s1)" by (cases x1)
    with Inr step obtain w1 where w1: "fifo_step run ev' (w, s) = Inr (w1, s1)" "runs_fifo q0 (net1, s1) (w1, s1)"
      by (auto simp: runs_fifo_def)
    from Cons.IH [OF w1(2)] obtain evs' where "length evs' \<le> length evs"
      "case rfold (net_step run) evs (net1, s1) of
         Inl e \<Rightarrow> rfold (fifo_step run) evs' (w1, s1) = Inl e
       | Inr x' \<Rightarrow> \<exists>w'. rfold (fifo_step run) evs' (w1, s1) = Inr w' \<and> runs_fifo q0 x' w'" by blast
    with Inr x1 w1(1) show ?thesis by (intro exI [of _ "ev' # evs'"]) (auto split: sum.splits)
  qed
qed

text \<open>The FIFO network raises no errors of its own.\<close>

lemma run_callbacks_error:
  assumes "run_callbacks (fifo_callback run) cbs m x = Inl e"
  shows "\<exists>cb m s. run cb m s = Inl e"
  using assms
proof (induction cbs arbitrary: x)
  case Nil
  then show ?case by (simp add: run_callbacks_def)
next
  case (Cons cb cbs)
  show ?case
  proof (cases "run cb m (snd x)")
    case (Inl e')
    with Cons.prems show ?thesis by (auto simp: run_callbacks_def fifo_callback_def)
  next
    case (Inr r)
    with Cons.prems Cons.IH show ?thesis
      by (cases r) (auto simp: run_callbacks_def fifo_callback_def)
  qed
qed

lemma fifo_run_error:
  assumes "rfold (fifo_step run) evs x = Inl e"
  shows "\<exists>cb m s. run cb m s = Inl e"
  using assms
proof (induction evs arbitrary: x)
  case (Cons ev evs)
  show ?case
  proof (cases "fifo_step run ev x")
    case (Inl e')
    with Cons.prems have "fifo_step run ev x = Inl e" by simp
    then show ?thesis
      by (cases x; cases ev)
        (auto simp: fifo_receive_def rbind_eq_Inl split: list.splits option.splits if_splits
          intro: run_callbacks_error)
  next
    case (Inr x')
    with Cons show ?thesis by simp
  qed
qed simp

section \<open>Properties\<close>

text \<open>
  C26: the simulated network is a network of FIFO channels. From a network whose vectors hold
  exactly its nonempty channels and whose channels all have another end, any sequence of sends,
  deliveries, losses and failing connections, with handlers that send what they like, raises no
  error but one that a handler raises, so none of the class's assertions fails; afterwards the
  vectors are right again, and the run is one of plain FIFO channels with no vectors at all: of every
  channel, what was taken off and what is still waiting is what was waiting before and what was sent,
  in order.
\<close>

theorem simulated_network_is_fifo:
  assumes "net_ok net"
  shows "case rfold (net_step run) evs (net, s) of
      Inl e \<Rightarrow> \<exists>cb m s. run cb m s = Inl e
    | Inr (net', s') \<Rightarrow> net_ok net' \<and>
        (\<exists>evs' tr. length evs' \<le> length evs \<and>
           rfold (fifo_step run) evs' ((net_channels net, []), s) = Inr ((net_channels net', tr), s') \<and>
           (\<forall>p. testing_queue (net_channels net p) @ sent_on p tr =
              taken_off p tr @ testing_queue (net_channels net' p)))"
proof -
  have "runs_fifo (\<lambda>p. testing_queue (net_channels net p)) (net, s) ((net_channels net, []), s)"
    using assms by (simp add: runs_fifo_def fifo_ok_def)
  from net_run_runs_fifo [OF this, of evs run] obtain evs' where
    len: "length evs' \<le> length evs" and run: "case rfold (net_step run) evs (net, s) of
       Inl e \<Rightarrow> rfold (fifo_step run) evs' ((net_channels net, []), s) = Inl e
     | Inr x' \<Rightarrow> \<exists>w'. rfold (fifo_step run) evs' ((net_channels net, []), s) = Inr w' \<and>
         runs_fifo (\<lambda>p. testing_queue (net_channels net p)) x' w'" by blast
  show ?thesis
  proof (cases "rfold (net_step run) evs (net, s)")
    case (Inl e)
    with run show ?thesis by (auto dest: fifo_run_error)
  next
    case (Inr x')
    with run len show ?thesis
      by (cases x') (force simp: runs_fifo_def fifo_ok_def)
  qed
qed

text \<open>
  Two servers: a message is delivered, the handler of the other end answers on its own channel, and
  the answer is lost.
\<close>

definition two_servers :: "(string, unit, unit) testing_net" where
  "two_servers =
     \<lparr>net_channels = (\<lambda>p. (new_channel_testing (if p = 0 then ''b'' else ''a'') 0)
        \<lparr>other_channel := Some (if p = 0 then 1 else 0), receive_callbacks := [()], testing_listening := True\<rparr>),
      nonempty_channels = (\<lambda>v. [])\<rparr>"

definition answer_ping :: "(string, unit, string list) testing_callback" where
  "answer_ping callback m s = Inr (if m = ''ping'' then [(1, ''pong'')] else [], True, s @ [m])"

theorem simulated_network_is_fifo_witness:
  "\<exists>net'. rfold (net_step answer_ping) [NetSend 0 ''ping'', NetDeliver 0 0, NetDrop 0 0] (two_servers, []) =
      Inr (net', [''ping'']) \<and> net_ok net'"
proof -
  have ok: "net_ok two_servers" by (simp add: net_ok_def two_servers_def new_channel_testing_def)
  obtain net' where run: "rfold (net_step answer_ping) [NetSend 0 ''ping'', NetDeliver 0 0, NetDrop 0 0]
      (two_servers, []) = Inr (net', [''ping''])"
    by (simp add: two_servers_def new_channel_testing_def testing_queue_send_def update_net_def Let_def
        MAX_MESSAGES_QUEUE_SIZE_def deliver_message_def recieve_message_def run_callbacks_def
        run_testing_callback_def answer_ping_def pop_queue_def check_empty_def drop_message_def)
  with simulated_network_is_fifo [OF ok, of answer_ping
      "[NetSend 0 ''ping'', NetDeliver 0 0, NetDrop 0 0]" "[]"]
  show ?thesis by (simp del: rfold.simps)
qed

end
