(* ===== verification/Randomness.thy ===== *)
theory Randomness
  imports SinglePaxosHandler
begin

text \<open>
  \<open>uni::random\<close> (src/src/random): \<open>rand_uniform\<close> over a generator. The generator \<open>std::mt19937\<close> and
  the distribution \<open>std::uniform_int_distribution\<close> are the standard library's and are arguments:
  \<open>mt19937\<close> makes a generator of a seed, \<open>dist low high\<close> draws from one. The lemmas show what the
  draws mean for the only user of random numbers, the proposer of an instance.
\<close>

section \<open>Random\<close>

text \<open>A distribution whose bounds are in the wrong order is undefined.\<close>

definition rand_uniform ::
  "(32 word \<Rightarrow> 32 word \<Rightarrow> 'g \<Rightarrow> 32 word \<times> 'g) \<Rightarrow> 32 word \<Rightarrow> 32 word \<Rightarrow> 'g \<Rightarrow> (32 word \<times> 'g) result" where
  "rand_uniform dist low high rng = (if high < low then Inl UndefinedBehaviour else Inr (dist low high rng))"

text \<open>\<open>RandomImpl\<close> seeds its generator with a number of \<open>random_device\<close>, \<open>RandomTesting\<close> with its argument.\<close>

definition RandomImpl :: "(32 word \<Rightarrow> 'g) \<Rightarrow> 32 word \<Rightarrow> 'g" where
  "RandomImpl mt19937 seeder = mt19937 seeder"

definition RandomTesting :: "(32 word \<Rightarrow> 'g) \<Rightarrow> 32 word \<Rightarrow> 'g" where
  "RandomTesting mt19937 seed = mt19937 seed"

text \<open>
  \<open>draw_number\<close> is what \<open>SinglePaxosHandler::next_proposal_number\<close> asks for, and \<open>dist_in_range\<close> what
  the standard says of the distribution.
\<close>

definition draw_number :: "(32 word \<Rightarrow> 32 word \<Rightarrow> 'g \<Rightarrow> 32 word \<times> 'g) \<Rightarrow> 'g \<Rightarrow> (32 word \<times> 'g) result" where
  "draw_number dist rng = rand_uniform dist 0 999 rng"

definition dist_in_range :: "(32 word \<Rightarrow> 32 word \<Rightarrow> 'g \<Rightarrow> 32 word \<times> 'g) \<Rightarrow> bool" where
  "dist_in_range dist \<longleftrightarrow>
     (\<forall>low high rng. low \<le> high \<longrightarrow> low \<le> fst (dist low high rng) \<and> fst (dist low high rng) \<le> high)"

lemma draw_number_simps: "draw_number dist rng = Inr (dist 0 999 rng)"
  by (simp add: draw_number_def rand_uniform_def word_less_nat_alt)

section \<open>Calls of an instance\<close>

text \<open>
  The methods of one \<open>SinglePaxosHandler\<close>, called in any order, with the channels, the log and the
  generator of its server.
\<close>

datatype handler_call =
    CallPropose paxos_log_entry
  | CallPrepare endpoint_id crnd_t
  | CallPromise crnd_t crnd_t paxos_log_entry
  | CallAccept crnd_t paxos_log_entry
  | CallLearn crnd_t paxos_log_entry

type_synonym ('w, 's, 'g) handler_world = "single_paxos_handler \<times> 'w connections \<times> ('s paxos_log \<times> 's) \<times> 'g"

fun call_handler ::
  "(paxos_message \<Rightarrow> 'w) \<Rightarrow> constants \<Rightarrow> (32 word \<Rightarrow> 32 word \<Rightarrow> 'g \<Rightarrow> 32 word \<times> 'g) \<Rightarrow> handler_call
   \<Rightarrow> ('w, 's, 'g) handler_world \<Rightarrow> ('w, 's, 'g) handler_world result" where
  "call_handler to_wire cs dist (CallPropose entry) (h, c, y, g) =
     rbind (draw_number dist g) (\<lambda>(draw, g').
     let (h', c') = single_propose to_wire draw entry (h, c) in Inr (h', c', y, g'))"
| "call_handler to_wire cs dist (CallPrepare endpoint rnd) (h, c, y, g) =
     (let (h', c') = single_prepare to_wire endpoint rnd (h, c) in Inr (h', c', y, g))"
| "call_handler to_wire cs dist (CallPromise rnd vrnd vval) (h, c, y, g) =
     rbind (single_promise to_wire cs rnd vrnd vval (h, c)) (\<lambda>(h', c'). Inr (h', c', y, g))"
| "call_handler to_wire cs dist (CallAccept rnd vval) (h, c, y, g) =
     (let (h', c') = single_accept to_wire rnd vval (h, c) in Inr (h', c', y, g))"
| "call_handler to_wire cs dist (CallLearn rnd vval) (h, c, y, g) =
     rbind (single_learn cs rnd vval (h, y)) (\<lambda>(h', y'). Inr (h', c, y', g))"

fun proposed_entry :: "handler_call \<Rightarrow> paxos_log_entry list" where
  "proposed_entry (CallPropose entry) = [entry]"
| "proposed_entry call = []"

abbreviation proposed_entries :: "handler_call list \<Rightarrow> paxos_log_entry list" where
  "proposed_entries calls \<equiv> concat (map proposed_entry calls)"

text \<open>What a proposer has used: numbers up to the latest, for entries it was given.\<close>

definition proposer_inv :: "nat \<Rightarrow> paxos_log_entry set \<Rightarrow> single_paxos_handler \<Rightarrow> bool" where
  "proposer_inv n es h \<longleftrightarrow>
     unat (latest (proposer_state h)) \<le> 999 * n \<and>
     (\<forall>r e. proposal_of h r = Some e \<longrightarrow> r \<le> latest (proposer_state h) \<and> e \<in> es) \<and>
     dom (promises_of h) = dom (proposal_of h)"

lemma call_handler_proposer:
  assumes "call_handler to_wire cs dist call (h, c, y, g) = Inr (h', c', y', g')"
    and "\<forall>entry. call \<noteq> CallPropose entry"
  shows "latest (proposer_state h') = latest (proposer_state h) \<and> proposal_of h' = proposal_of h \<and>
    dom (promises_of h') = dom (promises_of h)"
proof (cases call)
  case (CallPromise r vr vv)
  with assms show ?thesis
    by (auto simp: single_promise_def proposal_of_def promises_of_def Let_def split: option.splits if_splits)
next
  case (CallLearn r v)
  with assms show ?thesis
    by (auto simp: single_learn_def proposal_of_def promises_of_def Let_def rbind_eq_Inr
        split: option.splits if_splits prod.splits)
qed (use assms in \<open>auto simp: single_prepare_def single_accept_def proposal_of_def promises_of_def Let_def
    split: if_splits prod.splits\<close>)

lemma proposer_inv_call:
  assumes "call_handler to_wire cs dist call (h, c, y, g) = Inr (h', c', y', g')"
    and "dist_in_range dist" and "proposer_inv n es h"
    and "999 * (n + length (proposed_entry call)) < 2 ^ 32"
  shows "proposer_inv (n + length (proposed_entry call)) (es \<union> set (proposed_entry call)) h' \<and>
    latest (proposer_state h) \<le> latest (proposer_state h') \<and> proposal_of h \<subseteq>\<^sub>m proposal_of h'"
proof (cases "\<exists>entry. call = CallPropose entry")
  case False
  then have "proposed_entry call = []" by (cases call) simp_all
  with call_handler_proposer [OF assms(1)] False assms(3) show ?thesis by (auto simp: proposer_inv_def)
next
  case True
  then obtain entry where call: "call = CallPropose entry" ..
  obtain draw where draw: "fst (dist 0 999 g) = draw" "h' = fst (single_propose to_wire draw entry (h, c))"
    using assms(1) by (auto simp: call draw_number_simps split: prod.splits)
  have "(0::32 word) \<le> 999" by (rule word_zero_le)
  with assms(2) draw(1) have "draw \<le> 999" unfolding dist_in_range_def by blast
  then have d: "unat draw \<le> 999" by (simp add: word_le_nat_alt)
  let ?l = "latest (proposer_state h)"
  from assms(3) have l: "unat ?l \<le> 999 * n" by (simp add: proposer_inv_def)
  with d assms(4) have "unat ?l + unat draw < 2 ^ 32" by (simp add: call)
  then have sum: "unat (?l + draw) = unat ?l + unat draw" by (simp add: unat_word_ariths)
  have h': "latest (proposer_state h') = ?l + draw"
    "proposal_of h' = map_insert (?l + draw) entry (proposal_of h)"
    "promises_of h' = map_insert (?l + draw) [] (promises_of h)"
    by (simp_all add: draw(2) single_propose_def next_proposal_number_def Let_def proposal_of_def promises_of_def)
  have le: "?l \<le> ?l + draw" by (simp add: word_le_nat_alt sum)
  from assms(3) sum l d show ?thesis
    unfolding proposer_inv_def h'
    by (auto simp: call map_insert_apply le dom_def map_le_def split: if_splits intro: order_trans [OF _ le])
qed

lemma proposer_inv_calls:
  assumes "rfold (call_handler to_wire cs dist) calls (h, c, y, g) = Inr (h', c', y', g')"
    and "dist_in_range dist" and "proposer_inv n es h"
    and "999 * (n + length (proposed_entries calls)) < 2 ^ 32"
  shows "proposer_inv (n + length (proposed_entries calls)) (es \<union> set (proposed_entries calls)) h' \<and>
    latest (proposer_state h) \<le> latest (proposer_state h') \<and> proposal_of h \<subseteq>\<^sub>m proposal_of h'"
  using assms(1,3,4)
proof (induction calls arbitrary: h c y g n es)
  case Nil
  then show ?case by simp
next
  case (Cons call calls)
  from Cons.prems(1) obtain h1 c1 y1 g1 where
    first: "call_handler to_wire cs dist call (h, c, y, g) = Inr (h1, c1, y1, g1)" and
    rest: "rfold (call_handler to_wire cs dist) calls (h1, c1, y1, g1) = Inr (h', c', y', g')"
    by (auto simp: rbind_eq_Inr)
  have one: "proposer_inv (n + length (proposed_entry call)) (es \<union> set (proposed_entry call)) h1 \<and>
      latest (proposer_state h) \<le> latest (proposer_state h1) \<and> proposal_of h \<subseteq>\<^sub>m proposal_of h1"
    by (rule proposer_inv_call [OF first assms(2) Cons.prems(2)]) (use Cons.prems(3) in simp)
  with Cons.IH [OF rest, of "n + length (proposed_entry call)" "es \<union> set (proposed_entry call)"] Cons.prems(3)
  show ?case by (auto simp: Un_assoc add.assoc intro: order_trans map_le_trans)
qed

section \<open>Properties\<close>

text \<open>
  C35: proposal numbers. However the methods of an instance are called, and whatever the generator
  yields within the bounds it is asked for, the numbers of a proposer never go down, stay below 999
  times the number of proposals and so do not wrap before more than four million of them, and every
  number stands for one entry the proposer was given, for good. A number may be drawn twice, and may be 0, a
  round that no acceptor ever promises.
\<close>

theorem proposal_numbers_bounded:
  assumes "dist_in_range dist"
    and "rfold (call_handler to_wire cs dist) calls (SinglePaxosHandler i endpoints, c, y, g) = Inr (h, c1, y1, g1)"
    and "rfold (call_handler to_wire cs dist) later (h, c1, y1, g1) = Inr (h', c2, y2, g2)"
    and "length (proposed_entries (calls @ later)) \<le> 4299266"
  shows "latest (proposer_state h) \<le> latest (proposer_state h') \<and>
    unat (latest (proposer_state h')) \<le> 999 * length (proposed_entries (calls @ later)) \<and>
    (\<forall>r e. proposal (proposer_state h) r = Some e \<longrightarrow>
       proposal (proposer_state h') r = Some e \<and> r \<le> latest (proposer_state h) \<and> e \<in> set (proposed_entries calls)) \<and>
    (\<forall>endpoint z. single_prepare to_wire endpoint 0 z = z)"
proof -
  have start: "proposer_inv 0 {} (SinglePaxosHandler i endpoints)"
    by (auto simp: proposer_inv_def dom_def) (simp add: SinglePaxosHandler_def PaxosProposerState_def)
  have bound: "999 * (0 + length (proposed_entries calls)) < 2 ^ 32"
    "999 * (length (proposed_entries calls) + length (proposed_entries later)) < 2 ^ 32"
    using assms(4) by simp_all
  from proposer_inv_calls [OF assms(2,1) start bound(1)]
  have h: "proposer_inv (length (proposed_entries calls)) (set (proposed_entries calls)) h" by simp
  from proposer_inv_calls [OF assms(3,1) h bound(2)] h show ?thesis
    by (auto simp: proposer_inv_def proposal_of_def map_le_def dom_def single_prepare_def word_less_nat_alt
        split: prod.splits)
qed

theorem proposal_numbers_bounded_witness:
  "\<exists>h c2 g2. rfold (call_handler (\<lambda>w. w) (Constants 1 0 0 0 0 0 0) (\<lambda>low high g. (if g then low else high, \<not> g)))
      [CallPropose EntryContentNotSet, CallPropose EntryContentNotSet, CallPrepare (EndpointId ''a'' 0) 999]
      (SinglePaxosHandler 0 [], \<lparr>channels = []\<rparr>, (PaxosLog, ()), False) = Inr (h, c2, (PaxosLog, ()), g2) \<and>
    latest (proposer_state h) = 999 \<and> unat (latest (proposer_state h)) \<le> 1998"
proof -
  let ?dist = "\<lambda>(low::32 word) high g. (if g then low else high, \<not> g)"
  let ?calls = "[CallPropose EntryContentNotSet, CallPropose EntryContentNotSet, CallPrepare (EndpointId ''a'' 0) 999]"
  have dist: "dist_in_range ?dist" by (auto simp: dist_in_range_def)
  obtain h c2 and g2 :: bool where run: "rfold (call_handler (\<lambda>w. w) (Constants 1 0 0 0 0 0 0) ?dist) ?calls
      (SinglePaxosHandler 0 [], \<lparr>channels = []\<rparr>, (PaxosLog, ()), False) = Inr (h, c2, (PaxosLog, ()), g2)"
      "latest (proposer_state h) = 999"
    by (simp add: draw_number_simps single_propose_def next_proposal_number_def SinglePaxosHandler_def
        PaxosProposerState_def PaxosAcceptorState_def single_prepare_def send_def has_channel_def Let_def) blast
  from proposal_numbers_bounded [OF dist run(1), of "[]" h c2 "(PaxosLog, ())" g2] run show ?thesis by auto
qed

end
