(* ===== verification/Contexts.thy ===== *)
theory Contexts
  imports Slave DataMaster Randomness SimulatedClock
begin

text \<open>
  How the servers are put together: the contexts of a master, \<open>ProductionContext\<close> and \<open>TestingContext\<close>
  (src/src/master/impl and src/src/master/testing), the tablets of a simulated slave
  (src/src/slave/testing/TestingContext.cc), what the deleter of a real slave's tablet does
  (src/src/slave/impl/ProductionContext.cc), and the log levels (src/src/logging). The lemmas show
  that a simulated master handles a message as a real one does.
\<close>

section \<open>Contexts of a master\<close>

definition MasterProductionContext ::
  "(message_wrapper \<Rightarrow> 'w) \<Rightarrow> (32 word \<Rightarrow> 'r) \<Rightarrow> 32 word \<Rightarrow> 'w connections \<Rightarrow> 'w connections \<Rightarrow> 'w connections
   \<Rightarrow> endpoint_id list \<Rightarrow> endpoint_id list \<Rightarrow> ('w, 'r) data_master" where
  "MasterProductionContext to_wire mt19937 seeder client_connections slave_connections connections
     master_endpoints slave_endpoints =
     DataMaster to_wire (RandomImpl mt19937 seeder) client_connections slave_connections connections
       slave_endpoints master_endpoints"

text \<open>
  A simulated master starts with no connections, on a clock of its own. Its synchroniser is the one
  timer it starts.
\<close>

datatype master_timer = MasterSync

record ('w, 'r) master_testing_context =
  testing_ip_string :: string
  testing_clock :: "master_timer timer_job clock_testing"
  testing_master :: "('w, 'r) data_master"

definition MasterTestingContext ::
  "(message_wrapper \<Rightarrow> 'w) \<Rightarrow> (32 word \<Rightarrow> 'r) \<Rightarrow> constants \<Rightarrow> endpoint_id list \<Rightarrow> endpoint_id list \<Rightarrow> string
   \<Rightarrow> 32 word \<Rightarrow> ('w, 'r) master_testing_context result" where
  "MasterTestingContext to_wire mt19937 cs master_endpoints slave_endpoints ip random_seed =
     rbind (LogSyncer cs MasterSync testing_schedule_repeated ClockTesting) (\<lambda>clock.
     Inr \<lparr>testing_ip_string = ip, testing_clock = clock,
          testing_master = DataMaster to_wire (RandomTesting mt19937 random_seed) \<lparr>channels = []\<rparr>
            \<lparr>channels = []\<rparr> \<lparr>channels = []\<rparr> slave_endpoints master_endpoints\<rparr>)"

text \<open>The handler does not look at the scheduler, and leaves it alone.\<close>

lemma master_handle_scheduler:
  "master_handle to_wire parse rand cs m (dm\<lparr>dm_scheduler := a\<rparr>) =
     map_option (\<lambda>r. rbind r (\<lambda>dm'. Inr (dm'\<lparr>dm_scheduler := a\<rparr>))) (master_handle to_wire parse rand cs m dm)"
  by (auto simp: master_handle_def master_with_node_def Let_def rbind_assoc option.map_comp comp_def
      split: message_wrapper.splits client_message.splits master_message.splits slave_message.splits prod.splits
      intro!: option.map_cong arg_cong2 [where f = rbind])

text \<open>
  A simulated master, whose scheduler handles a message as it is queued, does what a real one does
  whose server thread is idle: the message is queued, posted, handled and popped.
\<close>

lemma testing_scheduler_agrees:
  assumes "dm_scheduler dm = AsyncSchedulerImpl"
  shows "master_run to_wire parse rand cs [MasterQueueMessage m, MasterHandleMessage] dm =
    testing_queue_message (master_handle to_wire parse rand cs) m dm"
proof -
  let ?a = "queue_message m AsyncSchedulerImpl"
  have q: "posted ?a = [m]" "message_handled ?a = AsyncSchedulerImpl"
    by (simp_all add: queue_message_def message_handled_def schedule_async_def AsyncSchedulerImpl_def)
  have same: "dm'\<lparr>dm_scheduler := AsyncSchedulerImpl\<rparr> = dm'" if "dm_scheduler dm' = AsyncSchedulerImpl" for dm' :: "('a, 'b) data_master"
    using that by (cases dm') simp
  have kept: "dm_scheduler dm' = AsyncSchedulerImpl" if "master_handle to_wire parse rand cs m dm = Some (Inr dm')" for dm'
  proof -
    from that have "master_handle to_wire parse rand cs m (dm\<lparr>dm_scheduler := AsyncSchedulerImpl\<rparr>) = Some (Inr dm')"
      using same [OF assms] by simp
    then have "dm'\<lparr>dm_scheduler := AsyncSchedulerImpl\<rparr> = dm'" using that by (simp add: master_handle_scheduler)
    from arg_cong [OF this, of dm_scheduler] show ?thesis by simp
  qed
  have run: "master_run to_wire parse rand cs [MasterQueueMessage m, MasterHandleMessage] dm =
      map_option (\<lambda>r. rbind r (\<lambda>dm'. Inr (dm'\<lparr>dm_scheduler := AsyncSchedulerImpl\<rparr>)))
        (master_handle to_wire parse rand cs m dm)"
    by (cases "master_handle to_wire parse rand cs m dm")
      (auto simp: assms q master_handle_scheduler rbind_assoc split: sum.splits)
  show ?thesis
  proof (cases "master_handle to_wire parse rand cs m dm")
    case (Some r)
    then show ?thesis
      using kept same unfolding run testing_queue_message_def by (cases r) simp_all
  qed (simp only: run testing_queue_message_def, simp)
qed

section \<open>Tablets of a simulated slave\<close>

text \<open>
  The provider of a simulated slave. It places no thread; each tablet gets a generator of its own,
  seeded with the next number of the generator of the slave, \<open>_random.rng()()\<close>, which is the
  provider's state here.
\<close>

definition testing_provider ::
  "(32 word \<Rightarrow> 'r) \<Rightarrow> ('g \<Rightarrow> 32 word \<times> 'g) \<Rightarrow> 'w connections \<Rightarrow> 'w connections \<Rightarrow> ('w, 'r, 'g) tp_provider" where
  "testing_provider mt19937 next_number client_connections slave_connections tid rng =
     (let (seed, rng') = next_number rng
      in Inr (TabletParticipant (RandomTesting mt19937 seed) slave_connections client_connections tid, rng'))"

text \<open>
  The tablets of a simulated slave are those of a real one whose generators start as the seeds say:
  only new ranges draw a number.
\<close>

lemma production_tablets_cong:
  "\<forall>r\<in>set ranges. r \<notin> fst ` set (fst x) \<longrightarrow> random r = random' r \<Longrightarrow>
   tp_key_space_change (production_provider random cc sc) ranges x = tp_key_space_change (production_provider random' cc sc) ranges x"
  unfolding tp_key_space_change_def
proof (induction ranges arbitrary: x)
  case (Cons r ranges)
  have "add_tablet (production_provider random cc sc) r x = add_tablet (production_provider random' cc sc) r x"
    using Cons.prems by (auto simp: add_tablet_def production_provider_def split: prod.split)
  moreover have "rfold (add_tablet (production_provider random cc sc)) ranges x' = rfold (add_tablet (production_provider random' cc sc)) ranges x'"
    if "add_tablet (production_provider random' cc sc) r x = Inr x'" for x'
  proof (rule Cons.IH, intro ballI impI)
    fix q assume q: "q \<in> set ranges" "q \<notin> fst ` set (fst x')"
    have "fst ` set (fst x) \<subseteq> fst ` set (fst x')"
      using that by (auto simp: add_tablet_def rbind_eq_Inr split: prod.splits if_splits)
    then have "q \<notin> fst ` set (fst x)" using q(2) by (rule contra_subsetD)
    then show "random q = random' q" using bspec [OF Cons.prems, of q] q(1) by simp
  qed
  ultimately show ?case by (cases "add_tablet (production_provider random' cc sc) r x") auto
qed simp

lemma testing_tablets:
  assumes "threads \<noteq> []"
  shows "\<exists>random tps' rng' threads'.
    tp_key_space_change (testing_provider mt19937 next_number cc sc) ranges (tps, rng) = Inr (tps', rng') \<and>
    tp_key_space_change (production_provider random cc sc) ranges (tps, threads) = Inr (tps', threads')"
  using assms
proof (induction ranges arbitrary: tps rng threads)
  case (Cons r ranges)
  show ?case
  proof (cases "r \<in> fst ` set tps")
    case True
    with Cons.IH [OF Cons.prems, of tps rng] show ?thesis by (simp add: tp_key_space_change_def add_tablet_def)
  next
    case False
    obtain seed rng1 where n: "next_number rng = (seed, rng1)" by fastforce
    obtain i threads1 where p: "place_participant threads = Inr (i, threads1)"
      using place_participant_ok [OF Cons.prems] by (auto simp: is_ok_iff)
    let ?tps = "tps @ [(r, TabletParticipant (RandomTesting mt19937 seed) sc cc r)]"
    have "threads1 \<noteq> []" using place_participant_length [OF p] by auto
    from Cons.IH [OF this, of ?tps rng1] obtain random tps' rng' threads' where
      IH: "tp_key_space_change (testing_provider mt19937 next_number cc sc) ranges (?tps, rng1) = Inr (tps', rng')"
        "tp_key_space_change (production_provider random cc sc) ranges (?tps, threads1) = Inr (tps', threads')" by blast
    let ?random = "random(r := RandomTesting mt19937 seed)"
    have "tp_key_space_change (production_provider ?random cc sc) ranges (?tps, threads1) = Inr (tps', threads')"
      using IH(2) by (subst production_tablets_cong [of _ _ _ random]) auto
    moreover have "testing_provider mt19937 next_number cc sc r rng =
        Inr (TabletParticipant (RandomTesting mt19937 seed) sc cc r, rng1)"
      "production_provider ?random cc sc r threads =
        Inr (TabletParticipant (RandomTesting mt19937 seed) sc cc r, threads1)"
      by (simp_all add: testing_provider_def production_provider_def n p)
    ultimately show ?thesis
      using IH(1) False by (intro exI [of _ ?random]) (simp add: tp_key_space_change_def add_tablet_def del: fun_upd_apply)
  qed
qed (simp add: tp_key_space_change_def)

section \<open>The deleter of a tablet\<close>

text \<open>
  The deleter captures \<open>min_index\<close>, a local variable of the provider that has returned, by
  reference: taking the tablet off its thread reads a variable that is gone. No server deletes a
  tablet.
\<close>

definition tablet_deleter :: "32 word list \<Rightarrow> 32 word list result" where
  "tablet_deleter participants_per_thread = Inl UndefinedBehaviour"

section \<open>Logging\<close>

datatype level = FATAL | ERROR | WARN | INFO | DEBUG | TRACE1 | TRACE2

fun level_number :: "level \<Rightarrow> nat" where
  "level_number FATAL = 0"
| "level_number ERROR = 1"
| "level_number WARN = 2"
| "level_number INFO = 3"
| "level_number DEBUG = 4"
| "level_number TRACE1 = 5"
| "level_number TRACE2 = 6"

definition LevelNames :: "string list" where
  "LevelNames = [''FATAL'', ''ERROR'', ''WARN'', ''INFO'', ''DEBUG'', ''TRACE1'', ''TRACE2'']"

text \<open>The static variable of \<open>get_log_level\<close> starts as zero; \<open>main\<close> sets it.\<close>

definition initial_log_level :: level where
  "initial_log_level = FATAL"

text \<open>The macro \<open>LOG\<close>, with the lines printed so far.\<close>

definition log_message :: "level \<Rightarrow> string \<Rightarrow> level \<Rightarrow> string list \<Rightarrow> string list" where
  "log_message l message log_level out =
     (if level_number l \<le> level_number log_level
      then out @ [''Log '' @ (LevelNames ! level_number l) @ '': '' @ message] else out)"

text \<open>Raising the level only adds lines, and every level has its name.\<close>

lemma log_message_lines:
  "level_number l1 \<le> level_number l2 \<Longrightarrow>
   filter (\<lambda>(l, m). level_number l \<le> level_number l1) (filter (\<lambda>(l, m). level_number l \<le> level_number l2) ms) =
   filter (\<lambda>(l, m). level_number l \<le> level_number l1) ms"
  "fold (\<lambda>(l, m). log_message l m log_level) ms out =
   out @ map (\<lambda>(l, m). ''Log '' @ (LevelNames ! level_number l) @ '': '' @ m)
     (filter (\<lambda>(l, m). level_number l \<le> level_number log_level) ms)"
  "level_number l < length LevelNames"
proof -
  show "level_number l1 \<le> level_number l2 \<Longrightarrow>
     filter (\<lambda>(l, m). level_number l \<le> level_number l1) (filter (\<lambda>(l, m). level_number l \<le> level_number l2) ms) =
     filter (\<lambda>(l, m). level_number l \<le> level_number l1) ms"
    by (induction ms) auto
  show "fold (\<lambda>(l, m). log_message l m log_level) ms out =
     out @ map (\<lambda>(l, m). ''Log '' @ (LevelNames ! level_number l) @ '': '' @ m)
       (filter (\<lambda>(l, m). level_number l \<le> level_number log_level) ms)"
    by (induction ms arbitrary: out) (auto simp: log_message_def)
  show "level_number l < length LevelNames"
    by (cases l) (simp_all add: LevelNames_def)
qed

end
