(* ===== verification/Spec2Isabelle.thy ===== *)
theory Spec2Isabelle
  imports PaxosProgress TabletGroup WholeSystem ChannelImpl ProposerQueue TestClient Printing
    WellFormed SimulatedClock ChannelTesting Contexts
begin

text \<open>
  UniversalDB, a distributed key-value store in C++. Clients ask a group of masters which group of
  slaves has a key and send reads and writes to the slaves. The masters, every group of slaves and
  every tablet (a range of keys of a table, served by the slaves of a group) each replicate a log
  with MultiPaxos; callbacks on the entries of the contiguous prefix of a log change the state of
  its server. Servers exchange messages through bounded channels, work is deferred to queues of
  tasks and to timers, and a synchroniser asks other servers for missing entries.

  The parts, bottom up, with the files of src/src they model:

  \<^item> UniPrelude (assert): results (an exception is \<open>Inl (UniversalException message)\<close>, undefined
    behaviour of C++ is \<open>Inl UndefinedBehaviour\<close>), loops over machine words, lemma collections.
    UniTypes (net/EndpointId, server/SlaveGroupId, constants, proto): identifiers, constants and the
    messages. A \<open>uint32\<close> or \<open>uint64\<close> keeps its width.
  \<^item> Connections (net/Connections, net/SelfChannel) and ChannelImpl (net/impl/ChannelImpl): bounded
    queues per endpoint and the framing of messages on a stream. C20 (framing and reading, however
    the stream is cut) and C21 (the queue to a socket is the channel the servers use, as long as the
    socket takes at once what is written: the code's buffers are gone afterwards). ConnectionHandler (server/ConnectionHandler): connections come and
    go; C19 says what the accept loop serves and how it ends. Channel (net/Channel): the interface,
    which the channel to oneself implements; ChannelTesting (net/testing): a simulated network of
    queues that are delivered one message at a time. C26: it is a FIFO network.
  \<^item> AsyncQueue (async): schedulers, task queues, timers; the locale \<open>single_flight\<close> is what the
    three queues share. The class AsyncQueue has no lock: C8 takes its operations apart into the accesses
    of two threads. A timer fires once it has expired, perhaps late, expired ones in any order
    (\<open>timer_fires\<close>). SimulatedClock (async/testing): the clock on which the same queues run in a
    simulation; C23 says that what it runs the timers of the real scheduler may run.
  \<^item> Randomness (random): the draw of a number in a range and the
    generators; C35, the proposal numbers it gives.
  \<^item> PaxosLog (paxos/PaxosLog): holes, free indices, callbacks in order. C1 to C3: the order of
    arrival does not matter, replicas never diverge. GuardedLog: the locale \<open>guarded_client\<close>, the
    contract of components that check an entry before they propose it.
  \<^item> PaxosConfigManager (paxos/PaxosConfigManager): which servers decide an index. C4.
  \<^item> SinglePaxosHandler, MultiPaxosHandler (paxos): the roles of an instance and the map of instances.
    PaxosInstance: one instance among many servers. PaxosGroup: a group of servers that share a log,
    abstractly; PaxosSystem refines it with whole Paxos nodes, PaxosAgreement has C7, C9, C11 and C39
    (the derived states never diverge). C11 shows that with three servers the logs can disagree. PaxosProgress: C25, a proposal can always
    get through: the phases of a round, each on a snapshot of one index (\<open>index_snapshot\<close>).
  \<^item> LogSyncer, HeartbeatTracker (server; with FailureDetector): C12 to C14.
  \<^item> KVStore, KeySpaceRange (slave/KVStore, server/KeySpaceRange, utils/pbutil): a multi-version
    store with snapshot reads and ranges of keys. C22, C24; the locale \<open>access_store\<close>.
  \<^item> ClientRequestHandler (slave/ClientRequestHandler): reads and writes through a log. The locale
    \<open>request_log\<close> is what any log with its two callbacks guarantees. C27 to C31.
  \<^item> PaxosServer: what tablets, slaves and masters share, and the locale \<open>log_follower\<close>: if every
    entry keeps a relation between a live state and the replay of its log, so does every message.
    It is interpreted for the three kinds of servers.
  \<^item> TabletParticipant (slave/TabletParticipant, slave/IncomingMessageHandler): C32, C33.
    TabletParticipantManager (and slave/impl/ProductionContext): routing, new tablets and their
    placement on threads.
  \<^item> SlaveKeySpaceManager, Slave (slave/SlaveKeySpaceManager, SlaveConfigManager,
    LocalTransactionManager, SlaveIncomingMessageHandler, functors): a slave with its tablets.
    C34. Contexts (master/impl, master/testing, slave/testing, logging): how a master is put together,
    for production and for a simulation, the tablets of a simulated slave, and which messages are
    logged. WellFormed: the data of a slave is
    well formed (C15); the locale \<open>node_types\<close> proves it for any server from what its callbacks keep.
  \<^item> KeySpaceManager, DataMaster (master): the assignment of keys to groups. C36 to C38.
  \<^item> ServerGroup, GroupMember, MasterGroup, SlaveGroup, TabletGroup: whole servers connected to each
    other. The locale \<open>server_group\<close> is the contract between a kind of server and PaxosGroup (what a
    step of a server does to its view: its instances, log, queue and channels); GroupMember
    proves what the shared operations do to the view; the other three discharge the contract for
    masters, for the slaves' own log, and for the tablets of a range. C6 (masters agree), C10 (slaves
    agree on the key spaces), C17 (the replicas of a range agree).
  \<^item> LogGrowth, MasterSteps, SlaveSteps: what any step of a server does to its log (it stays, or grows
    and the callbacks of the new entries run) and to its channels to the servers of the other kind.
  \<^item> GroupHistory: what a prefix of the masters' log says of the group of slaves. WholeSystem: whole
    masters and whole slaves connected to each other, with clients outside. C16: an answer given to a
    client can be relied on. Its proof shows that every step of the system is a step of each group in
    which masters tell slaves only key spaces selected in a log, and slaves tell masters only numbers
    of installed ones; with what the groups guarantee of such runs (\<open>masters_facts\<close>,
    \<open>slaves_facts\<close>), what is committed was installed.
  \<^item> ProposerQueue (paxos/ProposerQueue): C40, the invariant its header documents and how the code
    leaves it.
  \<^item> Startup (slave.cc, master.cc, utils.h): the programs of the servers over a network of listening
    acceptors; C5, the start that notes.md describes connects everybody if its arguments are
    addresses, and ends with an exception if they are host names. TestClient (testclient.cc):
    splitting a line, and C18, what happens to a second client. Printing: debug strings,
    \<open>indent\<close> (utils/stringutils) and hash functions.

  How the model corresponds to the code. A class is a record of the members its operations change;
  references between objects become components of a common state: a \<open>paxos_node\<close> has the Paxos
  handlers, the connections, the log and the state the log's callbacks reach (\<open>node_derived\<close>); a
  \<open>request_state\<close> adds what tasks reach. An operation is a function from the state to a result. A
  shared counter captured by a closure is a cell of a list. Lambdas are partial applications of the
  functions that model them. A \<open>std::unordered_map\<close> that is iterated is an association list with
  distinct keys in the order of iteration; others are maps. A server is a step function on events
  (a message is queued, the oldest one is handled, a timer fires, a tablet takes a step, a
  connection is accepted or closed); theorems
  about a server hold after every list of events.

  Threads. A master or slave has two: the server thread runs the handlers of messages, the network
  thread timers (tasks of the queues, the synchroniser, heartbeats), connections and the close callbacks.
  AsyncSchedulerImpl and Connections have locks; the log, the Paxos instances, the managers of key
  spaces, the heartbeat tracker and the task queues have none, although both threads use them. A
  handler that overlaps work of the network thread is an event of its own (\<open>MasterOverlap\<close>,
  \<open>SlaveOverlap\<close>): a data race, undefined behaviour in C++. Theorems that say what holds after
  events that ended well therefore speak of runs in which the two threads take turns, as they do in a
  simulated server, which has one thread. A tablet runs on one thread; other tablets and the slave only
  queue messages for it. C8 looks into the overlap for the class AsyncQueue, one access at a time.

  Parameters. \<open>to_wire\<close> and \<open>parse\<close> are \<open>SerializeAsString\<close> and \<open>ParseFromString\<close> of the generated
  protocol-buffer code, arbitrary functions; theorems about groups of servers assume that parsing
  undoes serialising (the locale \<open>wire_format\<close>), in PaxosSystem a message is its own encoding.
  \<open>rand\<close> is the random engine, any function on its state; Randomness says which number the code
  makes of what the engine draws.
  \<open>valid\<close> says which strings boost reads as an address, and boost's hash functions and the
  \<open>DebugString\<close> of messages are functions of which nothing is assumed.

  Bounds. The indices of the logs are 64 bit and those on the wire 32 bit, so theorems about whole
  groups restrict themselves to indices below \<open>2 ^ 32\<close> (\<open>fits_index\<close>),
  and, because of C11, to groups of at most \<open>num_slave_servers\<close> servers whose majority
  is the whole group; the number of heartbeat periods is below \<open>2 ^ 32\<close> in C14. A
  channel holds 10000 messages as in net/constants.h. There is no fuel: the one loop that may not
  end (the inclusive range of a sync request) is a partial function with value \<open>None\<close>,
  and handlers that reach it return an option. Configurations of the examples are small, the
  theorems are not.

  A slave's callbacks read the endpoints of its connections to other slaves, which are part of the
  node and not of the state of the callbacks: \<open>sd_slaves\<close> has the same endpoints (part of C34), so a
  new tablet is configured with the slaves connected at that moment.

  Not modelled: the socket calls of \<open>ChannelImpl\<close> (pure I/O; what arrives and what is
  accepted are events), io contexts (their threads are the interleaving of events), overlapping work
  of two threads in finer steps than those of C8, what the engine of \<open>std::mt19937\<close>
  draws, the tests (src/testing), and generated code. Of the simulated slave (slave/testing) only
  the provider of its tablets is: it draws the seeds of the tablets from the generator the slave
  also proposes with, so that its callbacks would change the state of the server. A callback that
  calls its own queue again (ProposerQueue) is not modelled either.
\<close>

end
